(* ===== verification/Nav2_Prelude.thy ===== *)
theory Nav2_Prelude
  imports Complex_Main "HOL-Library.Word"
begin

text \<open>
  Shared vocabulary of the Nav2 development: the machine integers of the C++ sources, the
  collections of simplification facts the component theories fill, reachability of a
  labelled transition system with the interface every state-machine component implements
  (\<open>safe_system\<close>), and the list facts used by the array code (\<open>memset\<close>,
  \<open>memcpy\<close>, row-major windows).
\<close>

section \<open>Types and fact collections\<close>

type_synonym u8 = "8 word"
type_synonym u32 = "32 word"

named_theorems bt_simps \<open>one-step equations of the behaviour tree nodes\<close>
named_theorems cost_simps \<open>unfolding of costmap accessors and cost constants\<close>
named_theorems server_simps \<open>equations of the action server operations\<close>
named_theorems life_simps \<open>equations of the lifecycle manager operations\<close>

section \<open>Reachability and invariants\<close>

text \<open>
  \<open>reach init step s\<close>: state \<open>s\<close> can be reached from an initial state by finitely many
  labelled steps. The components instantiate \<open>step\<close> with their own step relation.
\<close>

inductive reach :: "('s \<Rightarrow> bool) \<Rightarrow> ('s \<Rightarrow> 'e \<Rightarrow> 's \<Rightarrow> bool) \<Rightarrow> 's \<Rightarrow> bool"
  for init :: "'s \<Rightarrow> bool" and step :: "'s \<Rightarrow> 'e \<Rightarrow> 's \<Rightarrow> bool" where
  reach_init: "init s \<Longrightarrow> reach init step s"
| reach_step: "reach init step s \<Longrightarrow> step s e t \<Longrightarrow> reach init step t"

text \<open>
  The contract of a component with state: an invariant that holds initially and that every
  step keeps. What follows from it (the invariant in every reachable state, and along
  every finite run) is proved once here and inherited by each interpretation.
\<close>

inductive run_of :: "('s \<Rightarrow> 'e \<Rightarrow> 's \<Rightarrow> bool) \<Rightarrow> 's \<Rightarrow> 'e list \<Rightarrow> 's \<Rightarrow> bool"
  for step :: "'s \<Rightarrow> 'e \<Rightarrow> 's \<Rightarrow> bool" where
  run_nil: "run_of step s [] s"
| run_cons: "step s e t \<Longrightarrow> run_of step t es u \<Longrightarrow> run_of step s (e # es) u"

inductive_cases run_of_nilE: "run_of step s [] t"
inductive_cases run_of_consE: "run_of step s (e # es) t"

lemma run_of_append:
  "run_of step s es t \<Longrightarrow> run_of step t fs u \<Longrightarrow> run_of step s (es @ fs) u"
  by (induction rule: run_of.induct) (auto intro: run_of.intros)

lemma reach_run: "reach init step s \<Longrightarrow> run_of step s es t \<Longrightarrow> reach init step t"
  by (rotate_tac, induction rule: run_of.induct) (auto intro: reach_step)

locale safe_system =
  fixes init :: "'s \<Rightarrow> bool"
    and step :: "'s \<Rightarrow> 'e \<Rightarrow> 's \<Rightarrow> bool"
    and inv :: "'s \<Rightarrow> bool"
  assumes inv_init: "init s \<Longrightarrow> inv s"
    and inv_step: "inv s \<Longrightarrow> step s e t \<Longrightarrow> inv t"
begin

lemma inv_reach: "reach init step s \<Longrightarrow> inv s"
  by (induction rule: reach.induct) (auto intro: inv_init inv_step)

lemma inv_run: "run_of step s es t \<Longrightarrow> inv s \<Longrightarrow> inv t"
  by (induction rule: run_of.induct) (auto intro: inv_step)

end

section \<open>Lists\<close>

lemma upt_Suc_Cons: "[i..<Suc (i + k)] = i # [Suc i..<Suc i + k]"
  by (subst upt_conv_Cons) simp_all

section \<open>Arrays\<close>

text \<open>
  A C array is a list; an access outside it is \<open>None\<close>. \<open>mem_write\<close> is \<open>memset\<close> and the storing half of
  \<open>memcpy\<close>, \<open>mem_read\<close> the loading half; a transfer of zero bytes touches no memory.
\<close>

definition mem_read :: "nat \<Rightarrow> nat \<Rightarrow> 'a list \<Rightarrow> 'a list option" where
  "mem_read off n xs =
    (if n = 0 \<or> off + n \<le> length xs then Some (take n (drop off xs)) else None)"

definition mem_write :: "nat \<Rightarrow> 'a list \<Rightarrow> 'a list \<Rightarrow> 'a list option" where
  "mem_write off ys xs =
    (if ys = [] then Some xs
     else if off + length ys \<le> length xs
     then Some (take off xs @ ys @ drop (off + length ys) xs) else None)"

lemma mem_write_Some:
  assumes "ys = [] \<or> off + length ys \<le> length xs"
  obtains zs where "mem_write off ys xs = Some zs" "length zs = length xs"
    "\<And>k. k < length xs \<Longrightarrow> zs ! k = (if off \<le> k \<and> k < off + length ys then ys ! (k - off) else xs ! k)"
proof (cases "ys = []")
  case True
  then show thesis by (intro that [of xs]) (auto simp: mem_write_def)
next
  case False
  let ?zs = "take off xs @ ys @ drop (off + length ys) xs"
  show thesis
    using assms False by (intro that [of ?zs]) (auto simp: mem_write_def nth_append)
qed

text \<open>Row-major indices: a run inside one row contains exactly the cells of that row.\<close>

lemma row_index_less: "(x::nat) < w \<Longrightarrow> y < h \<Longrightarrow> y * w + x < w * h"
proof -
  assume "x < w" "y < h"
  then have "y * w + x < (y + 1) * w" by simp
  also have "\<dots> \<le> h * w" using \<open>y < h\<close> by (intro mult_le_mono1) simp
  finally show ?thesis by (simp add: mult.commute)
qed

lemma row_index_eq:
  assumes "(x::nat) < w" "x' < w"
  shows "y * w + x = y' * w + x' \<longleftrightarrow> y = y' \<and> x = x'"
proof
  assume eq: "y * w + x = y' * w + x'"
  have "y = (y * w + x) div w" "y' = (y' * w + x') div w" using assms by auto
  then have "y = y'" using eq by presburger
  then show "y = y' \<and> x = x'" using eq by simp
qed simp

lemma row_run_iff:
  assumes "(x::nat) < w" "x0 + n \<le> w"
  shows "y0 * w + x0 \<le> y * w + x \<and> y * w + x < y0 * w + x0 + n \<longleftrightarrow>
    y = y0 \<and> x0 \<le> x \<and> x < x0 + n"
proof (cases "y = y0")
  case False
  then consider "y + 1 \<le> y0" | "y0 + 1 \<le> y" by linarith
  then show ?thesis
  proof cases
    case 1
    then have "(y + 1) * w \<le> y0 * w" by (rule mult_le_mono1)
    then show ?thesis using assms False by auto
  next
    case 2
    then have "(y0 + 1) * w \<le> y * w" by (rule mult_le_mono1)
    then show ?thesis using assms False by auto
  qed
qed auto

section \<open>Unsigned 32 bit arithmetic without wrap-around\<close>

lemma unat_mult_add_u32:
  fixes a b c :: u32
  assumes "unat b * unat c + unat a < 2 ^ 32"
  shows "unat (b * c + a) = unat b * unat c + unat a"
proof -
  have "unat (b * c) = unat b * unat c"
    using assms by (simp add: unat_word_ariths)
  then show ?thesis using assms by (simp add: unat_word_ariths)
qed

lemma unat_less_u32: "unat (w :: u32) < 2 ^ 32"
  using unsigned_less [of w] by simp

lemma unat_diff_u32: "(b::u32) \<le> a \<Longrightarrow> unat (a - b) = unat a - unat b"
  by (rule unat_sub)

end
