(* ===== verification/BT_Core.thy ===== *)
theory BT_Core
  imports Nav2_Prelude
begin

text \<open>
  The part of the BehaviorTree.CPP framework the Nav2 nodes call. The framework is a library
  outside the repository, so its calls are the fields of a record that every node operation
  takes as an argument: ticking child \<open>i\<close>, halting one child, halting or resetting all of
  them, the base class's own \<open>halt\<close>, reading a child's status, reading and setting the
  node's own status, and the framework's test whether a status counts as active. They act on an
  environment \<open>'env\<close> the model never looks into. Ticking a child returns its status, or
  \<open>None\<close> when the child throws, which the node propagates.

  \<open>logged\<close> wraps any such framework so that it also records the calls a node makes; the
  properties of a node speak about that record, for every framework and every child.
\<close>

section \<open>Statuses, exceptions and the framework interface\<close>

datatype NodeStatus = IDLE | RUNNING | SUCCESS | FAILURE | SKIPPED

text \<open>
  Exceptions the node sources throw, an exception thrown by a child, and an access outside
  \<open>children_nodes_\<close>, which is undefined behaviour in C++.
\<close>

datatype bt_exn =
    RuntimeError
  | LogicError
  | BehaviorTreeException
  | OutOfRange
  | ChildThrew
  | UndefinedBehaviour

type_synonym tick_result = "bt_exn + NodeStatus"

record 'env framework =
  executeTick :: "nat \<Rightarrow> 'env \<Rightarrow> NodeStatus option \<times> 'env"
  haltChild :: "nat \<Rightarrow> 'env \<Rightarrow> 'env"
  haltChildren :: "'env \<Rightarrow> 'env"
  resetChildren :: "'env \<Rightarrow> 'env"
  baseHalt :: "'env \<Rightarrow> 'env"
  childStatus :: "nat \<Rightarrow> 'env \<Rightarrow> NodeStatus"
  isStatusActive :: "NodeStatus \<Rightarrow> bool"
  nodeStatus :: "'env \<Rightarrow> NodeStatus"
  setStatus :: "NodeStatus \<Rightarrow> 'env \<Rightarrow> 'env"

section \<open>Recording the calls of a node\<close>

datatype bt_event =
    Ticked nat NodeStatus
  | Threw nat
  | Halted nat
  | HaltedAll
  | ResetAll
  | BaseHalted
  | StatusSet NodeStatus

definition logged :: "'env framework \<Rightarrow> ('env \<times> bt_event list) framework" where
  "logged fw =
    \<lparr> executeTick = (\<lambda>i (env, lg).
        case executeTick fw i env of
          (None, env') \<Rightarrow> (None, (env', lg @ [Threw i]))
        | (Some st, env') \<Rightarrow> (Some st, (env', lg @ [Ticked i st]))),
      haltChild = (\<lambda>i (env, lg). (haltChild fw i env, lg @ [Halted i])),
      haltChildren = (\<lambda>(env, lg). (haltChildren fw env, lg @ [HaltedAll])),
      resetChildren = (\<lambda>(env, lg). (resetChildren fw env, lg @ [ResetAll])),
      baseHalt = (\<lambda>(env, lg). (baseHalt fw env, lg @ [BaseHalted])),
      childStatus = (\<lambda>i (env, lg). childStatus fw i env),
      isStatusActive = isStatusActive fw,
      nodeStatus = (\<lambda>(env, lg). nodeStatus fw env),
      setStatus = (\<lambda>st (env, lg). (setStatus fw st env, lg @ [StatusSet st])) \<rparr>"

lemma logged_sel [simp]:
  "haltChild (logged fw) i (env, lg) = (haltChild fw i env, lg @ [Halted i])"
  "haltChildren (logged fw) (env, lg) = (haltChildren fw env, lg @ [HaltedAll])"
  "resetChildren (logged fw) (env, lg) = (resetChildren fw env, lg @ [ResetAll])"
  "baseHalt (logged fw) (env, lg) = (baseHalt fw env, lg @ [BaseHalted])"
  "childStatus (logged fw) i (env, lg) = childStatus fw i env"
  "isStatusActive (logged fw) = isStatusActive fw"
  "nodeStatus (logged fw) (env, lg) = nodeStatus fw env"
  "setStatus (logged fw) st (env, lg) = (setStatus fw st env, lg @ [StatusSet st])"
  by (simp_all add: logged_def)

text \<open>What one logged tick can do: it throws, or it returns a status.\<close>

lemma logged_tick_cases:
  obtains (threw) env' where
      "executeTick (logged fw) i (env, lg) = (None, (env', lg @ [Threw i]))"
  | (returned) st env' where
      "executeTick (logged fw) i (env, lg) = (Some st, (env', lg @ [Ticked i st]))"
  by (cases "executeTick fw i env" rule: prod.exhaust;
      cases "fst (executeTick fw i env)") (auto simp: logged_def)

text \<open>The ticks of a lg, in order, and the number of ticks of one child.\<close>

fun ticks :: "bt_event list \<Rightarrow> (nat \<times> NodeStatus) list" where
  "ticks [] = []"
| "ticks (Ticked i st # es) = (i, st) # ticks es"
| "ticks (_ # es) = ticks es"

lemma ticks_append [simp]: "ticks (xs @ ys) = ticks xs @ ticks ys"
  by (induction xs rule: ticks.induct) auto

definition tick_count :: "nat \<Rightarrow> bt_event list \<Rightarrow> nat" where
  "tick_count i lg = length (filter (\<lambda>(j, _). j = i) (ticks lg))"

lemma tick_count_simps [simp]:
  "tick_count i [] = 0"
  "tick_count i (xs @ ys) = tick_count i xs + tick_count i ys"
  "tick_count i (Ticked j st # es) = (if j = i then 1 else 0) + tick_count i es"
  "tick_count i (Threw j # es) = tick_count i es"
  "tick_count i (Halted j # es) = tick_count i es"
  "tick_count i (HaltedAll # es) = tick_count i es"
  "tick_count i (ResetAll # es) = tick_count i es"
  "tick_count i (BaseHalted # es) = tick_count i es"
  "tick_count i (StatusSet st # es) = tick_count i es"
  by (auto simp: tick_count_def)

section \<open>A scripted framework\<close>

text \<open>
  The witnesses run the nodes on children whose answers are given in advance: the
  environment is the list of statuses the next ticks return (a throw when it runs out). The
  node itself is always reported as running, its children as idle.
\<close>

definition scripted :: "NodeStatus list framework" where
  "scripted =
    \<lparr> executeTick = (\<lambda>i ss. case ss of [] \<Rightarrow> (None, []) | s # ss' \<Rightarrow> (Some s, ss')),
      haltChild = (\<lambda>i ss. ss), haltChildren = (\<lambda>ss. ss), resetChildren = (\<lambda>ss. ss),
      baseHalt = (\<lambda>ss. ss), childStatus = (\<lambda>i ss. IDLE),
      isStatusActive = (\<lambda>st. st \<noteq> IDLE \<and> st \<noteq> SKIPPED),
      nodeStatus = (\<lambda>ss. RUNNING), setStatus = (\<lambda>st ss. ss) \<rparr>"

lemma scripted_sel [simp]:
  "executeTick scripted i [] = (None, [])"
  "executeTick scripted i (s # ss) = (Some s, ss)"
  "haltChild scripted i ss = ss" "haltChildren scripted ss = ss"
  "resetChildren scripted ss = ss" "baseHalt scripted ss = ss"
  "childStatus scripted i ss = IDLE"
  "isStatusActive scripted st = (st \<noteq> IDLE \<and> st \<noteq> SKIPPED)"
  "nodeStatus scripted ss = RUNNING" "setStatus scripted st ss = ss"
  by (simp_all add: scripted_def)

lemma logged_scripted_tick [simp]:
  "executeTick (logged scripted) i ([], lg) = (None, ([], lg @ [Threw i]))"
  "executeTick (logged scripted) i (s # ss, lg) = (Some s, (ss, lg @ [Ticked i s]))"
  by (simp_all add: logged_def)

end
