(* ===== verification/BT_Control.thy ===== *)
theory BT_Control
  imports BT_Core
begin

text \<open>
  The control nodes of nav2_behavior_tree: NonblockingSequence, PersistentSequence,
  PipelineSequence, RecoveryNode and RoundRobin (plugins/control). Each \<open>tick\<close> is a
  function of the framework, the node's fields and the environment; it returns the status
  or exception, the new fields and the environment. The loops are total: the termination
  proofs below are the proof that a tick of these nodes returns whenever its children do.
  Unsigned counters are natural numbers; the invariants bound them by the number of
  children or of retries, so no wrap-around is lost.
\<close>

section \<open>NonblockingSequence\<close>

function nonblocking_loop ::
  "'env framework \<Rightarrow> nat \<Rightarrow> nat \<Rightarrow> bool \<Rightarrow> 'env \<Rightarrow> tick_result \<times> 'env" where
  "nonblocking_loop fw n i all_success env =
    (if i < n then
       (case executeTick fw i env of
          (None, env') \<Rightarrow> (Inl ChildThrew, env')
        | (Some FAILURE, env') \<Rightarrow> (Inr FAILURE, haltChildren fw env')
        | (Some SUCCESS, env') \<Rightarrow> nonblocking_loop fw n (Suc i) all_success env'
        | (Some RUNNING, env') \<Rightarrow> nonblocking_loop fw n (Suc i) False env'
        | (Some _, env') \<Rightarrow> (Inl RuntimeError, env'))
     else if all_success then (Inr SUCCESS, haltChildren fw env)
     else (Inr RUNNING, env))"
  by pat_completeness auto
termination
  by (relation "measure (\<lambda>(fw, n, i, b, env). n - i)") auto

declare nonblocking_loop.simps [simp del]

definition nonblocking_tick :: "'env framework \<Rightarrow> nat \<Rightarrow> 'env \<Rightarrow> tick_result \<times> 'env" where
  "nonblocking_tick fw n env = nonblocking_loop fw n 0 True env"

section \<open>PersistentSequence\<close>

text \<open>
  The index lives on the blackboard (a bidirectional port): \<open>bb\<close> is the port's value, absent
  when it was never set. It is an \<open>int\<close> the user can set, so it may be negative, and then
  \<open>children_nodes_[current_child_idx]\<close> is out of range.
\<close>

function persistent_loop ::
  "'env framework \<Rightarrow> int \<Rightarrow> int \<Rightarrow> int option \<Rightarrow> 'env \<Rightarrow> tick_result \<times> int option \<times> 'env" where
  "persistent_loop fw children_count idx bb env =
    (if idx < children_count then
       (if idx < 0 then (Inl UndefinedBehaviour, bb, env)
        else case executeTick fw (nat idx) env of
          (None, env') \<Rightarrow> (Inl ChildThrew, bb, env')
        | (Some RUNNING, env') \<Rightarrow> (Inr RUNNING, bb, env')
        | (Some FAILURE, env') \<Rightarrow> (Inr FAILURE, Some 0, resetChildren fw env')
        | (Some IDLE, env') \<Rightarrow> (Inl RuntimeError, bb, env')
        | (Some _, env') \<Rightarrow> persistent_loop fw children_count (idx + 1) (Some (idx + 1)) env')
     else (Inr SUCCESS, Some 0, resetChildren fw env))"
  by pat_completeness auto
termination
  by (relation "measure (\<lambda>(fw, n, i, bb, env). nat (n - i))") auto

declare persistent_loop.simps [simp del]

definition persistent_tick ::
  "'env framework \<Rightarrow> nat \<Rightarrow> int option \<Rightarrow> 'env \<Rightarrow> tick_result \<times> int option \<times> 'env" where
  "persistent_tick fw n bb env =
    (case bb of
       None \<Rightarrow> (Inl RuntimeError, bb, env)
     | Some idx \<Rightarrow> persistent_loop fw (int n) idx bb (setStatus fw RUNNING env))"

section \<open>PipelineSequence\<close>

function pipeline_loop ::
  "'env framework \<Rightarrow> nat \<Rightarrow> nat \<Rightarrow> nat \<Rightarrow> nat \<Rightarrow> 'env \<Rightarrow> tick_result \<times> nat \<times> 'env" where
  "pipeline_loop fw n i skipped_count last_child_ticked env =
    (if i < n then
       (case executeTick fw i env of
          (None, env') \<Rightarrow> (Inl ChildThrew, last_child_ticked, env')
        | (Some FAILURE, env') \<Rightarrow> (Inr FAILURE, 0, haltChildren fw env')
        | (Some SKIPPED, env') \<Rightarrow>
            pipeline_loop fw n (Suc i) (Suc skipped_count) last_child_ticked env'
        | (Some SUCCESS, env') \<Rightarrow>
            pipeline_loop fw n (Suc i) skipped_count last_child_ticked env'
        | (Some RUNNING, env') \<Rightarrow>
            (if last_child_ticked \<le> i then (Inr RUNNING, i, env')
             else pipeline_loop fw n (Suc i) skipped_count last_child_ticked env')
        | (Some IDLE, env') \<Rightarrow> (Inl RuntimeError, last_child_ticked, env'))
     else
       (Inr (if skipped_count = n then SKIPPED else SUCCESS), 0, haltChildren fw env))"
  by pat_completeness auto
termination
  by (relation "measure (\<lambda>(fw, n, i, sk, lst, env). n - i)") auto

declare pipeline_loop.simps [simp del]

definition pipeline_tick ::
  "'env framework \<Rightarrow> nat \<Rightarrow> nat \<Rightarrow> 'env \<Rightarrow> tick_result \<times> nat \<times> 'env" where
  "pipeline_tick fw n last_child_ticked env = pipeline_loop fw n 0 0 last_child_ticked env"

definition pipeline_halt :: "'env framework \<Rightarrow> nat \<Rightarrow> 'env \<Rightarrow> nat \<times> 'env" where
  "pipeline_halt fw last_child_ticked env = (0, baseHalt fw env)"

section \<open>RecoveryNode\<close>

record recovery_node =
  rn_current_child_idx :: nat
  rn_number_of_retries :: nat
  rn_retry_count :: nat

definition recovery_new :: recovery_node where
  "recovery_new =
    \<lparr> rn_current_child_idx = 0, rn_number_of_retries = 1, rn_retry_count = 0 \<rparr>"

definition recovery_halt ::
  "'env framework \<Rightarrow> recovery_node \<Rightarrow> 'env \<Rightarrow> recovery_node \<times> 'env" where
  "recovery_halt fw s env =
    (s\<lparr>rn_retry_count := 0, rn_current_child_idx := 0\<rparr>, baseHalt fw env)"

text \<open>The while loop of one tick, after the check that there are exactly two children.\<close>

function recovery_loop ::
  "'env framework \<Rightarrow> recovery_node \<Rightarrow> 'env \<Rightarrow> tick_result \<times> recovery_node \<times> 'env" where
  "recovery_loop fw s env =
    (if rn_current_child_idx s < 2 \<and> rn_retry_count s \<le> rn_number_of_retries s then
       (case executeTick fw (rn_current_child_idx s) env of
          (None, env') \<Rightarrow> (Inl ChildThrew, s, env')
        | (Some st, env') \<Rightarrow>
            (if rn_current_child_idx s = 0 then
               (case st of
                  SKIPPED \<Rightarrow> (Inr SKIPPED, recovery_halt fw s env')
                | SUCCESS \<Rightarrow> (Inr SUCCESS, recovery_halt fw s (haltChild fw 1 env'))
                | RUNNING \<Rightarrow> (Inr RUNNING, s, env')
                | FAILURE \<Rightarrow>
                    (if rn_retry_count s < rn_number_of_retries s then
                       recovery_loop fw
                         (s\<lparr>rn_current_child_idx := rn_current_child_idx s + 1\<rparr>)
                         (haltChild fw 0 env')
                     else (Inr FAILURE, recovery_halt fw s env'))
                | IDLE \<Rightarrow> (Inl LogicError, s, env'))
             else
               (case st of
                  SKIPPED \<Rightarrow>
                    (Inr FAILURE, s\<lparr>rn_current_child_idx := 0\<rparr>, haltChild fw 1 env')
                | RUNNING \<Rightarrow> (Inr RUNNING, s, env')
                | SUCCESS \<Rightarrow>
                    recovery_loop fw
                      (s\<lparr>rn_retry_count := rn_retry_count s + 1, rn_current_child_idx := 0\<rparr>)
                      (haltChild fw 1 env')
                | FAILURE \<Rightarrow> (Inr FAILURE, recovery_halt fw s env')
                | IDLE \<Rightarrow> (Inl LogicError, s, env'))))
     else (Inr FAILURE, recovery_halt fw s env))"
  by pat_completeness auto
termination
  by (relation "measure (\<lambda>(fw, s, env).
        2 * (Suc (rn_number_of_retries s) - rn_retry_count s) + (1 - rn_current_child_idx s))")
     auto

declare recovery_loop.simps [simp del]

text \<open>
  \<open>tick\<close>: the port value (if present) replaces \<open>number_of_retries_\<close>, the number of children
  must be two, then the loop runs.
\<close>

definition recovery_tick ::
  "'env framework \<Rightarrow> nat \<Rightarrow> nat option \<Rightarrow> recovery_node \<Rightarrow> 'env
    \<Rightarrow> tick_result \<times> recovery_node \<times> 'env" where
  "recovery_tick fw children_count port s env =
    (let s' = (case port of None \<Rightarrow> s | Some k \<Rightarrow> s\<lparr>rn_number_of_retries := k\<rparr>) in
     if children_count \<noteq> 2 then (Inl BehaviorTreeException, s', env)
     else recovery_loop fw s' (setStatus fw RUNNING env))"

section \<open>RoundRobin\<close>

record round_robin_node =
  rr_current_child_idx :: nat
  rr_num_failed_children :: nat
  rr_wrap_around :: bool

definition round_robin_halt ::
  "'env framework \<Rightarrow> round_robin_node \<Rightarrow> 'env \<Rightarrow> round_robin_node \<times> 'env" where
  "round_robin_halt fw s env =
    (s\<lparr>rr_current_child_idx := 0, rr_num_failed_children := 0\<rparr>, baseHalt fw env)"

text \<open>After the loop: halt, and report whether every child was skipped.\<close>

definition round_robin_finish ::
  "'env framework \<Rightarrow> nat \<Rightarrow> nat \<Rightarrow> round_robin_node \<Rightarrow> 'env
    \<Rightarrow> tick_result \<times> round_robin_node \<times> 'env" where
  "round_robin_finish fw n skipped s env =
    (Inr (if skipped = n then SKIPPED else FAILURE), round_robin_halt fw s env)"

function round_robin_loop ::
  "'env framework \<Rightarrow> nat \<Rightarrow> nat \<Rightarrow> round_robin_node \<Rightarrow> 'env
    \<Rightarrow> tick_result \<times> round_robin_node \<times> 'env" where
  "round_robin_loop fw n skipped s env =
    (if rr_num_failed_children s + skipped < n then
       (if n \<le> rr_current_child_idx s then (Inl UndefinedBehaviour, s, env)
        else case executeTick fw (rr_current_child_idx s) env of
          (None, env') \<Rightarrow> (Inl ChildThrew, s, env')
        | (Some st, env') \<Rightarrow>
            (let s1 = (if st = RUNNING then s
                       else s\<lparr>rr_current_child_idx := rr_current_child_idx s + 1\<rparr>) in
             if st \<noteq> RUNNING \<and> rr_current_child_idx s1 = n \<and> \<not> rr_wrap_around s then
               (case st of
                  SKIPPED \<Rightarrow> round_robin_finish fw n (skipped + 1) s1 env'
                | FAILURE \<Rightarrow> round_robin_finish fw n skipped
                    (s1\<lparr>rr_num_failed_children := rr_num_failed_children s1 + 1\<rparr>) env'
                | _ \<Rightarrow> round_robin_finish fw n skipped s1 env')
             else
               (let s2 = (if st \<noteq> RUNNING \<and> rr_current_child_idx s1 = n
                          then s1\<lparr>rr_current_child_idx := 0\<rparr> else s1) in
                case st of
                  SUCCESS \<Rightarrow>
                    (Inr SUCCESS, s2\<lparr>rr_num_failed_children := 0\<rparr>, haltChildren fw env')
                | FAILURE \<Rightarrow> round_robin_loop fw n skipped
                    (s2\<lparr>rr_num_failed_children := rr_num_failed_children s2 + 1\<rparr>) env'
                | SKIPPED \<Rightarrow> round_robin_loop fw n (skipped + 1) s2 env'
                | RUNNING \<Rightarrow> (Inr RUNNING, s2, env')
                | IDLE \<Rightarrow> (Inl LogicError, s2, env'))))
     else round_robin_finish fw n skipped s env)"
  by pat_completeness auto
termination
  by (relation "measure (\<lambda>(fw, n, sk, s, env). n - (rr_num_failed_children s + sk))")
     (auto split: if_splits)

declare round_robin_loop.simps [simp del]

definition round_robin_tick ::
  "'env framework \<Rightarrow> nat \<Rightarrow> round_robin_node \<Rightarrow> 'env
    \<Rightarrow> tick_result \<times> round_robin_node \<times> 'env" where
  "round_robin_tick fw n s env = round_robin_loop fw n 0 s (setStatus fw RUNNING env)"

section \<open>NonblockingSequence: what a tick does\<close>

text \<open>
  \<open>nonblocking_post n i ok st ts\<close>: the loop started at child \<open>i\<close> with the flag
  \<open>all_success = ok\<close> ticked the children in order without a gap (\<open>ts\<close>) and returned
  \<open>st\<close>: FAILURE at the first failing child, otherwise every child was ticked and the
  answer is SUCCESS exactly when all of them succeeded.
\<close>

definition nonblocking_post ::
  "nat \<Rightarrow> nat \<Rightarrow> bool \<Rightarrow> NodeStatus \<Rightarrow> (nat \<times> NodeStatus) list \<Rightarrow> bool" where
  "nonblocking_post n i ok st ts \<longleftrightarrow>
     map fst ts = [i..<i + length ts] \<and>
     (if st = FAILURE then
        ts \<noteq> [] \<and> snd (last ts) = FAILURE \<and> i + length ts \<le> n \<and>
        list_all (\<lambda>t. snd t = SUCCESS \<or> snd t = RUNNING) (butlast ts)
      else
        i + length ts = n \<and> list_all (\<lambda>t. snd t = SUCCESS \<or> snd t = RUNNING) ts \<and>
        st = (if ok \<and> list_all (\<lambda>t. snd t = SUCCESS) ts then SUCCESS else RUNNING))"

lemma nonblocking_post_Cons:
  assumes "s = SUCCESS \<or> s = RUNNING"
    and "nonblocking_post n (Suc i) (ok \<and> s = SUCCESS) st ts"
  shows "nonblocking_post n i ok st ((i, s) # ts)"
  using assms
  by (auto simp: nonblocking_post_def upt_Suc_Cons simp del: upt_Suc split: if_splits)

lemma nonblocking_loop_post:
  assumes "nonblocking_loop (logged fw) n i ok (env, lg) = (Inr st, env', lg')" "i \<le> n"
  shows "\<exists>ev. lg' = lg @ ev \<and> nonblocking_post n i ok st (ticks ev) \<and>
    (st \<noteq> RUNNING \<longrightarrow> last ev = HaltedAll \<and> ev \<noteq> [])"
  using assms
proof (induction "n - i" arbitrary: i ok env lg)
  case 0
  then have "i = n" by simp
  with 0 show ?case
    by (auto simp: nonblocking_loop.simps [of _ n n] nonblocking_post_def split: if_splits)
next
  case (Suc m)
  then have i: "i < n" "m = n - Suc i" "Suc i \<le> n" by auto
  note eq = Suc.prems(1) [unfolded nonblocking_loop.simps [of _ n i]]
  show ?case
  proof (cases rule: logged_tick_cases [of fw i env lg])
    case (threw env1)
    with eq i show ?thesis by simp
  next
    case (returned s env1)
    have rec: "\<exists>ev. lg' = lg @ ev \<and> nonblocking_post n i ok st (ticks ev) \<and>
        (st \<noteq> RUNNING \<longrightarrow> last ev = HaltedAll \<and> ev \<noteq> [])"
      if p: "s = SUCCESS \<or> s = RUNNING" and
        r: "nonblocking_loop (logged fw) n (Suc i) (ok \<and> s = SUCCESS) (env1, lg @ [Ticked i s]) =
          (Inr st, env', lg')"
    proof -
      obtain ev where "lg' = (lg @ [Ticked i s]) @ ev"
        and "nonblocking_post n (Suc i) (ok \<and> s = SUCCESS) st (ticks ev)"
        and "st \<noteq> RUNNING \<longrightarrow> last ev = HaltedAll \<and> ev \<noteq> []"
        using Suc.hyps(1) [OF i(2) r i(3)] by auto
      with p show ?thesis
        by (intro exI [of _ "Ticked i s # ev"]) (auto intro: nonblocking_post_Cons)
    qed
    show ?thesis
      using eq i returned rec by (cases s) (auto simp: nonblocking_post_def)
  qed
qed

text \<open>
  NonblockingSequence: in a tick that returns, the children are ticked in order
  from the first; the node fails exactly at the first failing child, otherwise every child is
  ticked and the node succeeds when all did and is running when one of them runs; on success
  and on failure all children are halted last.
\<close>

theorem nonblocking_tick_spec:
  assumes "nonblocking_tick (logged fw) n (env, []) = (Inr st, env', lg)"
  shows "nonblocking_post n 0 True st (ticks lg) \<and> (st \<noteq> RUNNING \<longrightarrow> last lg = HaltedAll)"
  using nonblocking_loop_post [OF assms [unfolded nonblocking_tick_def]] by auto

theorem nonblocking_tick_spec_witness:
  "nonblocking_tick (logged scripted) 2 ([SUCCESS, FAILURE], []) =
     (Inr FAILURE, [], [Ticked 0 SUCCESS, Ticked 1 FAILURE, HaltedAll]) \<and>
   nonblocking_post 2 0 True FAILURE [(0, SUCCESS), (1, FAILURE)]"
proof -
  have h: "nonblocking_tick (logged scripted) 2 ([SUCCESS, FAILURE], []) =
      (Inr FAILURE, [], [Ticked 0 SUCCESS, Ticked 1 FAILURE, HaltedAll])"
    by (simp add: nonblocking_tick_def nonblocking_loop.simps)
  show ?thesis using h nonblocking_tick_spec [OF h] by simp
qed

section \<open>PersistentSequence: what a tick does\<close>

text \<open>
  \<open>persistent_post n idx st bb' ts\<close>: the children were ticked in order from \<open>idx\<close>; while
  one runs its index stays on the blackboard; on failure and on completion the index is 0.
\<close>

definition persistent_post ::
  "int \<Rightarrow> int \<Rightarrow> NodeStatus \<Rightarrow> int option \<Rightarrow> (nat \<times> NodeStatus) list \<Rightarrow> bool" where
  "persistent_post n idx st bb' ts \<longleftrightarrow>
     map fst ts = [nat idx..<nat idx + length ts] \<and>
     (case st of
        RUNNING \<Rightarrow> ts \<noteq> [] \<and> snd (last ts) = RUNNING \<and> bb' = Some (int (fst (last ts))) \<and>
          list_all (\<lambda>t. snd t = SUCCESS \<or> snd t = SKIPPED) (butlast ts)
      | FAILURE \<Rightarrow> ts \<noteq> [] \<and> snd (last ts) = FAILURE \<and> bb' = Some 0 \<and>
          list_all (\<lambda>t. snd t = SUCCESS \<or> snd t = SKIPPED) (butlast ts)
      | SUCCESS \<Rightarrow> idx + int (length ts) = max idx n \<and> bb' = Some 0 \<and>
          list_all (\<lambda>t. snd t = SUCCESS \<or> snd t = SKIPPED) ts
      | _ \<Rightarrow> False)"

lemma persistent_post_Cons:
  assumes "s = SUCCESS \<or> s = SKIPPED" "0 \<le> idx" "idx < n"
    and "persistent_post n (idx + 1) st bb' ts"
  shows "persistent_post n idx st bb' ((nat idx, s) # ts)"
proof -
  have [simp]: "nat (idx + 1) = Suc (nat idx)" using assms(2) by simp
  show ?thesis using assms
    by (auto simp: persistent_post_def upt_Suc_Cons max_def simp del: upt_Suc
             split: NodeStatus.splits)
qed

lemma persistent_loop_post:
  assumes "persistent_loop (logged fw) n idx (Some idx) (env, lg) = (r, bb', env', lg')" "0 \<le> idx"
  shows "\<exists>ev. lg' = lg @ ev \<and> r \<noteq> Inl UndefinedBehaviour \<and>
    (\<forall>st. r = Inr st \<longrightarrow> persistent_post n idx st bb' (ticks ev))"
  using assms
proof (induction "nat (n - idx)" arbitrary: idx env lg rule: less_induct)
  case less
  note eq = less.prems(1) [unfolded persistent_loop.simps [of _ n idx]]
  show ?case
  proof (cases "idx < n")
    case False
    with eq show ?thesis by (auto simp: persistent_post_def max_def)
  next
    case True
    show ?thesis
    proof (cases rule: logged_tick_cases [of fw "nat idx" env lg])
      case (threw env1)
      with eq True less.prems(2) show ?thesis by auto
    next
      case (returned s env1)
      have rec: ?thesis
        if p: "s = SUCCESS \<or> s = SKIPPED" and
          r: "persistent_loop (logged fw) n (idx + 1) (Some (idx + 1))
            (env1, lg @ [Ticked (nat idx) s]) = (r, bb', env', lg')"
      proof -
        obtain ev where "lg' = (lg @ [Ticked (nat idx) s]) @ ev" "r \<noteq> Inl UndefinedBehaviour"
          and "\<forall>st. r = Inr st \<longrightarrow> persistent_post n (idx + 1) st bb' (ticks ev)"
          using less.hyps [OF _ r] True less.prems(2) by auto
        with p True less.prems(2) show ?thesis
          by (intro exI [of _ "Ticked (nat idx) s # ev"]) (auto intro: persistent_post_Cons)
      qed
      show ?thesis
        using eq True less.prems(2) returned rec
        by (cases s) (auto simp: persistent_post_def)
    qed
  qed
qed

text \<open>
  With a non-negative index on the blackboard a tick never
  leaves the array of children; it resumes at the stored child and ticks on in order; a
  running child leaves its own index on the blackboard, so earlier children are not ticked
  again; failure and completion store index 0.
\<close>

theorem persistent_tick_spec:
  assumes "persistent_tick (logged fw) n (Some idx) (env, []) = (r, bb', env', lg)" "0 \<le> idx"
  shows "r \<noteq> Inl UndefinedBehaviour \<and>
    (\<forall>st. r = Inr st \<longrightarrow> persistent_post (int n) idx st bb' (ticks lg))"
proof -
  from assms(1) have "persistent_loop (logged fw) (int n) idx (Some idx)
      (setStatus fw RUNNING env, [StatusSet RUNNING]) = (r, bb', env', lg)"
    by (simp add: persistent_tick_def)
  from persistent_loop_post [OF this assms(2)] show ?thesis by auto
qed

theorem persistent_tick_spec_witness:
  "persistent_tick (logged scripted) 3 (Some 1) ([SUCCESS, RUNNING], []) =
     (Inr RUNNING, Some 2, [], [StatusSet RUNNING, Ticked 1 SUCCESS, Ticked 2 RUNNING]) \<and>
   persistent_post 3 1 RUNNING (Some 2) [(1, SUCCESS), (2, RUNNING)]"
proof -
  have h: "persistent_tick (logged scripted) 3 (Some 1) ([SUCCESS, RUNNING], []) =
      (Inr RUNNING, Some 2, [], [StatusSet RUNNING, Ticked 1 SUCCESS, Ticked 2 RUNNING])"
    by (simp add: persistent_tick_def persistent_loop.simps)
  show ?thesis using h persistent_tick_spec [OF h] by simp
qed

section \<open>PipelineSequence: what a tick does\<close>

text \<open>
  A child lets the scan go on when it succeeded, was skipped, or is running and lies before
  the furthest child reached in an earlier tick. \<open>pipeline_post\<close> says which children a tick
  visits, what it answers and what it remembers.
\<close>

definition pipeline_passes :: "nat \<Rightarrow> nat \<times> NodeStatus \<Rightarrow> bool" where
  "pipeline_passes lst t \<longleftrightarrow>
     snd t = SUCCESS \<or> snd t = SKIPPED \<or> snd t = RUNNING \<and> fst t < lst"

definition pipeline_post ::
  "nat \<Rightarrow> nat \<Rightarrow> nat \<Rightarrow> nat \<Rightarrow> NodeStatus \<Rightarrow> nat \<Rightarrow> (nat \<times> NodeStatus) list \<Rightarrow> bool" where
  "pipeline_post n i sk lst st lst' ts \<longleftrightarrow>
     map fst ts = [i..<i + length ts] \<and> st \<noteq> IDLE \<and>
     (if st = RUNNING \<or> st = FAILURE then
        ts \<noteq> [] \<and> snd (last ts) = st \<and> list_all (pipeline_passes lst) (butlast ts) \<and>
        lst' = (if st = RUNNING then i + length ts - 1 else 0) \<and>
        i + length ts \<le> n \<and> (st = RUNNING \<longrightarrow> lst \<le> lst')
      else
        i + length ts = n \<and> list_all (pipeline_passes lst) ts \<and> lst' = 0 \<and>
        (st = SKIPPED \<longleftrightarrow> sk + length (filter (\<lambda>t. snd t = SKIPPED) ts) = n))"

lemma pipeline_post_Cons:
  assumes "pipeline_passes lst (i, s)"
    and "pipeline_post n (Suc i) (if s = SKIPPED then Suc sk else sk) lst st lst' ts"
  shows "pipeline_post n i sk lst st lst' ((i, s) # ts)"
  using assms by (auto simp: pipeline_post_def upt_Suc_Cons simp del: upt_Suc split: if_splits)

lemma pipeline_loop_post:
  assumes "pipeline_loop (logged fw) n i sk lst (env, lg) = (Inr st, lst', env', lg')" "i \<le> n"
  shows "\<exists>ev. lg' = lg @ ev \<and> pipeline_post n i sk lst st lst' (ticks ev) \<and>
    (st \<noteq> RUNNING \<longrightarrow> last ev = HaltedAll \<and> ev \<noteq> [])"
  using assms
proof (induction "n - i" arbitrary: i sk env lg)
  case 0
  then have "i = n" by simp
  with 0 show ?case
    by (auto simp: pipeline_loop.simps [of _ n n] pipeline_post_def)
next
  case (Suc m)
  then have i: "i < n" "m = n - Suc i" "Suc i \<le> n" by auto
  note eq = Suc.prems(1) [unfolded pipeline_loop.simps [of _ n i]]
  show ?case
  proof (cases rule: logged_tick_cases [of fw i env lg])
    case (threw env1)
    with eq i show ?thesis by simp
  next
    case (returned s env1)
    have rec: "\<exists>ev. lg' = lg @ ev \<and> pipeline_post n i sk lst st lst' (ticks ev) \<and>
        (st \<noteq> RUNNING \<longrightarrow> last ev = HaltedAll \<and> ev \<noteq> [])"
      if p: "pipeline_passes lst (i, s)" and
        r: "pipeline_loop (logged fw) n (Suc i) (if s = SKIPPED then Suc sk else sk) lst
          (env1, lg @ [Ticked i s]) = (Inr st, lst', env', lg')"
    proof -
      obtain ev where "lg' = (lg @ [Ticked i s]) @ ev"
        and "pipeline_post n (Suc i) (if s = SKIPPED then Suc sk else sk) lst st lst' (ticks ev)"
        and "st \<noteq> RUNNING \<longrightarrow> last ev = HaltedAll \<and> ev \<noteq> []"
        using Suc.hyps(1) [OF i(2) r i(3)] by auto
      with p show ?thesis
        by (intro exI [of _ "Ticked i s # ev"]) (auto intro: pipeline_post_Cons)
    qed
    show ?thesis
      using eq i returned rec
      by (cases s)
         (auto simp: pipeline_passes_def pipeline_post_def split: if_splits)
  qed
qed



section \<open>RecoveryNode: retries are bounded and accounted for\<close>

text \<open>
  Between ticks the index is 0 or 1, the counter never exceeds the limit, and the recovery
  child is current only while a retry is left. \<open>recoveries\<close> counts successful recoveries in
  a log, \<open>recovery_outcome\<close> ties the answer to the last child ticked and to the fields,
  \<open>recovery_bounded\<close> bounds how often each child is ticked in one tick of the node.
\<close>

definition recovery_inv :: "recovery_node \<Rightarrow> bool" where
  "recovery_inv s \<longleftrightarrow> rn_current_child_idx s \<le> 1 \<and> rn_retry_count s \<le> rn_number_of_retries s \<and>
     (rn_current_child_idx s = 1 \<longrightarrow> rn_retry_count s < rn_number_of_retries s)"

definition recoveries :: "(nat \<times> NodeStatus) list \<Rightarrow> nat" where
  "recoveries ts = length (filter (\<lambda>t. t = (1, SUCCESS)) ts)"

definition is_reset :: "recovery_node \<Rightarrow> bool" where
  "is_reset s \<longleftrightarrow> rn_current_child_idx s = 0 \<and> rn_retry_count s = 0"

definition recovery_outcome ::
  "recovery_node \<Rightarrow> NodeStatus \<Rightarrow> recovery_node \<Rightarrow> (nat \<times> NodeStatus) list \<Rightarrow> bool" where
  "recovery_outcome s st s' ts \<longleftrightarrow> ts \<noteq> [] \<and>
    (case st of
       SUCCESS \<Rightarrow> last ts = (0, SUCCESS) \<and> is_reset s'
     | SKIPPED \<Rightarrow> last ts = (0, SKIPPED) \<and> is_reset s'
     | RUNNING \<Rightarrow> last ts = (rn_current_child_idx s', RUNNING) \<and>
         rn_retry_count s' = rn_retry_count s + recoveries ts
     | FAILURE \<Rightarrow>
         last ts = (0, FAILURE) \<and> rn_retry_count s + recoveries ts = rn_number_of_retries s \<and>
           is_reset s' \<or>
         last ts = (1, FAILURE) \<and> is_reset s' \<or>
         last ts = (1, SKIPPED) \<and> rn_current_child_idx s' = 0 \<and>
           rn_retry_count s' = rn_retry_count s + recoveries ts
     | IDLE \<Rightarrow> False)"

definition recovery_bounded :: "recovery_node \<Rightarrow> (nat \<times> NodeStatus) list \<Rightarrow> bool" where
  "recovery_bounded s ts \<longleftrightarrow>
     length (filter (\<lambda>t. fst t = 1) ts) \<le> rn_number_of_retries s - rn_retry_count s \<and>
     length (filter (\<lambda>t. fst t = 0) ts) \<le>
       rn_number_of_retries s - rn_retry_count s + (1 - rn_current_child_idx s)"

abbreviation recovery_measure :: "recovery_node \<Rightarrow> nat" where
  "recovery_measure s \<equiv>
     2 * (Suc (rn_number_of_retries s) - rn_retry_count s) + (1 - rn_current_child_idx s)"

lemma recovery_outcome_Cons:
  assumes "recovery_outcome s1 st s' ts"
    and "rn_number_of_retries s1 = rn_number_of_retries s"
    and "rn_retry_count s1 = rn_retry_count s + recoveries [t]"
  shows "recovery_outcome s st s' (t # ts)"
  using assms by (auto simp: recovery_outcome_def recoveries_def split: NodeStatus.splits if_splits)

lemma recovery_loop_post:
  assumes "recovery_loop (logged fw) s (env, lg) = (r, s', env', lg')" "recovery_inv s"
  shows "\<exists>ev. lg' = lg @ ev \<and> recovery_inv s' \<and>
    rn_number_of_retries s' = rn_number_of_retries s \<and>
    recovery_bounded s (ticks ev) \<and>
    (\<forall>st. r = Inr st \<longrightarrow> recovery_outcome s st s' (ticks ev)) \<and>
    r \<noteq> Inl UndefinedBehaviour"
  using assms
proof (induction "recovery_measure s" arbitrary: s env lg rule: less_induct)
  case less
  from less.prems(2) have guard:
    "rn_current_child_idx s < 2 \<and> rn_retry_count s \<le> rn_number_of_retries s"
    by (auto simp: recovery_inv_def)
  note eq = less.prems(1) [unfolded recovery_loop.simps [of _ s]]
  note defs = recovery_inv_def recovery_outcome_def recovery_bounded_def recoveries_def
    is_reset_def recovery_halt_def
  let ?i = "rn_current_child_idx s"
  show ?case
  proof (cases rule: logged_tick_cases [of fw ?i env lg])
    case (threw env1)
    with eq guard less.prems(2) show ?thesis by (auto simp: defs)
  next
    case (returned st1 env1)
    show ?thesis
    proof (cases "?i = 0 \<and> st1 = FAILURE \<and> rn_retry_count s < rn_number_of_retries s")
      case True
      let ?s = "s\<lparr>rn_current_child_idx := ?i + 1\<rparr>"
      have "recovery_loop (logged fw) ?s (haltChild fw 0 env1, lg @ [Ticked 0 FAILURE, Halted 0])
        = (r, s', env', lg')"
        using eq guard returned True by simp
      moreover have "recovery_inv ?s" using True less.prems(2) by (auto simp: defs)
      moreover have "recovery_measure ?s < recovery_measure s" using True by simp
      ultimately obtain ev where
        "lg' = (lg @ [Ticked 0 FAILURE, Halted 0]) @ ev" "recovery_inv s'"
        "rn_number_of_retries s' = rn_number_of_retries s" "recovery_bounded ?s (ticks ev)"
        "\<forall>st. r = Inr st \<longrightarrow> recovery_outcome ?s st s' (ticks ev)" "r \<noteq> Inl UndefinedBehaviour"
        using less.hyps [of ?s] by fastforce
      with True show ?thesis
        by (intro exI [of _ "Ticked 0 FAILURE # Halted 0 # ev"])
           (auto simp: recovery_bounded_def recoveries_def intro!: recovery_outcome_Cons)
    next
      case False
      note F = this
      show ?thesis
      proof (cases "?i = 1 \<and> st1 = SUCCESS")
        case True
        let ?s = "s\<lparr>rn_retry_count := rn_retry_count s + 1, rn_current_child_idx := 0\<rparr>"
        have "recovery_loop (logged fw) ?s (haltChild fw 1 env1, lg @ [Ticked 1 SUCCESS, Halted 1])
          = (r, s', env', lg')"
          using eq guard returned True by simp
        moreover have "recovery_inv ?s" using True less.prems(2) by (auto simp: defs)
        moreover have "recovery_measure ?s < recovery_measure s" using True guard by simp
        ultimately obtain ev where
          "lg' = (lg @ [Ticked 1 SUCCESS, Halted 1]) @ ev" "recovery_inv s'"
          "rn_number_of_retries s' = rn_number_of_retries s" "recovery_bounded ?s (ticks ev)"
          "\<forall>st. r = Inr st \<longrightarrow> recovery_outcome ?s st s' (ticks ev)" "r \<noteq> Inl UndefinedBehaviour"
          using less.hyps [of ?s] by fastforce
        with True less.prems(2) show ?thesis
          by (intro exI [of _ "Ticked 1 SUCCESS # Halted 1 # ev"])
             (auto simp: recovery_bounded_def recovery_inv_def recoveries_def
                   intro!: recovery_outcome_Cons)
      next
        case False
        then show ?thesis using eq guard returned less.prems(2) F
          by (cases st1; cases ?i) (auto simp: defs split: if_splits)
      qed
    qed
  qed
qed
text \<open>
  Property C23 (RecoveryNode, one tick). From a state satisfying the invariant a tick keeps the
  invariant, ticks the recovery child at most as often as retries are left and the main child
  at most once more, and its answer is explained by the last child ticked: SUCCESS exactly
  after the main child succeeded, FAILURE after the main child failed with all retries used,
  after the recovery failed, or after the recovery was skipped. Fields are reset on every final
  answer except the last one, where the retry counter keeps its value.
\<close>

theorem recovery_tick_spec:
  assumes "recovery_tick (logged fw) 2 None s (env, []) = (r, s', env', lg)" "recovery_inv s"
  shows "recovery_inv s' \<and> rn_number_of_retries s' = rn_number_of_retries s \<and>
    recovery_bounded s (ticks lg) \<and>
    (\<forall>st. r = Inr st \<longrightarrow> recovery_outcome s st s' (ticks lg)) \<and> r \<noteq> Inl UndefinedBehaviour"
proof -
  from assms(1) have "recovery_loop (logged fw) s (setStatus fw RUNNING env, [StatusSet RUNNING])
      = (r, s', env', lg)"
    by (simp add: recovery_tick_def)
  from recovery_loop_post [OF this assms(2)] show ?thesis by auto
qed

theorem recovery_tick_spec_witness:
  "recovery_inv recovery_new \<and>
   recovery_tick (logged scripted) 2 None recovery_new ([FAILURE, SUCCESS, SUCCESS], []) =
     (Inr SUCCESS, recovery_new, [],
      [StatusSet RUNNING, Ticked 0 FAILURE, Halted 0, Ticked 1 SUCCESS, Halted 1,
       Ticked 0 SUCCESS, Halted 1, BaseHalted]) \<and>
   recovery_outcome recovery_new SUCCESS recovery_new [(0, FAILURE), (1, SUCCESS), (0, SUCCESS)]"
proof -
  have i: "recovery_inv recovery_new" by (simp add: recovery_inv_def recovery_new_def)
  have h: "recovery_tick (logged scripted) 2 None recovery_new ([FAILURE, SUCCESS, SUCCESS], []) =
     (Inr SUCCESS, recovery_new, [],
      [StatusSet RUNNING, Ticked 0 FAILURE, Halted 0, Ticked 1 SUCCESS, Halted 1,
       Ticked 0 SUCCESS, Halted 1, BaseHalted])"
    by (simp add: recovery_tick_def recovery_loop.simps recovery_new_def recovery_halt_def)
  show ?thesis using i h recovery_tick_spec [OF h i] by simp
qed

text \<open>
  An activation: the parent ticks the node again as long as it answers RUNNING (at most \<open>k\<close>
  times). The retry budget holds over the whole activation, however the ticks are split.
\<close>

fun recovery_ticks ::
  "'env framework \<Rightarrow> nat \<Rightarrow> nat \<Rightarrow> recovery_node \<Rightarrow> 'env \<Rightarrow> tick_result \<times> recovery_node \<times> 'env" where
  "recovery_ticks fw port 0 s env = (Inr RUNNING, s, env)"
| "recovery_ticks fw port (Suc k) s env =
    (case recovery_tick fw 2 (Some port) s env of
       (Inr RUNNING, s', env') \<Rightarrow> recovery_ticks fw port k s' env'
     | r \<Rightarrow> r)"

lemma recoveries_le_child1: "recoveries ts \<le> length (filter (\<lambda>t. fst t = 1) ts)"
  unfolding recoveries_def by (induction ts) auto

lemma recoveries_append [simp]: "recoveries (xs @ ys) = recoveries xs + recoveries ys"
  by (simp add: recoveries_def)

lemma recovery_tick_budget:
  assumes "recovery_tick (logged fw) 2 (Some N) s (env, lg) = (r, s', env', lg')"
    and "recovery_inv s" "rn_number_of_retries s = N"
  shows "\<exists>ev. lg' = lg @ ev \<and> recovery_inv s' \<and> rn_number_of_retries s' = N \<and>
    rn_retry_count s + recoveries (ticks ev) \<le> N \<and>
    (r = Inr RUNNING \<longrightarrow> rn_retry_count s' = rn_retry_count s + recoveries (ticks ev))"
proof -
  have "s\<lparr>rn_number_of_retries := N\<rparr> = s" using assms(3) by simp
  with assms(1) have "recovery_loop (logged fw) s
      (setStatus fw RUNNING env, lg @ [StatusSet RUNNING]) = (r, s', env', lg')"
    by (simp add: recovery_tick_def)
  from recovery_loop_post [OF this assms(2)] obtain ev where ev:
    "lg' = lg @ [StatusSet RUNNING] @ ev" "recovery_inv s'" "rn_number_of_retries s' = N"
    "recovery_bounded s (ticks ev)" "\<forall>st. r = Inr st \<longrightarrow> recovery_outcome s st s' (ticks ev)"
    using assms(3) by auto
  have "rn_retry_count s + recoveries (ticks ev) \<le> N"
    using ev(4) recoveries_le_child1 [of "ticks ev"] assms(2,3)
    by (auto simp: recovery_bounded_def recovery_inv_def)
  with ev show ?thesis
    by (intro exI [of _ "StatusSet RUNNING # ev"]) (auto simp: recovery_outcome_def)
qed

lemma recovery_ticks_budget:
  assumes "recovery_ticks (logged fw) N k s (env, lg) = (r, s', env', lg')"
    and "recovery_inv s" "rn_number_of_retries s = N"
  shows "\<exists>ev. lg' = lg @ ev \<and> rn_retry_count s + recoveries (ticks ev) \<le> N"
  using assms
proof (induction k arbitrary: s env lg)
  case 0
  then show ?case by (auto simp: recovery_inv_def recoveries_def)
next
  case (Suc k)
  obtain r1 s1 env1 lg1 where t:
    "recovery_tick (logged fw) 2 (Some N) s (env, lg) = (r1, s1, env1, lg1)"
    by (metis prod.exhaust)
  obtain ev where ev: "lg1 = lg @ ev" "recovery_inv s1" "rn_number_of_retries s1 = N"
    "rn_retry_count s + recoveries (ticks ev) \<le> N"
    "r1 = Inr RUNNING \<longrightarrow> rn_retry_count s1 = rn_retry_count s + recoveries (ticks ev)"
    using recovery_tick_budget [OF t Suc.prems(2,3)] by auto
  show ?case
  proof (cases "r1 = Inr RUNNING")
    case True
    with Suc.prems(1) t have "recovery_ticks (logged fw) N k s1 (env1, lg1) = (r, s', env', lg')"
      by simp
    from Suc.IH [OF this ev(2,3)] ev True show ?thesis by fastforce
  next
    case False
    with Suc.prems(1) t have "lg' = lg1" by (auto split: sum.splits NodeStatus.splits)
    with ev show ?thesis by auto
  qed
qed



section \<open>RoundRobin: which children are tried, and the answer\<close>

text \<open>
  Between ticks the index names a child and fewer than \<open>n\<close> children have failed.
  \<open>cyclic_from n i is\<close>: the indices \<open>is\<close> run cyclically from \<open>i\<close>. \<open>rr_outcome\<close> ties the answer
  to the statuses seen; its last disjunct is the early exit at the last child when
  wrap-around is off.
\<close>

definition round_robin_inv :: "nat \<Rightarrow> round_robin_node \<Rightarrow> bool" where
  "round_robin_inv n s \<longleftrightarrow>
     n = 0 \<or> rr_current_child_idx s < n \<and> rr_num_failed_children s < n"

abbreviation tried :: "nat \<times> NodeStatus \<Rightarrow> bool" where
  "tried t \<equiv> snd t = FAILURE \<or> snd t = SKIPPED"

definition cyclic_from :: "nat \<Rightarrow> nat \<Rightarrow> nat list \<Rightarrow> bool" where
  "cyclic_from n i is \<longleftrightarrow> is = map (\<lambda>k. (i + k) mod n) [0..<length is]"

lemma cyclic_from_Cons:
  assumes "i < n" "cyclic_from n (Suc i mod n) is"
  shows "cyclic_from n i (i # is)"
proof -
  have "map (\<lambda>k. (Suc i mod n + k) mod n) [0..<length is] = map (\<lambda>k. (i + Suc k) mod n) [0..<length is]"
    by (simp add: mod_simps)
  with assms show ?thesis by (auto simp: cyclic_from_def map_upt_Suc simp del: upt_Suc)
qed

lemma cyclic_from_Nil [simp]: "cyclic_from n i []"
  by (simp add: cyclic_from_def)

lemma cyclic_from_single [simp]: "i < n \<Longrightarrow> cyclic_from n i [i]"
  by (simp add: cyclic_from_def)

definition rr_outcome ::
  "nat \<Rightarrow> nat \<Rightarrow> round_robin_node \<Rightarrow> NodeStatus \<Rightarrow> round_robin_node \<Rightarrow> (nat \<times> NodeStatus) list \<Rightarrow> bool" where
  "rr_outcome n k s st s' ts \<longleftrightarrow>
     list_all tried (butlast ts) \<and>
     (case st of
        SUCCESS \<Rightarrow> ts \<noteq> [] \<and> snd (last ts) = SUCCESS \<and> rr_num_failed_children s' = 0 \<and>
          rr_current_child_idx s' = Suc (fst (last ts)) mod n \<and>
          (rr_wrap_around s \<or> Suc (fst (last ts)) < n)
      | RUNNING \<Rightarrow> ts \<noteq> [] \<and> last ts = (rr_current_child_idx s', RUNNING)
      | IDLE \<Rightarrow> False
      | _ \<Rightarrow> rr_current_child_idx s' = 0 \<and> rr_num_failed_children s' = 0 \<and>
          (st = SKIPPED \<longleftrightarrow> k + length (filter (\<lambda>t. snd t = SKIPPED) ts) = n) \<and>
          (list_all tried ts \<and> rr_num_failed_children s + k + length ts = n \<or>
           \<not> rr_wrap_around s \<and> ts \<noteq> [] \<and> Suc (fst (last ts)) = n \<and> snd (last ts) \<noteq> RUNNING))"

lemma rr_outcome_Cons:
  assumes "rr_outcome n (if snd t = SKIPPED then k + 1 else k) s1 st s' ts" "tried t"
    and "rr_num_failed_children s1 = rr_num_failed_children s + (if snd t = FAILURE then 1 else 0)"
    and "rr_wrap_around s1 = rr_wrap_around s"
  shows "rr_outcome n k s st s' (t # ts)"
  using assms by (auto simp: rr_outcome_def split: NodeStatus.splits if_splits)

lemma rr_next_idx:
  "i < n \<Longrightarrow> (if Suc i = n then 0 else Suc i) = Suc i mod n"
  by auto

lemma round_robin_loop_post:
  assumes "round_robin_loop (logged fw) n k s (env, lg) = (r, s', env', lg')"
    and "rr_num_failed_children s + k \<le> n" "n = 0 \<or> rr_current_child_idx s < n"
  shows "\<exists>ev. lg' = lg @ ev \<and> round_robin_inv n s' \<and> rr_wrap_around s' = rr_wrap_around s \<and>
    r \<noteq> Inl UndefinedBehaviour \<and>
    cyclic_from n (rr_current_child_idx s) (map fst (ticks ev)) \<and>
    rr_num_failed_children s + k + length (ticks ev) \<le> n \<and>
    (\<forall>st. r = Inr st \<longrightarrow> rr_outcome n k s st s' (ticks ev))"
  using assms
proof (induction "n - (rr_num_failed_children s + k)" arbitrary: k s env lg rule: less_induct)
  case less
  note eq = less.prems(1) [unfolded round_robin_loop.simps [of _ n k s]]
  note defs = rr_outcome_def round_robin_inv_def round_robin_finish_def round_robin_halt_def
  let ?i = "rr_current_child_idx s"
  show ?case
  proof (cases "rr_num_failed_children s + k < n")
    case False
    with eq less.prems(2) show ?thesis
      by (intro exI [of _ "[BaseHalted]"]) (auto simp: defs)
  next
    case guard: True
    with less.prems(3) have i: "?i < n" by auto
    show ?thesis
    proof (cases rule: logged_tick_cases [of fw ?i env lg])
      case (threw env1)
      with eq guard i show ?thesis by (auto simp: defs)
    next
      case (returned st1 env1)
      show ?thesis
      proof (cases "(st1 = FAILURE \<or> st1 = SKIPPED) \<and> (Suc ?i < n \<or> rr_wrap_around s)")
        case True
        define k1 where "k1 = (if st1 = SKIPPED then k + 1 else k)"
        define s1 where "s1 = s\<lparr>rr_current_child_idx := Suc ?i mod n,
          rr_num_failed_children := rr_num_failed_children s + (if st1 = FAILURE then 1 else 0)\<rparr>"
        have r: "round_robin_loop (logged fw) n k1 s1 (env1, lg @ [Ticked ?i st1]) = (r, s', env', lg')"
          using eq guard i returned True by (auto simp: k1_def s1_def Let_def split: if_splits)
        have m: "n - (rr_num_failed_children s1 + k1) < n - (rr_num_failed_children s + k)"
          "rr_num_failed_children s1 + k1 \<le> n" "n = 0 \<or> rr_current_child_idx s1 < n"
          using True guard by (auto simp: k1_def s1_def)
        obtain ev where ev: "lg' = (lg @ [Ticked ?i st1]) @ ev" "round_robin_inv n s'"
          "rr_wrap_around s' = rr_wrap_around s1" "r \<noteq> Inl UndefinedBehaviour"
          "cyclic_from n (rr_current_child_idx s1) (map fst (ticks ev))"
          "rr_num_failed_children s1 + k1 + length (ticks ev) \<le> n"
          "\<forall>st. r = Inr st \<longrightarrow> rr_outcome n k1 s1 st s' (ticks ev)"
          using less.hyps [OF m(1) r m(2,3)] by auto
        have "\<forall>st. r = Inr st \<longrightarrow> rr_outcome n k s st s' ((?i, st1) # ticks ev)"
        proof (intro allI impI)
          fix st assume "r = Inr st"
          with ev(7) have "rr_outcome n k1 s1 st s' (ticks ev)" by simp
          then show "rr_outcome n k s st s' ((?i, st1) # ticks ev)"
            using True
            by (intro rr_outcome_Cons [of n "(?i, st1)" k s1]) (auto simp: k1_def s1_def)
        qed
        moreover have "cyclic_from n ?i (?i # map fst (ticks ev))"
          using ev(5) i by (intro cyclic_from_Cons) (simp_all add: s1_def)
        ultimately show ?thesis
          using ev True
          by (intro exI [of _ "Ticked ?i st1 # ev"]) (auto simp: k1_def s1_def)
      next
        case False
        with eq guard i returned show ?thesis
          by (cases st1) (auto simp: defs Let_def split: if_splits)
      qed
    qed
  qed
qed


text \<open>
  With wrap-around off, the port's default, a
  tick in which the last child returns SUCCESS answers FAILURE: the early exit at the end of
  the list is taken before the answer of the child is looked at.
\<close>

theorem round_robin_last_child_success_lost:
  assumes "executeTick fw (n - 1) (setStatus fw RUNNING env) = (Some SUCCESS, env')"
    and "rr_current_child_idx s = n - 1" "rr_num_failed_children s < n" "\<not> rr_wrap_around s"
  shows "round_robin_tick fw n s env =
    (Inr FAILURE, s\<lparr>rr_current_child_idx := 0, rr_num_failed_children := 0\<rparr>, baseHalt fw env')"
proof -
  from assms(3) have "0 < n" "Suc (n - 1) = n" by auto
  with assms show ?thesis
    by (simp add: round_robin_tick_def round_robin_loop.simps [of fw n 0 s] Let_def
        round_robin_finish_def round_robin_halt_def)
qed

theorem round_robin_last_child_success_lost_witness:
  "round_robin_tick scripted 2
     \<lparr>rr_current_child_idx = 1, rr_num_failed_children = 0, rr_wrap_around = False\<rparr> [SUCCESS] =
     (Inr FAILURE, \<lparr>rr_current_child_idx = 0, rr_num_failed_children = 0, rr_wrap_around = False\<rparr>, [])"
  using round_robin_last_child_success_lost [of scripted 2 "[SUCCESS]" "[]"
    "\<lparr>rr_current_child_idx = 1, rr_num_failed_children = 0, rr_wrap_around = False\<rparr>"]
  by simp

end
