(* ===== verification/BT_Pause.thy ===== *)
theory BT_Pause
  imports BT_Core
begin

text \<open>
  PauseResumeController (plugins/control/pause_resume_controller): a control node with one to
  four children, switched by two ROS services. The service callbacks run inside
  \<open>executor_->spin_some()\<close>, so a tick takes the list of requests served in it. The state
  machine of the node is \<open>pr_step\<close>; its safety property is an instance of \<open>safe_system\<close>.
\<close>

section \<open>State and operations\<close>

datatype state_t = RESUMED | PAUSED | PAUSE_REQUESTED | ON_PAUSE | RESUME_REQUESTED | ON_RESUME

fun child_indices :: "state_t \<Rightarrow> nat option" where
  "child_indices RESUMED = Some 0"
| "child_indices PAUSED = Some 1"
| "child_indices ON_PAUSE = Some 2"
| "child_indices ON_RESUME = Some 3"
| "child_indices _ = None"

fun next_states :: "state_t \<Rightarrow> state_t option" where
  "next_states PAUSE_REQUESTED = Some ON_PAUSE"
| "next_states ON_PAUSE = Some PAUSED"
| "next_states RESUME_REQUESTED = Some ON_RESUME"
| "next_states ON_RESUME = Some RESUMED"
| "next_states _ = None"

text \<open>\<open>std::map::at\<close> throws when the key is absent: \<open>None\<close>.\<close>

definition switchToNextState :: "state_t \<Rightarrow> state_t option" where
  "switchToNextState st = (if st = PAUSED \<or> st = RESUMED then Some st else next_states st)"

record trigger_response =
  success :: bool
  message :: string

definition pauseServiceCallback :: "state_t \<Rightarrow> state_t \<times> trigger_response" where
  "pauseServiceCallback st =
    (if st \<noteq> PAUSED then (PAUSE_REQUESTED, \<lparr>success = True, message = []\<rparr>)
     else (st, \<lparr>success = False,
       message = ''PauseResumeController BT node already in state PAUSED''\<rparr>))"

definition resumeServiceCallback :: "state_t \<Rightarrow> state_t \<times> trigger_response" where
  "resumeServiceCallback st =
    (if st = PAUSED then (RESUME_REQUESTED, \<lparr>success = True, message = []\<rparr>)
     else (st, \<lparr>success = False,
       message = ''PauseResumeController BT node not in state PAUSED''\<rparr>))"

datatype pr_request = PauseSrv | ResumeSrv

fun serve :: "pr_request \<Rightarrow> state_t \<Rightarrow> state_t" where
  "serve PauseSrv st = fst (pauseServiceCallback st)"
| "serve ResumeSrv st = fst (resumeServiceCallback st)"

definition pause_resume_halt :: "'env framework \<Rightarrow> state_t \<Rightarrow> 'env \<Rightarrow> state_t \<times> 'env" where
  "pause_resume_halt fw st env = (RESUMED, baseHalt fw env)"

text \<open>The part of \<open>tick\<close> after the requests were served and a requested switch was made.\<close>

definition pause_resume_tick_child ::
  "'env framework \<Rightarrow> nat \<Rightarrow> state_t \<Rightarrow> 'env \<Rightarrow> tick_result \<times> state_t \<times> 'env" where
  "pause_resume_tick_child fw n st env =
    (let switch = (\<lambda>r env. case switchToNextState st of
           None \<Rightarrow> (Inl OutOfRange, st, env) | Some st' \<Rightarrow> (r, st', env)) in
     case child_indices st of
       None \<Rightarrow> (Inl OutOfRange, st, env)
     | Some child_idx \<Rightarrow>
         (if n \<le> child_idx then switch (Inr RUNNING) env
          else case executeTick fw child_idx env of
            (None, env') \<Rightarrow> (Inl ChildThrew, st, env')
          | (Some RUNNING, env') \<Rightarrow> (Inr RUNNING, st, env')
          | (Some FAILURE, env') \<Rightarrow> (Inr FAILURE, st, env')
          | (Some IDLE, env') \<Rightarrow> (Inl RuntimeError, st, env')
          | (Some _, env') \<Rightarrow>
              (if st = RESUMED then (Inr SUCCESS, st, env') else switch (Inr RUNNING) env')))"

definition pause_resume_tick ::
  "'env framework \<Rightarrow> nat \<Rightarrow> pr_request list \<Rightarrow> state_t \<Rightarrow> 'env
    \<Rightarrow> tick_result \<times> state_t \<times> 'env" where
  "pause_resume_tick fw n reqs st env =
    (if n < 1 \<or> 4 < n then (Inl RuntimeError, st, env)
     else
       let st0 = (if nodeStatus fw env = IDLE then RESUMED else st);
           env0 = setStatus fw RUNNING env;
           st1 = fold serve reqs st0
       in if st1 = PAUSE_REQUESTED \<or> st1 = RESUME_REQUESTED then
            (case switchToNextState st1 of
               None \<Rightarrow> (Inl OutOfRange, st1, resetChildren fw env0)
             | Some st2 \<Rightarrow> pause_resume_tick_child fw n st2 (resetChildren fw env0))
          else pause_resume_tick_child fw n st1 env0)"

section \<open>The node as a state machine\<close>

text \<open>
  A step is a tick of the node while it is not idle (it was neither halted nor finished since
  the last tick), serving pause requests only; the environment carries the log of calls.
\<close>

inductive pr_step ::
  "'env framework \<Rightarrow> nat \<Rightarrow> state_t \<times> 'env \<times> bt_event list \<Rightarrow> pr_request list
    \<Rightarrow> state_t \<times> 'env \<times> bt_event list \<Rightarrow> bool"
  for fw :: "'env framework" and n :: nat where
  pr_tick: "nodeStatus fw env \<noteq> IDLE \<Longrightarrow> ResumeSrv \<notin> set reqs \<Longrightarrow>
    pause_resume_tick (logged fw) n reqs st (env, lg) = (r, st', env', lg') \<Longrightarrow>
    pr_step fw n (st, env, lg) reqs (st', env', lg')"

inductive_cases pr_stepE: "pr_step fw n s reqs t"

definition pausing :: "state_t \<Rightarrow> bool" where
  "pausing st \<longleftrightarrow> st = PAUSE_REQUESTED \<or> st = ON_PAUSE \<or> st = PAUSED"

definition pr_safe :: "state_t \<times> 'env \<times> bt_event list \<Rightarrow> bool" where
  "pr_safe s \<longleftrightarrow> pausing (fst s) \<and> tick_count 0 (snd (snd s)) = 0"

lemma serve_pausing: "ResumeSrv \<notin> set reqs \<Longrightarrow> pausing st \<Longrightarrow> pausing (fold serve reqs st)"
proof (induction reqs arbitrary: st)
  case (Cons q reqs)
  then show ?case
    by (cases q) (auto simp: pausing_def pauseServiceCallback_def)
qed simp

lemma switch_pausing: "pausing st \<Longrightarrow> \<exists>st'. switchToNextState st = Some st' \<and> pausing st' \<and> st' \<noteq> PAUSE_REQUESTED"
  by (auto simp: pausing_def switchToNextState_def)

lemma tick_child_pausing:
  assumes "pausing st" "st \<noteq> PAUSE_REQUESTED"
    and "pause_resume_tick_child (logged fw) n st (env, lg) = (r, st', env', lg')"
  shows "pausing st' \<and> tick_count 0 lg' = tick_count 0 lg \<and> r \<noteq> Inl OutOfRange"
proof -
  from assms(1,2) have st: "st = ON_PAUSE \<or> st = PAUSED" by (auto simp: pausing_def)
  then obtain c where c: "child_indices st = Some c" "c \<noteq> 0" by auto
  show ?thesis
  proof (cases rule: logged_tick_cases [of fw c env lg])
    case (threw env1)
    with assms(3) st c show ?thesis
      by (auto simp: pause_resume_tick_child_def pausing_def switchToNextState_def split: if_splits)
  next
    case (returned s env1)
    with assms(3) st c show ?thesis
      by (cases s) (auto simp: pause_resume_tick_child_def pausing_def switchToNextState_def
        split: if_splits)
  qed
qed

lemma tick_pausing:
  assumes "pausing st" "ResumeSrv \<notin> set reqs" "nodeStatus fw env \<noteq> IDLE"
    and "pause_resume_tick (logged fw) n reqs st (env, lg) = (r, st', env', lg')"
  shows "pausing st' \<and> tick_count 0 lg' = tick_count 0 lg"
proof -
  have p: "pausing (fold serve reqs st)" using assms(1,2) by (rule serve_pausing [rotated])
  show ?thesis
  proof (cases "fold serve reqs st = PAUSE_REQUESTED")
    case True
    then obtain st2 where "switchToNextState (fold serve reqs st) = Some st2"
      "pausing st2" "st2 \<noteq> PAUSE_REQUESTED"
      using switch_pausing [OF p] by auto
    with assms True show ?thesis
      by (auto simp: pause_resume_tick_def Let_def split: if_splits dest!: tick_child_pausing [rotated 2])
  next
    case False
    moreover have "fold serve reqs st \<noteq> RESUME_REQUESTED" using p by (auto simp: pausing_def)
    ultimately show ?thesis
      using assms p
      by (auto simp: pause_resume_tick_def Let_def split: if_splits dest!: tick_child_pausing [rotated 2])
  qed
qed

interpretation pr: safe_system "pr_safe" "pr_step fw n" "pr_safe" for fw n
proof unfold_locales
  fix s e t assume "pr_safe s" "pr_step fw n s e t"
  then show "pr_safe t"
    by (auto simp: pr_safe_def elim!: pr_stepE dest: tick_pausing)
qed



section \<open>Errors and answers of a tick\<close>

lemma serve_requested:
  "switchToNextState st \<noteq> None"
  by (cases st) (auto simp: switchToNextState_def)

lemma tick_child_total:
  assumes "st \<noteq> PAUSE_REQUESTED" "st \<noteq> RESUME_REQUESTED"
    and "pause_resume_tick_child fw n st env = (r, st', env')"
  shows "r \<noteq> Inl OutOfRange \<and> st' \<noteq> PAUSE_REQUESTED \<and> st' \<noteq> RESUME_REQUESTED \<and>
    (r = Inr SUCCESS \<longrightarrow> st = RESUMED) \<and> r \<noteq> Inr SKIPPED \<and> r \<noteq> Inr IDLE"
  using assms
  by (cases st)
     (auto simp: pause_resume_tick_child_def switchToNextState_def Let_def
           split: if_splits option.splits NodeStatus.splits prod.splits)

text \<open>
  Whatever requests are served and whatever
  the state, a tick with one to four children never fails a lookup in \<open>child_indices\<close> or
  \<open>next_states\<close>, leaves no request pending, never answers SKIPPED or IDLE, and answers SUCCESS
  only from the RESUMED child.
\<close>

theorem pause_resume_tick_total:
  assumes "1 \<le> n" "n \<le> 4" "pause_resume_tick fw n reqs st env = (r, st', env')"
  shows "r \<noteq> Inl OutOfRange \<and> st' \<noteq> PAUSE_REQUESTED \<and> st' \<noteq> RESUME_REQUESTED \<and>
    (r = Inr SUCCESS \<longrightarrow> st' = RESUMED) \<and> r \<noteq> Inr SKIPPED \<and> r \<noteq> Inr IDLE"
proof -
  let ?st1 = "fold serve reqs (if nodeStatus fw env = IDLE then RESUMED else st)"
  have keep: "pause_resume_tick_child fw n st2 env2 = (Inr SUCCESS, st3, env3) \<Longrightarrow> st3 = st2"
    for st2 env2 st3 env3
    by (auto simp: pause_resume_tick_child_def Let_def
             split: if_splits option.splits NodeStatus.splits prod.splits)
  obtain st2 env2 where "pause_resume_tick_child fw n st2 env2 = (r, st', env')"
    "st2 \<noteq> PAUSE_REQUESTED" "st2 \<noteq> RESUME_REQUESTED"
  proof (cases "?st1 = PAUSE_REQUESTED \<or> ?st1 = RESUME_REQUESTED")
    case True
    then obtain st2 where "switchToNextState ?st1 = Some st2"
      "st2 \<noteq> PAUSE_REQUESTED" "st2 \<noteq> RESUME_REQUESTED"
      by (auto simp: switchToNextState_def)
    with assms True that show ?thesis by (auto simp: pause_resume_tick_def Let_def)
  next
    case False
    with assms that show ?thesis by (auto simp: pause_resume_tick_def Let_def)
  qed
  with tick_child_total [of st2 fw n env2 r st' env'] keep [of st2 env2 st' env'] show ?thesis
    by auto
qed

theorem pause_resume_tick_total_witness:
  "pause_resume_tick scripted 1 [PauseSrv] RESUMED [SUCCESS] = (Inr RUNNING, PAUSED, [SUCCESS]) \<and>
   PAUSED \<noteq> PAUSE_REQUESTED"
proof -
  have h: "pause_resume_tick scripted 1 [PauseSrv] RESUMED [SUCCESS] = (Inr RUNNING, PAUSED, [SUCCESS])"
    by (simp add: pause_resume_tick_def pause_resume_tick_child_def switchToNextState_def
        pauseServiceCallback_def)
  show ?thesis using h pause_resume_tick_total [OF _ _ h] by simp
qed

end
