(* ===== verification/Action_Server.thy ===== *)
theory Action_Server
  imports Nav2_Prelude
begin

text \<open>
  nav2::SimpleActionServer (nav2_ros_common/simple_action_server.hpp). Goal handles belong to
  rclcpp_action, a library outside the repository: they are a record of operations on a
  world \<open>'w\<close>, and what the server relies on is \<open>handle_laws\<close> (a terminal transition makes its
  own handle inactive and no other). Every method below runs under \<open>update_mutex_\<close> in the
  source, so each is one atomic function on the server's fields; \<open>as_step\<close> interleaves them with the
  worker thread, whose position in \<open>work()\<close> is the program counter.
\<close>

section \<open>Goal handles and the server's fields\<close>

record ('r, 'w) handle_ops =
  h_is_active :: "nat \<Rightarrow> 'w \<Rightarrow> bool"
  h_is_canceling :: "nat \<Rightarrow> 'w \<Rightarrow> bool"
  h_abort :: "nat \<Rightarrow> 'r \<Rightarrow> 'w \<Rightarrow> 'w"
  h_canceled :: "nat \<Rightarrow> 'r \<Rightarrow> 'w \<Rightarrow> 'w"
  h_succeed :: "nat \<Rightarrow> 'r \<Rightarrow> 'w \<Rightarrow> 'w"
  empty_result :: 'r

definition finishes :: "('r, 'w) handle_ops \<Rightarrow> (nat \<Rightarrow> 'r \<Rightarrow> 'w \<Rightarrow> 'w) \<Rightarrow> bool" where
  "finishes H f \<longleftrightarrow>
     (\<forall>g r w. \<not> h_is_active H g (f g r w)) \<and>
     (\<forall>g g' r w. g' \<noteq> g \<longrightarrow> h_is_active H g' (f g r w) = h_is_active H g' w)"

definition handle_laws :: "('r, 'w) handle_ops \<Rightarrow> bool" where
  "handle_laws H \<longleftrightarrow>
     finishes H (h_abort H) \<and> finishes H (h_canceled H) \<and> finishes H (h_succeed H)"

text \<open>\<open>std::future<void>\<close>: no shared state, the worker still runs, the worker has returned.\<close>

datatype future_state = NoFuture | FutureTimeout | FutureReady

record 'w server =
  world :: 'w
  current_handle :: "nat option"
  pending_handle :: "nat option"
  preempt_requested :: bool
  server_active :: bool
  stop_execution :: bool
  execution_future :: future_state
  has_completion_callback :: bool
  completion_calls :: nat

datatype goal_response = REJECT | ACCEPT_AND_EXECUTE
datatype cancel_response = CANCEL_REJECT | CANCEL_ACCEPT

section \<open>The methods, in the order of the source\<close>

definition handle_goal :: "'w server \<Rightarrow> goal_response" where
  "handle_goal s = (if \<not> server_active s then REJECT else ACCEPT_AND_EXECUTE)"

definition handle_cancel :: "('r, 'w) handle_ops \<Rightarrow> nat \<Rightarrow> 'w server \<Rightarrow> cancel_response" where
  "handle_cancel H g s = (if \<not> h_is_active H g (world s) then CANCEL_REJECT else CANCEL_ACCEPT)"

definition is_active :: "('r, 'w) handle_ops \<Rightarrow> nat option \<Rightarrow> 'w server \<Rightarrow> bool" where
  "is_active H handle s = (case handle of None \<Rightarrow> False | Some g \<Rightarrow> h_is_active H g (world s))"

text \<open>
  \<open>terminate(handle, result)\<close> takes the handle by reference and resets it; the two uses are on
  \<open>current_handle_\<close> and \<open>pending_handle_\<close>, so the finished world and the new handle are
  returned.
\<close>

definition terminate_handle ::
  "('r, 'w) handle_ops \<Rightarrow> nat option \<Rightarrow> 'r \<Rightarrow> 'w \<Rightarrow> nat option \<times> 'w" where
  "terminate_handle H handle result w =
    (case handle of
       None \<Rightarrow> (None, w)
     | Some g \<Rightarrow>
         (if h_is_active H g w then
            (None, if h_is_canceling H g w then h_canceled H g result w else h_abort H g result w)
          else (handle, w)))"

definition terminate_current :: "('r, 'w) handle_ops \<Rightarrow> 'r \<Rightarrow> 'w server \<Rightarrow> 'w server" where
  "terminate_current H result s =
    (let (h, w) = terminate_handle H (current_handle s) result (world s)
     in s\<lparr>current_handle := h, world := w\<rparr>)"

definition terminate_pending :: "('r, 'w) handle_ops \<Rightarrow> 'r \<Rightarrow> 'w server \<Rightarrow> 'w server" where
  "terminate_pending H result s =
    (let (h, w) = terminate_handle H (pending_handle s) result (world s)
     in s\<lparr>pending_handle := h, world := w\<rparr>)"

definition is_running :: "'w server \<Rightarrow> bool" where
  "is_running s \<longleftrightarrow> execution_future s = FutureTimeout"

text \<open>\<open>handle_accepted\<close>: the last branch starts the worker thread with \<open>std::async\<close>.\<close>

definition handle_accepted :: "('r, 'w) handle_ops \<Rightarrow> nat \<Rightarrow> 'w server \<Rightarrow> 'w server" where
  "handle_accepted H g s =
    (if is_active H (current_handle s) s \<or> is_running s then
       (let s1 = (if is_active H (pending_handle s) s
                  then terminate_pending H (empty_result H) s else s)
        in s1\<lparr>pending_handle := Some g, preempt_requested := True\<rparr>)
     else
       (let s1 = (if is_active H (pending_handle s) s
                  then (terminate_pending H (empty_result H) s)\<lparr>preempt_requested := False\<rparr> else s)
        in s1\<lparr>current_handle := Some g, execution_future := FutureTimeout\<rparr>))"

definition activate :: "'w server \<Rightarrow> 'w server" where
  "activate s = s\<lparr>server_active := True, stop_execution := False\<rparr>"

definition terminate_all :: "('r, 'w) handle_ops \<Rightarrow> 'r \<Rightarrow> 'w server \<Rightarrow> 'w server" where
  "terminate_all H result s =
    (terminate_pending H result (terminate_current H result s))\<lparr>preempt_requested := False\<rparr>"

definition completion_callback :: "'w server \<Rightarrow> 'w server" where
  "completion_callback s =
    (if has_completion_callback s then s\<lparr>completion_calls := completion_calls s + 1\<rparr> else s)"

text \<open>
  \<open>deactivate\<close>: the flags are set under the lock, then the caller polls the future every
  100 ms; \<open>deactivate_poll\<close> is one round of that loop, \<open>overdue\<close> whether the timeout has passed. It
  returns whether the loop ends.
\<close>

definition deactivate_begin :: "'w server \<Rightarrow> 'w server" where
  "deactivate_begin s = s\<lparr>server_active := False, stop_execution := True\<rparr>"

definition deactivate_poll ::
  "('r, 'w) handle_ops \<Rightarrow> bool \<Rightarrow> 'w server \<Rightarrow> bool \<times> 'w server" where
  "deactivate_poll H overdue s =
    (if execution_future s \<noteq> FutureTimeout then (True, s)
     else (False,
       if overdue then completion_callback (terminate_all H (empty_result H) s) else s))"

definition is_server_active :: "'w server \<Rightarrow> bool" where
  "is_server_active s = server_active s"

definition is_preempt_requested :: "'w server \<Rightarrow> bool" where
  "is_preempt_requested s = preempt_requested s"

text \<open>The goal returned by the getters is named by its handle; the null pointer is \<open>None\<close>.\<close>

definition accept_pending_goal ::
  "('r, 'w) handle_ops \<Rightarrow> 'w server \<Rightarrow> nat option \<times> 'w server" where
  "accept_pending_goal H s =
    (case pending_handle s of
       None \<Rightarrow> (None, s)
     | Some p \<Rightarrow>
         (if \<not> h_is_active H p (world s) then (None, s)
          else
            let w = (case current_handle s of
                       None \<Rightarrow> world s
                     | Some c \<Rightarrow> (if h_is_active H c (world s) \<and> c \<noteq> p
                                 then h_abort H c (empty_result H) (world s) else world s))
            in (Some p, s\<lparr>world := w, current_handle := Some p, pending_handle := None,
                          preempt_requested := False\<rparr>)))"

definition terminate_pending_goal :: "('r, 'w) handle_ops \<Rightarrow> 'w server \<Rightarrow> 'w server" where
  "terminate_pending_goal H s =
    (if \<not> is_active H (pending_handle s) s then s
     else (terminate_pending H (empty_result H) s)\<lparr>preempt_requested := False\<rparr>)"

definition get_current_goal :: "('r, 'w) handle_ops \<Rightarrow> 'w server \<Rightarrow> nat option" where
  "get_current_goal H s = (if \<not> is_active H (current_handle s) s then None else current_handle s)"

text \<open>
  The identifier of a goal is its handle's number; the default-constructed \<open>GoalUUID\<close> is \<open>None\<close>.
  \<open>publish_feedback\<close> returns the handle the message is published on, if any.
\<close>

definition get_current_goal_id :: "('r, 'w) handle_ops \<Rightarrow> 'w server \<Rightarrow> nat option" where
  "get_current_goal_id H s = (if \<not> is_active H (current_handle s) s then None else current_handle s)"

definition publish_feedback :: "('r, 'w) handle_ops \<Rightarrow> 'f \<Rightarrow> 'w server \<Rightarrow> (nat \<times> 'f) option" where
  "publish_feedback H feedback s =
    (if \<not> is_active H (current_handle s) s then None
     else map_option (\<lambda>g. (g, feedback)) (current_handle s))"

definition get_pending_goal :: "('r, 'w) handle_ops \<Rightarrow> 'w server \<Rightarrow> nat option" where
  "get_pending_goal H s = (if \<not> is_active H (pending_handle s) s then None else pending_handle s)"

definition is_cancel_requested :: "('r, 'w) handle_ops \<Rightarrow> 'w server \<Rightarrow> bool" where
  "is_cancel_requested H s =
    (case current_handle s of
       None \<Rightarrow> False
     | Some c \<Rightarrow>
         (case pending_handle s of
            Some p \<Rightarrow> h_is_canceling H p (world s)
          | None \<Rightarrow> h_is_canceling H c (world s)))"

definition succeeded_current :: "('r, 'w) handle_ops \<Rightarrow> 'r \<Rightarrow> 'w server \<Rightarrow> 'w server" where
  "succeeded_current H result s =
    (case current_handle s of
       None \<Rightarrow> s
     | Some g \<Rightarrow>
         (if h_is_active H g (world s)
          then s\<lparr>world := h_succeed H g result (world s), current_handle := None\<rparr> else s))"

text \<open>
  \<open>work()\<close>: the test at the top of the loop, and what follows a return of \<open>execute_callback_\<close>
  (normal or by an exception). The boolean says whether the loop goes round again.
\<close>

definition work_guard :: "('r, 'w) handle_ops \<Rightarrow> bool \<Rightarrow> 'w server \<Rightarrow> bool" where
  "work_guard H ok s \<longleftrightarrow> ok \<and> \<not> stop_execution s \<and> is_active H (current_handle s) s"

definition work_after_callback ::
  "('r, 'w) handle_ops \<Rightarrow> bool \<Rightarrow> 'w server \<Rightarrow> bool \<times> 'w server" where
  "work_after_callback H threw s =
    (if threw \<or> stop_execution s then
       (False, completion_callback (terminate_all H (empty_result H) s))
     else
       (let s1 = (if is_active H (current_handle s) s
                  then completion_callback (terminate_current H (empty_result H) s) else s)
        in if is_active H (pending_handle s1) s1 then (True, snd (accept_pending_goal H s1))
           else (False, s1)))"

section \<open>The server with its worker thread and clients\<close>

text \<open>
  The worker is absent, at the top of the loop, inside \<open>execute_callback_\<close>, or past the loop
  but not yet returned (the future is not ready yet). \<open>accepted\<close> is the set of goals ever
  given to \<open>handle_accepted\<close>.
\<close>

datatype worker_pc = NoWorker | AtCheck | InCallback | Leaving

record 'w as_state =
  srv :: "'w server"
  pc :: worker_pc
  accepted :: "nat set"

datatype 'r as_event =
    Accept nat
  | Client
  | Check bool
  | AcceptPending
  | TerminatePending
  | TerminateCurrent 'r
  | TerminateAll 'r
  | Succeed 'r
  | CallbackReturns bool
  | WorkerReturns
  | Activate
  | Deactivate
  | DeactivatePoll bool

text \<open>
  \<open>Accept g\<close>: rclcpp_action hands over a new, active handle. \<open>Client\<close>: a client's request may mark a
  goal as canceling; it never makes a goal active or inactive. The goal operations are called
  by the execute callback, so only while the worker is in it.
\<close>

inductive as_step ::
  "('r, 'w) handle_ops \<Rightarrow> 'w as_state \<Rightarrow> 'r as_event \<Rightarrow> 'w as_state \<Rightarrow> bool"
  for H :: "('r, 'w) handle_ops" where
  as_accept: "g \<notin> accepted s \<Longrightarrow> h_is_active H g w' \<Longrightarrow>
    (\<forall>g'. g' \<noteq> g \<longrightarrow> h_is_active H g' w' = h_is_active H g' (world (srv s))) \<Longrightarrow>
    as_step H s (Accept g)
      (s\<lparr>srv := handle_accepted H g ((srv s)\<lparr>world := w'\<rparr>), accepted := insert g (accepted s),
         pc := (if pc s = NoWorker \<and>
                   is_running (handle_accepted H g ((srv s)\<lparr>world := w'\<rparr>)) then AtCheck else pc s)\<rparr>)"
| as_client: "(\<forall>g. h_is_active H g w' = h_is_active H g (world (srv s))) \<Longrightarrow>
    as_step H s Client (s\<lparr>srv := (srv s)\<lparr>world := w'\<rparr>\<rparr>)"
| as_check: "pc s = AtCheck \<Longrightarrow>
    as_step H s (Check ok) (s\<lparr>pc := (if work_guard H ok (srv s) then InCallback else Leaving)\<rparr>)"
| as_accept_pending: "pc s = InCallback \<Longrightarrow>
    as_step H s AcceptPending (s\<lparr>srv := snd (accept_pending_goal H (srv s))\<rparr>)"
| as_terminate_pending: "pc s = InCallback \<Longrightarrow>
    as_step H s TerminatePending (s\<lparr>srv := terminate_pending_goal H (srv s)\<rparr>)"
| as_terminate_current: "pc s = InCallback \<Longrightarrow>
    as_step H s (TerminateCurrent r) (s\<lparr>srv := terminate_current H r (srv s)\<rparr>)"
| as_terminate_all: "pc s = InCallback \<Longrightarrow>
    as_step H s (TerminateAll r) (s\<lparr>srv := terminate_all H r (srv s)\<rparr>)"
| as_succeed: "pc s = InCallback \<Longrightarrow>
    as_step H s (Succeed r) (s\<lparr>srv := succeeded_current H r (srv s)\<rparr>)"
| as_callback_returns: "pc s = InCallback \<Longrightarrow>
    as_step H s (CallbackReturns threw)
      (s\<lparr>srv := snd (work_after_callback H threw (srv s)),
         pc := (if fst (work_after_callback H threw (srv s)) then AtCheck else Leaving)\<rparr>)"
| as_worker_returns: "pc s = Leaving \<Longrightarrow>
    as_step H s WorkerReturns (s\<lparr>srv := (srv s)\<lparr>execution_future := FutureReady\<rparr>, pc := NoWorker\<rparr>)"
| as_activate: "as_step H s Activate (s\<lparr>srv := activate (srv s)\<rparr>)"
| as_deactivate: "as_step H s Deactivate (s\<lparr>srv := deactivate_begin (srv s)\<rparr>)"
| as_deactivate_poll:
    "as_step H s (DeactivatePoll overdue) (s\<lparr>srv := snd (deactivate_poll H overdue (srv s))\<rparr>)"

inductive_cases as_stepE: "as_step H s e t"

definition as_init :: "'w as_state \<Rightarrow> bool" where
  "as_init s \<longleftrightarrow> current_handle (srv s) = None \<and> pending_handle (srv s) = None \<and>
     \<not> preempt_requested (srv s) \<and> execution_future (srv s) = NoFuture \<and>
     pc s = NoWorker \<and> accepted s = {}"

section \<open>The invariant\<close>

text \<open>
  Both handles, when set, are active, accepted and different; every accepted goal that is
  still active is one of the two; a preemption is requested exactly while a goal is
  pending; the future is running exactly while the worker exists.
\<close>

definition handles_ok :: "('r, 'w) handle_ops \<Rightarrow> nat set \<Rightarrow> 'w server \<Rightarrow> bool" where
  "handles_ok H A s \<longleftrightarrow>
     (\<forall>g. current_handle s = Some g \<longrightarrow> g \<in> A \<and> h_is_active H g (world s)) \<and>
     (\<forall>g. pending_handle s = Some g \<longrightarrow> g \<in> A \<and> h_is_active H g (world s)) \<and>
     (\<forall>g \<in> A. h_is_active H g (world s) \<longrightarrow>
        current_handle s = Some g \<or> pending_handle s = Some g) \<and>
     (\<forall>g. current_handle s = Some g \<longrightarrow> pending_handle s \<noteq> Some g) \<and>
     (preempt_requested s \<longleftrightarrow> pending_handle s \<noteq> None)"

definition as_inv :: "('r, 'w) handle_ops \<Rightarrow> 'w as_state \<Rightarrow> bool" where
  "as_inv H s \<longleftrightarrow> handles_ok H (accepted s) (srv s) \<and>
     (execution_future (srv s) = FutureTimeout \<longleftrightarrow> pc s \<noteq> NoWorker)"

lemma handle_laws_active:
  assumes "handle_laws H"
  shows "h_is_active H g' (h_abort H g r w) \<longleftrightarrow> g' \<noteq> g \<and> h_is_active H g' w"
    and "h_is_active H g' (h_canceled H g r w) \<longleftrightarrow> g' \<noteq> g \<and> h_is_active H g' w"
    and "h_is_active H g' (h_succeed H g r w) \<longleftrightarrow> g' \<noteq> g \<and> h_is_active H g' w"
  using assms unfolding handle_laws_def finishes_def by metis+

lemma handles_okI:
  assumes "\<And>g. current_handle s = Some g \<Longrightarrow> g \<in> A \<and> h_is_active H g (world s)"
    and "\<And>g. pending_handle s = Some g \<Longrightarrow> g \<in> A \<and> h_is_active H g (world s)"
    and "\<And>g. g \<in> A \<Longrightarrow> h_is_active H g (world s) \<Longrightarrow>
      current_handle s = Some g \<or> pending_handle s = Some g"
    and "\<And>g. current_handle s = Some g \<Longrightarrow> pending_handle s \<noteq> Some g"
    and "preempt_requested s \<longleftrightarrow> pending_handle s \<noteq> None"
  shows "handles_ok H A s"
  using assms by (simp add: handles_ok_def)

lemma handles_okD:
  assumes "handles_ok H A s"
  shows "current_handle s = Some g \<Longrightarrow> g \<in> A \<and> h_is_active H g (world s)"
    and "pending_handle s = Some g \<Longrightarrow> g \<in> A \<and> h_is_active H g (world s)"
    and "g \<in> A \<Longrightarrow> h_is_active H g (world s) \<Longrightarrow>
      current_handle s = Some g \<or> pending_handle s = Some g"
    and "current_handle s = Some g \<Longrightarrow> pending_handle s \<noteq> Some g"
    and "preempt_requested s \<longleftrightarrow> pending_handle s \<noteq> None"
  using assms by (simp_all add: handles_ok_def)

lemma handles_ok_frame [simp]:
  "handles_ok H A (s\<lparr>execution_future := f\<rparr>) = handles_ok H A s"
  "handles_ok H A (s\<lparr>server_active := b\<rparr>) = handles_ok H A s"
  "handles_ok H A (s\<lparr>stop_execution := b\<rparr>) = handles_ok H A s"
  "handles_ok H A (s\<lparr>completion_calls := n\<rparr>) = handles_ok H A s"
  by (simp_all add: handles_ok_def)

text \<open>Under the invariant the two ways to finish a handle have simple effects.\<close>

lemma terminate_current_ok:
  assumes "handle_laws H" "handles_ok H A s"
  shows "handles_ok H A (terminate_current H r s)"
    and "current_handle (terminate_current H r s) = None"
    and "pending_handle (terminate_current H r s) = pending_handle s"
  using assms
  by (auto simp: terminate_current_def handles_ok_def terminate_handle_def split_beta
           handle_laws_active split: option.splits if_splits)

lemma terminate_pending_ok:
  assumes "handle_laws H" "handles_ok H A s"
  shows "handles_ok H A ((terminate_pending H r s)\<lparr>preempt_requested := False\<rparr>)"
    and "pending_handle (terminate_pending H r s) = None"
    and "current_handle (terminate_pending H r s) = current_handle s"
  using assms
  by (auto simp: terminate_pending_def handles_ok_def terminate_handle_def split_beta
           handle_laws_active split: option.splits if_splits)

lemma terminate_all_ok:
  assumes "handle_laws H" "handles_ok H A s"
  shows "handles_ok H A (terminate_all H r s)"
    and "current_handle (terminate_all H r s) = None"
    and "pending_handle (terminate_all H r s) = None"
  using terminate_current_ok [OF assms] terminate_pending_ok [OF assms(1) terminate_current_ok(1) [OF assms]]
  by (simp_all add: terminate_all_def)

lemma completion_callback_frame [simp]:
  "handles_ok H A (completion_callback s) = handles_ok H A s"
  "current_handle (completion_callback s) = current_handle s"
  "pending_handle (completion_callback s) = pending_handle s"
  "world (completion_callback s) = world s"
  "execution_future (completion_callback s) = execution_future s"
  "stop_execution (completion_callback s) = stop_execution s"
  by (simp_all add: completion_callback_def)

lemma terminate_frame [simp]:
  "execution_future (terminate_current H r s) = execution_future s"
  "execution_future (terminate_pending H r s) = execution_future s"
  "execution_future (terminate_all H r s) = execution_future s"
  by (auto simp: terminate_current_def terminate_pending_def terminate_all_def split_beta)

lemma accept_pending_future [simp]:
  "execution_future (snd (accept_pending_goal H s)) = execution_future s"
  by (auto simp: accept_pending_goal_def Let_def split: option.splits)

lemma accept_pending_goal_ok:
  assumes "handle_laws H" "handles_ok H A s"
  shows "handles_ok H A (snd (accept_pending_goal H s))"
  using assms
  by (auto simp: accept_pending_goal_def handles_ok_def Let_def handle_laws_active
           split: option.splits if_splits)

lemma succeeded_current_ok:
  assumes "handle_laws H" "handles_ok H A s"
  shows "handles_ok H A (succeeded_current H r s)"
    and "execution_future (succeeded_current H r s) = execution_future s"
  using assms
  by (auto simp: succeeded_current_def handles_ok_def handle_laws_active
           split: option.splits if_splits)

text \<open>The server after a handler has reported on its goal: no current goal, nothing lost.\<close>

definition settled :: "('r, 'w) handle_ops \<Rightarrow> nat set \<Rightarrow> 'w server \<Rightarrow> bool" where
  "settled H A s \<longleftrightarrow> handles_ok H A s \<and> current_handle s = None"

lemma settled_ops:
  assumes "handle_laws H" "handles_ok H A s"
  shows "settled H A (terminate_current H r s)" "settled H A (terminate_all H r s)" "settled H A (succeeded_current H r s)"
  using terminate_current_ok [OF assms] terminate_all_ok [OF assms] succeeded_current_ok [OF assms]
    handles_okD(1) [OF assms(2)]
  by (auto simp: settled_def) (auto simp: succeeded_current_def split: option.splits)

lemma terminate_pending_goal_ok:
  assumes "handle_laws H" "handles_ok H A s"
  shows "handles_ok H A (terminate_pending_goal H s)"
    and "execution_future (terminate_pending_goal H s) = execution_future s"
  using assms terminate_pending_ok [OF assms]
  by (auto simp: terminate_pending_goal_def)

lemma work_after_callback_ok:
  assumes "handle_laws H" "handles_ok H A s"
  shows "handles_ok H A (snd (work_after_callback H threw s))"
    and "execution_future (snd (work_after_callback H threw s)) = execution_future s"
  using assms terminate_all_ok [OF assms] terminate_current_ok [OF assms]
  by (auto simp: work_after_callback_def Let_def accept_pending_goal_ok)

text \<open>A new goal that is not yet known to the server.\<close>

lemma handles_ok_world_cong:
  assumes "\<And>g. g \<in> A \<Longrightarrow> h_is_active H g w' = h_is_active H g (world s)" "handles_ok H A s"
  shows "handles_ok H A (s\<lparr>world := w'\<rparr>)"
proof (rule handles_okI)
  fix g assume "current_handle (s\<lparr>world := w'\<rparr>) = Some g"
  then show "g \<in> A \<and> h_is_active H g (world (s\<lparr>world := w'\<rparr>))"
    using handles_okD(1) [OF assms(2)] assms(1) by simp
next
  fix g assume "pending_handle (s\<lparr>world := w'\<rparr>) = Some g"
  then show "g \<in> A \<and> h_is_active H g (world (s\<lparr>world := w'\<rparr>))"
    using handles_okD(2) [OF assms(2)] assms(1) by simp
qed (use handles_okD(3-5) [OF assms(2)] assms(1) in simp_all)

lemma put_pending_ok:
  assumes "handles_ok H A s" "pending_handle s = None" "g \<notin> A" "h_is_active H g (world s)"
  shows "handles_ok H (insert g A) (s\<lparr>pending_handle := Some g, preempt_requested := True\<rparr>)"
proof (rule handles_okI, goal_cases)
  case (1 h)
  then show ?case using handles_okD(1) [OF assms(1)] by simp
next
  case (2 h)
  then show ?case using assms(4) by simp
next
  case (3 h)
  then show ?case using handles_okD(3) [OF assms(1), of h] assms(2) by auto
next
  case (4 h)
  then show ?case using handles_okD(1) [OF assms(1), of h] assms(3) by auto
qed simp

lemma put_current_ok:
  assumes "handles_ok H A s" "current_handle s = None" "g \<notin> A" "h_is_active H g (world s)"
  shows "handles_ok H (insert g A) (s\<lparr>current_handle := Some g\<rparr>)"
proof (rule handles_okI, goal_cases)
  case (1 h)
  then show ?case using assms(4) by simp
next
  case (2 h)
  then show ?case using handles_okD(2) [OF assms(1)] by simp
next
  case (3 h)
  then show ?case using handles_okD(3) [OF assms(1), of h] assms(2) by auto
next
  case (4 h)
  then show ?case using handles_okD(2) [OF assms(1), of h] assms(3) by auto
next
  case 5
  then show ?case using handles_okD(5) [OF assms(1)] by simp
qed

lemma inactive_handle_None:
  assumes "handles_ok H A s"
  shows "\<not> is_active H (current_handle s) s \<Longrightarrow> current_handle s = None"
    and "\<not> is_active H (pending_handle s) s \<Longrightarrow> pending_handle s = None"
  using handles_okD(1,2) [OF assms] by (auto simp: is_active_def split: option.splits)

lemma handle_accepted_ok:
  assumes "handle_laws H" "handles_ok H A s" "g \<notin> A" "h_is_active H g (world s)"
  shows "handles_ok H (insert g A) (handle_accepted H g s)"
proof (cases "is_active H (pending_handle s) s")
  case True
  let ?t = "(terminate_pending H (empty_result H) s)\<lparr>preempt_requested := False\<rparr>"
  have t: "handles_ok H A ?t" "pending_handle ?t = None" "current_handle ?t = current_handle s"
    using terminate_pending_ok [OF assms(1,2)] by auto
  have g: "h_is_active H g (world ?t)"
    using assms handles_okD(2) [OF assms(2)]
    by (auto simp: terminate_pending_def terminate_handle_def handle_laws_active
             split: option.splits)
  show ?thesis
    using put_pending_ok [OF t(1,2) assms(3) g] put_current_ok [OF t(1) _ assms(3) g]
      inactive_handle_None(1) [OF assms(2)] True t(3)
    by (auto simp: handle_accepted_def Let_def)
next
  case False
  then show ?thesis
    using put_pending_ok [OF assms(2) _ assms(3,4)] put_current_ok [OF assms(2) _ assms(3,4)]
      inactive_handle_None [OF assms(2)]
    by (auto simp: handle_accepted_def Let_def)
qed

lemma handle_accepted_future:
  "execution_future (handle_accepted H g s) = FutureTimeout \<or>
   execution_future (handle_accepted H g s) = execution_future s"
  by (auto simp: handle_accepted_def Let_def)

lemma as_step_inv:
  assumes "handle_laws H" "as_inv H s" "as_step H s e t"
  shows "as_inv H t"
proof -
  have ok: "handles_ok H (accepted s) (srv s)"
    and fut: "execution_future (srv s) = FutureTimeout \<longleftrightarrow> pc s \<noteq> NoWorker"
    using assms(2) by (auto simp: as_inv_def)
  note ops = accept_pending_goal_ok [OF assms(1) ok] succeeded_current_ok [OF assms(1) ok]
    terminate_pending_goal_ok [OF assms(1) ok] work_after_callback_ok [OF assms(1) ok]
    terminate_current_ok(1) [OF assms(1) ok] terminate_all_ok(1) [OF assms(1) ok]
  from assms(3) show ?thesis
  proof cases
    case (as_accept g w')
    have "handles_ok H (accepted s) ((srv s)\<lparr>world := w'\<rparr>)"
      using as_accept ok by (intro handles_ok_world_cong) auto
    then have "handles_ok H (insert g (accepted s)) (handle_accepted H g ((srv s)\<lparr>world := w'\<rparr>))"
      using assms(1) as_accept by (intro handle_accepted_ok) auto
    with as_accept fut handle_accepted_future [of H g "(srv s)\<lparr>world := w'\<rparr>"] show ?thesis
      by (auto simp: as_inv_def is_running_def)
  next
    case (as_client w')
    then show ?thesis using ok fut by (auto simp: as_inv_def intro: handles_ok_world_cong)
  next
    case as_activate
    then show ?thesis using ok fut by (simp add: as_inv_def activate_def)
  next
    case as_deactivate
    then show ?thesis using ok fut by (simp add: as_inv_def deactivate_begin_def)
  next
    case as_deactivate_poll
    then show ?thesis using ok fut ops by (simp add: as_inv_def deactivate_poll_def)
  qed (use ok fut ops in \<open>simp_all add: as_inv_def\<close>)
qed

interpretation asys: safe_system as_init "as_step H" "\<lambda>s. handle_laws H \<longrightarrow> as_inv H s" for H
proof unfold_locales
  show "as_init s \<Longrightarrow> handle_laws H \<longrightarrow> as_inv H s" for s
    by (auto simp: as_init_def as_inv_def handles_ok_def)
qed (auto dest: as_step_inv)

section \<open>A reference instance of the goal handles\<close>

text \<open>
  The goal state machine documented for ROS 2 actions: a goal is executing or canceling until
  one terminal transition; a terminal state is never left.
\<close>

datatype goal_state = EXECUTING | CANCELING | SUCCEEDED | CANCELED | ABORTED

type_synonym ros_world = "nat \<Rightarrow> goal_state option"

definition ros_active :: "nat \<Rightarrow> ros_world \<Rightarrow> bool" where
  "ros_active g w \<longleftrightarrow> w g = Some EXECUTING \<or> w g = Some CANCELING"

definition ros_handles :: "(unit, ros_world) handle_ops" where
  "ros_handles = \<lparr>h_is_active = ros_active,
     h_is_canceling = (\<lambda>g w. w g = Some CANCELING),
     h_abort = (\<lambda>g r w. if ros_active g w then w(g \<mapsto> ABORTED) else w),
     h_canceled = (\<lambda>g r w. if w g = Some CANCELING then w(g \<mapsto> CANCELED)
                           else if ros_active g w then w(g \<mapsto> ABORTED) else w),
     h_succeed = (\<lambda>g r w. if ros_active g w then w(g \<mapsto> SUCCEEDED) else w),
     empty_result = ()\<rparr>"

lemma ros_handles_laws: "handle_laws ros_handles"
  by (auto simp: handle_laws_def finishes_def ros_handles_def ros_active_def)

definition ros_initial :: "ros_world as_state" where
  "ros_initial = \<lparr>srv = \<lparr>world = Map.empty, current_handle = None, pending_handle = None,
      preempt_requested = False, server_active = True, stop_execution = False,
      execution_future = NoFuture, has_completion_callback = True, completion_calls = 0\<rparr>,
      pc = NoWorker, accepted = {}\<rparr>"

lemma ros_initial_init: "as_init ros_initial"
  by (simp add: as_init_def ros_initial_def)

text \<open>The state after the first goal was accepted, built by the model's own operation.\<close>

definition ros_one_goal :: "ros_world as_state" where
  "ros_one_goal = \<lparr>srv = handle_accepted ros_handles 1
       ((srv ros_initial)\<lparr>world := [1 \<mapsto> EXECUTING]\<rparr>), pc = AtCheck, accepted = {1}\<rparr>"

lemma ros_one_goal_fields:
  "srv ros_one_goal = (srv ros_initial)\<lparr>world := [1 \<mapsto> EXECUTING], current_handle := Some 1,
     execution_future := FutureTimeout\<rparr>"
  "pc ros_one_goal = AtCheck" "accepted ros_one_goal = {1}"
  by (simp_all add: ros_one_goal_def handle_accepted_def is_active_def is_running_def
       ros_initial_def)

lemma ros_one_goal_reach: "reach as_init (as_step ros_handles) ros_one_goal"
proof -
  have "as_step ros_handles ros_initial (Accept 1)
     (ros_initial\<lparr>srv := handle_accepted ros_handles 1 ((srv ros_initial)\<lparr>world := [1 \<mapsto> EXECUTING]\<rparr>),
        accepted := insert 1 (accepted ros_initial),
        pc := (if pc ros_initial = NoWorker \<and> is_running (handle_accepted ros_handles 1
                  ((srv ros_initial)\<lparr>world := [1 \<mapsto> EXECUTING]\<rparr>)) then AtCheck else pc ros_initial)\<rparr>)"
    by (rule as_accept) (auto simp: ros_initial_def ros_handles_def ros_active_def)
  moreover have "is_running (srv ros_one_goal)"
    by (simp add: ros_one_goal_fields is_running_def)
  ultimately have "as_step ros_handles ros_initial (Accept 1) ros_one_goal"
    by (simp add: ros_one_goal_def) (simp add: ros_initial_def)
  then show ?thesis
    using ros_initial_init by (auto intro: reach.intros)
qed

section \<open>Properties\<close>

text \<open>
  Property C27 (invariant): in every reachable state of the server no accepted goal is
  forgotten (as long as it has not reached a terminal state it is the current or the pending
  one), the two slots never hold the same goal, and \<open>preempt_requested_\<close> is set exactly while a
  goal waits in the pending slot.
\<close>

theorem accepted_goals_tracked:
  assumes "handle_laws H" "reach as_init (as_step H) s"
  shows "(\<forall>g \<in> accepted s. h_is_active H g (world (srv s)) \<longleftrightarrow>
            current_handle (srv s) = Some g \<or> pending_handle (srv s) = Some g) \<and>
         (current_handle (srv s) \<noteq> None \<longrightarrow> current_handle (srv s) \<noteq> pending_handle (srv s)) \<and>
         (is_preempt_requested (srv s) \<longleftrightarrow> get_pending_goal H (srv s) \<noteq> None)"
proof -
  have ok: "handles_ok H (accepted s) (srv s)"
    using asys.inv_reach [OF assms(2)] assms(1) by (simp add: as_inv_def)
  have "get_pending_goal H (srv s) = pending_handle (srv s)"
    using inactive_handle_None(2) [OF ok] by (auto simp: get_pending_goal_def)
  then show ?thesis
    using ok by (auto simp: handles_ok_def is_preempt_requested_def)
qed

theorem accepted_goals_tracked_witness:
  "h_is_active ros_handles 1 (world (srv ros_one_goal)) \<and>
   current_handle (srv ros_one_goal) = Some 1 \<and> \<not> is_preempt_requested (srv ros_one_goal)"
proof -
  note * = accepted_goals_tracked [OF ros_handles_laws ros_one_goal_reach]
  have "pending_handle (srv ros_one_goal) = None"
    by (simp add: ros_one_goal_fields ros_initial_def)
  then show ?thesis using * by (auto simp: ros_one_goal_fields get_pending_goal_def is_active_def)
qed

text \<open>
  Property C28 (functional): when the execute callback returns, normally or by an exception, the
  goal it worked on has been brought to a terminal state. If the server was told to stop or
  the callback threw, no accepted goal stays active and the worker leaves; otherwise the
  pending goal, and only that one, becomes the current goal of another round.
\<close>

theorem callback_return_settles_goals:
  assumes "handle_laws H" "reach as_init (as_step H) s"
    and "as_step H s (CallbackReturns threw) t"
  shows "if threw \<or> stop_execution (srv s)
         then pc t = Leaving \<and> (\<forall>g \<in> accepted t. \<not> h_is_active H g (world (srv t)))
         else (\<forall>g \<in> accepted t. h_is_active H g (world (srv t)) \<longleftrightarrow> pending_handle (srv s) = Some g) \<and>
              current_handle (srv t) = pending_handle (srv s) \<and> pending_handle (srv t) = None \<and>
              pc t = (if pending_handle (srv s) = None then Leaving else AtCheck)"
proof -
  have inv: "as_inv H s" using asys.inv_reach [OF assms(2)] assms(1) by simp
  then have ok: "handles_ok H (accepted s) (srv s)" by (simp add: as_inv_def)
  have okt: "handles_ok H (accepted t) (srv t)"
    using as_step_inv [OF assms(1) inv assms(3)] by (simp add: as_inv_def)
  have t: "srv t = snd (work_after_callback H threw (srv s))"
    "pc t = (if fst (work_after_callback H threw (srv s)) then AtCheck else Leaving)"
    using assms(3) by (auto elim: as_stepE)
  show ?thesis
  proof (cases "threw \<or> stop_execution (srv s)")
    case True
    then show ?thesis
      using t terminate_all_ok(2,3) [OF assms(1) ok] handles_okD(3) [OF okt]
      by (auto simp: work_after_callback_def)
  next
    case False
    let ?s1 = "if is_active H (current_handle (srv s)) (srv s)
       then completion_callback (terminate_current H (empty_result H) (srv s)) else srv s"
    have s1: "handles_ok H (accepted s) ?s1" "current_handle ?s1 = None"
      "pending_handle ?s1 = pending_handle (srv s)"
      using terminate_current_ok [OF assms(1) ok] ok inactive_handle_None(1) [OF ok] by auto
    have r: "current_handle (srv t) = pending_handle (srv s) \<and> pending_handle (srv t) = None \<and>
        pc t = (if pending_handle (srv s) = None then Leaving else AtCheck)"
    proof (cases "pending_handle (srv s)")
      case None
      then show ?thesis using t False s1
        by (simp add: work_after_callback_def Let_def is_active_def)
    next
      case (Some p)
      then have "h_is_active H p (world ?s1)"
        using handles_okD(2) [OF s1(1)] s1(3) by simp
      then show ?thesis using t False s1 Some
        by (simp add: work_after_callback_def Let_def is_active_def accept_pending_goal_def)
    qed
    have "h_is_active H g (world (srv t)) \<longleftrightarrow> pending_handle (srv s) = Some g" if "g \<in> accepted t" for g
      using handles_okD(1) [OF okt, of g] handles_okD(3) [OF okt that] r by auto
    then show ?thesis using False r by simp
  qed
qed

theorem callback_return_settles_goals_witness:
  "\<exists>t. as_step ros_handles (ros_one_goal\<lparr>pc := InCallback\<rparr>) (CallbackReturns False) t \<and>
       pc t = Leaving \<and> current_handle (srv t) = None"
proof -
  let ?s = "ros_one_goal\<lparr>pc := InCallback\<rparr>"
  have "as_step ros_handles ros_one_goal (Check True) ?s"
    using as_check [of ros_one_goal ros_handles True]
    by (simp add: ros_one_goal_fields work_guard_def is_active_def ros_initial_def ros_handles_def
        ros_active_def)
  then have r: "reach as_init (as_step ros_handles) ?s"
    by (rule reach_step [OF ros_one_goal_reach])
  obtain t where t: "as_step ros_handles ?s (CallbackReturns False) t"
    using as_callback_returns [of ?s ros_handles False] by auto
  from callback_return_settles_goals [OF ros_handles_laws r t] t show ?thesis
    by (auto simp: ros_one_goal_fields ros_initial_def)
qed

text \<open>
  A goal accepted while the worker runs preempts. It takes the pending slot
  and raises \<open>preempt_requested_\<close>; a goal that was waiting there is finished, the current goal
  is not touched and no second worker is started.
\<close>

theorem accept_while_running_preempts:
  assumes "handle_laws H" "reach as_init (as_step H) s"
    and "as_step H s (Accept g) t" "pc s \<noteq> NoWorker"
  shows "pending_handle (srv t) = Some g \<and> is_preempt_requested (srv t) \<and>
         current_handle (srv t) = current_handle (srv s) \<and> pc t = pc s \<and>
         (\<forall>p. pending_handle (srv s) = Some p \<longrightarrow> \<not> h_is_active H p (world (srv t)))"
proof -
  have inv: "as_inv H s" using asys.inv_reach [OF assms(2)] assms(1) by simp
  have okt: "handles_ok H (accepted t) (srv t)"
    using as_step_inv [OF assms(1) inv assms(3)] by (simp add: as_inv_def)
  have ok: "handles_ok H (accepted s) (srv s)" and run: "is_running (srv s)"
    using inv assms(4) by (auto simp: as_inv_def is_running_def)
  obtain w' where t: "g \<notin> accepted s" "srv t = handle_accepted H g ((srv s)\<lparr>world := w'\<rparr>)"
    "accepted t = insert g (accepted s)" "pc t = pc s"
    using assms(3,4) by (auto elim: as_stepE)
  have h: "pending_handle (srv t) = Some g \<and> is_preempt_requested (srv t) \<and>
      current_handle (srv t) = current_handle (srv s)"
    using t(2) run
    by (simp add: handle_accepted_def is_running_def Let_def is_preempt_requested_def
        terminate_pending_def split_beta)
  have "\<not> h_is_active H p (world (srv t))" if "pending_handle (srv s) = Some p" for p
    using handles_okD(2) [OF ok that] handles_okD(3) [OF okt, of p] h t(1,3)
      handles_okD(4) [OF ok, of p] that by auto
  then show ?thesis using h t(4) by simp
qed

theorem accept_while_running_preempts_witness:
  "\<exists>t. as_step ros_handles ros_one_goal (Accept 2) t \<and>
       pending_handle (srv t) = Some 2 \<and> current_handle (srv t) = Some 1"
proof -
  obtain t where t: "as_step ros_handles ros_one_goal (Accept 2) t"
    using as_accept [of 2 ros_one_goal ros_handles "[1 \<mapsto> EXECUTING, 2 \<mapsto> EXECUTING]"]
    by (auto simp: ros_one_goal_fields ros_handles_def ros_active_def)
  have "pc ros_one_goal \<noteq> NoWorker" by (simp add: ros_one_goal_fields)
  from accept_while_running_preempts [OF ros_handles_laws ros_one_goal_reach t this] t show ?thesis
    by (auto simp: ros_one_goal_fields)
qed

text \<open>
  Property C40 (safety): a server whose worker has gone while the current goal is still active
  never executes a goal again. Whatever happens next (new goals, cancel requests, deactivation
  and activation), no worker is started and the current goal stays where it is.
\<close>

theorem orphaned_goal_blocks_forever:
  assumes "handle_laws H" "reach as_init (as_step H) s"
    and "pc s = NoWorker" "current_handle (srv s) = Some c"
    and "run_of (as_step H) s es t"
  shows "pc t = NoWorker \<and> current_handle (srv t) = Some c \<and> h_is_active H c (world (srv t))"
proof -
  have inv: "as_inv H s" using asys.inv_reach [OF assms(2)] assms(1) by simp
  from assms(5) inv assms(3,4) show ?thesis
  proof (induction rule: run_of.induct)
    case (run_nil s)
    then show ?case by (auto simp: as_inv_def handles_ok_def)
  next
    case (run_cons s e t es u)
    have ok: "h_is_active H c (world (srv s))" "execution_future (srv s) \<noteq> FutureTimeout"
      using run_cons.prems by (auto simp: as_inv_def handles_ok_def)
    have A: "c \<in> accepted s" using run_cons.prems by (auto simp: as_inv_def handles_ok_def)
    have "pc t = NoWorker \<and> current_handle (srv t) = Some c"
      using run_cons.hyps(1)
    proof cases
      case (as_accept g w')
      then have "is_active H (current_handle (srv s)) ((srv s)\<lparr>world := w'\<rparr>)"
        using ok A run_cons.prems(3) by (auto simp: is_active_def)
      then show ?thesis
        using as_accept run_cons.prems(2,3) ok(2)
        by (simp add: handle_accepted_def Let_def is_running_def terminate_pending_def split_beta)
    qed (use run_cons.prems ok in \<open>simp_all add: activate_def deactivate_begin_def deactivate_poll_def\<close>)
    then show ?case
      using run_cons.IH as_step_inv [OF assms(1) run_cons.prems(1) run_cons.hyps(1)] by blast
  qed
qed

text \<open>
  Such a state is reached: the server is deactivated after a goal was accepted and before the
  new thread makes its first test.
\<close>

definition ros_orphaned :: "ros_world as_state" where
  "ros_orphaned = ros_one_goal\<lparr>srv := (srv ros_one_goal)\<lparr>server_active := False,
     stop_execution := True, execution_future := FutureReady\<rparr>, pc := NoWorker\<rparr>"

lemma ros_orphaned_reach: "reach as_init (as_step ros_handles) ros_orphaned"
proof -
  let ?s1 = "ros_one_goal\<lparr>srv := deactivate_begin (srv ros_one_goal)\<rparr>"
  let ?s2 = "?s1\<lparr>pc := Leaving\<rparr>"
  have 1: "as_step ros_handles ros_one_goal Deactivate ?s1" by (rule as_deactivate)
  have 2: "as_step ros_handles ?s1 (Check True) ?s2"
    using as_check [of ?s1 ros_handles True]
    by (simp add: ros_one_goal_fields work_guard_def deactivate_begin_def)
  have 3: "as_step ros_handles ?s2 WorkerReturns ros_orphaned"
    using as_worker_returns [of ?s2 ros_handles]
    by (simp add: ros_orphaned_def deactivate_begin_def)
  show ?thesis
    by (rule reach_step [OF reach_step [OF reach_step [OF ros_one_goal_reach 1] 2] 3])
qed

theorem orphaned_goal_blocks_forever_witness:
  "\<exists>t. run_of (as_step ros_handles) ros_orphaned [Activate] t \<and> server_active (srv t) \<and>
       pc t = NoWorker \<and> h_is_active ros_handles 1 (world (srv t))"
proof -
  let ?t = "ros_orphaned\<lparr>srv := activate (srv ros_orphaned)\<rparr>"
  have r: "run_of (as_step ros_handles) ros_orphaned [Activate] ?t"
    by (rule run_cons [of "as_step ros_handles", OF as_activate run_nil])
  have "pc ros_orphaned = NoWorker" "current_handle (srv ros_orphaned) = Some 1"
    by (simp_all add: ros_orphaned_def ros_one_goal_fields)
  from orphaned_goal_blocks_forever [OF ros_handles_laws ros_orphaned_reach this r] r show ?thesis
    by (auto simp: activate_def)
qed

end
