(* ===== verification/Waypoint_Follower.thy ===== *)
theory Waypoint_Follower
  imports Action_Server
begin

text \<open>
  nav2_waypoint_follower/waypoint_follower.cpp: the handler that sends the waypoints of a goal one
  after the other to the NavigateToPose action and reports on the server of
  \<open>Action_Server\<close>, whose methods it calls. One round of its loop is the function
  \<open>wf_round\<close>; what the outside contributes to a round is an input: what other threads did to
  the server since the last round (\<open>interfere\<close>), whether \<open>rclcpp::ok()\<close> holds, the handle the
  client returns for a goal sent in this round, the task executor's answer, and the
  callbacks run by \<open>spin_some\<close>. \<open>Crashed\<close> stands for a null dereference or an access outside
  \<open>poses\<close>. Error and log texts are left out; the error codes are kept.
\<close>

section \<open>Data\<close>

datatype ActionStatus = StUNKNOWN | StPROCESSING | StFAILED | StSUCCEEDED

abbreviation ERR_UNKNOWN :: int where "ERR_UNKNOWN \<equiv> 600"
abbreviation TASK_EXECUTOR_FAILED :: int where "TASK_EXECUTOR_FAILED \<equiv> 601"
abbreviation NO_VALID_WAYPOINTS :: int where "NO_VALID_WAYPOINTS \<equiv> 602"
abbreviation STOP_ON_MISSED_WAYPOINT :: int where "STOP_ON_MISSED_WAYPOINT \<equiv> 603"

record 'p MissedWaypoint =
  waypoint_index :: u32
  waypoint_pose :: 'p
  missed_code :: int

record 'p wf_result =
  error_code :: int
  missed_waypoints :: "'p MissedWaypoint list"

record 'p wf_goal =
  number_of_loops :: u32
  start_index :: u32
  goal_poses :: "'p list"

datatype result_code = RcSUCCEEDED | RcABORTED | RcCANCELED | RcUNKNOWN

datatype nav_callback =
    ResultCallback nat result_code int
  | GoalResponseCallback bool

datatype 'p nav_call = SendGoal 'p | CancelAllGoals

record ('p, 'w) follower =
  srv_of :: "'w server"
  status :: ActionStatus
  status_error :: int
  sent_handle :: "nat option"
  wf_poses :: "'p list"
  goal_index :: u32
  new_goal :: bool
  current_loop_no :: u32
  no_of_loops :: u32
  result_of :: "'p wf_result"
  nav_calls :: "'p nav_call list"
  feedback :: "u32 list"

record 'w round_input =
  interfere :: "'w server \<Rightarrow> 'w server"
  ros_ok :: bool
  handle_of :: "nat option"
  task_executed :: bool
  callbacks :: "nav_callback list"

datatype ('p, 'w) outcome =
    Continue "('p, 'w) follower"
  | Returned "('p, 'w) follower"
  | Crashed

section \<open>Poses and callbacks\<close>

fun convertGPSPosesToMapPoses :: "('g \<Rightarrow> 'p option) \<Rightarrow> bool \<Rightarrow> 'g list \<Rightarrow> 'p list \<Rightarrow> 'p list" where
  "convertGPSPosesToMapPoses from_ll stop [] acc = acc"
| "convertGPSPosesToMapPoses from_ll stop (g # gs) acc =
    (case from_ll g of
       None \<Rightarrow> if stop then [] else convertGPSPosesToMapPoses from_ll stop gs acc
     | Some p \<Rightarrow> convertGPSPosesToMapPoses from_ll stop gs (acc @ [p]))"

definition getLatestGoalPoses ::
  "('r, 'w) handle_ops \<Rightarrow> (nat \<Rightarrow> 'p list) \<Rightarrow> 'w server \<Rightarrow> 'p list" where
  "getLatestGoalPoses H poses_of s =
    (case get_current_goal H s of None \<Rightarrow> [] | Some g \<Rightarrow> poses_of g)"

definition resultCallback ::
  "nat \<Rightarrow> result_code \<Rightarrow> int \<Rightarrow> ('p, 'w) follower \<Rightarrow> ('p, 'w) follower option" where
  "resultCallback goal_id code err f =
    (case sent_handle f of
       None \<Rightarrow> None
     | Some h \<Rightarrow>
         Some (if goal_id \<noteq> h then f
               else case code of
                 RcSUCCEEDED \<Rightarrow> f\<lparr>status := StSUCCEEDED\<rparr>
               | RcABORTED \<Rightarrow> f\<lparr>status := StFAILED, status_error := err\<rparr>
               | RcCANCELED \<Rightarrow> f\<lparr>status := StFAILED\<rparr>
               | RcUNKNOWN \<Rightarrow> f\<lparr>status := StUNKNOWN, status_error := ERR_UNKNOWN\<rparr>))"

definition goalResponseCallback :: "bool \<Rightarrow> ('p, 'w) follower \<Rightarrow> ('p, 'w) follower" where
  "goalResponseCallback ok f =
    (if \<not> ok then f\<lparr>status := StFAILED, status_error := ERR_UNKNOWN\<rparr> else f)"

fun spin_some :: "nav_callback list \<Rightarrow> ('p, 'w) follower \<Rightarrow> ('p, 'w) follower option" where
  "spin_some [] f = Some f"
| "spin_some (ResultCallback g code err # cs) f =
    (case resultCallback g code err f of None \<Rightarrow> None | Some f' \<Rightarrow> spin_some cs f')"
| "spin_some (GoalResponseCallback ok # cs) f = spin_some cs (goalResponseCallback ok f)"

section \<open>The handler\<close>

text \<open>The code before the loop.\<close>

definition wf_start ::
  "('p wf_result, 'w) handle_ops \<Rightarrow> (nat \<Rightarrow> 'p wf_goal) \<Rightarrow> (nat \<Rightarrow> 'p list) \<Rightarrow>
    ('p, 'w) follower \<Rightarrow> ('p, 'w) outcome" where
  "wf_start H goal_of poses_of f =
    (case get_current_goal H (srv_of f) of
       None \<Rightarrow> Crashed
     | Some g \<Rightarrow>
         (let f1 = f\<lparr>current_loop_no := 0, no_of_loops := number_of_loops (goal_of g),
                     wf_poses := getLatestGoalPoses H poses_of (srv_of f),
                     result_of := \<lparr>error_code = 0, missed_waypoints = []\<rparr>\<rparr>
          in if \<not> is_server_active (srv_of f1) then Returned f1
             else if wf_poses f1 = [] then
               (let r = (result_of f1)\<lparr>error_code := NO_VALID_WAYPOINTS\<rparr>
                in Returned (f1\<lparr>result_of := r, srv_of := terminate_current H r (srv_of f1)\<rparr>))
             else Continue (f1\<lparr>goal_index := start_index (goal_of g), new_goal := True\<rparr>)))"

text \<open>The parts of one round, in the order of the loop body.\<close>

definition wf_cancel ::
  "('p wf_result, 'w) handle_ops \<Rightarrow> 'w round_input \<Rightarrow> ('p, 'w) follower \<Rightarrow> ('p, 'w) outcome" where
  "wf_cancel H inp f =
    (case spin_some (callbacks inp) (f\<lparr>nav_calls := nav_calls f @ [CancelAllGoals]\<rparr>) of
       None \<Rightarrow> Crashed
     | Some f' \<Rightarrow> Returned (f'\<lparr>srv_of := terminate_all H (empty_result H) (srv_of f')\<rparr>))"

definition wf_preempt ::
  "('p wf_result, 'w) handle_ops \<Rightarrow> (nat \<Rightarrow> 'p list) \<Rightarrow> ('p, 'w) follower \<Rightarrow> ('p, 'w) outcome" where
  "wf_preempt H poses_of f =
    (if is_preempt_requested (srv_of f) then
       (let s = snd (accept_pending_goal H (srv_of f));
            f1 = f\<lparr>srv_of := s, wf_poses := getLatestGoalPoses H poses_of s\<rparr>
        in if wf_poses f1 = [] then
             (let r = (result_of f1)\<lparr>error_code := NO_VALID_WAYPOINTS\<rparr>
              in Returned (f1\<lparr>result_of := r, srv_of := terminate_current H r (srv_of f1)\<rparr>))
           else Continue (f1\<lparr>goal_index := 0, new_goal := True\<rparr>))
     else Continue f)"

definition wf_send :: "'w round_input \<Rightarrow> ('p, 'w) follower \<Rightarrow> ('p, 'w) outcome" where
  "wf_send inp f =
    (if \<not> new_goal f then Continue f
     else if unat (goal_index f) < length (wf_poses f) then
       Continue (f\<lparr>new_goal := False, sent_handle := handle_of inp, status := StPROCESSING,
         nav_calls := nav_calls f @ [SendGoal (wf_poses f ! unat (goal_index f))]\<rparr>)
     else Crashed)"

definition add_missed :: "int \<Rightarrow> ('p, 'w) follower \<Rightarrow> ('p, 'w) follower" where
  "add_missed code f =
    f\<lparr>result_of := (result_of f)\<lparr>missed_waypoints := missed_waypoints (result_of f) @
        [\<lparr>waypoint_index = goal_index f, waypoint_pose = wf_poses f ! unat (goal_index f),
          missed_code = code\<rparr>]\<rparr>\<rparr>"

definition wf_give_up ::
  "('p wf_result, 'w) handle_ops \<Rightarrow> int \<Rightarrow> ('p, 'w) follower \<Rightarrow> ('p, 'w) outcome" where
  "wf_give_up H code f =
    (let r = (result_of f)\<lparr>error_code := code\<rparr>
     in Returned (f\<lparr>result_of := r, srv_of := terminate_current H r (srv_of f), status_error := 0\<rparr>))"

definition wf_evaluate ::
  "('p wf_result, 'w) handle_ops \<Rightarrow> bool \<Rightarrow> 'w round_input \<Rightarrow> ('p, 'w) follower \<Rightarrow> ('p, 'w) outcome" where
  "wf_evaluate H stop_on_failure inp f =
    (if status f = StPROCESSING then Continue f
     else if unat (goal_index f) \<ge> length (wf_poses f) then Crashed
     else if status f = StFAILED \<or> status f = StUNKNOWN then
       (let f1 = add_missed (status_error f) f
        in if stop_on_failure then wf_give_up H STOP_ON_MISSED_WAYPOINT f1 else Continue f1)
     else
       (let f1 = (if \<not> task_executed inp then add_missed TASK_EXECUTOR_FAILED f else f)
        in if \<not> task_executed inp \<and> stop_on_failure then wf_give_up H TASK_EXECUTOR_FAILED f1
           else Continue f1))"

definition wf_advance ::
  "('p wf_result, 'w) handle_ops \<Rightarrow> ('p, 'w) follower \<Rightarrow> ('p, 'w) outcome" where
  "wf_advance H f =
    (if status f \<noteq> StPROCESSING then
       (let f1 = f\<lparr>goal_index := goal_index f + 1, new_goal := True\<rparr>
        in if unat (goal_index f1) \<ge> length (wf_poses f1) then
             (if current_loop_no f1 = no_of_loops f1
              then Returned (f1\<lparr>srv_of := succeeded_current H (result_of f1) (srv_of f1), status_error := 0\<rparr>)
              else Continue (f1\<lparr>goal_index := 0, current_loop_no := current_loop_no f1 + 1\<rparr>))
           else Continue f1)
     else Continue f)"

definition wf_spin :: "'w round_input \<Rightarrow> ('p, 'w) follower \<Rightarrow> ('p, 'w) outcome" where
  "wf_spin inp f = (case spin_some (callbacks inp) f of None \<Rightarrow> Crashed | Some f' \<Rightarrow> Continue f')"

fun and_next :: "('p, 'w) outcome \<Rightarrow> (('p, 'w) follower \<Rightarrow> ('p, 'w) outcome) \<Rightarrow> ('p, 'w) outcome" where
  "and_next (Continue f) k = k f"
| "and_next (Returned f) k = Returned f"
| "and_next Crashed k = Crashed"

text \<open>
  \<open>publish_feedback\<close> sends nothing when the current goal is not active.
\<close>

definition wf_feedback :: "('p wf_result, 'w) handle_ops \<Rightarrow> ('p, 'w) follower \<Rightarrow> ('p, 'w) outcome" where
  "wf_feedback H f =
    Continue (case publish_feedback H (goal_index f) (srv_of f) of
                None \<Rightarrow> f | Some (g, i) \<Rightarrow> f\<lparr>feedback := feedback f @ [i]\<rparr>)"

definition wf_round ::
  "('p wf_result, 'w) handle_ops \<Rightarrow> (nat \<Rightarrow> 'p list) \<Rightarrow> bool \<Rightarrow> 'w round_input \<Rightarrow>
    ('p, 'w) follower \<Rightarrow> ('p, 'w) outcome" where
  "wf_round H poses_of stop_on_failure inp f0 =
    (let f = f0\<lparr>srv_of := interfere inp (srv_of f0)\<rparr>
     in if \<not> ros_ok inp then Returned f
        else if is_cancel_requested H (srv_of f) then wf_cancel H inp f
        else and_next (wf_preempt H poses_of f) (\<lambda>f.
             and_next (wf_send inp f) (\<lambda>f.
             and_next (wf_feedback H f) (\<lambda>f.
             and_next (wf_evaluate H stop_on_failure inp f) (\<lambda>f.
             and_next (wf_advance H f) (wf_spin inp))))))"

text \<open>The handler after \<open>k\<close> rounds.\<close>

primrec wf_rounds ::
  "('p wf_result, 'w) handle_ops \<Rightarrow> (nat \<Rightarrow> 'p list) \<Rightarrow> bool \<Rightarrow> (nat \<Rightarrow> 'w round_input) \<Rightarrow>
    nat \<Rightarrow> ('p, 'w) outcome \<Rightarrow> ('p, 'w) outcome" where
  "wf_rounds H poses_of stop inps 0 r = r"
| "wf_rounds H poses_of stop inps (Suc k) r =
    and_next (wf_rounds H poses_of stop inps k r) (wf_round H poses_of stop (inps k))"

definition followWaypointsHandler ::
  "('p wf_result, 'w) handle_ops \<Rightarrow> (nat \<Rightarrow> 'p wf_goal) \<Rightarrow> (nat \<Rightarrow> 'p list) \<Rightarrow> bool \<Rightarrow>
    (nat \<Rightarrow> 'w round_input) \<Rightarrow> nat \<Rightarrow> ('p, 'w) follower \<Rightarrow> ('p, 'w) outcome" where
  "followWaypointsHandler H goal_of poses_of stop inps k f =
    wf_rounds H poses_of stop inps k (wf_start H goal_of poses_of f)"

definition followWaypointsCallback ::
  "('p wf_result, 'w) handle_ops \<Rightarrow> (nat \<Rightarrow> 'p wf_goal) \<Rightarrow> bool \<Rightarrow> (nat \<Rightarrow> 'w round_input) \<Rightarrow> nat \<Rightarrow>
    ('p, 'w) follower \<Rightarrow> ('p, 'w) outcome" where
  "followWaypointsCallback H goal_of = followWaypointsHandler H goal_of (\<lambda>g. goal_poses (goal_of g))"

definition followGPSWaypointsCallback ::
  "('p wf_result, 'w) handle_ops \<Rightarrow> (nat \<Rightarrow> 'p wf_goal) \<Rightarrow> ('g \<Rightarrow> 'p option) \<Rightarrow> (nat \<Rightarrow> 'g list) \<Rightarrow> bool \<Rightarrow>
    (nat \<Rightarrow> 'w round_input) \<Rightarrow> nat \<Rightarrow> ('p, 'w) follower \<Rightarrow> ('p, 'w) outcome" where
  "followGPSWaypointsCallback H goal_of from_ll gps stop =
    followWaypointsHandler H goal_of (\<lambda>g. convertGPSPosesToMapPoses from_ll stop (gps g) []) stop"

section \<open>A goal without cancellation or preemption\<close>

text \<open>The poses a goal asks for: the rest of the first loop, then every further loop.\<close>

definition wf_plan :: "'p list \<Rightarrow> nat \<Rightarrow> nat \<Rightarrow> 'p list" where
  "wf_plan ps start loops = drop start ps @ concat (replicate loops ps)"

definition wf_pos :: "nat \<Rightarrow> nat \<Rightarrow> nat \<Rightarrow> nat \<Rightarrow> nat" where
  "wf_pos n start l i = (if l = 0 then i - start else (n - start) + (l - 1) * n + i)"

lemma concat_replicate_nth: "l < L \<Longrightarrow> i < length xs \<Longrightarrow> concat (replicate L xs) ! (l * length xs + i) = xs ! i"
proof (induction L arbitrary: l)
  case (Suc L)
  then show ?case by (cases l) (auto simp: nth_append add.assoc)
qed simp

lemma wf_plan_length: "start \<le> length ps \<Longrightarrow> length (wf_plan ps start L) = length ps - start + L * length ps"
  by (simp add: wf_plan_def length_concat sum_list_replicate)

lemma wf_plan_nth:
  assumes "i < length ps" "l \<le> L" "l = 0 \<Longrightarrow> start \<le> i" "start < length ps"
  shows "wf_pos (length ps) start l i < length (wf_plan ps start L)"
    and "wf_plan ps start L ! wf_pos (length ps) start l i = ps ! i"
proof -
  show "wf_pos (length ps) start l i < length (wf_plan ps start L)"
  proof (cases l)
    case (Suc k)
    then have "k * length ps + i < L * length ps"
      using assms(1,2) row_index_less [of i "length ps" k L] by (simp add: mult.commute)
    then show ?thesis using Suc assms(4) by (simp add: wf_pos_def wf_plan_length)
  qed (use assms in \<open>simp add: wf_pos_def wf_plan_length\<close>)
  show "wf_plan ps start L ! wf_pos (length ps) start l i = ps ! i"
  proof (cases l)
    case (Suc k)
    then have p: "wf_pos (length ps) start l i = length (drop start ps) + (k * length ps + i)"
      using assms(4) by (simp add: wf_pos_def)
    show ?thesis
      unfolding p wf_plan_def nth_append_length_plus using Suc assms concat_replicate_nth [of k L i ps] by simp
  qed (use assms in \<open>auto simp: wf_pos_def wf_plan_def nth_append\<close>)
qed

lemma wf_pos_last:
  assumes "i < n" "l \<le> L" "l = 0 \<Longrightarrow> start \<le> i" "start < n"
  shows "Suc (wf_pos n start l i) = n - start + L * n \<longleftrightarrow> l = L \<and> Suc i = n"
proof (cases l)
  case 0
  show ?thesis
  proof (cases L)
    case 0
    then show ?thesis using assms \<open>l = 0\<close> by (auto simp: wf_pos_def)
  next
    case (Suc m)
    have "Suc (i - start) \<le> n - start" using assms by simp
    then show ?thesis using Suc \<open>l = 0\<close> assms by (auto simp: wf_pos_def)
  qed
next
  case (Suc k)
  have "Suc (k * n + i) = L * n \<longleftrightarrow> Suc k = L \<and> Suc i = n"
  proof
    assume eq: "Suc (k * n + i) = L * n"
    have "k * n + i < Suc k * n" using assms(1) by simp
    then have "L * n \<le> Suc k * n" using eq by simp
    then have "L \<le> Suc k" using assms(1) by (intro mult_right_le_imp_le [of L n "Suc k"]) simp_all
    then have "L = Suc k" using assms(2) Suc by simp
    then show "Suc k = L \<and> Suc i = n" using eq by simp
  next
    assume "Suc k = L \<and> Suc i = n"
    then have "L * n = n + k * n" "Suc i = n" by auto
    then show "Suc (k * n + i) = L * n" by simp
  qed
  then show ?thesis using Suc by (simp add: wf_pos_def)
qed

text \<open>The rounds: nobody interferes, ROS runs, and the client returns a handle for every goal sent.\<close>

definition quiet :: "'w round_input \<Rightarrow> bool" where
  "quiet inp \<longleftrightarrow> interfere inp = id \<and> ros_ok inp \<and> handle_of inp \<noteq> None"

definition wf_inv ::
  "'w server \<Rightarrow> 'p list \<Rightarrow> nat \<Rightarrow> u32 \<Rightarrow> 'p nav_call list \<Rightarrow> ('p, 'w) follower \<Rightarrow> bool" where
  "wf_inv s ps start L before f \<longleftrightarrow>
     srv_of f = s \<and> wf_poses f = ps \<and> no_of_loops f = L \<and> error_code (result_of f) = 0 \<and>
     unat (goal_index f) < length ps \<and> current_loop_no f \<le> L \<and>
     (current_loop_no f = 0 \<longrightarrow> start \<le> unat (goal_index f)) \<and>
     (\<not> new_goal f \<longrightarrow> sent_handle f \<noteq> None) \<and>
     nav_calls f = before @ map SendGoal
       (take (wf_pos (length ps) start (unat (current_loop_no f)) (unat (goal_index f)) + (if new_goal f then 0 else 1))
         (wf_plan ps start (unat L)))"

definition pos_of :: "'p list \<Rightarrow> nat \<Rightarrow> ('p, 'w) follower \<Rightarrow> nat" where
  "pos_of ps start f = wf_pos (length ps) start (unat (current_loop_no f)) (unat (goal_index f))"

definition status_only :: "('p, 'w) follower \<Rightarrow> ('p, 'w) follower \<Rightarrow> bool" where
  "status_only f f' \<longleftrightarrow> (\<exists>st e. f' = f\<lparr>status := st, status_error := e\<rparr>)"

lemma status_only_simps:
  "status_only f f" "status_only f (f\<lparr>status := st\<rparr>)" "status_only f (f\<lparr>status := st, status_error := e\<rparr>)"
  unfolding status_only_def
  by (rule exI [of _ "status f"], rule exI [of _ "status_error f"], simp)
    (rule exI [of _ st], rule exI [of _ "status_error f"], simp, blast)

lemma status_only_trans: "status_only f g \<Longrightarrow> status_only g h \<Longrightarrow> status_only f h"
  unfolding status_only_def by (elim exE) (simp, blast)

lemma status_only_fields:
  assumes "status_only f f'"
  shows "srv_of f' = srv_of f" "sent_handle f' = sent_handle f" "wf_poses f' = wf_poses f"
    "goal_index f' = goal_index f" "new_goal f' = new_goal f" "current_loop_no f' = current_loop_no f"
    "no_of_loops f' = no_of_loops f" "result_of f' = result_of f" "nav_calls f' = nav_calls f"
  using assms by (auto simp: status_only_def)

lemma spin_some_frame:
  "sent_handle f \<noteq> None \<Longrightarrow> \<exists>f'. spin_some cs f = Some f' \<and> status_only f f'"
proof (induction cs f rule: spin_some.induct)
  case (1 f)
  show ?case by (simp add: status_only_simps)
next
  case (2 g code err cs f)
  then obtain f1 where f1: "resultCallback g code err f = Some f1" "status_only f f1"
    by (auto simp: resultCallback_def status_only_simps split: option.splits result_code.splits)
  then have "sent_handle f1 \<noteq> None" using 2(2) status_only_fields(2) [OF f1(2)] by simp
  from 2(1) [OF f1(1) this] f1 show ?case using status_only_trans by auto
next
  case (3 ok cs f)
  have so: "status_only f (goalResponseCallback ok f)" by (simp add: goalResponseCallback_def status_only_simps)
  then have "sent_handle (goalResponseCallback ok f) \<noteq> None" using 3(2) status_only_fields(2) [OF so] by simp
  from 3(1) [OF this] so show ?case using status_only_trans by auto
qed

text \<open>A round that waits or sends, and a round that moves on.\<close>

lemma wf_round_waits:
  assumes "quiet inp" "wf_inv s ps start L before f" "\<not> is_cancel_requested H s" "\<not> is_preempt_requested s"
    "start < length ps" "new_goal f \<or> status f = StPROCESSING"
  shows "\<exists>f'. wf_round H poses_of stop inp f = Continue f' \<and> wf_inv s ps start L before f' \<and>
    \<not> new_goal f' \<and> pos_of ps start f' = pos_of ps start f"
proof -
  define g where "g = (if new_goal f
      then f\<lparr>new_goal := False, sent_handle := handle_of inp, status := StPROCESSING,
        nav_calls := nav_calls f @ [SendGoal (wf_poses f ! unat (goal_index f))]\<rparr> else f)"
  have i: "unat (goal_index f) < length ps" "unat (current_loop_no f) \<le> unat L"
    "unat (current_loop_no f) = 0 \<Longrightarrow> start \<le> unat (goal_index f)"
    using assms(2) by (auto simp: wf_inv_def word_le_nat_alt unat_eq_0)
  have ginv: "wf_inv s ps start L before g" "\<not> new_goal g" "status g = StPROCESSING" "pos_of ps start g = pos_of ps start f"
    "sent_handle g \<noteq> None"
    using assms(1,2,6) wf_plan_nth [OF i assms(5)] 
    by (auto simp: wf_inv_def g_def quiet_def pos_of_def take_Suc_conv_app_nth)
  define h where "h = (case publish_feedback H (goal_index g) s of None \<Rightarrow> g | Some (k, i) \<Rightarrow> g\<lparr>feedback := feedback g @ [i]\<rparr>)"
  have hinv: "wf_inv s ps start L before h" "\<not> new_goal h" "status h = StPROCESSING" "pos_of ps start h = pos_of ps start f"
    "sent_handle h \<noteq> None"
    using ginv by (auto simp: h_def wf_inv_def pos_of_def split: option.splits)
  obtain f' where f': "spin_some (callbacks inp) h = Some f'" "status_only h f'"
    using spin_some_frame hinv(5) by blast
  have srv: "srv_of f = s" "wf_poses f = ps" "srv_of g = s" using assms(2) ginv(1) by (auto simp: wf_inv_def)
  have same: "f\<lparr>srv_of := s\<rparr> = f" using srv(1) by simp
  have "wf_preempt H poses_of f = Continue f" using assms(4) srv(1) by (simp add: wf_preempt_def)
  moreover have "wf_send inp f = Continue g" using i(1) srv(2) by (simp add: wf_send_def g_def)
  moreover have "wf_feedback H g = Continue h" using srv(3) by (simp add: wf_feedback_def h_def)
  moreover have "wf_evaluate H stop inp h = Continue h" "wf_advance H h = Continue h"
    using hinv(3) by (simp_all add: wf_evaluate_def wf_advance_def)
  moreover have "wf_spin inp h = Continue f'" using f'(1) by (simp add: wf_spin_def)
  ultimately have "wf_round H poses_of stop inp f = Continue f'"
    using assms(1,3) srv(1) by (simp add: wf_round_def quiet_def same)
  then show ?thesis
    using hinv status_only_fields [OF f'(2)] by (auto simp: wf_inv_def pos_of_def)
qed

lemma wf_evaluate_continues:
  assumes "status f \<noteq> StPROCESSING" "unat (goal_index f) < length (wf_poses f)"
  shows "\<exists>ms. wf_evaluate H False inp f =
    Continue (f\<lparr>result_of := (result_of f)\<lparr>missed_waypoints := missed_waypoints (result_of f) @ ms\<rparr>\<rparr>)"
proof (cases "status f = StSUCCEEDED \<and> task_executed inp")
  case True
  have "f = f\<lparr>result_of := (result_of f)\<lparr>missed_waypoints := missed_waypoints (result_of f) @ []\<rparr>\<rparr>" by simp
  moreover have "wf_evaluate H False inp f = Continue f"
    using True assms by (simp add: wf_evaluate_def not_le)
  ultimately show ?thesis by metis
next
  case False
  then have "\<exists>code. wf_evaluate H False inp f = Continue (add_missed code f)"
    using assms by (cases "status f") (auto simp: wf_evaluate_def not_le)
  then show ?thesis by (auto simp: add_missed_def)
qed

lemma wf_pos_next:
  assumes "i < n" "start < n" "l = 0 \<Longrightarrow> start \<le> i"
  shows "wf_pos n start l (Suc i) = Suc (wf_pos n start l i)"
    "Suc i = n \<Longrightarrow> wf_pos n start (Suc l) 0 = Suc (wf_pos n start l i)"
  using assms by (auto simp: wf_pos_def Suc_diff_le split: nat.splits) (cases l; auto simp: algebra_simps)+

definition finished ::
  "('p wf_result, 'w) handle_ops \<Rightarrow> 'w server \<Rightarrow> 'p list \<Rightarrow> nat \<Rightarrow> u32 \<Rightarrow> 'p nav_call list \<Rightarrow> ('p, 'w) follower \<Rightarrow> bool" where
  "finished H s ps start L before f \<longleftrightarrow> error_code (result_of f) = 0 \<and>
     nav_calls f = before @ map SendGoal (wf_plan ps start (unat L)) \<and>
     srv_of f = succeeded_current H (result_of f) s"

lemma wf_advance_moves:
  assumes "wf_inv s ps start L before f" "start < length ps" "length ps < 2 ^ 32" "\<not> new_goal f"
    "status f \<noteq> StPROCESSING"
  shows "if Suc (pos_of ps start f) = length (wf_plan ps start (unat L))
    then \<exists>f'. wf_advance H f = Returned f' \<and> finished H s ps start L before f'
    else \<exists>f'. wf_advance H f = Continue f' \<and> wf_inv s ps start L before f' \<and>
      new_goal f' \<and> sent_handle f' \<noteq> None \<and> pos_of ps start f' = Suc (pos_of ps start f)"
proof -
  let ?i = "unat (goal_index f)" and ?l = "unat (current_loop_no f)" and ?n = "length ps"
  have i: "?i < ?n" "?l \<le> unat L" "?l = 0 \<Longrightarrow> start \<le> ?i"
    using assms(1) by (auto simp: wf_inv_def word_le_nat_alt unat_eq_0)
  have f: "srv_of f = s" "wf_poses f = ps" "no_of_loops f = L" "sent_handle f \<noteq> None"
    using assms(1,4) by (auto simp: wf_inv_def)
  have idx: "unat (goal_index f + 1) = Suc ?i" using i(1) assms(3) by (simp add: unat_word_ariths)
  note pn = wf_pos_next [OF i(1) assms(2) i(3)]
  have last_iff: "Suc (pos_of ps start f) = length (wf_plan ps start (unat L)) \<longleftrightarrow> ?l = unat L \<and> Suc ?i = ?n"
    using wf_pos_last [OF i assms(2)] assms(2) by (simp add: pos_of_def wf_plan_length)
  consider (final) "?l = unat L" "Suc ?i = ?n" | (loop) "?l < unat L" "Suc ?i = ?n" | (step) "Suc ?i < ?n"
    using i by linarith
  then show ?thesis
  proof cases
    case final
    then have "current_loop_no f = L" by (simp add: word_unat_eq_iff)
    moreover have "nav_calls f = before @ map SendGoal (wf_plan ps start (unat L))"
      using assms(1,4) final last_iff by (auto simp: wf_inv_def pos_of_def)
    ultimately show ?thesis
      using final last_iff f idx assms(1,5) by (auto simp: wf_advance_def finished_def wf_inv_def)
  next
    case loop
    have lp: "unat (current_loop_no f + 1) = Suc ?l" using loop(1) unat_less_u32 [of L] by (simp add: unat_word_ariths)
    then have le: "current_loop_no f + 1 \<le> L" "current_loop_no f + 1 \<noteq> 0" "current_loop_no f \<noteq> L"
      using loop(1) by (auto simp: word_le_nat_alt word_unat_eq_iff)
    let ?f = "f\<lparr>goal_index := 0, new_goal := True, current_loop_no := current_loop_no f + 1\<rparr>"
    have "wf_advance H f = Continue ?f" using assms(5) f idx loop(2) le(3) by (simp add: wf_advance_def Let_def)
    moreover have "wf_inv s ps start L before ?f" "pos_of ps start ?f = Suc (pos_of ps start f)"
      using assms(1,4) le lp pn(2) loop(2) i(1) by (auto simp: wf_inv_def pos_of_def)
    ultimately show ?thesis using last_iff loop(1) f(4) by auto
  next
    case step
    let ?f = "f\<lparr>goal_index := goal_index f + 1, new_goal := True\<rparr>"
    have "wf_advance H f = Continue ?f" using assms(5) f idx step by (simp add: wf_advance_def Let_def)
    moreover have "wf_inv s ps start L before ?f" "pos_of ps start ?f = Suc (pos_of ps start f)"
      using assms(1,4) idx pn(1) step by (auto simp: wf_inv_def pos_of_def)
    ultimately show ?thesis using last_iff step f(4) by auto
  qed
qed

lemma wf_spin_keeps:
  assumes "sent_handle f \<noteq> None"
  shows "\<exists>f'. wf_spin inp f = Continue f' \<and> status_only f f'"
  using spin_some_frame [OF assms, of "callbacks inp"] by (auto simp: wf_spin_def)

lemma wf_inv_status_only: "status_only f f' \<Longrightarrow> wf_inv s ps start L before f' = wf_inv s ps start L before f"
  using status_only_fields [of f f'] by (simp add: wf_inv_def)

lemma wf_round_moves:
  assumes "quiet inp" "wf_inv s ps start L before f" "\<not> is_cancel_requested H s" "\<not> is_preempt_requested s"
    "start < length ps" "length ps < 2 ^ 32" "\<not> new_goal f" "status f \<noteq> StPROCESSING"
  shows "if Suc (pos_of ps start f) = length (wf_plan ps start (unat L))
    then \<exists>f'. wf_round H poses_of False inp f = Returned f' \<and> finished H s ps start L before f'
    else \<exists>f'. wf_round H poses_of False inp f = Continue f' \<and> wf_inv s ps start L before f' \<and>
      new_goal f' \<and> pos_of ps start f' = Suc (pos_of ps start f)"
proof -
  let ?i = "unat (goal_index f)" and ?n = "length ps"
  have i: "?i < ?n" using assms(2) by (simp add: wf_inv_def)
  have srv: "srv_of f = s" "wf_poses f = ps" "no_of_loops f = L" "sent_handle f \<noteq> None"
    using assms(2,7) by (auto simp: wf_inv_def)
  define g where "g = (case publish_feedback H (goal_index f) s of None \<Rightarrow> f | Some (k, i) \<Rightarrow> f\<lparr>feedback := feedback f @ [i]\<rparr>)"
  have g: "wf_inv s ps start L before g" "\<not> new_goal g" "status g \<noteq> StPROCESSING" "goal_index g = goal_index f"
    "current_loop_no g = current_loop_no f" "wf_poses g = ps"
    using assms(2,7,8) by (auto simp: g_def wf_inv_def split: option.splits)
  obtain ms where "wf_evaluate H False inp g =
      Continue (g\<lparr>result_of := (result_of g)\<lparr>missed_waypoints := missed_waypoints (result_of g) @ ms\<rparr>\<rparr>)"
    using wf_evaluate_continues [of g H inp] g i by auto
  moreover define h where "h = g\<lparr>result_of := (result_of g)\<lparr>missed_waypoints := missed_waypoints (result_of g) @ ms\<rparr>\<rparr>"
  ultimately have ev: "wf_evaluate H False inp g = Continue h" by simp
  have h: "wf_inv s ps start L before h" "\<not> new_goal h" "status h \<noteq> StPROCESSING" "goal_index h = goal_index f"
    "current_loop_no h = current_loop_no f"
    using g by (auto simp: h_def wf_inv_def)
  have same: "f\<lparr>srv_of := s\<rparr> = f" using srv(1) by simp
  have round: "wf_round H poses_of False inp f = and_next (wf_advance H h) (wf_spin inp)"
    using assms(1,3,4,7) srv ev
    by (simp add: wf_round_def quiet_def same wf_preempt_def wf_send_def wf_feedback_def g_def [symmetric])
  have "pos_of ps start h = pos_of ps start f" using h by (simp add: pos_of_def)
  note adv = wf_advance_moves [OF h(1) assms(5,6) h(2,3), of H, unfolded this]
  show ?thesis
  proof (cases "Suc (pos_of ps start f) = length (wf_plan ps start (unat L))")
    case True
    then show ?thesis using adv round by auto
  next
    case False
    then obtain k where k: "wf_advance H h = Continue k" "wf_inv s ps start L before k" "new_goal k"
      "sent_handle k \<noteq> None" "pos_of ps start k = Suc (pos_of ps start f)" using adv by auto
    obtain f' where f': "wf_spin inp k = Continue f'" "status_only k f'" using wf_spin_keeps [OF k(4)] by blast
    then show ?thesis
      using False k round wf_inv_status_only [OF f'(2)] status_only_fields [OF f'(2)] by (auto simp: pos_of_def)
  qed
qed

lemma wf_waits_for_answer:
  assumes "\<And>k. quiet (inps k)" "\<not> is_cancel_requested H s" "\<not> is_preempt_requested s" "start < length ps"
    "wf_rounds H poses_of stop inps k r = Continue f" "wf_inv s ps start L before f" "\<not> new_goal f"
    "\<And>g. wf_rounds H poses_of stop inps (k + d) r = Continue g \<Longrightarrow> status g \<noteq> StPROCESSING"
  shows "\<exists>m g. wf_rounds H poses_of stop inps m r = Continue g \<and> wf_inv s ps start L before g \<and>
    \<not> new_goal g \<and> pos_of ps start g = pos_of ps start f \<and> status g \<noteq> StPROCESSING"
  using assms(5-8)
proof (induction d arbitrary: k f)
  case 0
  then show ?case by auto
next
  case (Suc d)
  show ?case
  proof (cases "status f = StPROCESSING")
    case True
    obtain f' where f': "wf_round H poses_of stop (inps k) f = Continue f'" "wf_inv s ps start L before f'"
      "\<not> new_goal f'" "pos_of ps start f' = pos_of ps start f"
      using wf_round_waits [OF assms(1) Suc.prems(2) assms(2-4)] True by blast
    moreover have "wf_rounds H poses_of stop inps (Suc k) r = Continue f'" using Suc.prems(1) f'(1) by simp
    ultimately show ?thesis using Suc.IH [of "Suc k" f'] Suc.prems(4) by simp
  next
    case False
    then show ?thesis using Suc.prems by blast
  qed
qed

lemma wf_rounds_finish:
  assumes quiet: "\<And>k. quiet (inps k)" and server: "\<not> is_cancel_requested H s" "\<not> is_preempt_requested s"
    and len: "start < length ps" "length ps < 2 ^ 32"
    and answered: "\<And>k f. wf_rounds H poses_of False inps k r = Continue f \<Longrightarrow>
      \<exists>j\<ge>k. \<forall>g. wf_rounds H poses_of False inps j r = Continue g \<longrightarrow> status g \<noteq> StPROCESSING"
  shows "wf_rounds H poses_of False inps k r = Continue f \<Longrightarrow> wf_inv s ps start L before f \<Longrightarrow>
    \<exists>m f'. wf_rounds H poses_of False inps m r = Returned f' \<and> finished H s ps start L before f'"
proof (induction "2 * (length (wf_plan ps start (unat L)) - pos_of ps start f) + (if new_goal f then 1 else 0)"
    arbitrary: k f rule: less_induct)
  case less
  show ?case
  proof (cases "new_goal f")
    case True
    obtain f' where f': "wf_round H poses_of False (inps k) f = Continue f'" "wf_inv s ps start L before f'"
      "\<not> new_goal f'" "pos_of ps start f' = pos_of ps start f"
      using wf_round_waits [OF quiet less.prems(2) server len(1)] True by blast
    moreover have "wf_rounds H poses_of False inps (Suc k) r = Continue f'" using less.prems(1) f'(1) by simp
    ultimately show ?thesis using less.hyps [of f' "Suc k"] True by simp
  next
    case False
    obtain j where j: "k \<le> j" "\<forall>g. wf_rounds H poses_of False inps j r = Continue g \<longrightarrow> status g \<noteq> StPROCESSING"
      using answered [OF less.prems(1)] by blast
    obtain m g where g: "wf_rounds H poses_of False inps m r = Continue g" "wf_inv s ps start L before g"
      "\<not> new_goal g" "pos_of ps start g = pos_of ps start f" "status g \<noteq> StPROCESSING"
      using wf_waits_for_answer [OF quiet server len(1) less.prems False, of "j - k"] j by auto
    note moves = wf_round_moves [OF quiet [of m] g(2) server len g(3,5), of poses_of]
    show ?thesis
    proof (cases "Suc (pos_of ps start g) = length (wf_plan ps start (unat L))")
      case True
      then obtain f' where "wf_round H poses_of False (inps m) g = Returned f'" "finished H s ps start L before f'"
        using moves by auto
      then have "wf_rounds H poses_of False inps (Suc m) r = Returned f'" using g(1) by simp
      then show ?thesis using \<open>finished H s ps start L before f'\<close> by blast
    next
      case last: False
      then obtain f' where f': "wf_round H poses_of False (inps m) g = Continue f'" "wf_inv s ps start L before f'"
        "new_goal f'" "pos_of ps start f' = Suc (pos_of ps start f)" using moves g(4) by auto
      have "pos_of ps start f < length (wf_plan ps start (unat L))"
        using less.prems(2) len(1) unfolding pos_of_def
        by (intro wf_plan_nth(1)) (auto simp: wf_inv_def word_le_nat_alt unat_eq_0)
      then show ?thesis
        using less.hyps [of f' "Suc m"] f' g(1) False by simp
    qed
  qed
qed

lemma wf_start_ok:
  assumes "get_current_goal H (srv_of f) = Some g" "is_server_active (srv_of f)"
    "unat (start_index (goal_of g)) < length (poses_of g)"
  shows "\<exists>f0. wf_start H goal_of poses_of f = Continue f0 \<and>
    wf_inv (srv_of f) (poses_of g) (unat (start_index (goal_of g))) (number_of_loops (goal_of g)) (nav_calls f) f0"
proof -
  have ne: "poses_of g \<noteq> []" using assms(3) by auto
  let ?f = "f\<lparr>current_loop_no := 0, no_of_loops := number_of_loops (goal_of g), wf_poses := poses_of g,
      result_of := \<lparr>error_code = 0, missed_waypoints = []\<rparr>, goal_index := start_index (goal_of g), new_goal := True\<rparr>"
  have "wf_start H goal_of poses_of f = Continue ?f"
    using assms(1,2) ne by (simp add: wf_start_def getLatestGoalPoses_def Let_def)
  moreover have "wf_inv (srv_of f) (poses_of g) (unat (start_index (goal_of g))) (number_of_loops (goal_of g)) (nav_calls f) ?f"
    using assms(3) by (simp add: wf_inv_def wf_pos_def)
  ultimately show ?thesis by blast
qed


lemma wf_rounds_stay: "wf_rounds H poses_of stop inps k r = Returned f \<Longrightarrow> wf_rounds H poses_of stop inps (k + d) r = Returned f"
  by (induction d) simp_all

text \<open>A small instance: goals are numbers, the navigation action answers in the round after the sending.\<close>

definition wf_handles :: "(nat wf_result, ros_world) handle_ops" where
  "wf_handles = \<lparr>h_is_active = h_is_active ros_handles, h_is_canceling = h_is_canceling ros_handles,
     h_abort = (\<lambda>g _. h_abort ros_handles g ()), h_canceled = (\<lambda>g _. h_canceled ros_handles g ()),
     h_succeed = (\<lambda>g _. h_succeed ros_handles g ()), empty_result = \<lparr>error_code = 0, missed_waypoints = []\<rparr>\<rparr>"

lemma wf_handles_laws: "handle_laws wf_handles"
  using ros_handles_laws by (simp add: handle_laws_def finishes_def wf_handles_def)

definition demo_goal :: "nat \<Rightarrow> nat wf_goal" where
  "demo_goal g = \<lparr>number_of_loops = 1, start_index = 1, goal_poses = [10, 20]\<rparr>"

definition demo_input :: "ros_world round_input" where
  "demo_input = \<lparr>interfere = id, ros_ok = True, handle_of = Some 7, task_executed = True,
     callbacks = [ResultCallback 7 RcSUCCEEDED 0]\<rparr>"

definition demo_follower :: "(nat, ros_world) follower" where
  "demo_follower = \<lparr>srv_of = srv ros_one_goal, status = StUNKNOWN, status_error = 0, sent_handle = None,
     wf_poses = [], goal_index = 0, new_goal = False, current_loop_no = 0, no_of_loops = 0,
     result_of = \<lparr>error_code = 0, missed_waypoints = []\<rparr>, nav_calls = [], feedback = []\<rparr>"

lemma demo_server:
  "get_current_goal wf_handles (srv ros_one_goal) = Some 1" "is_server_active (srv ros_one_goal)"
  "\<not> is_cancel_requested wf_handles (srv ros_one_goal)" "\<not> is_preempt_requested (srv ros_one_goal)"
  by (simp_all add: get_current_goal_def is_server_active_def is_cancel_requested_def is_preempt_requested_def
      is_active_def ros_one_goal_fields ros_initial_def wf_handles_def ros_handles_def ros_active_def)

lemma and_next_Continue: "and_next r k = Continue h \<Longrightarrow> \<exists>g. r = Continue g \<and> k g = Continue h"
  by (cases r) simp_all

text \<open>The handle of the goal sent last, through the parts of a round.\<close>

lemma wf_parts_handle:
  "wf_preempt H poses_of f = Continue g \<Longrightarrow> new_goal f \<or> sent_handle f = x \<Longrightarrow> new_goal g \<or> sent_handle g = x"
  "wf_send inp f = Continue g \<Longrightarrow> new_goal f \<or> sent_handle f = handle_of inp \<Longrightarrow> sent_handle g = handle_of inp"
  "wf_feedback H f = Continue g \<Longrightarrow> sent_handle g = sent_handle f"
  "wf_evaluate H stop inp f = Continue g \<Longrightarrow> sent_handle g = sent_handle f"
  "wf_advance H f = Continue g \<Longrightarrow> sent_handle g = sent_handle f"
  by (auto simp: wf_preempt_def wf_send_def wf_feedback_def wf_evaluate_def wf_advance_def Let_def add_missed_def
      wf_give_up_def split: if_splits option.splits)

lemma demo_round:
  assumes "wf_round H poses_of stop demo_input f = Continue h" "new_goal f \<or> sent_handle f = Some 7"
  shows "sent_handle h = Some 7 \<and> status h = StSUCCEEDED"
proof -
  let ?f = "f\<lparr>srv_of := srv_of f\<rparr>"
  obtain a b c d e where st: "wf_preempt H poses_of ?f = Continue a" "wf_send demo_input a = Continue b"
    "wf_feedback H b = Continue c" "wf_evaluate H stop demo_input c = Continue d" "wf_advance H d = Continue e"
    "wf_spin demo_input e = Continue h"
    using assms(1) unfolding wf_round_def Let_def
    by (auto simp: demo_input_def wf_cancel_def dest!: and_next_Continue split: if_splits option.splits)
  have "new_goal a \<or> sent_handle a = handle_of demo_input"
    by (rule wf_parts_handle(1) [OF st(1)]) (use assms(2) in \<open>auto simp: demo_input_def\<close>)
  then have "sent_handle e = Some 7"
    using wf_parts_handle(2) [OF st(2)] wf_parts_handle(3) [OF st(3)] wf_parts_handle(4) [OF st(4)]
      wf_parts_handle(5) [OF st(5)] by (simp add: demo_input_def)
  then show ?thesis using st(6) by (auto simp: wf_spin_def demo_input_def resultCallback_def)
qed

lemma demo_answered:
  "wf_rounds H poses_of stop (\<lambda>_. demo_input) k (Continue f0) = Continue h \<Longrightarrow> new_goal f0 \<Longrightarrow> status f0 \<noteq> StPROCESSING \<Longrightarrow>
    (new_goal h \<or> sent_handle h = Some 7) \<and> status h \<noteq> StPROCESSING"
proof (induction k arbitrary: h)
  case (Suc k)
  then obtain g where "wf_rounds H poses_of stop (\<lambda>_. demo_input) k (Continue f0) = Continue g"
    "wf_round H poses_of stop demo_input g = Continue h" by (auto dest!: and_next_Continue)
  then show ?case using Suc demo_round by fastforce
qed simp


section \<open>The handler and its server\<close>

text \<open>A part of a round settles the goal when it returns, and keeps the server's invariant when it goes on.\<close>

definition settles :: "('r, 'w) handle_ops \<Rightarrow> nat set \<Rightarrow> ('p, 'w) outcome \<Rightarrow> bool" where
  "settles H A r =
    (case r of Continue g \<Rightarrow> handles_ok H A (srv_of g) | Returned g \<Rightarrow> settled H A (srv_of g) | Crashed \<Rightarrow> True)"

lemma settles_and_next:
  "settles H A r \<Longrightarrow> (\<And>g. handles_ok H A (srv_of g) \<Longrightarrow> settles H A (k g)) \<Longrightarrow> settles H A (and_next r k)"
  by (cases r) (simp_all add: settles_def)

lemma spin_some_srv: "spin_some cs f = Some f' \<Longrightarrow> srv_of f' = srv_of f"
proof (induction cs f rule: spin_some.induct)
  case (2 g code err cs f)
  then show ?case
    by (auto simp: resultCallback_def split: option.splits result_code.splits if_splits)
qed (auto simp: goalResponseCallback_def split: if_splits)

lemma wf_parts_settle:
  assumes "handle_laws H" "handles_ok H A (srv_of f)"
  shows "settles H A (wf_cancel H inp f)" "settles H A (wf_preempt H poses_of f)" "settles H A (wf_send inp f)"
    "settles H A (wf_feedback H f)" "settles H A (wf_evaluate H stop inp f)" "settles H A (wf_advance H f)"
    "settles H A (wf_spin inp f)"
proof -
  note ok = settled_ops [OF assms(1)] and acc = accept_pending_goal_ok [OF assms]
  show "settles H A (wf_cancel H inp f)"
    using ok(2) [OF assms(2)] by (auto simp: wf_cancel_def settles_def dest!: spin_some_srv split: option.splits)
  show "settles H A (wf_preempt H poses_of f)"
    using ok(1) [OF acc] acc assms(2) by (simp add: wf_preempt_def settles_def Let_def)
  show "settles H A (wf_evaluate H stop inp f)"
    using ok(1) [OF assms(2)] assms(2)
    by (simp add: wf_evaluate_def wf_give_up_def add_missed_def settles_def Let_def)
  show "settles H A (wf_advance H f)"
    using ok(3) [OF assms(2)] assms(2) by (simp add: wf_advance_def settles_def Let_def)
  show "settles H A (wf_spin inp f)"
    using assms(2) by (auto simp: wf_spin_def settles_def dest!: spin_some_srv split: option.splits)
qed (use assms(2) in \<open>auto simp: wf_send_def wf_feedback_def settles_def split: option.splits\<close>)

text \<open>
  Property C29 (invariant): whatever happens in a round (cancellation, preemption, failure, the last
  waypoint, arbitrary interference that keeps the server's invariant), a handler that returns
  while ROS runs has settled its goal: the server has no current goal any more, its
  invariant holds, and the only goal that may still be active is the pending one.
\<close>

theorem waypoint_handler_settles_goal:
  assumes "handle_laws H" "handles_ok H A (interfere inp (srv_of f))" "ros_ok inp"
    and "wf_round H poses_of stop inp f = Returned f'"
  shows "handles_ok H A (srv_of f') \<and> current_handle (srv_of f') = None \<and>
    (\<forall>g \<in> A. h_is_active H g (world (srv_of f')) \<longrightarrow> pending_handle (srv_of f') = Some g)"
proof -
  let ?f = "f\<lparr>srv_of := interfere inp (srv_of f)\<rparr>"
  have ok: "handles_ok H A (srv_of ?f)" using assms(2) by simp
  have "settles H A (wf_round H poses_of stop inp f)"
    using assms(3) ok unfolding wf_round_def Let_def
    by (auto intro!: settles_and_next wf_parts_settle [OF assms(1)])
  then show ?thesis using assms(4) by (auto simp: settles_def settled_def handles_ok_def)
qed

theorem waypoint_handler_settles_goal_witness:
  "\<exists>f'. wf_round wf_handles (\<lambda>_. []) True (demo_input\<lparr>ros_ok := True\<rparr>)
      (demo_follower\<lparr>wf_poses := [5], status := StFAILED\<rparr>) = Returned f' \<and>
    current_handle (srv_of f') = None"
proof -
  let ?f = "demo_follower\<lparr>wf_poses := [5::nat], status := StFAILED\<rparr>"
  have s: "srv_of ?f = srv ros_one_goal" "new_goal ?f = False" by (simp_all add: demo_follower_def)
  have "reach as_init (as_step ros_handles) ros_one_goal" by (rule ros_one_goal_reach)
  then have "handles_ok ros_handles {1} (srv ros_one_goal)"
    using asys.inv_reach ros_handles_laws ros_one_goal_fields(3) by (fastforce simp: as_inv_def)
  then have ok: "handles_ok wf_handles {1} (interfere demo_input (srv_of ?f))"
    by (simp add: handles_ok_def wf_handles_def demo_input_def s)
  have "\<exists>f'. wf_round wf_handles (\<lambda>_. []) True demo_input ?f = Returned f'"
    using demo_server(3,4)
    by (auto simp: wf_round_def demo_input_def demo_follower_def wf_preempt_def wf_send_def wf_feedback_def
        wf_evaluate_def wf_give_up_def Let_def split: option.splits)
  then obtain f' where r: "wf_round wf_handles (\<lambda>_. []) True demo_input ?f = Returned f'" by blast
  have "ros_ok demo_input" by (simp add: demo_input_def)
  from waypoint_handler_settles_goal [OF wf_handles_laws ok this r] r show ?thesis
    by (auto simp: demo_input_def)
qed

end
