(* ===== verification/Lifecycle_Manager.thy ===== *)
theory Lifecycle_Manager
  imports Nav2_Prelude
begin

text \<open>
  nav2_lifecycle_manager (lifecycle_manager.cpp) and the LifecycleServiceClient it uses
  (nav2_util/lifecycle_service_client.cpp). The managed nodes, their services and bonds, the
  clock and \<open>rclcpp::ok\<close> are outside: a record of operations on a world \<open>'w\<close>, with no
  assumption on their answers. An operation returns its boolean result or the error that
  leaves it (an exception of the service client, or a dereferenced null pointer, which ends the
  process), and the manager's fields. All callbacks of the manager share one mutually
  exclusive callback group, so each is one atomic step of \<open>life_step\<close>.
\<close>

section \<open>Results with errors\<close>

datatype life_error = RuntimeException | NullClient | NullBond

definition and_then ::
  "(life_error + 'a) \<times> 's \<Rightarrow> ('a \<Rightarrow> 's \<Rightarrow> (life_error + 'b) \<times> 's) \<Rightarrow> (life_error + 'b) \<times> 's" where
  "and_then m f = (case m of (Inl e, s) \<Rightarrow> (Inl e, s) | (Inr a, s) \<Rightarrow> f a s)"

lemma and_then_simps [simp, life_simps]:
  "and_then (Inl e, s) f = (Inl e, s)"
  "and_then (Inr a, s) f = f a s"
  by (simp_all add: and_then_def)

lemma and_then_split:
  "P (and_then m f) \<longleftrightarrow>
     (\<forall>e s. m = (Inl e, s) \<longrightarrow> P (Inl e, s)) \<and> (\<forall>a s. m = (Inr a, s) \<longrightarrow> P (f a s))"
  by (auto simp: and_then_def split: prod.splits sum.splits)

lemma and_then_split_asm:
  "P (and_then m f) \<longleftrightarrow>
     \<not> ((\<exists>e s. m = (Inl e, s) \<and> \<not> P (Inl e, s)) \<or> (\<exists>a s. m = (Inr a, s) \<and> \<not> P (f a s)))"
  by (auto simp: and_then_def split: prod.splits sum.splits)

lemmas and_then_splits = and_then_split and_then_split_asm

section \<open>Constants and state\<close>

text \<open>Identifiers of lifecycle_msgs: transitions and primary states.\<close>

abbreviation TRANSITION_CONFIGURE :: u8 where "TRANSITION_CONFIGURE \<equiv> 1"
abbreviation TRANSITION_CLEANUP :: u8 where "TRANSITION_CLEANUP \<equiv> 2"
abbreviation TRANSITION_ACTIVATE :: u8 where "TRANSITION_ACTIVATE \<equiv> 3"
abbreviation TRANSITION_DEACTIVATE :: u8 where "TRANSITION_DEACTIVATE \<equiv> 4"
abbreviation TRANSITION_UNCONFIGURED_SHUTDOWN :: u8 where "TRANSITION_UNCONFIGURED_SHUTDOWN \<equiv> 5"
abbreviation PRIMARY_STATE_UNCONFIGURED :: u8 where "PRIMARY_STATE_UNCONFIGURED \<equiv> 1"
abbreviation PRIMARY_STATE_INACTIVE :: u8 where "PRIMARY_STATE_INACTIVE \<equiv> 2"
abbreviation PRIMARY_STATE_ACTIVE :: u8 where "PRIMARY_STATE_ACTIVE \<equiv> 3"
abbreviation PRIMARY_STATE_FINALIZED :: u8 where "PRIMARY_STATE_FINALIZED \<equiv> 4"

definition transition_state_map :: "u8 \<Rightarrow> u8" where
  "transition_state_map t =
    (if t = TRANSITION_CONFIGURE then PRIMARY_STATE_INACTIVE
     else if t = TRANSITION_CLEANUP then PRIMARY_STATE_UNCONFIGURED
     else if t = TRANSITION_ACTIVATE then PRIMARY_STATE_ACTIVE
     else if t = TRANSITION_DEACTIVATE then PRIMARY_STATE_INACTIVE
     else if t = TRANSITION_UNCONFIGURED_SHUTDOWN then PRIMARY_STATE_FINALIZED
     else 0)"

datatype NodeState = UNCONFIGURED | ACTIVE | INACTIVE | FINALIZED | UNKNOWN

text \<open>
  What lies outside, by node name: whether each service is available, the two forms of its
  invocation (\<open>None\<close> when nav2::ServiceClient throws), starting a bond and waiting until it is
  formed, whether a bond is broken, \<open>rclcpp::ok\<close> and \<open>now\<close>.
\<close>

record 'w life_ops =
  wait_change_state :: "string \<Rightarrow> int \<Rightarrow> 'w \<Rightarrow> bool \<times> 'w"
  invoke_change_state_timed :: "string \<Rightarrow> u8 \<Rightarrow> int \<Rightarrow> 'w \<Rightarrow> bool option \<times> 'w"
  invoke_change_state :: "string \<Rightarrow> u8 \<Rightarrow> 'w \<Rightarrow> bool option \<times> 'w"
  wait_get_state :: "string \<Rightarrow> int \<Rightarrow> 'w \<Rightarrow> bool \<times> 'w"
  invoke_get_state :: "string \<Rightarrow> int \<Rightarrow> 'w \<Rightarrow> u8 option \<times> 'w"
  bond_start_formed :: "string \<Rightarrow> 'w \<Rightarrow> bool \<times> 'w"
  bond_isBroken :: "string \<Rightarrow> 'w \<Rightarrow> bool \<times> 'w"
  rclcpp_ok :: "'w \<Rightarrow> bool"
  now_ns :: "'w \<Rightarrow> int"

text \<open>
  The maps hold shared pointers; \<open>node_map\<close> and \<open>bond_map\<close> are the names with a pointer that is
  not null (\<open>operator[]\<close> on an absent name gives a null pointer). \<open>published\<close> is the history of the
  latched topic managed_nodes_activated; \<open>is_active_pub\<close> whether its publisher exists (it is
  activated as soon as it is created).
\<close>

record 'w manager =
  lworld :: 'w
  node_names :: "string list"
  node_map :: "string set"
  bond_map :: "string set"
  bond_timer :: bool
  bond_respawn_timer :: bool
  bond_timeout :: int
  service_timeout :: int
  attempt_respawn_reconnection :: bool
  managed_nodes_state :: NodeState
  bond_respawn_start_time :: int
  bond_respawn_max_duration :: int
  is_active_pub :: bool
  published :: "bool list"

section \<open>LifecycleServiceClient\<close>

definition change_state ::
  "'w life_ops \<Rightarrow> string \<Rightarrow> u8 \<Rightarrow> int \<Rightarrow> int \<Rightarrow> 'w \<Rightarrow> (life_error + bool) \<times> 'w" where
  "change_state ops node transition transition_timeout wait_for_service_timeout w =
    (case wait_change_state ops node wait_for_service_timeout w of
       (False, w1) \<Rightarrow> (Inl RuntimeException, w1)
     | (True, w1) \<Rightarrow>
         (case (if transition_timeout > 0
                then invoke_change_state_timed ops node transition transition_timeout w1
                else invoke_change_state ops node transition w1) of
            (None, w2) \<Rightarrow> (Inl RuntimeException, w2)
          | (Some b, w2) \<Rightarrow> (Inr b, w2)))"

definition get_state ::
  "'w life_ops \<Rightarrow> string \<Rightarrow> int \<Rightarrow> 'w \<Rightarrow> (life_error + u8) \<times> 'w" where
  "get_state ops node timeout w =
    (case wait_get_state ops node timeout w of
       (False, w1) \<Rightarrow> (Inl RuntimeException, w1)
     | (True, w1) \<Rightarrow>
         (case invoke_get_state ops node timeout w1 of
            (None, w2) \<Rightarrow> (Inl RuntimeException, w2)
          | (Some st, w2) \<Rightarrow> (Inr st, w2)))"

text \<open>A call through \<open>node_map_[node_name]\<close>: a null pointer is dereferenced.\<close>

definition via_client ::
  "string \<Rightarrow> ('w \<Rightarrow> (life_error + 'a) \<times> 'w) \<Rightarrow> 'w manager \<Rightarrow> (life_error + 'a) \<times> 'w manager" where
  "via_client node call s =
    (if node \<notin> node_map s then (Inl NullClient, s)
     else (let (r, w) = call (lworld s) in (r, s\<lparr>lworld := w\<rparr>)))"

section \<open>The manager's methods\<close>

definition isActive :: "'w manager \<Rightarrow> bool" where
  "isActive s \<longleftrightarrow> managed_nodes_state s = ACTIVE"

definition publishIsActiveState :: "'w manager \<Rightarrow> 'w manager" where
  "publishIsActiveState s =
    (if is_active_pub s then s\<lparr>published := published s @ [isActive s]\<rparr> else s)"

definition setState :: "NodeState \<Rightarrow> 'w manager \<Rightarrow> 'w manager" where
  "setState st s = publishIsActiveState (s\<lparr>managed_nodes_state := st\<rparr>)"

datatype diagnostic_level = DIAG_OK | DIAG_WARN | DIAG_ERROR

definition CreateDiagnostic :: "'w manager \<Rightarrow> diagnostic_level \<times> string" where
  "CreateDiagnostic s =
    (case managed_nodes_state s of
       ACTIVE \<Rightarrow> (DIAG_OK, ''Managed nodes are active'')
     | INACTIVE \<Rightarrow> (DIAG_OK, ''Managed nodes are inactive'')
     | UNCONFIGURED \<Rightarrow> (DIAG_OK, ''Managed nodes are unconfigured'')
     | FINALIZED \<Rightarrow> (DIAG_WARN, ''Managed nodes have been shut down'')
     | UNKNOWN \<Rightarrow> (DIAG_ERROR, ''An error has occurred during a node state transition''))"

definition createLifecycleServiceClients :: "'w manager \<Rightarrow> 'w manager" where
  "createLifecycleServiceClients s = s\<lparr>node_map := node_map s \<union> set (node_names s)\<rparr>"

definition createLifecyclePublishers :: "'w manager \<Rightarrow> 'w manager" where
  "createLifecyclePublishers s = publishIsActiveState (s\<lparr>is_active_pub := True\<rparr>)"

definition destroyLifecycleServiceClients :: "'w manager \<Rightarrow> 'w manager" where
  "destroyLifecycleServiceClients s = s\<lparr>node_map := {}\<rparr>"

definition destroyLifecyclePublishers :: "'w manager \<Rightarrow> 'w manager" where
  "destroyLifecyclePublishers s = s\<lparr>is_active_pub := False\<rparr>"

definition createBondConnection ::
  "'w life_ops \<Rightarrow> string \<Rightarrow> 'w manager \<Rightarrow> (life_error + bool) \<times> 'w manager" where
  "createBondConnection ops node s =
    (if node \<notin> bond_map s \<and> bond_timeout s > 0 then
       (let (formed, w) = bond_start_formed ops node (lworld s)
        in (Inr formed, s\<lparr>bond_map := insert node (bond_map s), lworld := w\<rparr>))
     else (Inr True, s))"

definition changeStateForNode ::
  "'w life_ops \<Rightarrow> string \<Rightarrow> u8 \<Rightarrow> 'w manager \<Rightarrow> (life_error + bool) \<times> 'w manager" where
  "changeStateForNode ops node transition s =
    and_then (via_client node (change_state ops node transition (-1) (service_timeout s)) s)
      (\<lambda>called s1. if \<not> called then (Inr False, s1)
       else and_then (via_client node (get_state ops node (service_timeout s1)) s1)
         (\<lambda>st s2. if st \<noteq> transition_state_map transition then (Inr False, s2)
          else if transition = TRANSITION_ACTIVATE then createBondConnection ops node s2
          else if transition = TRANSITION_DEACTIVATE
            then (Inr True, s2\<lparr>bond_map := bond_map s2 - {node}\<rparr>)
          else (Inr True, s2)))"

text \<open>
  The loop of \<open>changeStateForAllNodes\<close> over the nodes in the order it visits them: a
  \<open>std::runtime_error\<close> ends it with false, even in a hard change.
\<close>

fun change_each ::
  "'w life_ops \<Rightarrow> u8 \<Rightarrow> bool \<Rightarrow> string list \<Rightarrow> 'w manager \<Rightarrow> (life_error + bool) \<times> 'w manager" where
  "change_each ops transition hard [] s = (Inr True, s)"
| "change_each ops transition hard (n # ns) s =
    (case changeStateForNode ops n transition s of
       (Inl RuntimeException, s1) \<Rightarrow> (Inr False, s1)
     | (Inl e, s1) \<Rightarrow> (Inl e, s1)
     | (Inr b, s1) \<Rightarrow>
         (if \<not> b \<and> \<not> hard then (Inr False, s1) else change_each ops transition hard ns s1))"

definition visit_order :: "u8 \<Rightarrow> string list \<Rightarrow> string list" where
  "visit_order transition names =
    (if transition = TRANSITION_CONFIGURE \<or> transition = TRANSITION_ACTIVATE
     then names else rev names)"

definition changeStateForAllNodes ::
  "'w life_ops \<Rightarrow> u8 \<Rightarrow> bool \<Rightarrow> 'w manager \<Rightarrow> (life_error + bool) \<times> 'w manager" where
  "changeStateForAllNodes ops transition hard s =
    change_each ops transition hard (visit_order transition (node_names s)) s"

definition createBondTimer :: "'w manager \<Rightarrow> 'w manager" where
  "createBondTimer s = (if bond_timeout s \<le> 0 then s else s\<lparr>bond_timer := True\<rparr>)"

definition destroyBondTimer :: "'w manager \<Rightarrow> 'w manager" where
  "destroyBondTimer s = s\<lparr>bond_timer := False\<rparr>"

definition shutdownAllNodes ::
  "'w life_ops \<Rightarrow> 'w manager \<Rightarrow> (life_error + unit) \<times> 'w manager" where
  "shutdownAllNodes ops s =
    and_then (changeStateForAllNodes ops TRANSITION_DEACTIVATE False (setState FINALIZED s)) (\<lambda>_ s1.
    and_then (changeStateForAllNodes ops TRANSITION_CLEANUP False s1) (\<lambda>_ s2.
    and_then (changeStateForAllNodes ops TRANSITION_UNCONFIGURED_SHUTDOWN False s2) (\<lambda>_ s3.
    (Inr (), s3))))"

text \<open>
  The common ending of the commands: on failure the state is UNKNOWN and the result false.
\<close>

definition lm_startup :: "'w life_ops \<Rightarrow> 'w manager \<Rightarrow> (life_error + bool) \<times> 'w manager" where
  "lm_startup ops s =
    and_then (changeStateForAllNodes ops TRANSITION_CONFIGURE False s) (\<lambda>ok1 s1.
      if \<not> ok1 then (Inr False, setState UNKNOWN s1)
      else and_then (changeStateForAllNodes ops TRANSITION_ACTIVATE False s1) (\<lambda>ok2 s2.
        if \<not> ok2 then (Inr False, setState UNKNOWN s2)
        else (Inr True, createBondTimer (setState ACTIVE s2))))"

definition lm_configure :: "'w life_ops \<Rightarrow> 'w manager \<Rightarrow> (life_error + bool) \<times> 'w manager" where
  "lm_configure ops s =
    and_then (changeStateForAllNodes ops TRANSITION_CONFIGURE False s) (\<lambda>ok s1.
      if \<not> ok then (Inr False, setState UNKNOWN s1) else (Inr True, setState INACTIVE s1))"

definition lm_cleanup :: "'w life_ops \<Rightarrow> 'w manager \<Rightarrow> (life_error + bool) \<times> 'w manager" where
  "lm_cleanup ops s =
    and_then (changeStateForAllNodes ops TRANSITION_CLEANUP False s) (\<lambda>ok s1.
      if \<not> ok then (Inr False, setState UNKNOWN s1) else (Inr True, setState UNCONFIGURED s1))"

definition lm_shutdown :: "'w life_ops \<Rightarrow> 'w manager \<Rightarrow> (life_error + bool) \<times> 'w manager" where
  "lm_shutdown ops s =
    and_then (shutdownAllNodes ops (destroyBondTimer s)) (\<lambda>_ s1.
      (Inr True, destroyLifecyclePublishers (destroyLifecycleServiceClients s1)))"

definition lm_reset ::
  "'w life_ops \<Rightarrow> bool \<Rightarrow> 'w manager \<Rightarrow> (life_error + bool) \<times> 'w manager" where
  "lm_reset ops hard_reset s =
    and_then (changeStateForAllNodes ops TRANSITION_DEACTIVATE hard_reset (destroyBondTimer s)) (\<lambda>ok1 s1.
    and_then (if ok1 then changeStateForAllNodes ops TRANSITION_CLEANUP hard_reset s1
              else (Inr False, s1)) (\<lambda>ok2 s2.
      if \<not> ok2 \<and> \<not> hard_reset then (Inr False, setState UNKNOWN s2)
      else (Inr True, setState UNCONFIGURED s2)))"

definition lm_pause :: "'w life_ops \<Rightarrow> 'w manager \<Rightarrow> (life_error + bool) \<times> 'w manager" where
  "lm_pause ops s =
    and_then (changeStateForAllNodes ops TRANSITION_DEACTIVATE False (destroyBondTimer s)) (\<lambda>ok s1.
      if \<not> ok then (Inr False, setState UNKNOWN s1) else (Inr True, setState INACTIVE s1))"

definition lm_resume :: "'w life_ops \<Rightarrow> 'w manager \<Rightarrow> (life_error + bool) \<times> 'w manager" where
  "lm_resume ops s =
    and_then (changeStateForAllNodes ops TRANSITION_ACTIVATE False s) (\<lambda>ok s1.
      if \<not> ok then (Inr False, setState UNKNOWN s1)
      else (Inr True, createBondTimer (setState ACTIVE s1)))"

datatype command = STARTUP | CONFIGURE | CLEANUP | RESET | SHUTDOWN | PAUSE | RESUME

fun managerCallback ::
  "'w life_ops \<Rightarrow> command \<Rightarrow> 'w manager \<Rightarrow> (life_error + bool) \<times> 'w manager" where
  "managerCallback ops STARTUP s = lm_startup ops s"
| "managerCallback ops CONFIGURE s = lm_configure ops s"
| "managerCallback ops CLEANUP s = lm_cleanup ops s"
| "managerCallback ops RESET s = lm_reset ops False s"
| "managerCallback ops SHUTDOWN s = lm_shutdown ops s"
| "managerCallback ops PAUSE s = lm_pause ops s"
| "managerCallback ops RESUME s = lm_resume ops s"

definition isActiveCallback :: "'w manager \<Rightarrow> bool" where
  "isActiveCallback s = isActive s"

definition onRclPreshutdown :: "'w manager \<Rightarrow> 'w manager" where
  "onRclPreshutdown s = (destroyBondTimer s)\<lparr>node_names := [], node_map := {}, bond_map := {}\<rparr>"

text \<open>
  The heartbeat check: the first broken bond brings all nodes down. \<open>bond_map_[node_name]\<close> of a
  node with no bond is a null pointer.
\<close>

fun check_bonds ::
  "'w life_ops \<Rightarrow> string list \<Rightarrow> 'w manager \<Rightarrow> (life_error + unit) \<times> 'w manager" where
  "check_bonds ops [] s = (Inr (), s)"
| "check_bonds ops (n # ns) s =
    (if \<not> rclcpp_ok ops (lworld s) then (Inr (), s)
     else if n \<notin> bond_map s then (Inl NullBond, s)
     else
       (let (broken, w) = bond_isBroken ops n (lworld s); s1 = s\<lparr>lworld := w\<rparr>
        in if broken then
             and_then (lm_reset ops True s1) (\<lambda>_ s2.
               (Inr (), s2\<lparr>bond_map := {},
                  bond_respawn_timer :=
                    (if attempt_respawn_reconnection s2 then True else bond_respawn_timer s2)\<rparr>))
           else check_bonds ops ns s1))"

definition checkBondConnections ::
  "'w life_ops \<Rightarrow> 'w manager \<Rightarrow> (life_error + unit) \<times> 'w manager" where
  "checkBondConnections ops s =
    (if \<not> isActive s \<or> \<not> rclcpp_ok ops (lworld s) \<or> bond_map s = {} then (Inr (), s)
     else check_bonds ops (node_names s) s)"

text \<open>
  Counting the servers that answer: \<open>None\<close> when \<open>rclcpp::ok\<close> turned false, which ends the callback.
  \<open>catch (...)\<close> does not catch the dereference of a null pointer.
\<close>

fun count_live ::
  "'w life_ops \<Rightarrow> string list \<Rightarrow> nat \<Rightarrow> 'w manager \<Rightarrow> (life_error + nat option) \<times> 'w manager" where
  "count_live ops [] live s = (Inr (Some live), s)"
| "count_live ops (n # ns) live s =
    (if \<not> rclcpp_ok ops (lworld s) then (Inr None, s)
     else case via_client n (get_state ops n (service_timeout s)) s of
       (Inl RuntimeException, s1) \<Rightarrow> (Inr (Some live), s1)
     | (Inl e, s1) \<Rightarrow> (Inl e, s1)
     | (Inr _, s1) \<Rightarrow> count_live ops ns (live + 1) s1)"

definition stop_respawn :: "'w manager \<Rightarrow> 'w manager" where
  "stop_respawn s = s\<lparr>bond_respawn_start_time := 0, bond_respawn_timer := False\<rparr>"

definition respawn_attempt ::
  "'w life_ops \<Rightarrow> 'w manager \<Rightarrow> (life_error + unit) \<times> 'w manager" where
  "respawn_attempt ops s =
    (if isActive s \<or> \<not> rclcpp_ok ops (lworld s) \<or> node_names s = []
     then (Inr (), stop_respawn s)
     else and_then (count_live ops (node_names s) 0 s) (\<lambda>live s1.
       case live of
         None \<Rightarrow> (Inr (), s1)
       | Some n \<Rightarrow>
           (if n = length (node_names s1) then
              and_then (lm_startup ops (stop_respawn s1)) (\<lambda>_ s2. (Inr (), s2))
            else if now_ns ops (lworld s1) - bond_respawn_start_time s1
                      \<ge> bond_respawn_max_duration s1
            then (Inr (), stop_respawn s1)
            else (Inr (), s1))))"

definition checkBondRespawnConnection ::
  "'w life_ops \<Rightarrow> 'w manager \<Rightarrow> (life_error + unit) \<times> 'w manager" where
  "checkBondRespawnConnection ops s =
    respawn_attempt ops
      (if bond_respawn_start_time s = 0
       then s\<lparr>bond_respawn_start_time := now_ns ops (lworld s)\<rparr> else s)"

section \<open>The manager as a state machine\<close>

text \<open>
  The initial state is the one after the constructor's timer has created publishers and
  clients. The world may change at any time; the timers fire while they exist.
\<close>

datatype life_event = Command command | BondTimer | RespawnTimer | Preshutdown | World

inductive life_step :: "'w life_ops \<Rightarrow> 'w manager \<Rightarrow> life_event \<Rightarrow> 'w manager \<Rightarrow> bool"
  for ops :: "'w life_ops" where
  life_command: "managerCallback ops c s = (Inr b, t) \<Longrightarrow> life_step ops s (Command c) t"
| life_bond_timer: "bond_timer s \<Longrightarrow> checkBondConnections ops s = (Inr (), t) \<Longrightarrow>
    life_step ops s BondTimer t"
| life_respawn_timer: "bond_respawn_timer s \<Longrightarrow> checkBondRespawnConnection ops s = (Inr (), t) \<Longrightarrow>
    life_step ops s RespawnTimer t"
| life_preshutdown: "life_step ops s Preshutdown (onRclPreshutdown s)"
| life_world: "life_step ops s World (s\<lparr>lworld := w\<rparr>)"

inductive_cases life_stepE: "life_step ops s e t"

definition life_init :: "'w manager \<Rightarrow> bool" where
  "life_init s \<longleftrightarrow> (\<exists>s0. node_map s0 = {} \<and> bond_map s0 = {} \<and> \<not> bond_timer s0 \<and>
     \<not> bond_respawn_timer s0 \<and> managed_nodes_state s0 = UNCONFIGURED \<and>
     bond_respawn_start_time s0 = 0 \<and> \<not> is_active_pub s0 \<and> published s0 = [] \<and>
     s = createLifecycleServiceClients (createLifecyclePublishers s0))"

section \<open>What the transitions change\<close>

text \<open>Talking to the nodes changes the world and the bonds, nothing else.\<close>

definition life_frame :: "'w manager \<Rightarrow> 'w manager \<Rightarrow> bool" where
  "life_frame s t \<longleftrightarrow> (\<exists>w b. t = s\<lparr>lworld := w, bond_map := b\<rparr>)"

lemma life_frameI: "t = s\<lparr>lworld := lworld t, bond_map := bond_map t\<rparr> \<Longrightarrow> life_frame s t"
  unfolding life_frame_def by blast

lemma life_frame_refl [simp, intro]: "life_frame s s"
  by (rule life_frameI) simp

lemma life_frame_fields:
  assumes "life_frame s t"
  shows "node_names t = node_names s" "node_map t = node_map s" "bond_timer t = bond_timer s"
    "bond_respawn_timer t = bond_respawn_timer s" "bond_timeout t = bond_timeout s"
    "service_timeout t = service_timeout s"
    "attempt_respawn_reconnection t = attempt_respawn_reconnection s"
    "managed_nodes_state t = managed_nodes_state s"
    "bond_respawn_start_time t = bond_respawn_start_time s"
    "bond_respawn_max_duration t = bond_respawn_max_duration s"
    "is_active_pub t = is_active_pub s" "published t = published s"
  using assms by (auto simp: life_frame_def)

lemma life_frame_trans [trans]: "life_frame s t \<Longrightarrow> life_frame t u \<Longrightarrow> life_frame s u"
  by (rule life_frameI) (auto simp: life_frame_def)

lemma via_client_frame:
  assumes "via_client n call s = (r, t)"
  shows "life_frame s t" "bond_map t = bond_map s"
  using assms by (auto simp: via_client_def Let_def split: if_splits prod.splits intro: life_frameI)

lemma via_client_error:
  assumes "via_client n (change_state ops n tr a b) s = (Inl e, t) \<or>
      via_client n (get_state ops n a) s = (Inl e, t)" "n \<in> node_map s"
  shows "e = RuntimeException"
  using assms
  by (auto simp: via_client_def change_state_def get_state_def Let_def
      split: if_splits prod.splits bool.splits option.splits)

lemma via_client_null: "n \<notin> node_map s \<Longrightarrow> via_client n call s = (Inl NullClient, s)"
  by (simp add: via_client_def)

lemma via_client_NullBond:
  "via_client n (change_state ops n tr a b) s \<noteq> (Inl NullBond, t)"
  "via_client n (get_state ops n a) s \<noteq> (Inl NullBond, t)"
  by (auto simp: via_client_def change_state_def get_state_def Let_def
      split: if_splits prod.splits bool.splits option.splits)

lemma createBondConnection_frame:
  assumes "createBondConnection ops n s = (r, t)"
  shows "life_frame s t" "bond_map s \<subseteq> bond_map t" "\<exists>b. r = Inr b"
    "bond_timeout s > 0 \<Longrightarrow> n \<in> bond_map t"
  using assms
  by (auto simp: createBondConnection_def Let_def split: if_splits prod.splits intro: life_frameI)

text \<open>
  One node. The cases are an error of the client, an answer that is not the wanted state, and
  success.
\<close>

lemma changeStateForNode_cases:
  assumes "changeStateForNode ops n tr s = (r, t)"
  obtains (error) e where "r = Inl e" "life_frame s t"
      "bond_map t = bond_map s"
      "n \<in> node_map s \<longrightarrow> e = RuntimeException" "n \<notin> node_map s \<longrightarrow> e = NullClient"
      "e \<noteq> NullBond"
  | (refused) "r = Inr False" "life_frame s t" "bond_map t = bond_map s" "n \<in> node_map s"
  | (activated) b where "r = Inr b" "tr = TRANSITION_ACTIVATE" "life_frame s t"
      "bond_map s \<subseteq> bond_map t" "bond_timeout s > 0 \<longrightarrow> n \<in> bond_map t" "n \<in> node_map s"
  | (deactivated) "r = Inr True" "tr = TRANSITION_DEACTIVATE" "life_frame s t"
      "bond_map t = bond_map s - {n}" "n \<in> node_map s"
  | (changed) "r = Inr True" "tr \<noteq> TRANSITION_ACTIVATE" "tr \<noteq> TRANSITION_DEACTIVATE"
      "life_frame s t" "bond_map t = bond_map s" "n \<in> node_map s"
proof -
  obtain r1 s1 where c1: "via_client n (change_state ops n tr (-1) (service_timeout s)) s = (r1, s1)"
    by fastforce
  note f1 = via_client_frame [OF c1]
  show thesis
  proof (cases r1)
    case (Inl e)
    have "n \<in> node_map s \<longrightarrow> e = RuntimeException" "n \<notin> node_map s \<longrightarrow> e = NullClient" "e \<noteq> NullBond"
      using via_client_error [of n ops tr "-1" "service_timeout s" s e s1] c1 Inl
        via_client_NullBond(1) [of n ops tr "-1" "service_timeout s" s s1]
      by (auto simp: via_client_null)
    then show thesis using error assms c1 Inl f1 by (auto simp: changeStateForNode_def)
  next
    case (Inr called)
    have inm: "n \<in> node_map s" using c1 Inr by (rule_tac ccontr) (simp add: via_client_null)
    show thesis
    proof (cases called)
      case False
      then show thesis using refused assms c1 Inr f1 inm by (auto simp: changeStateForNode_def)
    next
      case True
      obtain r2 s2 where c2: "via_client n (get_state ops n (service_timeout s1)) s1 = (r2, s2)"
        by fastforce
      note f2 = via_client_frame [OF c2]
      have fr: "life_frame s s2" "bond_map s2 = bond_map s"
        using life_frame_trans [OF f1(1) f2(1)] f1(2) f2(2) by auto
      have in1: "n \<in> node_map s1" using inm life_frame_fields(2) [OF f1(1)] by simp
      have eq: "changeStateForNode ops n tr s = and_then (r2, s2)
         (\<lambda>st s2. if st \<noteq> transition_state_map tr then (Inr False, s2)
          else if tr = TRANSITION_ACTIVATE then createBondConnection ops n s2
          else if tr = TRANSITION_DEACTIVATE
            then (Inr True, s2\<lparr>bond_map := bond_map s2 - {n}\<rparr>)
          else (Inr True, s2))"
        using c1 c2 Inr True by (simp add: changeStateForNode_def)
      show thesis
      proof (cases r2)
        case (Inl e)
        have "e = RuntimeException"
          using via_client_error [of n ops tr 0 "service_timeout s1" s1 e s2] c2 Inl in1
            via_client_error [of n ops tr "service_timeout s1" 0 s1 e s2] by auto
        then show thesis using error assms eq Inl fr inm by auto
      next
        case (Inr st)
        consider (bad) "st \<noteq> transition_state_map tr"
          | (act) "st = transition_state_map tr" "tr = TRANSITION_ACTIVATE"
          | (deact) "st = transition_state_map tr" "tr = TRANSITION_DEACTIVATE"
          | (other) "st = transition_state_map tr" "tr \<noteq> TRANSITION_ACTIVATE" "tr \<noteq> TRANSITION_DEACTIVATE"
          by blast
        then show thesis
        proof cases
          case bad
          then show thesis using refused assms eq Inr fr inm by auto
        next
          case act
          then have cb: "createBondConnection ops n s2 = (r, t)" using assms eq Inr by simp
          note f3 = createBondConnection_frame [OF cb]
          show thesis
            using activated f3 act(2) life_frame_trans [OF fr(1) f3(1)] fr inm
              life_frame_fields(5) [OF fr(1)] by auto
        next
          case deact
          then have "r = Inr True" "t = s2\<lparr>bond_map := bond_map s2 - {n}\<rparr>"
            using assms eq Inr by auto
          moreover have "life_frame s2 (s2\<lparr>bond_map := bond_map s2 - {n}\<rparr>)"
            by (rule life_frameI) simp
          ultimately show thesis using deactivated deact(2) life_frame_trans [OF fr(1)] fr(2) inm by auto
        next
          case other
          then show thesis using changed assms eq Inr fr inm by auto
        qed
      qed
    qed
  qed
qed

lemma change_each_frame: "change_each ops tr hard ns s = (r, t) \<Longrightarrow> life_frame s t"
proof (induction ns arbitrary: s)
  case (Cons n ns)
  obtain r1 s1 where c: "changeStateForNode ops n tr s = (r1, s1)" by fastforce
  have f: "life_frame s s1" using c by (cases rule: changeStateForNode_cases)
  show ?case using Cons c life_frame_trans [OF f] f
    by (auto split: sum.splits if_splits life_error.splits)
qed simp

text \<open>With a client for every node the loop returns; without one it is stuck on the first node.\<close>

lemma change_each_returns:
  "set ns \<subseteq> node_map s \<Longrightarrow> \<exists>b t. change_each ops tr hard ns s = (Inr b, t)"
proof (induction ns arbitrary: s)
  case (Cons n ns)
  obtain r1 s1 where c: "changeStateForNode ops n tr s = (r1, s1)" by fastforce
  have "(\<exists>b. r1 = Inr b) \<or> r1 = Inl RuntimeException"
    using c Cons.prems by (cases rule: changeStateForNode_cases) auto
  moreover have "node_map s1 = node_map s"
    using c by (cases rule: changeStateForNode_cases) (auto simp: life_frame_fields)
  ultimately show ?case using Cons c by (auto split: sum.splits)
qed (auto intro: exI [of _ True])

lemma change_each_null:
  assumes "ns \<noteq> []" "node_map s = {}"
  shows "change_each ops tr hard ns s = (Inl NullClient, s)"
proof -
  obtain n ns' where ns: "ns = n # ns'" using assms(1) by (cases ns) auto
  have "changeStateForNode ops n tr s = (Inl NullClient, s)"
    using assms(2) by (simp add: changeStateForNode_def via_client_null)
  then show ?thesis by (simp add: ns)
qed

lemma change_each_NullBond: "change_each ops tr hard ns s \<noteq> (Inl NullBond, t)"
proof (induction ns arbitrary: s)
  case (Cons n ns)
  obtain r1 s1 where c: "changeStateForNode ops n tr s = (r1, s1)" by fastforce
  have "r1 \<noteq> Inl NullBond" using c by (cases rule: changeStateForNode_cases) auto
  then show ?case using Cons c by (auto split: sum.splits life_error.splits)
qed simp

text \<open>After a successful activation of all nodes every one of them has a bond.\<close>

lemma activate_each_bonds:
  assumes "change_each ops TRANSITION_ACTIVATE False ns s = (Inr True, t)" "bond_timeout s > 0"
  shows "bond_map s \<union> set ns \<subseteq> bond_map t"
  using assms
proof (induction ns arbitrary: s)
  case (Cons n ns)
  obtain r1 s1 where c: "changeStateForNode ops n TRANSITION_ACTIVATE s = (r1, s1)" by fastforce
  have "r1 = Inr True" using Cons.prems c
    by (auto split: sum.splits life_error.splits if_splits)
  have "bond_timeout s1 = bond_timeout s"
    using c by (cases rule: changeStateForNode_cases) (auto simp: life_frame_fields)
  moreover have "insert n (bond_map s) \<subseteq> bond_map s1"
    using c \<open>r1 = Inr True\<close> Cons.prems(2) by (cases rule: changeStateForNode_cases) auto
  ultimately show ?case using Cons.IH [of s1] Cons.prems c \<open>r1 = Inr True\<close> by auto
qed simp

lemma changeStateForAllNodes_frame:
  "changeStateForAllNodes ops tr hard s = (r, t) \<Longrightarrow> life_frame s t"
  by (auto simp: changeStateForAllNodes_def dest: change_each_frame)

lemma count_live_frame: "count_live ops ns live s = (r, t) \<Longrightarrow> life_frame s t"
proof (induction ns arbitrary: s live)
  case (Cons n ns)
  obtain r1 s1 where c: "via_client n (get_state ops n (service_timeout s)) s = (r1, s1)"
    by fastforce
  note f = via_client_frame(1) [OF c]
  show ?case using Cons c f life_frame_trans [OF f]
    by (auto split: sum.splits if_splits life_error.splits)
qed simp

section \<open>The invariant\<close>

definition bonds_ok :: "'w manager \<Rightarrow> bool" where
  "bonds_ok s \<longleftrightarrow> (isActive s \<and> bond_timeout s > 0 \<longrightarrow> set (node_names s) \<subseteq> bond_map s) \<and>
     (bond_timer s \<longrightarrow> bond_timeout s > 0)"

definition clients_ok :: "'w manager \<Rightarrow> bool" where
  "clients_ok s \<longleftrightarrow> set (node_names s) \<subseteq> node_map s \<or>
     node_map s = {} \<and> managed_nodes_state s = FINALIZED"

definition topic_ok :: "'w manager \<Rightarrow> bool" where
  "topic_ok s \<longleftrightarrow> (is_active_pub s \<longrightarrow> published s \<noteq> [] \<and> last (published s) = isActive s)"

definition life_inv :: "'w manager \<Rightarrow> bool" where
  "life_inv s \<longleftrightarrow> bonds_ok s \<and> clients_ok s \<and> topic_ok s"

lemmas life_inv_defs = life_inv_def bonds_ok_def clients_ok_def topic_ok_def isActive_def

lemma setState_fields [simp]:
  "managed_nodes_state (setState st s) = st" "node_names (setState st s) = node_names s"
  "node_map (setState st s) = node_map s" "bond_map (setState st s) = bond_map s"
  "bond_timer (setState st s) = bond_timer s" "bond_timeout (setState st s) = bond_timeout s"
  "is_active_pub (setState st s) = is_active_pub s" "lworld (setState st s) = lworld s"
  "attempt_respawn_reconnection (setState st s) = attempt_respawn_reconnection s"
  "bond_respawn_timer (setState st s) = bond_respawn_timer s"
  by (simp_all add: setState_def publishIsActiveState_def)

lemma setState_topic [simp]: "topic_ok (setState st s)"
  by (simp add: topic_ok_def setState_def publishIsActiveState_def isActive_def)

lemma life_inv_small_steps [simp]:
  "life_inv s \<Longrightarrow> life_inv (destroyBondTimer s)"
  "life_inv s \<Longrightarrow> life_inv (stop_respawn s)"
  "life_inv s \<Longrightarrow> life_inv (s\<lparr>lworld := w\<rparr>)"
  "life_inv s \<Longrightarrow> life_inv (s\<lparr>bond_respawn_start_time := i\<rparr>)"
  "life_inv s \<Longrightarrow> life_inv (s\<lparr>bond_respawn_timer := b\<rparr>)"
  "life_inv s \<Longrightarrow> life_inv (createBondTimer s)"
  by (auto simp: life_inv_defs destroyBondTimer_def stop_respawn_def createBondTimer_def)

text \<open>
  Going through the nodes: when it returns there is a client for every node; setting a state
  other than ACTIVE afterwards keeps the invariant, and setting ACTIVE does after a successful
  activation.
\<close>

lemma all_nodes_clients:
  assumes "life_inv s" "changeStateForAllNodes ops tr hard s = (Inr b, t)"
  shows "set (node_names s) \<subseteq> node_map s"
proof (rule ccontr)
  assume no: "\<not> ?thesis"
  then have "node_map s = {}" using assms(1) by (auto simp: life_inv_defs)
  moreover have "visit_order tr (node_names s) \<noteq> []" using no by (auto simp: visit_order_def)
  ultimately show False using assms(2) change_each_null [of _ s ops tr hard]
    by (simp add: changeStateForAllNodes_def)
qed

lemma frame_keeps:
  assumes "life_frame s t" "set (node_names s) \<subseteq> node_map s" "bond_timer s \<longrightarrow> bond_timeout s > 0"
  shows "st \<noteq> ACTIVE \<Longrightarrow> life_inv (setState st t)"
    and "st = ACTIVE \<Longrightarrow> (bond_timeout t > 0 \<longrightarrow> set (node_names t) \<subseteq> bond_map t) \<Longrightarrow>
      life_inv (setState st t)"
  using assms life_frame_fields [OF assms(1)]
  by (simp_all add: life_inv_def bonds_ok_def clients_ok_def isActive_def)

lemma activation_bonds:
  assumes "changeStateForAllNodes ops TRANSITION_ACTIVATE False s = (Inr True, t)"
  shows "bond_timeout t > 0 \<longrightarrow> set (node_names t) \<subseteq> bond_map t"
  using assms activate_each_bonds [of ops "node_names s" s t]
    life_frame_fields [OF changeStateForAllNodes_frame [OF assms]]
  by (auto simp: changeStateForAllNodes_def visit_order_def)

lemma startup_inv:
  assumes "life_inv s" "lm_startup ops s = (Inr b, t)"
  shows "life_inv t"
proof -
  have bt: "bond_timer s \<longrightarrow> bond_timeout s > 0" using assms(1) by (simp add: life_inv_defs)
  obtain b1 s1 where c1: "changeStateForAllNodes ops TRANSITION_CONFIGURE False s = (Inr b1, s1)"
    using assms(2) by (auto simp: lm_startup_def split: and_then_splits)
  note f1 = changeStateForAllNodes_frame [OF c1] and cl = all_nodes_clients [OF assms(1) c1]
  show ?thesis
  proof (cases b1)
    case False
    then show ?thesis using assms(2) c1 frame_keeps(1) [OF f1 cl bt, of UNKNOWN]
      by (auto simp: lm_startup_def)
  next
    case True
    then obtain b2 s2 where c2: "changeStateForAllNodes ops TRANSITION_ACTIVATE False s1 = (Inr b2, s2)"
      using assms(2) c1 by (auto simp: lm_startup_def split: and_then_splits)
    note f2 = life_frame_trans [OF f1 changeStateForAllNodes_frame [OF c2]]
    show ?thesis
      using assms(2) c1 c2 True frame_keeps(1) [OF f2 cl bt, of UNKNOWN]
        frame_keeps(2) [OF f2 cl bt, of ACTIVE] activation_bonds [of ops s1 s2]
      by (auto simp: lm_startup_def split: if_splits)
  qed
qed

lemma one_pass_inv:
  assumes "life_inv s" "bond_timer s \<longrightarrow> bond_timeout s > 0"
    and "changeStateForAllNodes ops tr hard s = (Inr b, t)"
  shows "st \<noteq> ACTIVE \<Longrightarrow> life_inv (setState st t)"
  by (rule frame_keeps(1) [OF changeStateForAllNodes_frame [OF assms(3)]
      all_nodes_clients [OF assms(1,3)] assms(2)])

lemma activation_pass_inv:
  assumes "life_inv s" "bond_timer s \<longrightarrow> bond_timeout s > 0"
    and "changeStateForAllNodes ops TRANSITION_ACTIVATE False s = (Inr True, t)"
  shows "life_inv (setState ACTIVE t)"
  by (rule frame_keeps(2) [OF changeStateForAllNodes_frame [OF assms(3)]
      all_nodes_clients [OF assms(1,3)] assms(2) refl activation_bonds [OF assms(3)]])

lemma life_inv_timer: "life_inv s \<Longrightarrow> bond_timer s \<longrightarrow> bond_timeout s > 0"
  by (simp add: life_inv_defs)

lemma reset_inv:
  assumes "life_inv s" "lm_reset ops hard s = (Inr b, t)"
  shows "life_inv t" "\<not> isActive t"
proof -
  let ?s = "destroyBondTimer s"
  have inv: "life_inv ?s" using assms(1) by simp
  obtain b1 s1 where c1: "changeStateForAllNodes ops TRANSITION_DEACTIVATE hard ?s = (Inr b1, s1)"
    using assms(2) by (auto simp: lm_reset_def split: and_then_splits)
  note f1 = changeStateForAllNodes_frame [OF c1] and cl = all_nodes_clients [OF inv c1]
  note k = frame_keeps(1) [OF _ cl life_inv_timer [OF inv]]
  obtain b2 s2 where c2: "(if b1 then changeStateForAllNodes ops TRANSITION_CLEANUP hard s1
      else (Inr False, s1)) = (Inr b2, s2)"
    using assms(2) c1 by (auto simp: lm_reset_def split: and_then_splits)
  then have f2: "life_frame ?s s2"
    using f1 life_frame_trans [OF f1 changeStateForAllNodes_frame] by (auto split: if_splits)
  have t: "t = setState (if \<not> b2 \<and> \<not> hard then UNKNOWN else UNCONFIGURED) s2"
    using assms(2) c1 c2 by (auto simp: lm_reset_def split: if_splits)
  show "life_inv t" unfolding t by (rule k [OF f2]) simp
  show "\<not> isActive t" unfolding t by (simp add: isActive_def)
qed

lemma shutdown_inv:
  assumes "lm_shutdown ops s = (Inr b, t)"
  shows "life_inv t" "b" "node_map t = {}" "node_names t = node_names s"
    "managed_nodes_state t = FINALIZED"
proof -
  let ?s = "setState FINALIZED (destroyBondTimer s)"
  obtain b1 s1 b2 s2 b3 s3 where
    c: "changeStateForAllNodes ops TRANSITION_DEACTIVATE False ?s = (Inr b1, s1)"
      "changeStateForAllNodes ops TRANSITION_CLEANUP False s1 = (Inr b2, s2)"
      "changeStateForAllNodes ops TRANSITION_UNCONFIGURED_SHUTDOWN False s2 = (Inr b3, s3)"
    and t: "b" "t = destroyLifecyclePublishers (destroyLifecycleServiceClients s3)"
    using assms by (auto simp: lm_shutdown_def shutdownAllNodes_def split: and_then_splits)
  have f: "life_frame ?s s3"
    using c [THEN changeStateForAllNodes_frame] life_frame_trans by blast
  note fs = life_frame_fields [OF f]
  show "life_inv t" "b" "node_map t = {}" "node_names t = node_names s"
    "managed_nodes_state t = FINALIZED"
    using t fs by (simp_all add: life_inv_defs destroyLifecyclePublishers_def
        destroyLifecycleServiceClients_def destroyBondTimer_def)
qed

lemma command_inv:
  assumes "life_inv s" "managerCallback ops c s = (Inr b, t)"
  shows "life_inv t"
proof (cases c)
  case STARTUP
  then show ?thesis using startup_inv assms by simp
next
  case RESET
  then show ?thesis using reset_inv(1) assms by simp
next
  case SHUTDOWN
  then show ?thesis using shutdown_inv(1) assms by simp
next
  case CONFIGURE
  then show ?thesis using assms one_pass_inv [OF assms(1) life_inv_timer [OF assms(1)]]
    by (auto simp: lm_configure_def split: and_then_splits if_splits)
next
  case CLEANUP
  then show ?thesis using assms one_pass_inv [OF assms(1) life_inv_timer [OF assms(1)]]
    by (auto simp: lm_cleanup_def split: and_then_splits if_splits)
next
  case PAUSE
  have d: "life_inv (destroyBondTimer s)" using assms(1) by simp
  show ?thesis using PAUSE assms(2) one_pass_inv [OF d life_inv_timer [OF d]]
    by (auto simp: lm_pause_def split: and_then_splits if_splits)
next
  case RESUME
  then show ?thesis using assms one_pass_inv [OF assms(1) life_inv_timer [OF assms(1)]]
      activation_pass_inv [OF assms(1) life_inv_timer [OF assms(1)]]
    by (auto simp: lm_resume_def split: and_then_splits if_splits)
qed

lemma check_bonds_inv:
  "life_inv s \<Longrightarrow> check_bonds ops ns s = (Inr (), t) \<Longrightarrow> life_inv t"
proof (induction ns arbitrary: s)
  case (Cons n ns)
  obtain broken w where w: "bond_isBroken ops n (lworld s) = (broken, w)" by fastforce
  let ?s1 = "s\<lparr>lworld := w\<rparr>"
  have inv1: "life_inv ?s1" using Cons.prems(1) by simp
  show ?case
  proof (cases "rclcpp_ok ops (lworld s) \<and> n \<in> bond_map s \<and> broken")
    case True
    then obtain b s2 where r: "lm_reset ops True ?s1 = (Inr b, s2)"
      and t: "t = s2\<lparr>bond_map := {}, bond_respawn_timer :=
         (if attempt_respawn_reconnection s2 then True else bond_respawn_timer s2)\<rparr>"
      using Cons.prems(2) w by (auto split: and_then_splits)
    show ?thesis using reset_inv [OF inv1 r] unfolding t by (auto simp: life_inv_defs)
  next
    case False
    then show ?thesis using Cons.prems Cons.IH [OF inv1] w by (auto split: if_splits)
  qed
qed simp

lemma respawn_attempt_inv:
  assumes "life_inv s" "respawn_attempt ops s = (Inr (), t)"
  shows "life_inv t"
proof (cases "isActive s \<or> \<not> rclcpp_ok ops (lworld s) \<or> node_names s = []")
  case True
  then show ?thesis using assms by (auto simp: respawn_attempt_def)
next
  case False
  then obtain live s1 where c: "count_live ops (node_names s) 0 s = (Inr live, s1)"
    using assms(2) by (auto simp: respawn_attempt_def split: and_then_splits)
  have "life_inv s1"
    using assms(1) False life_frame_fields [OF count_live_frame [OF c]]
    by (simp add: life_inv_defs)
  then have inv: "life_inv s1" "life_inv (stop_respawn s1)" by simp_all
  show ?thesis
  proof (cases live)
    case None
    then show ?thesis using assms(2) c False inv by (simp add: respawn_attempt_def)
  next
    case (Some n)
    show ?thesis
    proof (cases "n = length (node_names s1)")
      case True
      then obtain b where "lm_startup ops (stop_respawn s1) = (Inr b, t)"
        using assms(2) c False Some by (auto simp: respawn_attempt_def split: and_then_splits)
      then show ?thesis by (rule startup_inv [OF inv(2)])
    next
      case n: False
      then have "t = s1 \<or> t = stop_respawn s1"
        using assms(2) c False Some by (auto simp: respawn_attempt_def split: if_splits)
      then show ?thesis using inv by blast
    qed
  qed
qed

lemma respawn_inv:
  assumes "life_inv s" "checkBondRespawnConnection ops s = (Inr (), t)"
  shows "life_inv t"
  by (rule respawn_attempt_inv [OF _ assms(2) [unfolded checkBondRespawnConnection_def]])
    (use assms(1) in simp)

lemma life_step_inv: "life_inv s \<Longrightarrow> life_step ops s e t \<Longrightarrow> life_inv t"
proof (erule life_stepE, goal_cases)
  case (2)
  then show ?case using check_bonds_inv by (auto simp: checkBondConnections_def split: if_splits)
next
  case (4)
  then show ?case by (auto simp: life_inv_defs onRclPreshutdown_def destroyBondTimer_def)
qed (auto dest: command_inv respawn_inv)

interpretation life: safe_system life_init "life_step ops" life_inv for ops
proof unfold_locales
  show "life_init s \<Longrightarrow> life_inv s" for s :: "'a manager"
    by (auto simp: life_init_def life_inv_defs createLifecycleServiceClients_def
        createLifecyclePublishers_def publishIsActiveState_def)
qed (rule life_step_inv)

section \<open>Recording the requests\<close>

text \<open>The same outside, which also records the requests sent and the states observed.\<close>

datatype life_log = Sent string u8 | Observed string u8

definition life_logged :: "'w life_ops \<Rightarrow> ('w \<times> life_log list) life_ops" where
  "life_logged ops =
    \<lparr>wait_change_state = (\<lambda>n t (w, l). let (b, w') = wait_change_state ops n t w in (b, w', l)),
     invoke_change_state_timed = (\<lambda>n tr t (w, l).
       let (b, w') = invoke_change_state_timed ops n tr t w in (b, w', l @ [Sent n tr])),
     invoke_change_state = (\<lambda>n tr (w, l).
       let (b, w') = invoke_change_state ops n tr w in (b, w', l @ [Sent n tr])),
     wait_get_state = (\<lambda>n t (w, l). let (b, w') = wait_get_state ops n t w in (b, w', l)),
     invoke_get_state = (\<lambda>n t (w, l).
       let (st, w') = invoke_get_state ops n t w
       in (st, w', case st of None \<Rightarrow> l | Some x \<Rightarrow> l @ [Observed n x])),
     bond_start_formed = (\<lambda>n (w, l). let (b, w') = bond_start_formed ops n w in (b, w', l)),
     bond_isBroken = (\<lambda>n (w, l). let (b, w') = bond_isBroken ops n w in (b, w', l)),
     rclcpp_ok = (\<lambda>(w, l). rclcpp_ok ops w),
     now_ns = (\<lambda>(w, l). now_ns ops w)\<rparr>"

definition log_of :: "('w \<times> life_log list) manager \<Rightarrow> life_log list" where
  "log_of s = snd (lworld s)"

text \<open>One client call with the log made explicit.\<close>

lemma change_state_logged:
  assumes "via_client n (change_state (life_logged ops) n tr (-1) tmo) s = (r, t)"
  shows "(log_of t = log_of s @ [Sent n tr] \<or> log_of t = log_of s) \<and>
    (\<forall>b. r = Inr b \<longrightarrow> log_of t = log_of s @ [Sent n tr]) \<and>
    ((\<forall>tmo w. \<not> fst (wait_change_state ops n tmo w)) \<longrightarrow> log_of t = log_of s \<and> (\<exists>e. r = Inl e))"
  using assms
  by (auto simp: via_client_def change_state_def life_logged_def log_of_def split_beta Let_def
      split: if_splits bool.splits option.splits prod.splits)

lemma get_state_logged:
  assumes "via_client n (get_state (life_logged ops) n tmo) s = (r, t)"
  shows "(\<forall>st. r = Inr st \<longrightarrow> log_of t = log_of s @ [Observed n st]) \<and>
    (\<forall>e. r = Inl e \<longrightarrow> log_of t = log_of s)"
  using assms
  by (auto simp: via_client_def get_state_def life_logged_def log_of_def split_beta Let_def
      split: if_splits bool.splits option.splits prod.splits)

lemma createBond_logged:
  "createBondConnection (life_logged ops) n s = (r, t) \<Longrightarrow> log_of t = log_of s"
  by (auto simp: createBondConnection_def life_logged_def log_of_def split_beta Let_def
      split: if_splits prod.splits)

fun log_node :: "life_log \<Rightarrow> string" where
  "log_node (Sent n tr) = n"
| "log_node (Observed n st) = n"

fun log_transition :: "life_log \<Rightarrow> u8 option" where
  "log_transition (Sent n tr) = Some tr"
| "log_transition (Observed n st) = None"

text \<open>
  What one node contributes to the log: only entries about itself and the requested
  transition; in case of success the request followed by the target state.
\<close>

definition node_entries :: "string \<Rightarrow> u8 \<Rightarrow> life_log list \<Rightarrow> bool" where
  "node_entries n tr l \<longleftrightarrow> (\<forall>x \<in> set l. log_node x = n \<and> log_transition x \<in> {None, Some tr})"

definition node_done :: "u8 \<Rightarrow> string \<Rightarrow> life_log list" where
  "node_done tr n = [Sent n tr, Observed n (transition_state_map tr)]"

lemma changeStateForNode_logged:
  assumes "changeStateForNode (life_logged ops) n tr s = (r, t)"
  shows "\<exists>l. log_of t = log_of s @ l \<and> node_entries n tr l \<and> (r = Inr True \<longrightarrow> l = node_done tr n)"
    and "(\<forall>tmo w. \<not> fst (wait_change_state ops n tmo w)) \<Longrightarrow> n \<in> node_map s \<Longrightarrow>
      r = Inl RuntimeException \<and> log_of t = log_of s"
proof -
  obtain r1 s1 where c1: "via_client n (change_state (life_logged ops) n tr (-1) (service_timeout s)) s
      = (r1, s1)" by fastforce
  note l1 = change_state_logged [OF c1]
  show "r = Inl RuntimeException \<and> log_of t = log_of s"
    if gone: "\<forall>tmo w. \<not> fst (wait_change_state ops n tmo w)" and inm: "n \<in> node_map s"
  proof -
    obtain e where "r1 = Inl e" "log_of s1 = log_of s" using l1 gone by blast
    then show ?thesis
      using assms c1 via_client_error [of n "life_logged ops" tr "-1" "service_timeout s" s e s1] inm
      by (auto simp: changeStateForNode_def)
  qed
  show "\<exists>l. log_of t = log_of s @ l \<and> node_entries n tr l \<and> (r = Inr True \<longrightarrow> l = node_done tr n)"
  proof (cases "r1 = Inr True")
    case False
    then have "t = s1 \<and> r \<noteq> Inr True"
      using assms c1 by (cases r1) (auto simp: changeStateForNode_def)
    then show ?thesis using l1 by (auto simp: node_entries_def)
  next
    case True
    obtain r2 s2 where c2: "via_client n (get_state (life_logged ops) n (service_timeout s1)) s1
      = (r2, s2)" by fastforce
    note l2 = get_state_logged [OF c2]
    have L: "log_of s1 = log_of s @ [Sent n tr]" using l1 True by blast
    show ?thesis
    proof (cases r2)
      case (Inl e)
      then have "t = s2 \<and> r \<noteq> Inr True" using assms c1 c2 True by (auto simp: changeStateForNode_def)
      then show ?thesis using L l2 Inl by (auto simp: node_entries_def)
    next
      case (Inr st)
      have "log_of t = log_of s2"
        using assms c1 c2 True Inr createBond_logged [of ops n s2 r t]
        by (auto simp: changeStateForNode_def log_of_def split: if_splits)
      moreover have "r = Inr True \<longrightarrow> st = transition_state_map tr"
        using assms c1 c2 True Inr by (auto simp: changeStateForNode_def split: if_splits)
      ultimately show ?thesis using L l2 Inr by (auto simp: node_entries_def node_done_def)
    qed
  qed
qed

lemma change_each_logged:
  assumes "change_each (life_logged ops) tr hard ns s = (r, t)"
  shows "\<exists>l. log_of t = log_of s @ l \<and>
     (\<forall>x \<in> set l. log_node x \<in> set ns \<and> log_transition x \<in> {None, Some tr}) \<and>
     (r = Inr True \<and> \<not> hard \<longrightarrow> l = concat (map (node_done tr) ns))"
  using assms
proof (induction ns arbitrary: s)
  case (Cons n ns)
  obtain r1 s1 where c: "changeStateForNode (life_logged ops) n tr s = (r1, s1)" by fastforce
  obtain l1 where l1: "log_of s1 = log_of s @ l1" "node_entries n tr l1"
      "r1 = Inr True \<longrightarrow> l1 = node_done tr n"
    using changeStateForNode_logged(1) [OF c] by blast
  show ?case
  proof (cases "\<exists>b. r1 = Inr b \<and> (b \<or> hard)")
    case False
    then have "t = s1 \<and> r \<noteq> Inr True"
      using Cons.prems c by (auto split: sum.splits life_error.splits if_splits)
    then show ?thesis using l1 by (auto simp: node_entries_def)
  next
    case True
    then have "change_each (life_logged ops) tr hard ns s1 = (r, t)" using Cons.prems c by auto
    from Cons.IH [OF this] obtain l2 where l2: "log_of t = log_of s1 @ l2"
      "\<forall>x \<in> set l2. log_node x \<in> set ns \<and> log_transition x \<in> {None, Some tr}"
      "r = Inr True \<and> \<not> hard \<longrightarrow> l2 = concat (map (node_done tr) ns)" by blast
    have "log_of t = log_of s @ (l1 @ l2)" using l1(1) l2(1) by simp
    then show ?thesis using l1(2,3) l2(2,3) True
      by (intro exI [of _ "l1 @ l2"]) (auto simp: node_entries_def)
  qed
qed simp

lemma all_nodes_done:
  assumes "changeStateForAllNodes (life_logged ops) tr False s = (Inr True, t)"
  shows "log_of t = log_of s @ concat (map (node_done tr) (visit_order tr (node_names s)))"
  using change_each_logged [OF assms [unfolded changeStateForAllNodes_def]] by auto

text \<open>A node whose service is gone stops a hard change as well.\<close>

lemma change_each_crashed:
  assumes "change_each (life_logged ops) tr hard (xs @ n # ys) s = (r, t)"
    and "\<forall>tmo w. \<not> fst (wait_change_state ops n tmo w)" "insert n (set xs) \<subseteq> node_map s"
  shows "r = Inr False \<and> (\<exists>l. log_of t = log_of s @ l \<and>
    (\<forall>x \<in> set l. log_node x \<in> set xs \<and> log_transition x \<in> {None, Some tr}))"
  using assms
proof (induction xs arbitrary: s)
  case Nil
  obtain r1 s1 where c: "changeStateForNode (life_logged ops) n tr s = (r1, s1)" by fastforce
  have "r1 = Inl RuntimeException \<and> log_of s1 = log_of s"
    using changeStateForNode_logged(2) [OF c Nil.prems(2)] Nil.prems(3) by simp
  then show ?case using Nil.prems(1) c by auto
next
  case (Cons m xs)
  obtain r1 s1 where c: "changeStateForNode (life_logged ops) m tr s = (r1, s1)" by fastforce
  obtain l1 where l1: "log_of s1 = log_of s @ l1" "node_entries m tr l1"
    using changeStateForNode_logged(1) [OF c] by blast
  have nm: "node_map s1 = node_map s"
    using c by (cases rule: changeStateForNode_cases) (auto simp: life_frame_fields)
  have e: "\<exists>b. r1 = Inr b \<or> r1 = Inl RuntimeException"
    using c Cons.prems(3) by (cases rule: changeStateForNode_cases) auto
  show ?case
  proof (cases "\<exists>b. r1 = Inr b \<and> (b \<or> hard)")
    case False
    moreover obtain b where "r1 = Inr b \<or> r1 = Inl RuntimeException" using e by blast
    ultimately have "t = s1 \<and> r = Inr False" using Cons.prems(1) c by fastforce
    then show ?thesis using l1 by (auto simp: node_entries_def)
  next
    case True
    then have "change_each (life_logged ops) tr hard (xs @ n # ys) s1 = (r, t)"
      using Cons.prems(1) c by auto
    moreover have "insert n (set xs) \<subseteq> node_map s1" using Cons.prems(3) nm by simp
    ultimately obtain l2 where l2: "r = Inr False" "log_of t = log_of s1 @ l2"
      "\<forall>x \<in> set l2. log_node x \<in> set xs \<and> log_transition x \<in> {None, Some tr}"
      using Cons.IH [OF _ Cons.prems(2)] by blast
    have "log_of t = log_of s @ (l1 @ l2)" using l1(1) l2(2) by simp
    then show ?thesis using l1(2) l2(1,3)
      by (intro conjI exI [of _ "l1 @ l2"]) (auto simp: node_entries_def)
  qed
qed

section \<open>A reference instance of the nodes\<close>

text \<open>
  Nodes that follow the ROS 2 lifecycle: the world gives the primary state of every node that
  is up. A request is answered also when the transition is not legal in the node's state.
\<close>

definition ros_legal :: "u8 \<Rightarrow> u8 \<Rightarrow> bool" where
  "ros_legal st tr \<longleftrightarrow>
     st = PRIMARY_STATE_UNCONFIGURED \<and> (tr = TRANSITION_CONFIGURE \<or> tr = TRANSITION_UNCONFIGURED_SHUTDOWN) \<or>
     st = PRIMARY_STATE_INACTIVE \<and> (tr = TRANSITION_ACTIVATE \<or> tr = TRANSITION_CLEANUP) \<or>
     st = PRIMARY_STATE_ACTIVE \<and> tr = TRANSITION_DEACTIVATE"

definition ros_invoke :: "string \<Rightarrow> u8 \<Rightarrow> (string \<rightharpoonup> u8) \<Rightarrow> bool option \<times> (string \<rightharpoonup> u8)" where
  "ros_invoke n tr w =
    (case w n of
       None \<Rightarrow> (None, w)
     | Some st \<Rightarrow> (Some True, if ros_legal st tr then w(n \<mapsto> transition_state_map tr) else w))"

definition ros_nodes :: "(string \<rightharpoonup> u8) life_ops" where
  "ros_nodes =
    \<lparr>wait_change_state = (\<lambda>n t w. (w n \<noteq> None, w)),
     invoke_change_state_timed = (\<lambda>n tr t w. ros_invoke n tr w),
     invoke_change_state = ros_invoke,
     wait_get_state = (\<lambda>n t w. (w n \<noteq> None, w)),
     invoke_get_state = (\<lambda>n t w. (w n, w)),
     bond_start_formed = (\<lambda>n w. (True, w)),
     bond_isBroken = (\<lambda>n w. (w n = None, w)),
     rclcpp_ok = (\<lambda>w. True), now_ns = (\<lambda>w. 1)\<rparr>"

definition fresh_manager :: "'w \<Rightarrow> string list \<Rightarrow> 'w manager" where
  "fresh_manager w names =
    createLifecycleServiceClients (createLifecyclePublishers
      \<lparr>lworld = w, node_names = names, node_map = {}, bond_map = {}, bond_timer = False,
       bond_respawn_timer = False, bond_timeout = 4000, service_timeout = 5000,
       attempt_respawn_reconnection = True, managed_nodes_state = UNCONFIGURED,
       bond_respawn_start_time = 0, bond_respawn_max_duration = 10000000000,
       is_active_pub = False, published = []\<rparr>)"

lemma fresh_manager_fields [simp]:
  "node_names (fresh_manager w names) = names" "lworld (fresh_manager w names) = w"
  "node_map (fresh_manager w names) = set names"
  by (simp_all add: fresh_manager_def createLifecycleServiceClients_def
      createLifecyclePublishers_def publishIsActiveState_def)

lemma fresh_manager_init: "life_init (fresh_manager w names)"
  unfolding life_init_def fresh_manager_def by (intro exI conjI refl) simp_all

lemmas life_eval = changeStateForAllNodes_def visit_order_def changeStateForNode_def
  via_client_def change_state_def get_state_def ros_nodes_def ros_invoke_def ros_legal_def
  transition_state_map_def createBondConnection_def setState_def publishIsActiveState_def
  isActive_def createBondTimer_def destroyBondTimer_def fresh_manager_def life_logged_def
  createLifecycleServiceClients_def createLifecyclePublishers_def Let_def

abbreviation two_up :: "string \<rightharpoonup> u8" where
  "two_up \<equiv> [''map'' \<mapsto> 1, ''planner'' \<mapsto> 1]"

definition two_managed :: "(string \<rightharpoonup> u8) manager" where
  "two_managed = snd (lm_startup ros_nodes (fresh_manager two_up [''map'', ''planner'']))"

lemma two_managed_eval:
  "lm_startup ros_nodes (fresh_manager two_up [''map'', ''planner'']) =
    (Inr True, (fresh_manager two_up [''map'', ''planner''])
      \<lparr>lworld := [''map'' \<mapsto> 3, ''planner'' \<mapsto> 3], bond_map := {''map'', ''planner''},
       managed_nodes_state := ACTIVE, published := [False, True], bond_timer := True\<rparr>)"
  by (simp add: lm_startup_def life_eval) (auto simp: fun_eq_iff)

lemma two_managed_reach: "reach life_init (life_step ros_nodes) two_managed"
proof -
  have "life_step ros_nodes (fresh_manager two_up [''map'', ''planner'']) (Command STARTUP) two_managed"
    by (rule life_command [where b = True]) (simp add: two_managed_def two_managed_eval)
  then show ?thesis by (rule reach_step [OF reach_init [where init = life_init, OF fresh_manager_init]])
qed

lemma two_managed_fields:
  "bond_timer two_managed" "managed_nodes_state two_managed = ACTIVE"
  "node_names two_managed = [''map'', ''planner'']" "is_active_pub two_managed"
  "node_map two_managed = {''map'', ''planner''}"
  by (simp_all add: two_managed_def two_managed_eval)
    (simp_all add: fresh_manager_def createLifecycleServiceClients_def
      createLifecyclePublishers_def publishIsActiveState_def)

section \<open>Properties\<close>

lemma all_nodes_return:
  assumes "set (node_names s) \<subseteq> node_map s"
  obtains b t where "changeStateForAllNodes ops tr hard s = (Inr b, t)" "life_frame s t"
    "set (node_names t) \<subseteq> node_map t"
proof -
  have "set (visit_order tr (node_names s)) \<subseteq> node_map s"
    using assms by (simp add: visit_order_def)
  then obtain b t where c: "changeStateForAllNodes ops tr hard s = (Inr b, t)"
    using change_each_returns by (metis changeStateForAllNodes_def)
  note f = changeStateForAllNodes_frame [OF c]
  show thesis using that [OF c f] assms life_frame_fields(1,2) [OF f] by simp
qed

definition command_target :: "command \<Rightarrow> NodeState" where
  "command_target c =
    (case c of STARTUP \<Rightarrow> ACTIVE | CONFIGURE \<Rightarrow> INACTIVE | CLEANUP \<Rightarrow> UNCONFIGURED
     | RESET \<Rightarrow> UNCONFIGURED | SHUTDOWN \<Rightarrow> FINALIZED | PAUSE \<Rightarrow> INACTIVE | RESUME \<Rightarrow> ACTIVE)"

lemma reset_returns:
  assumes "set (node_names s) \<subseteq> node_map s"
  obtains b t where "lm_reset ops hard s = (Inr b, t)"
    "managed_nodes_state t = (if b then UNCONFIGURED else UNKNOWN)"
proof -
  have "set (node_names (destroyBondTimer s)) \<subseteq> node_map (destroyBondTimer s)"
    using assms by (simp add: destroyBondTimer_def)
  from all_nodes_return [OF this] obtain b1 s1 where
    c1: "changeStateForAllNodes ops TRANSITION_DEACTIVATE hard (destroyBondTimer s) = (Inr b1, s1)"
      "set (node_names s1) \<subseteq> node_map s1" by metis
  obtain b2 s2 where c2: "changeStateForAllNodes ops TRANSITION_CLEANUP hard s1 = (Inr b2, s2)"
    using all_nodes_return [OF c1(2)] by metis
  show thesis
    by (rule that [of "(b1 \<and> b2) \<or> hard" "setState (if b1 \<and> b2 \<or> hard then UNCONFIGURED else UNKNOWN)
       (if b1 then s2 else s1)"]) (use c1 c2 in \<open>auto simp: lm_reset_def\<close>)
qed

lemma startup_returns:
  assumes "set (node_names s) \<subseteq> node_map s"
  obtains b t where "lm_startup ops s = (Inr b, t)"
    "managed_nodes_state t = (if b then ACTIVE else UNKNOWN)"
proof -
  obtain b1 s1 where c1: "changeStateForAllNodes ops TRANSITION_CONFIGURE False s = (Inr b1, s1)"
      "set (node_names s1) \<subseteq> node_map s1" using all_nodes_return [OF assms] by metis
  obtain b2 s2 where c2: "changeStateForAllNodes ops TRANSITION_ACTIVATE False s1 = (Inr b2, s2)"
    using all_nodes_return [OF c1(2)] by metis
  show thesis
    by (rule that [of "b1 \<and> b2" "if b1 \<and> b2 then createBondTimer (setState ACTIVE s2)
       else setState UNKNOWN (if b1 then s2 else s1)"])
      (use c1 c2 in \<open>auto simp: lm_startup_def createBondTimer_def\<close>)
qed

lemma shutdown_returns:
  assumes "set (node_names s) \<subseteq> node_map s"
  shows "\<exists>t. lm_shutdown ops s = (Inr True, t)"
proof -
  have "set (node_names (setState FINALIZED (destroyBondTimer s)))
      \<subseteq> node_map (setState FINALIZED (destroyBondTimer s))"
    using assms by (simp add: destroyBondTimer_def)
  from all_nodes_return [OF this] obtain b1 s1 where
    c1: "changeStateForAllNodes ops TRANSITION_DEACTIVATE False (setState FINALIZED (destroyBondTimer s))
      = (Inr b1, s1)" "set (node_names s1) \<subseteq> node_map s1" by metis
  from all_nodes_return [OF this(2)] obtain b2 s2 where
    c2: "changeStateForAllNodes ops TRANSITION_CLEANUP False s1 = (Inr b2, s2)"
      "set (node_names s2) \<subseteq> node_map s2" by metis
  from all_nodes_return [OF this(2)] obtain b3 s3 where
    c3: "changeStateForAllNodes ops TRANSITION_UNCONFIGURED_SHUTDOWN False s2 = (Inr b3, s3)" by metis
  show ?thesis using c1 c2 c3 by (simp add: lm_shutdown_def shutdownAllNodes_def)
qed

text \<open>
  Property C1 (error): as long as the manager was not shut down, every command returns whatever
  the nodes answer: no null pointer is dereferenced and no exception escapes. The resulting state
  is the command's target if it reports success and UNKNOWN if it reports failure, and the
  latched topic shows whether that state is ACTIVE.
\<close>

theorem commands_return_with_their_state:
  assumes "reach life_init (life_step ops) s" "managed_nodes_state s \<noteq> FINALIZED"
  shows "\<exists>b t. managerCallback ops c s = (Inr b, t) \<and>
    managed_nodes_state t = (if b then command_target c else UNKNOWN) \<and>
    (is_active_pub t \<longrightarrow> last (published t) = isActiveCallback t)"
proof -
  have inv: "life_inv s" by (rule life.inv_reach [OF assms(1)])
  then have cl: "set (node_names s) \<subseteq> node_map s" using assms(2) by (simp add: life_inv_defs)
  have cld: "set (node_names (destroyBondTimer s)) \<subseteq> node_map (destroyBondTimer s)"
    using cl by (simp add: destroyBondTimer_def)
  have "\<exists>b t. managerCallback ops c s = (Inr b, t) \<and>
      managed_nodes_state t = (if b then command_target c else UNKNOWN)"
  proof (cases c)
    case STARTUP
    then have eq: "managerCallback ops c s = lm_startup ops s" "command_target c = ACTIVE"
      by (simp_all add: command_target_def)
    show ?thesis unfolding eq by (rule startup_returns [OF cl, of ops]) blast
  next
    case RESET
    then have eq: "managerCallback ops c s = lm_reset ops False s" "command_target c = UNCONFIGURED"
      by (simp_all add: command_target_def)
    show ?thesis unfolding eq by (rule reset_returns [OF cl, of ops False]) blast
  next
    case SHUTDOWN
    obtain t where t: "lm_shutdown ops s = (Inr True, t)" using shutdown_returns [OF cl] by blast
    then have "managed_nodes_state t = FINALIZED" by (rule shutdown_inv(5))
    then show ?thesis using t SHUTDOWN
      by (intro exI [of _ True] exI [of _ t]) (simp add: command_target_def)
  next
    case CONFIGURE
    obtain b t where "changeStateForAllNodes ops TRANSITION_CONFIGURE False s = (Inr b, t)"
      using all_nodes_return [OF cl] by metis
    then show ?thesis using CONFIGURE by (auto simp: command_target_def lm_configure_def)
  next
    case CLEANUP
    obtain b t where "changeStateForAllNodes ops TRANSITION_CLEANUP False s = (Inr b, t)"
      using all_nodes_return [OF cl] by metis
    then show ?thesis using CLEANUP by (auto simp: command_target_def lm_cleanup_def)
  next
    case PAUSE
    obtain b t where "changeStateForAllNodes ops TRANSITION_DEACTIVATE False (destroyBondTimer s) = (Inr b, t)"
      using all_nodes_return [OF cld] by metis
    then show ?thesis using PAUSE by (auto simp: command_target_def lm_pause_def)
  next
    case RESUME
    obtain b t where "changeStateForAllNodes ops TRANSITION_ACTIVATE False s = (Inr b, t)"
      using all_nodes_return [OF cl] by metis
    then show ?thesis using RESUME by (auto simp: command_target_def lm_resume_def createBondTimer_def)
  qed
  then show ?thesis using command_inv [OF inv, of ops c]
    by (fastforce simp: life_inv_defs isActiveCallback_def)
qed

theorem commands_return_with_their_state_witness:
  "\<exists>b t. managerCallback ros_nodes PAUSE two_managed = (Inr b, t) \<and>
    managed_nodes_state t = (if b then INACTIVE else UNKNOWN)"
  using commands_return_with_their_state [OF two_managed_reach, of PAUSE]
  by (auto simp: two_managed_fields command_target_def)

text \<open>
  Property C3 (safety): the heartbeat check never dereferences a null bond and always returns,
  in every reachable state in which its timer exists and whatever the nodes and bonds do.
\<close>

theorem bond_check_returns:
  assumes "reach life_init (life_step ops) s" "bond_timer s"
  shows "\<exists>t. checkBondConnections ops s = (Inr (), t)"
proof -
  have inv: "life_inv s" by (rule life.inv_reach [OF assms(1)])
  have step: "\<exists>t. check_bonds ops ns u = (Inr (), t)"
    if "set ns \<subseteq> bond_map u" "set (node_names u) \<subseteq> node_map u" for ns u
    using that
  proof (induction ns arbitrary: u)
    case (Cons n ns)
    obtain broken w where w: "bond_isBroken ops n (lworld u) = (broken, w)" by fastforce
    have cl: "set (node_names (u\<lparr>lworld := w\<rparr>)) \<subseteq> node_map (u\<lparr>lworld := w\<rparr>)" using Cons.prems by simp
    obtain b t where r: "lm_reset ops True (u\<lparr>lworld := w\<rparr>) = (Inr b, t)"
      by (rule reset_returns [OF cl])
    show ?case using Cons.IH [of "u\<lparr>lworld := w\<rparr>"] Cons.prems w r by (auto simp: Let_def)
  qed simp
  show ?thesis
  proof (cases "isActive s")
    case True
    then show ?thesis using inv assms(2) step [of "node_names s" s]
      by (auto simp: checkBondConnections_def life_inv_defs)
  qed (simp add: checkBondConnections_def)
qed

theorem bond_check_returns_witness: "\<exists>t. checkBondConnections ros_nodes two_managed = (Inr (), t)"
  by (rule bond_check_returns [OF two_managed_reach two_managed_fields(1)])

lemma log_of_frame [simp]:
  "log_of (setState st s) = log_of s" "log_of (createBondTimer s) = log_of s"
  "log_of (destroyBondTimer s) = log_of s"
  by (simp_all add: log_of_def createBondTimer_def destroyBondTimer_def)

lemma startup_log:
  assumes "lm_startup (life_logged ops) s = (Inr True, t)"
  shows "log_of t = log_of s @ concat (map (node_done TRANSITION_CONFIGURE) (node_names s))
    @ concat (map (node_done TRANSITION_ACTIVATE) (node_names s))"
proof -
  obtain s1 s2 where
    c1: "changeStateForAllNodes (life_logged ops) TRANSITION_CONFIGURE False s = (Inr True, s1)" and
    c2: "changeStateForAllNodes (life_logged ops) TRANSITION_ACTIVATE False s1 = (Inr True, s2)" and
    t: "t = createBondTimer (setState ACTIVE s2)"
    using assms by (auto simp: lm_startup_def split: and_then_splits if_splits)
  show ?thesis
    using all_nodes_done [OF c1] all_nodes_done [OF c2]
      life_frame_fields(1) [OF changeStateForAllNodes_frame [OF c1]] t
    by (simp add: visit_order_def)
qed

lemma pause_log:
  assumes "lm_pause (life_logged ops) s = (Inr True, t)"
  shows "log_of t = log_of s @ concat (map (node_done TRANSITION_DEACTIVATE) (rev (node_names s)))"
proof -
  obtain s1 where c1: "changeStateForAllNodes (life_logged ops) TRANSITION_DEACTIVATE False
      (destroyBondTimer s) = (Inr True, s1)" and t: "t = setState INACTIVE s1"
    using assms by (auto simp: lm_pause_def split: and_then_splits if_splits)
  have "node_names (destroyBondTimer s) = node_names s" by (simp add: destroyBondTimer_def)
  then show ?thesis using all_nodes_done [OF c1] t by (simp add: visit_order_def)
qed

text \<open>
  Property C2 (functional): a successful startup has sent every node, in the order of
  \<open>node_names\<close>, the configure request and seen it INACTIVE, and only then, again in order, the
  activate request and seen it ACTIVE. A successful pause goes through the nodes backwards.
\<close>

theorem bringup_and_teardown_order:
  "(\<forall>t. lm_startup (life_logged ops) s = (Inr True, t) \<longrightarrow>
      log_of t = log_of s
        @ concat (map (\<lambda>n. [Sent n TRANSITION_CONFIGURE, Observed n PRIMARY_STATE_INACTIVE]) (node_names s))
        @ concat (map (\<lambda>n. [Sent n TRANSITION_ACTIVATE, Observed n PRIMARY_STATE_ACTIVE]) (node_names s))) \<and>
   (\<forall>t. lm_pause (life_logged ops) s = (Inr True, t) \<longrightarrow>
      log_of t = log_of s
        @ concat (map (\<lambda>n. [Sent n TRANSITION_DEACTIVATE, Observed n PRIMARY_STATE_INACTIVE])
            (rev (node_names s))))"
proof -
  have eq: "node_done tr = (\<lambda>n. [Sent n tr, Observed n (transition_state_map tr)])" for tr
    by (simp add: fun_eq_iff node_done_def)
  show ?thesis using startup_log [of ops s] pause_log [of ops s]
    by (simp add: eq transition_state_map_def)
qed

theorem bringup_and_teardown_order_witness:
  "\<exists>t. lm_startup (life_logged ros_nodes) (fresh_manager (two_up, []) [''map'', ''planner'']) = (Inr True, t) \<and>
     log_of t = [Sent ''map'' 1, Observed ''map'' 2, Sent ''planner'' 1, Observed ''planner'' 2,
       Sent ''map'' 3, Observed ''map'' 3, Sent ''planner'' 3, Observed ''planner'' 3]"
proof -
  obtain t where t: "lm_startup (life_logged ros_nodes) (fresh_manager (two_up, []) [''map'', ''planner''])
      = (Inr True, t)"
    by (simp add: lm_startup_def life_eval)
  then show ?thesis
    using bringup_and_teardown_order [of ros_nodes "fresh_manager (two_up, []) [''map'', ''planner'']"] t
    by (auto simp: log_of_def)
qed

text \<open>
  After a shutdown of at least one node every further command dereferences
  the null pointer left in \<open>node_map_\<close> (the manager's service stays available).
\<close>

theorem command_after_shutdown_dereferences_null:
  assumes "lm_shutdown ops s = (Inr b, t)" "node_names s \<noteq> []"
  shows "fst (managerCallback ops c t) = Inl NullClient"
proof -
  note t = shutdown_inv [OF assms(1)]
  have "fst (changeStateForAllNodes ops tr hard u) = Inl NullClient"
    if "node_map u = {}" "node_names u = node_names s" for tr hard and u :: "'a manager"
    using change_each_null [OF _ that(1)] that(2) assms(2)
    by (simp add: changeStateForAllNodes_def visit_order_def)
  then have "\<exists>v. changeStateForAllNodes ops tr hard u = (Inl NullClient, v)"
    if "node_map u = {}" "node_names u = node_names s" for tr hard and u :: "'a manager"
    using that by (metis prod.collapse)
  note null = this [of t] this [of "destroyBondTimer t"] this [of "setState FINALIZED (destroyBondTimer t)"]
  show ?thesis
  proof (cases c)
    case STARTUP
    then show ?thesis using null(1) [of TRANSITION_CONFIGURE False] t(3,4)
      by (auto simp: lm_startup_def)
  next
    case CONFIGURE
    then show ?thesis using null(1) [of TRANSITION_CONFIGURE False] t(3,4)
      by (auto simp: lm_configure_def)
  next
    case CLEANUP
    then show ?thesis using null(1) [of TRANSITION_CLEANUP False] t(3,4)
      by (auto simp: lm_cleanup_def)
  next
    case RESET
    then show ?thesis using null(2) [of TRANSITION_DEACTIVATE False] t(3,4)
      by (auto simp: lm_reset_def destroyBondTimer_def)
  next
    case SHUTDOWN
    then show ?thesis using null(3) [of TRANSITION_DEACTIVATE False] t(3,4)
      by (auto simp: lm_shutdown_def shutdownAllNodes_def destroyBondTimer_def)
  next
    case PAUSE
    then show ?thesis using null(2) [of TRANSITION_DEACTIVATE False] t(3,4)
      by (auto simp: lm_pause_def destroyBondTimer_def)
  next
    case RESUME
    then show ?thesis using null(1) [of TRANSITION_ACTIVATE False] t(3,4)
      by (auto simp: lm_resume_def)
  qed
qed

theorem command_after_shutdown_dereferences_null_witness:
  "\<exists>t. lm_shutdown ros_nodes two_managed = (Inr True, t) \<and>
     fst (managerCallback ros_nodes SHUTDOWN t) = Inl NullClient"
proof -
  obtain t where "lm_shutdown ros_nodes two_managed = (Inr True, t)"
    using shutdown_returns [of two_managed ros_nodes] by (auto simp: two_managed_fields)
  then show ?thesis
    using command_after_shutdown_dereferences_null [of ros_nodes two_managed True t SHUTDOWN]
    by (simp add: two_managed_fields)
qed

text \<open>
  When a node's service is gone, the hard reset that follows a broken bond stops
  at that node. The nodes before it in \<open>node_names\<close> get no request at all and no node is cleaned
  up, although the manager reports success and the state UNCONFIGURED.
\<close>

theorem hard_reset_stops_at_crashed_node:
  assumes "lm_reset (life_logged ops) True s = (r, t)"
    and "node_names s = before @ crashed # after" "distinct (node_names s)"
    and "set (node_names s) \<subseteq> node_map s"
    and "\<forall>tmo w. \<not> fst (wait_change_state ops crashed tmo w)"
  shows "r = Inr True \<and> managed_nodes_state t = UNCONFIGURED \<and>
    (\<exists>l. log_of t = log_of s @ l \<and>
      (\<forall>x \<in> set l. log_node x \<notin> insert crashed (set before) \<and>
                 log_transition x \<noteq> Some TRANSITION_CLEANUP))"
proof -
  let ?s = "destroyBondTimer s"
  have names: "node_names ?s = node_names s" "node_map ?s = node_map s"
    by (simp_all add: destroyBondTimer_def)
  obtain r1 s1 where c: "changeStateForAllNodes (life_logged ops) TRANSITION_DEACTIVATE True ?s = (r1, s1)"
    by fastforce
  then have "change_each (life_logged ops) TRANSITION_DEACTIVATE True
      (rev after @ crashed # rev before) ?s = (r1, s1)"
    using assms(2) names(1) by (simp add: changeStateForAllNodes_def visit_order_def)
  from change_each_crashed [OF this assms(5)] obtain l where l: "r1 = Inr False"
    "log_of s1 = log_of s @ l"
    "\<forall>x \<in> set l. log_node x \<in> set after \<and> log_transition x \<in> {None, Some TRANSITION_DEACTIVATE}"
    using assms(2,4) names by auto
  have t: "r = Inr True" "t = setState UNCONFIGURED s1"
    using assms(1) c l(1) by (auto simp: lm_reset_def)
  have "\<forall>x \<in> set l. log_node x \<notin> insert crashed (set before) \<and> log_transition x \<noteq> Some TRANSITION_CLEANUP"
    using l(3) assms(2,3) by auto
  then show ?thesis using t l(2) by auto
qed

theorem hard_reset_stops_at_crashed_node_witness:
  "let s = fresh_manager ([''map'' \<mapsto> 3, ''planner'' \<mapsto> 3], []) [''map'', ''planner'', ''controller''] in
   \<exists>r t. lm_reset (life_logged (ros_nodes\<lparr>wait_change_state := (\<lambda>n t w. (n \<noteq> ''planner'', w))\<rparr>)) True s = (r, t) \<and>
     managed_nodes_state t = UNCONFIGURED \<and> Sent ''map'' TRANSITION_DEACTIVATE \<notin> set (log_of t)"
proof -
  let ?s = "fresh_manager ([''map'' \<mapsto> 3, ''planner'' \<mapsto> 3] :: string \<rightharpoonup> u8, [] :: life_log list)
    [''map'', ''planner'', ''controller'']"
  let ?ops = "ros_nodes\<lparr>wait_change_state := (\<lambda>n t w. (n \<noteq> ''planner'', w))\<rparr>"
  obtain r t where rt: "lm_reset (life_logged ?ops) True ?s = (r, t)" by fastforce
  have s: "node_names ?s = [''map''] @ ''planner'' # [''controller'']"
      "set (node_names ?s) \<subseteq> node_map ?s" "log_of ?s = []"
    by (simp_all add: log_of_def)
  have d: "distinct (node_names ?s)" by simp
  have g: "\<forall>tmo w. \<not> fst (wait_change_state ?ops ''planner'' tmo w)" by simp
  obtain l where l: "managed_nodes_state t = UNCONFIGURED" "log_of t = l"
      "\<forall>x \<in> set l. log_node x \<notin> insert ''planner'' (set [''map''])"
    using hard_reset_stops_at_crashed_node [OF rt s(1) d s(2) g] s(3) by auto
  have "Sent ''map'' TRANSITION_DEACTIVATE \<notin> set (log_of t)" using l(2,3) by force
  then show ?thesis unfolding Let_def using rt l(1) by blast
qed

end
