(* ===== verification/Costmap_2D.thy ===== *)
theory Costmap_2D
  imports Nav2_Prelude "HOL-Library.Monad_Syntax"
begin

text \<open>
  nav2_costmap_2d/costmap_2d (Costmap2D without the polygon functions, which are in
  \<open>Costmap_Polygon\<close>). Cells are bytes in row-major order in one array; sizes and indices are
  unsigned 32 bit integers that wrap around. \<open>double\<close> is modelled by the real numbers: rounding,
  infinities and NaN are left out. A result \<open>None\<close> means that the C++ call has no defined outcome: an
  access outside an array or through a null pointer, a conversion of a floating point number
  that does not fit the integer type, a signed overflow, or a loop that never ends. Memory
  returned by \<open>new\<close> is not initialised: its contents are the argument \<open>junk\<close>.
\<close>

section \<open>Numbers\<close>

definition trunc_real :: "real \<Rightarrow> int" where
  "trunc_real r = (if 0 \<le> r then \<lfloor>r\<rfloor> else - \<lfloor>- r\<rfloor>)"

definition std_round :: "real \<Rightarrow> int" where
  "std_round r = (if 0 \<le> r then \<lfloor>r + 1 / 2\<rfloor> else - \<lfloor>- r + 1 / 2\<rfloor>)"

text \<open>\<open>static_cast\<close> of a floating point number, and signed addition.\<close>

definition cast_u32 :: "real \<Rightarrow> u32 option" where
  "cast_u32 r = (let i = trunc_real r in if 0 \<le> i \<and> i < 2 ^ 32 then Some (word_of_int i) else None)"

definition fits_i32 :: "int \<Rightarrow> bool" where
  "fits_i32 i \<longleftrightarrow> - (2 ^ 31) \<le> i \<and> i < 2 ^ 31"

definition cast_i32 :: "real \<Rightarrow> int option" where
  "cast_i32 r = (if fits_i32 (trunc_real r) then Some (trunc_real r) else None)"

definition i32 :: "int \<Rightarrow> int option" where
  "i32 i = (if fits_i32 i then Some i else None)"

section \<open>Cost values and the map\<close>

abbreviation NO_INFORMATION :: u8 where "NO_INFORMATION \<equiv> 255"
abbreviation LETHAL_OBSTACLE :: u8 where "LETHAL_OBSTACLE \<equiv> 254"
abbreviation INSCRIBED_INFLATED_OBSTACLE :: u8 where "INSCRIBED_INFLATED_OBSTACLE \<equiv> 253"
abbreviation MAX_NON_OBSTACLE :: u8 where "MAX_NON_OBSTACLE \<equiv> 252"
abbreviation FREE_SPACE :: u8 where "FREE_SPACE \<equiv> 0"

record MapLocation =
  loc_x :: u32
  loc_y :: u32
  loc_cost :: u8

record costmap2d =
  size_x :: u32
  size_y :: u32
  resolution :: real
  origin_x :: real
  origin_y :: real
  costmap :: "u8 list option"
  default_value :: u8

definition getIndex :: "costmap2d \<Rightarrow> u32 \<Rightarrow> u32 \<Rightarrow> u32" where
  "getIndex m mx my = my * size_x m + mx"

text \<open>Division by zero is undefined.\<close>

definition indexToCells :: "costmap2d \<Rightarrow> u32 \<Rightarrow> (u32 \<times> u32) option" where
  "indexToCells m index =
    (if size_x m = 0 then None
     else (let my = index div size_x m in Some (index - my * size_x m, my)))"

definition getCost_at :: "costmap2d \<Rightarrow> u32 \<Rightarrow> u8 option" where
  "getCost_at m index =
    do { cells \<leftarrow> costmap m;
         if unat index < length cells then Some (cells ! unat index) else None }"

definition getCost :: "costmap2d \<Rightarrow> u32 \<Rightarrow> u32 \<Rightarrow> u8 option" where
  "getCost m mx my = getCost_at m (getIndex m mx my)"

definition setCost :: "costmap2d \<Rightarrow> u32 \<Rightarrow> u32 \<Rightarrow> u8 \<Rightarrow> costmap2d option" where
  "setCost m mx my cost =
    do { cells \<leftarrow> costmap m;
         if unat (getIndex m mx my) < length cells
         then Some (m\<lparr>costmap := Some (cells[unat (getIndex m mx my) := cost])\<rparr>) else None }"

definition setDefaultValue :: "u8 \<Rightarrow> costmap2d \<Rightarrow> costmap2d" where
  "setDefaultValue c m = m\<lparr>default_value := c\<rparr>"

definition getDefaultValue :: "costmap2d \<Rightarrow> u8" where
  "getDefaultValue m = default_value m"

section \<open>Creating and resetting\<close>

definition deleteMaps :: "costmap2d \<Rightarrow> costmap2d" where
  "deleteMaps m = m\<lparr>costmap := None\<rparr>"

definition initMaps :: "(nat \<Rightarrow> u8) \<Rightarrow> u32 \<Rightarrow> u32 \<Rightarrow> costmap2d \<Rightarrow> costmap2d" where
  "initMaps junk sx sy m =
    m\<lparr>size_x := sx, size_y := sy, costmap := Some (map junk [0..<unat (sx * sy)])\<rparr>"

definition resetMaps :: "costmap2d \<Rightarrow> costmap2d option" where
  "resetMaps m =
    do { cells \<leftarrow> costmap m;
         cells' \<leftarrow> mem_write 0 (replicate (unat (size_x m * size_y m)) (default_value m)) cells;
         Some (m\<lparr>costmap := Some cells'\<rparr>) }"

definition new_costmap ::
  "(nat \<Rightarrow> u8) \<Rightarrow> u32 \<Rightarrow> u32 \<Rightarrow> real \<Rightarrow> real \<Rightarrow> real \<Rightarrow> u8 \<Rightarrow> costmap2d option" where
  "new_costmap junk sx sy res ox oy dflt =
    resetMaps (initMaps junk sx sy
      \<lparr>size_x = 0, size_y = 0, resolution = res, origin_x = ox, origin_y = oy, costmap = None,
       default_value = dflt\<rparr>)"

definition resizeMap ::
  "(nat \<Rightarrow> u8) \<Rightarrow> u32 \<Rightarrow> u32 \<Rightarrow> real \<Rightarrow> real \<Rightarrow> real \<Rightarrow> costmap2d \<Rightarrow> costmap2d option" where
  "resizeMap junk sx sy res ox oy m =
    resetMaps (initMaps junk sx sy (m\<lparr>resolution := res, origin_x := ox, origin_y := oy\<rparr>))"

text \<open>
  The conversion of one occupancy value: the rounded product is converted to \<open>unsigned char\<close>,
  which is undefined outside its range.
\<close>

definition occ_to_cost :: "int \<Rightarrow> u8 option" where
  "occ_to_cost data =
    (if data = -1 then Some NO_INFORMATION
     else (let r = std_round (real_of_int data * (254 - 0) / (100 - 0))
           in if 0 \<le> r \<and> r < 256 then Some (word_of_int r) else None))"

fun map_cells :: "('a \<Rightarrow> 'b option) \<Rightarrow> 'a list \<Rightarrow> 'b list option" where
  "map_cells f [] = Some []"
| "map_cells f (x # xs) = do { y \<leftarrow> f x; ys \<leftarrow> map_cells f xs; Some (y # ys) }"

definition costmap_of_grid ::
  "u32 \<Rightarrow> u32 \<Rightarrow> real \<Rightarrow> real \<Rightarrow> real \<Rightarrow> int list \<Rightarrow> costmap2d option" where
  "costmap_of_grid width height res ox oy data =
    do { used \<leftarrow> mem_read 0 (unat (width * height)) data;
         cells \<leftarrow> map_cells occ_to_cost used;
         Some \<lparr>size_x = width, size_y = height, resolution = res, origin_x = ox, origin_y = oy,
               costmap = Some cells, default_value = FREE_SPACE\<rparr> }"

text \<open>
  The loop of \<open>resetMapToValue\<close> runs on wrapping indices, so it is a partial function: \<open>None\<close>
  also stands for a loop that never ends.
\<close>

partial_function (option) reset_rows ::
  "u32 \<Rightarrow> u32 \<Rightarrow> u32 \<Rightarrow> u8 list \<Rightarrow> u8 list \<Rightarrow> u8 list option" where
  "reset_rows y stop step row cells =
    (if y < stop
     then Option.bind (mem_write (unat y) row cells) (\<lambda>cells'. reset_rows (y + step) stop step row cells')
     else Some cells)"

definition resetMapToValue ::
  "u32 \<Rightarrow> u32 \<Rightarrow> u32 \<Rightarrow> u32 \<Rightarrow> u8 \<Rightarrow> costmap2d \<Rightarrow> costmap2d option" where
  "resetMapToValue x0 y0 xn yn value m =
    do { cells \<leftarrow> costmap m;
         cells' \<leftarrow> reset_rows (y0 * size_x m + x0) (yn * size_x m + x0) (size_x m)
                    (replicate (unat (xn - x0)) value) cells;
         Some (m\<lparr>costmap := Some cells'\<rparr>) }"

definition resetMap :: "u32 \<Rightarrow> u32 \<Rightarrow> u32 \<Rightarrow> u32 \<Rightarrow> costmap2d \<Rightarrow> costmap2d option" where
  "resetMap x0 y0 xn yn m = resetMapToValue x0 y0 xn yn (default_value m) m"

section \<open>World and map coordinates\<close>

definition mapToWorld :: "costmap2d \<Rightarrow> u32 \<Rightarrow> u32 \<Rightarrow> real \<times> real" where
  "mapToWorld m mx my =
    (origin_x m + (real (unat mx) + 1 / 2) * resolution m,
     origin_y m + (real (unat my) + 1 / 2) * resolution m)"

definition mapToWorldNoBounds :: "costmap2d \<Rightarrow> int \<Rightarrow> int \<Rightarrow> real \<times> real" where
  "mapToWorldNoBounds m mx my =
    (origin_x m + (real_of_int mx + 1 / 2) * resolution m,
     origin_y m + (real_of_int my + 1 / 2) * resolution m)"

text \<open>\<open>worldToMap\<close> returns the cell when it answers true, nothing when it answers false.\<close>

definition worldToMap :: "costmap2d \<Rightarrow> real \<Rightarrow> real \<Rightarrow> (u32 \<times> u32) option option" where
  "worldToMap m wx wy =
    (if wx < origin_x m \<or> wy < origin_y m then Some None
     else do { mx \<leftarrow> cast_u32 ((wx - origin_x m) / resolution m);
               my \<leftarrow> cast_u32 ((wy - origin_y m) / resolution m);
               Some (if mx < size_x m \<and> my < size_y m then Some (mx, my) else None) })"

definition worldToMapContinuous :: "costmap2d \<Rightarrow> real \<Rightarrow> real \<Rightarrow> (real \<times> real) option" where
  "worldToMapContinuous m wx wy =
    (if wx < origin_x m \<or> wy < origin_y m then None
     else (let mx = (wx - origin_x m) / resolution m; my = (wy - origin_y m) / resolution m
           in if mx < real (unat (size_x m)) \<and> my < real (unat (size_y m)) then Some (mx, my) else None))"

definition worldToMapNoBounds :: "costmap2d \<Rightarrow> real \<Rightarrow> real \<Rightarrow> (int \<times> int) option" where
  "worldToMapNoBounds m wx wy =
    do { mx \<leftarrow> cast_i32 ((wx - origin_x m) / resolution m);
         my \<leftarrow> cast_i32 ((wy - origin_y m) / resolution m);
         Some (mx, my) }"

text \<open>One coordinate of \<open>worldToMapEnforceBounds\<close>; the function does the same for both.\<close>

definition enforce_bound :: "real \<Rightarrow> real \<Rightarrow> real \<Rightarrow> u32 \<Rightarrow> int option" where
  "enforce_bound w origin res sz =
    (if w < origin then Some 0
     else if w > res * real (unat sz) + origin then Some (sint (sz - 1))
     else cast_i32 ((w - origin) / res))"

definition worldToMapEnforceBounds :: "costmap2d \<Rightarrow> real \<Rightarrow> real \<Rightarrow> (int \<times> int) option" where
  "worldToMapEnforceBounds m wx wy =
    do { mx \<leftarrow> enforce_bound wx (origin_x m) (resolution m) (size_x m);
         my \<leftarrow> enforce_bound wy (origin_y m) (resolution m) (size_y m);
         Some (mx, my) }"

definition cellDistance :: "costmap2d \<Rightarrow> real \<Rightarrow> u32 option" where
  "cellDistance m world_dist = cast_u32 (max 0 (of_int \<lceil>world_dist / resolution m\<rceil>))"

definition getSizeInMetersX :: "costmap2d \<Rightarrow> real" where
  "getSizeInMetersX m = (real (unat (size_x m - 1)) + 1 / 2) * resolution m"

definition getSizeInMetersY :: "costmap2d \<Rightarrow> real" where
  "getSizeInMetersY m = (real (unat (size_y m - 1)) + 1 / 2) * resolution m"

section \<open>Copying regions\<close>

fun copy_rows ::
  "nat \<Rightarrow> nat \<Rightarrow> nat \<Rightarrow> nat \<Rightarrow> nat \<Rightarrow> nat \<Rightarrow> 'a list \<Rightarrow> 'a list \<Rightarrow> 'a list option" where
  "copy_rows 0 si ss di ds n src dst = Some dst"
| "copy_rows (Suc k) si ss di ds n src dst =
    do { row \<leftarrow> mem_read si n src;
         dst' \<leftarrow> mem_write di row dst;
         copy_rows k (si + ss) ss (di + ds) ds n src dst' }"

definition copyMapRegion ::
  "'a list \<Rightarrow> u32 \<Rightarrow> u32 \<Rightarrow> u32 \<Rightarrow> 'a list \<Rightarrow> u32 \<Rightarrow> u32 \<Rightarrow> u32 \<Rightarrow> u32 \<Rightarrow> u32 \<Rightarrow> 'a list option" where
  "copyMapRegion src slx sly ssx dst dlx dly dsx rx ry =
    copy_rows (unat ry) (unat (sly * ssx + slx)) (unat ssx) (unat (dly * dsx + dlx)) (unat dsx)
      (unat rx) src dst"

definition copyWindow ::
  "costmap2d \<Rightarrow> u32 \<Rightarrow> u32 \<Rightarrow> u32 \<Rightarrow> u32 \<Rightarrow> u32 \<Rightarrow> u32 \<Rightarrow> costmap2d \<Rightarrow> (bool \<times> costmap2d) option" where
  "copyWindow source sx0 sy0 sxn syn dx0 dy0 m =
    (let sz_x = sxn - sx0; sz_y = syn - sy0
     in if sxn > size_x source \<or> syn > size_y source then Some (False, m)
        else if dx0 + sz_x > size_x m \<or> dy0 + sz_y > size_y m then Some (False, m)
        else do { src \<leftarrow> costmap source; dst \<leftarrow> costmap m;
                  dst' \<leftarrow> copyMapRegion src sx0 sy0 (size_x source) dst dx0 dy0 (size_x m) sz_x sz_y;
                  Some (True, m\<lparr>costmap := Some dst'\<rparr>) })"

text \<open>\<open>same\<close> is the test \<open>this == &map\<close>.\<close>

definition copyCostmapWindow ::
  "(nat \<Rightarrow> u8) \<Rightarrow> bool \<Rightarrow> costmap2d \<Rightarrow> real \<Rightarrow> real \<Rightarrow> real \<Rightarrow> real \<Rightarrow> costmap2d
    \<Rightarrow> (bool \<times> costmap2d) option" where
  "copyCostmapWindow junk same src win_ox win_oy win_sx win_sy m =
    (if same then Some (False, m)
     else do {
       ll \<leftarrow> worldToMap src win_ox win_oy;
       case ll of
         None \<Rightarrow> Some (False, deleteMaps m)
       | Some (lx, ly) \<Rightarrow> do {
           ur \<leftarrow> worldToMap src (win_ox + win_sx) (win_oy + win_sy);
           case ur of
             None \<Rightarrow> Some (False, deleteMaps m)
           | Some (ux, uy) \<Rightarrow> do {
               let m1 = initMaps junk (ux - lx) (uy - ly)
                 ((deleteMaps m)\<lparr>resolution := resolution src, origin_x := win_ox, origin_y := win_oy\<rparr>);
               cells \<leftarrow> costmap src; dst \<leftarrow> costmap m1;
               dst' \<leftarrow> copyMapRegion cells lx ly (size_x src) dst 0 0 (size_x m1) (size_x m1) (size_y m1);
               Some (True, m1\<lparr>costmap := Some dst'\<rparr>) } } })"

definition assign_costmap :: "(nat \<Rightarrow> u8) \<Rightarrow> bool \<Rightarrow> costmap2d \<Rightarrow> costmap2d \<Rightarrow> costmap2d option" where
  "assign_costmap junk same src m =
    (if same then Some m
     else do {
       let m1 = initMaps junk (size_x src) (size_y src)
         ((deleteMaps m)\<lparr>resolution := resolution src, origin_x := origin_x src,
            origin_y := origin_y src, default_value := default_value src\<rparr>);
       cells \<leftarrow> costmap src; dst \<leftarrow> costmap m1;
       all \<leftarrow> mem_read 0 (unat (size_x m1 * size_y m1)) cells;
       dst' \<leftarrow> mem_write 0 all dst;
       Some (m1\<lparr>costmap := Some dst'\<rparr>) })"

definition copy_costmap :: "(nat \<Rightarrow> u8) \<Rightarrow> costmap2d \<Rightarrow> costmap2d \<Rightarrow> costmap2d option" where
  "copy_costmap junk fresh src = assign_costmap junk False src (fresh\<lparr>costmap := None\<rparr>)"

text \<open>
  \<open>updateOrigin\<close>: the part after the new origin was projected onto the grid is \<open>shift_map\<close>, with the
  cell of the new origin as argument.
\<close>

definition clamp_cell :: "int \<Rightarrow> int \<Rightarrow> int" where
  "clamp_cell c sz = min (max c 0) sz"

definition shift_map ::
  "(nat \<Rightarrow> u8) \<Rightarrow> int \<Rightarrow> int \<Rightarrow> costmap2d \<Rightarrow> costmap2d option" where
  "shift_map junk cell_ox cell_oy m =
    do { let sx = sint (size_x m); let sy = sint (size_y m);
         cx \<leftarrow> i32 (cell_ox + sx); cy \<leftarrow> i32 (cell_oy + sy);
         let llx = clamp_cell cell_ox sx; let lly = clamp_cell cell_oy sy;
         let urx = clamp_cell cx sx; let ury = clamp_cell cy sy;
         dx \<leftarrow> i32 (urx - llx); dy \<leftarrow> i32 (ury - lly);
         let csx = (word_of_int dx :: u32); let csy = (word_of_int dy :: u32);
         cells \<leftarrow> costmap m;
         window \<leftarrow> copyMapRegion cells (word_of_int llx) (word_of_int lly) (size_x m)
                   (map junk [0..<unat (csx * csy)]) 0 0 csx csx csy;
         m1 \<leftarrow> resetMaps m;
         let m2 = m1\<lparr>origin_x := origin_x m + of_int cell_ox * resolution m,
                     origin_y := origin_y m + of_int cell_oy * resolution m\<rparr>;
         start_x \<leftarrow> i32 (llx - cell_ox); start_y \<leftarrow> i32 (lly - cell_oy);
         cells2 \<leftarrow> costmap m2;
         cells3 \<leftarrow> copyMapRegion window 0 0 csx cells2 (word_of_int start_x) (word_of_int start_y)
                    (size_x m2) csx csy;
         Some (m2\<lparr>costmap := Some cells3\<rparr>) }"

definition updateOrigin :: "(nat \<Rightarrow> u8) \<Rightarrow> real \<Rightarrow> real \<Rightarrow> costmap2d \<Rightarrow> costmap2d option" where
  "updateOrigin junk new_ox new_oy m =
    do { cell_ox \<leftarrow> cast_i32 ((new_ox - origin_x m) / resolution m);
         cell_oy \<leftarrow> cast_i32 ((new_oy - origin_y m) / resolution m);
         shift_map junk cell_ox cell_oy m }"

text \<open>\<open>saveMap\<close>: the header and the rows written to the file, as numbers.\<close>

definition saveMap_rows :: "costmap2d \<Rightarrow> (u32 \<times> u32 \<times> u8 list list) option" where
  "saveMap_rows m =
    do { rows \<leftarrow> map_cells (\<lambda>iy. map_cells (\<lambda>ix. getCost m (of_nat ix) (of_nat iy)) [0..<unat (size_x m)])
                  [0..<unat (size_y m)];
         Some (size_x m, size_y m, rows) }"

section \<open>Well-formed maps and their cells\<close>

definition map_ok :: "costmap2d \<Rightarrow> bool" where
  "map_ok m \<longleftrightarrow> unat (size_x m) * unat (size_y m) < 2 ^ 32 \<and>
     (case costmap m of None \<Rightarrow> False
      | Some cells \<Rightarrow> length cells = unat (size_x m) * unat (size_y m))"

definition cell :: "costmap2d \<Rightarrow> nat \<Rightarrow> nat \<Rightarrow> u8" where
  "cell m x y = the (costmap m) ! (y * unat (size_x m) + x)"

definition same_frame :: "costmap2d \<Rightarrow> costmap2d \<Rightarrow> bool" where
  "same_frame m m' \<longleftrightarrow> (\<exists>cells. m' = m\<lparr>costmap := cells\<rparr>)"

lemma same_frame_fields:
  assumes "same_frame m m'"
  shows "size_x m' = size_x m" "size_y m' = size_y m" "resolution m' = resolution m"
    "origin_x m' = origin_x m" "origin_y m' = origin_y m" "default_value m' = default_value m"
  using assms by (auto simp: same_frame_def)

lemma map_okE:
  assumes "map_ok m"
  obtains cells where "costmap m = Some cells" "length cells = unat (size_x m) * unat (size_y m)"
    "unat (size_x m) * unat (size_y m) < 2 ^ 32"
  using assms by (auto simp: map_ok_def split: option.splits)

lemma map_ok_area: "map_ok m \<Longrightarrow> unat (size_x m * size_y m) = unat (size_x m) * unat (size_y m)"
  by (simp add: map_ok_def unat_word_ariths)

lemma index_less:
  assumes "map_ok m" "x < size_x m" "y < size_y m"
  shows "unat (getIndex m x y) = unat y * unat (size_x m) + unat x"
    "unat (getIndex m x y) < unat (size_x m) * unat (size_y m)"
proof -
  have less: "unat y * unat (size_x m) + unat x < unat (size_x m) * unat (size_y m)"
    using assms(2,3) by (intro row_index_less) (simp_all add: word_less_nat_alt)
  then have "unat y * unat (size_x m) + unat x < 2 ^ 32"
    using assms(1) by (auto simp: map_ok_def)
  then show "unat (getIndex m x y) = unat y * unat (size_x m) + unat x"
    unfolding getIndex_def by (rule unat_mult_add_u32)
  with less show "unat (getIndex m x y) < unat (size_x m) * unat (size_y m)" by simp
qed

lemma getCost_cell:
  assumes "map_ok m" "x < size_x m" "y < size_y m"
  shows "getCost m x y = Some (cell m (unat x) (unat y))"
  using index_less [OF assms] assms(1)
  by (auto simp: getCost_def getCost_at_def cell_def elim!: map_okE)

text \<open>
  The index of a cell determines the cell: \<open>indexToCells\<close> inverts \<open>getIndex\<close>.
\<close>

lemma indexToCells_getIndex:
  assumes "map_ok m" "x < size_x m" "y < size_y m"
  shows "indexToCells m (getIndex m x y) = Some (x, y)"
proof -
  have nz: "size_x m \<noteq> 0" using assms(2) by auto
  have ux: "unat x < unat (size_x m)" using assms(2) by (simp add: word_less_nat_alt)
  have "unat (getIndex m x y div size_x m) = unat y"
    using index_less(1) [OF assms] ux by (simp add: unat_div)
  then have d: "getIndex m x y div size_x m = y" by (simp add: word_unat_eq_iff)
  show ?thesis using nz d by (simp add: indexToCells_def Let_def getIndex_def)
qed

lemma setCost_cells:
  assumes "map_ok m" "x < size_x m" "y < size_y m"
  obtains m' where "setCost m x y c = Some m'" "map_ok m'" "same_frame m m'"
    "\<And>x' y'. x' < unat (size_x m) \<Longrightarrow> y' < unat (size_y m) \<Longrightarrow>
      cell m' x' y' = (if x' = unat x \<and> y' = unat y then c else cell m x' y')"
proof -
  obtain cells where c: "costmap m = Some cells"
      "length cells = unat (size_x m) * unat (size_y m)" "unat (size_x m) * unat (size_y m) < 2 ^ 32"
    using assms(1) by (rule map_okE)
  note i = index_less [OF assms]
  let ?m = "m\<lparr>costmap := Some (cells[unat (getIndex m x y) := c])\<rparr>"
  have x: "unat x < unat (size_x m)" using assms(2) by (simp add: word_less_nat_alt)
  show thesis
  proof (rule that [of ?m])
    show "setCost m x y c = Some ?m" using c i by (simp add: setCost_def)
    show "map_ok ?m" using c by (simp add: map_ok_def)
    show "same_frame m ?m" by (auto simp: same_frame_def)
    show "cell ?m x' y' = (if x' = unat x \<and> y' = unat y then c else cell m x' y')"
      if "x' < unat (size_x m)" "y' < unat (size_y m)" for x' y'
      using c i row_index_eq [OF that(1) x, of y' "unat y"] row_index_less [OF that]
      by (auto simp: cell_def nth_list_update)
  qed
qed

section \<open>Rows\<close>

lemma copy_rows_spec:
  assumes "dx + n \<le> ds" "n = 0 \<or> k = 0 \<or> (sy + k - 1) * ss + sx + n \<le> length src"
    and "n = 0 \<or> (dy + k) * ds \<le> length dst"
  shows "\<exists>dst'. copy_rows k (sy * ss + sx) ss (dy * ds + dx) ds n src dst = Some dst' \<and>
    length dst' = length dst \<and>
    (\<forall>X Y. X < ds \<longrightarrow> Y * ds + X < length dst \<longrightarrow> dst' ! (Y * ds + X) =
       (if dx \<le> X \<and> X < dx + n \<and> dy \<le> Y \<and> Y < dy + k
        then src ! ((sy + (Y - dy)) * ss + sx + (X - dx)) else dst ! (Y * ds + X)))"
  using assms(2,3)
proof (induction k arbitrary: sy dy dst)
  case (Suc k)
  have rd: "n = 0 \<or> sy * ss + sx + n \<le> length src"
  proof (cases "n = 0")
    case False
    have "sy * ss \<le> (sy + k) * ss" by (rule mult_le_mono1) simp
    moreover have "(sy + k) * ss + sx + n \<le> length src" using Suc.prems(1) False by simp
    ultimately show ?thesis by linarith
  qed simp
  obtain row where row: "mem_read (sy * ss + sx) n src = Some row" "length row = n"
    "\<And>j. j < n \<Longrightarrow> row ! j = src ! (sy * ss + sx + j)"
    using rd by (auto simp: mem_read_def)
  have wr: "row = [] \<or> dy * ds + dx + length row \<le> length dst"
  proof (cases "n = 0")
    case False
    have "dy * ds + dx + n \<le> (dy + 1) * ds" using assms(1) by simp
    also have "\<dots> \<le> (dy + Suc k) * ds" by (rule mult_le_mono1) simp
    finally show ?thesis using Suc.prems(2) False row(2) by simp
  qed (use row(2) in simp)
  obtain d1 where d1: "mem_write (dy * ds + dx) row dst = Some d1" "length d1 = length dst"
    "\<And>j. j < length dst \<Longrightarrow> d1 ! j =
      (if dy * ds + dx \<le> j \<and> j < dy * ds + dx + length row then row ! (j - (dy * ds + dx)) else dst ! j)"
    by (rule mem_write_Some [OF wr]) blast
  have step: "(sy * ss + sx) + ss = Suc sy * ss + sx" "(dy * ds + dx) + ds = Suc dy * ds + dx" by simp_all
  have "n = 0 \<or> k = 0 \<or> (Suc sy + k - 1) * ss + sx + n \<le> length src"
    "n = 0 \<or> (Suc dy + k) * ds \<le> length d1" using Suc.prems d1(2) by auto
  from Suc.IH [OF this] obtain d2 where d2:
    "copy_rows k (Suc sy * ss + sx) ss (Suc dy * ds + dx) ds n src d1 = Some d2" "length d2 = length dst"
    "\<And>X Y. X < ds \<Longrightarrow> Y * ds + X < length dst \<Longrightarrow> d2 ! (Y * ds + X) =
       (if dx \<le> X \<and> X < dx + n \<and> Suc dy \<le> Y \<and> Y < Suc dy + k
        then src ! ((Suc sy + (Y - Suc dy)) * ss + sx + (X - dx)) else d1 ! (Y * ds + X))"
    using d1(2) by auto
  have "d2 ! (Y * ds + X) = (if dx \<le> X \<and> X < dx + n \<and> dy \<le> Y \<and> Y < dy + Suc k
        then src ! ((sy + (Y - dy)) * ss + sx + (X - dx)) else dst ! (Y * ds + X))"
    if XY: "X < ds" "Y * ds + X < length dst" for X Y
  proof -
    note run = row_run_iff [OF XY(1) assms(1), of dy Y]
    consider "Y = dy" "dx \<le> X" "X < dx + n" | "Y \<noteq> dy \<or> X < dx \<or> dx + n \<le> X" by linarith
    then show ?thesis
    proof cases
      case 1
      then show ?thesis using d2(3) [OF XY] d1(3) [OF XY(2)] row(2,3) by simp
    next
      case 2
      then have "d1 ! (Y * ds + X) = dst ! (Y * ds + X)" using d1(3) [OF XY(2)] run row(2) by auto
      moreover have "sy + (Y - dy) = Suc sy + (Y - Suc dy)" if "Suc dy \<le> Y" using that by simp
      ultimately show ?thesis using d2(3) [OF XY] 2 by auto
    qed
  qed
  then show ?case using row(1) d1(1) d2(1,2) by (intro exI [of _ d2]) (auto simp: step simp del: mult_Suc)
qed auto

lemma reset_rows_spec:
  assumes "x0 + length row \<le> w" "w = unat step" "unat y = yi * w + x0" "unat stop = (yi + k) * w + x0"
    and "w = 0 \<longrightarrow> k = 0" "(yi + k) * w \<le> length cells" "(yi + k) * w + x0 < 2 ^ 32"
  shows "\<exists>cells'. reset_rows y stop step row cells = Some cells' \<and> length cells' = length cells \<and>
    (\<forall>X Y. X < w \<longrightarrow> Y * w + X < length cells \<longrightarrow> cells' ! (Y * w + X) =
       (if x0 \<le> X \<and> X < x0 + length row \<and> yi \<le> Y \<and> Y < yi + k
        then row ! (X - x0) else cells ! (Y * w + X)))"
  using assms(3-7)
proof (induction k arbitrary: yi y cells)
  case 0
  then show ?case by (subst reset_rows.simps) (auto simp: word_less_nat_alt)
next
  case (Suc k)
  have w: "w \<noteq> 0" using Suc.prems(3) by auto
  have bound: "(yi + 1) * w \<le> (yi + Suc k) * w" by (rule mult_le_mono1) simp
  have "yi * w < (yi + 1) * w" using w by simp
  then have "yi * w < (yi + Suc k) * w" using bound by linarith
  then have lt: "y < stop" using Suc.prems(1,2) by (simp add: word_less_nat_alt)
  have wr: "row = [] \<or> unat y + length row \<le> length cells"
    using assms(1) Suc.prems(1,4) bound by (simp add: algebra_simps)
  obtain c1 where c1: "mem_write (unat y) row cells = Some c1" "length c1 = length cells"
    "\<And>j. j < length cells \<Longrightarrow> c1 ! j =
      (if unat y \<le> j \<and> j < unat y + length row then row ! (j - unat y) else cells ! j)"
    by (rule mem_write_Some [OF wr]) blast
  have y': "unat (y + step) = Suc yi * w + x0"
  proof -
    have "unat y + unat step < 2 ^ 32" using Suc.prems(1,5) assms(2) bound by (simp add: algebra_simps)
    then show ?thesis using Suc.prems(1) assms(2) by (simp add: unat_word_ariths)
  qed
  have "unat stop = (Suc yi + k) * w + x0" "w = 0 \<longrightarrow> k = 0" "(Suc yi + k) * w \<le> length c1"
    "(Suc yi + k) * w + x0 < 2 ^ 32" using Suc.prems w c1(2) by simp_all
  from Suc.IH [OF y' this] obtain c2 where c2: "reset_rows (y + step) stop step row c1 = Some c2"
    "length c2 = length cells"
    "\<And>X Y. X < w \<Longrightarrow> Y * w + X < length cells \<Longrightarrow> c2 ! (Y * w + X) =
       (if x0 \<le> X \<and> X < x0 + length row \<and> Suc yi \<le> Y \<and> Y < Suc yi + k
        then row ! (X - x0) else c1 ! (Y * w + X))"
    using c1(2) by auto
  have "c2 ! (Y * w + X) = (if x0 \<le> X \<and> X < x0 + length row \<and> yi \<le> Y \<and> Y < yi + Suc k
        then row ! (X - x0) else cells ! (Y * w + X))"
    if XY: "X < w" "Y * w + X < length cells" for X Y
    using c2(3) [OF XY] c1(3) [OF XY(2)] row_run_iff [OF XY(1) assms(1), of yi Y] Suc.prems(1)
    by (auto simp: not_less_eq_eq le_Suc_eq)
  then show ?case using lt c1(1) c2(1,2) by (subst reset_rows.simps) auto
qed

lemma copy_rows_zero: "copy_rows k si ss di ds 0 src dst = Some dst"
  by (induction k arbitrary: si di) (auto simp: mem_read_def mem_write_def)

text \<open>A region that fits is copied cell by cell; an empty region changes nothing.\<close>

lemma copyMapRegion_spec:
  assumes "length src < 2 ^ 32" "length dst < 2 ^ 32"
    and "rx = 0 \<or> ry = 0 \<or>
      unat dlx + unat rx \<le> unat dsx \<and> (unat dly + unat ry) * unat dsx \<le> length dst \<and>
      (unat sly + unat ry - 1) * unat ssx + unat slx + unat rx \<le> length src"
  obtains dst' where "copyMapRegion src slx sly ssx dst dlx dly dsx rx ry = Some dst'"
    "length dst' = length dst"
    "\<And>X Y. X < unat dsx \<Longrightarrow> Y * unat dsx + X < length dst \<Longrightarrow> dst' ! (Y * unat dsx + X) =
       (if unat dlx \<le> X \<and> X < unat dlx + unat rx \<and> unat dly \<le> Y \<and> Y < unat dly + unat ry
        then src ! ((unat sly + (Y - unat dly)) * unat ssx + unat slx + (X - unat dlx))
        else dst ! (Y * unat dsx + X))"
proof (cases "rx = 0 \<or> ry = 0")
  case True
  then have "copyMapRegion src slx sly ssx dst dlx dly dsx rx ry = Some dst"
    by (auto simp: copyMapRegion_def copy_rows_zero)
  moreover have "\<not> (a \<le> X \<and> X < a + unat rx \<and> b \<le> Y \<and> Y < b + unat ry)" for a b X Y
    using True by auto
  ultimately show thesis by (intro that [of dst]) (simp_all only: if_False)
next
  case False
  then have fit: "unat dlx + unat rx \<le> unat dsx" "(unat dly + unat ry) * unat dsx \<le> length dst"
    "(unat sly + unat ry - 1) * unat ssx + unat slx + unat rx \<le> length src"
    "unat rx \<noteq> 0" "unat ry \<noteq> 0"
    using assms(3) by (auto simp: unat_eq_zero)
  have "unat sly * unat ssx \<le> (unat sly + unat ry - 1) * unat ssx"
    using fit(5) by (intro mult_le_mono1) simp
  then have s: "unat sly * unat ssx + unat slx < 2 ^ 32" using fit(3,4) assms(1) by linarith
  have "unat dly * unat dsx + unat dsx \<le> (unat dly + unat ry) * unat dsx"
    using mult_le_mono1 [of "unat dly + 1" "unat dly + unat ry" "unat dsx"] fit(5) by simp
  then have d: "unat dly * unat dsx + unat dlx < 2 ^ 32" using fit(1,2) assms(2) by linarith
  have "copyMapRegion src slx sly ssx dst dlx dly dsx rx ry =
      copy_rows (unat ry) (unat sly * unat ssx + unat slx) (unat ssx) (unat dly * unat dsx + unat dlx)
        (unat dsx) (unat rx) src dst"
    by (simp add: copyMapRegion_def unat_mult_add_u32 [OF s] unat_mult_add_u32 [OF d])
  then show thesis
    using copy_rows_spec [of "unat dlx" "unat rx" "unat dsx" "unat ry" "unat sly" "unat ssx" "unat slx" src
        "unat dly" dst] fit that by auto
qed

lemma resetMaps_ok:
  assumes "map_ok m"
  obtains m' where "resetMaps m = Some m'" "map_ok m'" "same_frame m m'"
    "\<And>x y. x < unat (size_x m) \<Longrightarrow> y < unat (size_y m) \<Longrightarrow> cell m' x y = default_value m"
proof -
  obtain cells where c: "costmap m = Some cells" "length cells = unat (size_x m) * unat (size_y m)"
    "unat (size_x m) * unat (size_y m) < 2 ^ 32" using assms by (rule map_okE)
  let ?m = "m\<lparr>costmap := Some (replicate (length cells) (default_value m))\<rparr>"
  show thesis
  proof (rule that [of ?m])
    show "resetMaps m = Some ?m"
      using c by (auto simp: resetMaps_def map_ok_area [OF assms] mem_write_def)
    show "map_ok ?m" using c by (simp add: map_ok_def)
    show "same_frame m ?m" by (auto simp: same_frame_def)
    show "cell ?m x y = default_value m" if "x < unat (size_x m)" "y < unat (size_y m)" for x y
      using row_index_less [OF that] c(2) by (simp add: cell_def)
  qed
qed

section \<open>Moving the window\<close>

lemma int_less_pow2: "n < 2 ^ k \<Longrightarrow> int n < 2 ^ k"
  by (metis of_nat_less_iff of_nat_numeral of_nat_power)

lemma sint_small: "unat (w :: u32) < 2 ^ 31 \<Longrightarrow> sint w = int (unat w)"
proof -
  assume a: "unat w < 2 ^ 31"
  have "sint w = signed_take_bit 31 (uint w)" by (simp add: sint_uint)
  also have "\<dots> = uint w"
  proof (rule signed_take_bit_int_eq_self)
    show "uint w < 2 ^ 31" using int_less_pow2 [OF a] by simp
    show "- (2 ^ 31) \<le> uint w" by (rule order_trans [of _ 0]) simp_all
  qed
  finally show ?thesis by simp
qed

lemma unat_word_of_int: "0 \<le> i \<Longrightarrow> i < 2 ^ 32 \<Longrightarrow> unat (word_of_int i :: u32) = nat i"
  by (simp add: unat_eq_nat_uint uint_word_of_int)

text \<open>One dimension of the overlap of the old window and the one moved by \<open>c\<close> cells.\<close>

lemma overlap_1d:
  fixes c W x :: int
  assumes "0 \<le> x" "x < W"
  shows "0 \<le> x + c \<and> x + c < W \<longleftrightarrow>
    clamp_cell c W - c \<le> x \<and> x < clamp_cell c W - c + (clamp_cell (c + W) W - clamp_cell c W)"
  using assms by (auto simp: clamp_cell_def)

lemma clamp_range:
  assumes "0 \<le> W"
  shows "0 \<le> clamp_cell c W" "clamp_cell c W \<le> W" "clamp_cell c W \<le> clamp_cell (c + W) W"
    "clamp_cell (c + W) W - clamp_cell c W > 0 \<Longrightarrow> 0 \<le> clamp_cell c W - c"
    "clamp_cell (c + W) W - clamp_cell c W > 0 \<Longrightarrow> clamp_cell (c + W) W - c \<le> W"
  using assms by (auto simp: clamp_cell_def)


lemma shift_map_cells:
  assumes "map_ok m" "unat (size_x m) < 2 ^ 31" "unat (size_y m) < 2 ^ 31"
    and "- (2 ^ 31) < cx" "cx + int (unat (size_x m)) < 2 ^ 31"
    and "- (2 ^ 31) < cy" "cy + int (unat (size_y m)) < 2 ^ 31"
  shows "\<exists>m'. shift_map junk cx cy m = Some m' \<and> map_ok m' \<and>
    same_frame (m\<lparr>origin_x := origin_x m + of_int cx * resolution m,
                  origin_y := origin_y m + of_int cy * resolution m\<rparr>) m' \<and>
    (\<forall>x < unat (size_x m). \<forall>y < unat (size_y m). cell m' x y =
       (if 0 \<le> int x + cx \<and> int x + cx < int (unat (size_x m)) \<and>
           0 \<le> int y + cy \<and> int y + cy < int (unat (size_y m))
        then cell m (nat (int x + cx)) (nat (int y + cy)) else default_value m))"
proof -
  define W where "W = unat (size_x m)"
  define H where "H = unat (size_y m)"
  have sint: "sint (size_x m) = int W" "sint (size_y m) = int H"
    using assms(2,3) by (simp_all add: sint_small W_def H_def)
  have WH: "int W < 2 ^ 31" "int H < 2 ^ 31" unfolding W_def H_def by (intro int_less_pow2 assms(2,3))+
  define lx where "lx = clamp_cell cx (int W)"
  define ly where "ly = clamp_cell cy (int H)"
  define nx where "nx = clamp_cell (cx + int W) (int W) - lx"
  define ny where "ny = clamp_cell (cy + int H) (int H) - ly"
  note rx = clamp_range [of "int W" cx, folded lx_def, folded nx_def, simplified]
  note ry = clamp_range [of "int H" cy, folded ly_def, folded ny_def, simplified]
  have n: "0 \<le> nx" "nx \<le> int W" "lx + nx \<le> int W" "0 \<le> ny" "ny \<le> int H" "ly + ny \<le> int H"
    using rx(1,3) ry(1,3) clamp_range(2) [of "int W" "cx + int W"] clamp_range(2) [of "int H" "cy + int H"]
    by (simp_all add: nx_def ny_def)
  have mv: "cx + int W < 2 ^ 31" "cy + int H < 2 ^ 31" using assms(5,7) by (simp_all only: W_def H_def)
  have lx_cx: "fits_i32 (lx - cx)" "fits_i32 (ly - cy)"
    using assms(4,6) mv WH by (auto simp: fits_i32_def lx_def ly_def clamp_cell_def min_def max_def)
  have fits: "i32 (cx + int W) = Some (cx + int W)" "i32 (cy + int H) = Some (cy + int H)"
    "i32 nx = Some nx" "i32 ny = Some ny" "i32 (lx - cx) = Some (lx - cx)" "i32 (ly - cy) = Some (ly - cy)"
    using assms(4,6) mv WH n lx_cx by (auto simp: i32_def fits_i32_def)
  obtain cells where c: "costmap m = Some cells" "length cells = W * H" "W * H < 2 ^ 32"
    using map_okE [OF assms(1)] unfolding W_def H_def by blast
  have un: "unat (word_of_int nx :: u32) = nat nx" "unat (word_of_int ny :: u32) = nat ny"
    "unat (word_of_int lx :: u32) = nat lx" "unat (word_of_int ly :: u32) = nat ly"
    using n WH rx(1,2) ry(1,2) by (auto intro: unat_word_of_int)
  have area: "nat nx * nat ny \<le> W * H" using n by (intro mult_le_mono) auto
  then have uarea: "unat (word_of_int nx * word_of_int ny :: u32) = nat nx * nat ny"
    using c(3) un by (simp add: unat_word_ariths)
  let ?buf = "map junk [0..<nat nx * nat ny]"
  have fit1: "(word_of_int nx :: u32) = 0 \<or> (word_of_int ny :: u32) = 0 \<or>
      unat (0::u32) + unat (word_of_int nx :: u32) \<le> unat (word_of_int nx :: u32) \<and>
      (unat (0::u32) + unat (word_of_int ny :: u32)) * unat (word_of_int nx :: u32) \<le> length ?buf \<and>
      (unat (word_of_int ly :: u32) + unat (word_of_int ny :: u32) - 1) * unat (size_x m)
        + unat (word_of_int lx :: u32) + unat (word_of_int nx :: u32) \<le> length cells"
  proof (cases "nx = 0 \<or> ny = 0")
    case False
    then have "nat lx + nat nx - 1 < W" "nat ly + nat ny - 1 < H"
      using n rx(1) ry(1) by linarith+
    from row_index_less [OF this]
    have "(nat ly + nat ny - 1) * W + nat lx + nat nx \<le> W * H" using False n by linarith
    then show ?thesis using un c(2) by (simp add: W_def mult.commute)
  qed auto
  have lens: "length cells < 2 ^ 32" "length ?buf < 2 ^ 32" using c(2,3) area by simp_all
  obtain buf where b: "copyMapRegion cells (word_of_int lx) (word_of_int ly) (size_x m) ?buf 0 0
        (word_of_int nx) (word_of_int nx) (word_of_int ny) = Some buf" "length buf = nat nx * nat ny"
    "\<And>X Y. X < nat nx \<Longrightarrow> Y * nat nx + X < nat nx * nat ny \<Longrightarrow> buf ! (Y * nat nx + X) =
       (if Y < nat ny then cells ! ((nat ly + Y) * W + nat lx + X) else ?buf ! (Y * nat nx + X))"
    by (rule copyMapRegion_spec [OF lens fit1], erule that)
      (simp_all add: un W_def cong: if_cong)
  obtain m1 where m1: "resetMaps m = Some m1" "map_ok m1" "same_frame m m1"
    "\<And>x y. x < W \<Longrightarrow> y < H \<Longrightarrow> cell m1 x y = default_value m"
    using resetMaps_ok [OF assms(1)] unfolding W_def H_def by blast
  note f1 = same_frame_fields [OF m1(3)]
  obtain cells1 where c1: "costmap m1 = Some cells1" "length cells1 = W * H"
    using map_okE [OF m1(2)] f1(1,2) unfolding W_def H_def by metis
  define sx where "sx = lx - cx"
  define sy where "sy = ly - cy"
  have ss: "sx + nx \<le> int W" "sy + ny \<le> int H" "0 \<le> sx" "0 \<le> sy" if "nx > 0" "ny > 0"
    using that rx(4,5) ry(4,5) by (simp_all add: sx_def sy_def nx_def ny_def)
  have us: "unat (word_of_int sx :: u32) = nat sx" "unat (word_of_int sy :: u32) = nat sy"
    "sx + nx \<le> int W" "sy + ny \<le> int H" "0 \<le> sx" "0 \<le> sy" if "nx > 0" "ny > 0"
    using ss [OF that] that WH by (auto intro!: unat_word_of_int)
  have fit2: "(word_of_int nx :: u32) = 0 \<or> (word_of_int ny :: u32) = 0 \<or>
      unat (word_of_int sx :: u32) + unat (word_of_int nx :: u32) \<le> unat (size_x m) \<and>
      (unat (word_of_int sy :: u32) + unat (word_of_int ny :: u32)) * unat (size_x m) \<le> length cells1 \<and>
      (unat (0::u32) + unat (word_of_int ny :: u32) - 1) * unat (word_of_int nx :: u32)
        + unat (0::u32) + unat (word_of_int nx :: u32) \<le> length buf"
  proof (cases "nx = 0 \<or> ny = 0")
    case False
    then have pos: "nx > 0" "ny > 0" using n by auto
    have "nat sx + nat nx \<le> W" "nat sy + nat ny \<le> H" using us [OF pos] n by linarith+
    moreover from mult_le_mono1 [OF this(2), of W] have "(nat sy + nat ny) * W \<le> W * H" by (simp add: mult.commute)
    moreover have "(nat ny - 1) * nat nx + nat nx = nat nx * nat ny"
      using pos by (cases "nat ny") (auto simp: algebra_simps)
    ultimately show ?thesis using us [OF pos] un c1(2) b(2) by (simp add: W_def)
  qed auto
  have lens2: "length buf < 2 ^ 32" "length cells1 < 2 ^ 32" using b(2) c1(2) c(3) area by simp_all
  obtain cells2 where c2: "copyMapRegion buf 0 0 (word_of_int nx) cells1 (word_of_int sx) (word_of_int sy)
        (size_x m) (word_of_int nx) (word_of_int ny) = Some cells2" "length cells2 = W * H"
    "\<And>X Y. X < W \<Longrightarrow> Y * W + X < W * H \<Longrightarrow> cells2 ! (Y * W + X) =
       (if unat (word_of_int sx :: u32) \<le> X \<and> X < unat (word_of_int sx :: u32) + nat nx \<and>
           unat (word_of_int sy :: u32) \<le> Y \<and> Y < unat (word_of_int sy :: u32) + nat ny
        then buf ! ((Y - unat (word_of_int sy :: u32)) * nat nx + (X - unat (word_of_int sx :: u32)))
        else cells1 ! (Y * W + X))"
    by (rule copyMapRegion_spec [OF lens2 fit2], erule that)
      (simp_all add: un(1,2) c1(2) W_def cong: if_cong)
  let ?m2 = "m1\<lparr>origin_x := origin_x m + of_int cx * resolution m,
                origin_y := origin_y m + of_int cy * resolution m\<rparr>"
  let ?m = "?m2\<lparr>costmap := Some cells2\<rparr>"
  have "shift_map junk cx cy m = Some ?m"
    using fits b(1) m1(1) c1(1) c2(1) c(1) f1(1) uarea
    by (simp add: shift_map_def Let_def sint lx_def [symmetric] ly_def [symmetric]
        nx_def [symmetric] ny_def [symmetric] sx_def [symmetric] sy_def [symmetric])
  moreover have "map_ok ?m" using c(3) c2(2) f1(1,2) by (simp add: map_ok_def W_def H_def)
  moreover have "same_frame (m\<lparr>origin_x := origin_x m + of_int cx * resolution m,
                  origin_y := origin_y m + of_int cy * resolution m\<rparr>) ?m"
    using m1(3) unfolding same_frame_def by auto
  moreover have "cell ?m x y = (if 0 \<le> int x + cx \<and> int x + cx < int W \<and> 0 \<le> int y + cy \<and> int y + cy < int H
        then cell m (nat (int x + cx)) (nat (int y + cy)) else default_value m)"
    if xy: "x < W" "y < H" for x y
  proof -
    note idx = row_index_less [OF xy]
    have cm: "cell ?m x y = cells2 ! (y * W + x)" by (simp add: cell_def f1(1) W_def)
    have dflt: "cells1 ! (y * W + x) = default_value m"
      using m1(4) [OF xy] c1(1) f1(1) by (simp add: cell_def W_def)
    have ovx: "0 \<le> int x + cx \<and> int x + cx < int W \<longleftrightarrow> sx \<le> int x \<and> int x < sx + nx"
      using overlap_1d [of "int x" "int W" cx] xy by (simp add: sx_def nx_def lx_def)
    have ovy: "0 \<le> int y + cy \<and> int y + cy < int H \<longleftrightarrow> sy \<le> int y \<and> int y < sy + ny"
      using overlap_1d [of "int y" "int H" cy] xy by (simp add: sy_def ny_def ly_def)
    show ?thesis
    proof (cases "nx > 0 \<and> ny > 0")
      case False
      then show ?thesis using cm dflt c2(3) [OF xy(1) idx] ovx ovy n by auto
    next
      case True
      then have u: "unat (word_of_int sx :: u32) = nat sx" "unat (word_of_int sy :: u32) = nat sy"
        "0 \<le> sx" "0 \<le> sy" using us by auto
      show ?thesis
      proof (cases "sx \<le> int x \<and> int x < sx + nx \<and> sy \<le> int y \<and> int y < sy + ny")
        case False
        then have "\<not> (nat sx \<le> x \<and> x < nat sx + nat nx \<and> nat sy \<le> y \<and> y < nat sy + nat ny)"
          using u n by linarith
        then have "cells2 ! (y * W + x) = default_value m"
          using c2(3) [OF xy(1) idx] dflt unfolding u by (simp only: if_False)
        then show ?thesis using cm ovx ovy False by auto
      next
        case inside: True
        then have XY: "x - nat sx < nat nx" "y - nat sy < nat ny" using u by linarith+
        have "cells2 ! (y * W + x) = buf ! ((y - nat sy) * nat nx + (x - nat sx))"
        proof -
          have "nat sx \<le> x \<and> x < nat sx + nat nx \<and> nat sy \<le> y \<and> y < nat sy + nat ny"
            using inside u n by linarith
          then show ?thesis using c2(3) [OF xy(1) idx] unfolding u by (simp only: if_True simp_thms)
        qed
        also have "\<dots> = cells ! ((nat ly + (y - nat sy)) * W + nat lx + (x - nat sx))"
          using b(3) [OF XY(1), of "y - nat sy"] row_index_less [OF XY] XY(2) by simp
        finally have "cells2 ! (y * W + x) = cells ! ((nat ly + (y - nat sy)) * W + nat lx + (x - nat sx))" .
        moreover have "nat ly + (y - nat sy) = nat (int y + cy)" "nat lx + (x - nat sx) = nat (int x + cx)"
          using inside u rx(1) ry(1) by (auto simp: sx_def sy_def)
        ultimately have "cells2 ! (y * W + x) = cell m (nat (int x + cx)) (nat (int y + cy))"
          using c(1) by (simp add: cell_def W_def add.assoc)
        then show ?thesis using cm inside ovx ovy by simp
      qed
    qed
  qed
  ultimately show ?thesis unfolding W_def H_def by blast
qed

section \<open>Properties of the map operations\<close>

text \<open>
  In a well-formed map the index of a cell determines the cell, and a
  cost written to one cell is read back there and nowhere else.
\<close>

theorem costmap_set_get:
  assumes "map_ok m" "x < size_x m" "y < size_y m" "x' < size_x m" "y' < size_y m"
  shows "indexToCells m (getIndex m x y) = Some (x, y) \<and>
    (\<exists>m'. setCost m x y c = Some m' \<and> map_ok m' \<and> same_frame m m' \<and>
       getCost m' x' y' = (if x' = x \<and> y' = y then Some c else getCost m x' y'))"
proof -
  obtain m' where m': "setCost m x y c = Some m'" "map_ok m'" "same_frame m m'"
    "\<And>x' y'. x' < unat (size_x m) \<Longrightarrow> y' < unat (size_y m) \<Longrightarrow>
      cell m' x' y' = (if x' = unat x \<and> y' = unat y then c else cell m x' y')"
    using setCost_cells [OF assms(1-3), of c] by blast
  have "x' < size_x m'" "y' < size_y m'" using assms(4,5) same_frame_fields [OF m'(3)] by auto
  then have "getCost m' x' y' = Some (cell m' (unat x') (unat y'))" by (rule getCost_cell [OF m'(2)])
  also have "\<dots> = (if x' = x \<and> y' = y then Some c else getCost m x' y')"
    using m'(4) [of "unat x'" "unat y'"] assms(4,5) getCost_cell [OF assms(1,4,5)]
    by (auto simp: word_less_nat_alt word_unat_eq_iff [of x'] word_unat_eq_iff [of y'])
  finally show ?thesis using m'(1-3) indexToCells_getIndex [OF assms(1-3)] by blast
qed

definition small_map :: costmap2d where
  "small_map = \<lparr>size_x = 3, size_y = 2, resolution = 1, origin_x = 0, origin_y = 0,
     costmap = Some [10, 20, 30, 40, 50, 60], default_value = NO_INFORMATION\<rparr>"

lemma small_map_ok: "map_ok small_map"
  by (simp add: map_ok_def small_map_def)

theorem costmap_set_get_witness:
  "\<exists>m'. setCost small_map 1 1 99 = Some m' \<and> getCost m' 2 0 = Some 30"
proof -
  have "getCost small_map 2 0 = Some 30"
    by (simp add: getCost_def getCost_at_def getIndex_def small_map_def)
  then show ?thesis
    using costmap_set_get [OF small_map_ok, of 1 1 2 0 99] by (auto simp: small_map_def)
qed

text \<open>
  \<open>resetMapToValue\<close> on a window inside the map sets exactly the cells
  of the half-open window \<open>[x0, xn) \<times> [y0, yn)\<close> and no other, and always returns.
\<close>

theorem resetMapToValue_window:
  assumes "map_ok m" "x0 \<le> xn" "xn \<le> size_x m" "y0 \<le> yn" "yn \<le> size_y m"
    and "(unat (size_y m) + 1) * unat (size_x m) < 2 ^ 32"
  shows "\<exists>m'. resetMapToValue x0 y0 xn yn v m = Some m' \<and> map_ok m' \<and> same_frame m m' \<and>
    (\<forall>x < unat (size_x m). \<forall>y < unat (size_y m). cell m' x y =
       (if unat x0 \<le> x \<and> x < unat xn \<and> unat y0 \<le> y \<and> y < unat yn then v else cell m x y))"
proof -
  obtain cells where c: "costmap m = Some cells"
      "length cells = unat (size_x m) * unat (size_y m)" "unat (size_x m) * unat (size_y m) < 2 ^ 32"
    using assms(1) by (rule map_okE)
  define w where "w = unat (size_x m)"
  have le: "unat x0 \<le> unat xn" "unat xn \<le> w" "unat y0 \<le> unat yn" "unat yn \<le> unat (size_y m)"
    using assms(2-5) by (simp_all add: word_le_nat_alt w_def)
  have area: "unat yn * w \<le> unat (size_y m) * w" using le(4) by (rule mult_le_mono1)
  have "unat yn * w + unat x0 \<le> unat (size_y m) * w + w"
    using area le(1,2) by linarith
  also have "\<dots> < 2 ^ 32" using assms(6) by (simp add: w_def)
  finally have b1: "unat yn * w + unat x0 < 2 ^ 32" .
  have b0: "unat y0 * w + unat x0 < 2 ^ 32"
    using mult_le_mono1 [OF le(3), of w] b1 by linarith
  have row: "unat x0 + length (replicate (unat (xn - x0)) v) \<le> w"
    "unat x0 + length (replicate (unat (xn - x0)) v) = unat xn"
    using le assms(2) by (simp_all add: unat_diff_u32)
  have y: "unat (y0 * size_x m + x0) = unat y0 * w + unat x0"
    "unat (yn * size_x m + x0) = (unat y0 + (unat yn - unat y0)) * w + unat x0"
    using unat_mult_add_u32 [OF b0 [unfolded w_def]] unat_mult_add_u32 [OF b1 [unfolded w_def]] le(3)
    by (simp_all add: w_def)
  show ?thesis
  proof (cases "w = 0")
    case True
    then have "resetMapToValue x0 y0 xn yn v m = Some m"
      using c le y True by (simp add: resetMapToValue_def) (subst reset_rows.simps, simp add: word_less_nat_alt)
    then show ?thesis using assms(1) True by (auto simp: same_frame_def w_def intro: exI [of _ "costmap m"])
  next
    case False
    have "w = 0 \<longrightarrow> unat yn - unat y0 = 0"
      "(unat y0 + (unat yn - unat y0)) * w \<le> length cells"
      "(unat y0 + (unat yn - unat y0)) * w + unat x0 < 2 ^ 32"
      using False c(2) le(3) area b1 by (simp_all add: w_def mult.commute)
    from reset_rows_spec [OF row(1) w_def y this] obtain cells' where
      r: "reset_rows (y0 * size_x m + x0) (yn * size_x m + x0) (size_x m)
            (replicate (unat (xn - x0)) v) cells = Some cells'" "length cells' = length cells"
      "\<And>X Y. X < w \<Longrightarrow> Y * w + X < length cells \<Longrightarrow> cells' ! (Y * w + X) =
         (if unat x0 \<le> X \<and> X < unat xn \<and> unat y0 \<le> Y \<and> Y < unat y0 + (unat yn - unat y0)
          then replicate (unat (xn - x0)) v ! (X - unat x0) else cells ! (Y * w + X))"
      unfolding row(2) by blast
    let ?m = "m\<lparr>costmap := Some cells'\<rparr>"
    have "cell ?m x y = (if unat x0 \<le> x \<and> x < unat xn \<and> unat y0 \<le> y \<and> y < unat yn then v else cell m x y)"
      if "x < unat (size_x m)" "y < unat (size_y m)" for x y
    proof -
      have "replicate (unat (xn - x0)) v ! (x - unat x0) = v" if "unat x0 \<le> x" "x < unat xn"
        using that assms(2) by (simp add: unat_diff_u32)
      then show ?thesis
        using r(3) [of x y] that row_index_less [OF that] c(1,2) le by (auto simp: cell_def w_def)
    qed
    moreover have "resetMapToValue x0 y0 xn yn v m = Some ?m" using r(1) c(1) by (simp add: resetMapToValue_def)
    moreover have "map_ok ?m" using c r(2) by (simp add: map_ok_def)
    moreover have "same_frame m ?m" by (auto simp: same_frame_def)
    ultimately show ?thesis by blast
  qed
qed

theorem resetMapToValue_window_witness:
  "\<exists>m'. resetMapToValue 1 0 3 1 7 small_map = Some m' \<and> cell m' 2 0 = 7 \<and> cell m' 0 0 = 10 \<and> cell m' 1 1 = 50"
proof -
  have s: "size_x small_map = 3" "size_y small_map = 2"
    "cell small_map 0 0 = 10" "cell small_map 1 1 = 50"
    by (simp_all add: small_map_def cell_def)
  have "\<exists>m'. resetMapToValue 1 0 3 1 7 small_map = Some m' \<and> map_ok m' \<and> same_frame small_map m' \<and>
    (\<forall>x < unat (size_x small_map). \<forall>y < unat (size_y small_map). cell m' x y =
       (if unat (1::u32) \<le> x \<and> x < unat (3::u32) \<and> unat (0::u32) \<le> y \<and> y < unat (1::u32) then 7
        else cell small_map x y))"
    by (rule resetMapToValue_window [OF small_map_ok]) (simp_all add: s)
  then show ?thesis by (auto simp: s(1,2) s(3,4) [simplified])
qed

text \<open>
  \<open>copyWindow\<close> either refuses and changes nothing, or copies exactly
  the source window to its place in the destination; it refuses exactly when the window does
  not fit the source or the destination.
\<close>

theorem copyWindow_spec:
  assumes "map_ok source" "map_ok m" "sx0 \<le> sxn" "sy0 \<le> syn"
    and "unat dx0 + (unat sxn - unat sx0) < 2 ^ 32" "unat dy0 + (unat syn - unat sy0) < 2 ^ 32"
  shows "\<exists>ok m'. copyWindow source sx0 sy0 sxn syn dx0 dy0 m = Some (ok, m') \<and>
    (ok \<longleftrightarrow> sxn \<le> size_x source \<and> syn \<le> size_y source \<and>
       unat dx0 + (unat sxn - unat sx0) \<le> unat (size_x m) \<and>
       unat dy0 + (unat syn - unat sy0) \<le> unat (size_y m)) \<and>
    (\<not> ok \<longrightarrow> m' = m) \<and>
    (ok \<longrightarrow> map_ok m' \<and> same_frame m m' \<and>
      (\<forall>x < unat (size_x m). \<forall>y < unat (size_y m). cell m' x y =
        (if unat dx0 \<le> x \<and> x < unat dx0 + (unat sxn - unat sx0) \<and>
            unat dy0 \<le> y \<and> y < unat dy0 + (unat syn - unat sy0)
         then cell source (unat sx0 + (x - unat dx0)) (unat sy0 + (y - unat dy0)) else cell m x y)))"
proof -
  obtain src where s: "costmap source = Some src"
      "length src = unat (size_x source) * unat (size_y source)"
      "unat (size_x source) * unat (size_y source) < 2 ^ 32"
    using assms(1) by (rule map_okE)
  obtain dst where d: "costmap m = Some dst" "length dst = unat (size_x m) * unat (size_y m)"
      "unat (size_x m) * unat (size_y m) < 2 ^ 32"
    using assms(2) by (rule map_okE)
  define n where "n = unat sxn - unat sx0"
  define k where "k = unat syn - unat sy0"
  have nk: "unat (sxn - sx0) = n" "unat (syn - sy0) = k"
    using assms(3,4) by (simp_all add: n_def k_def unat_diff_u32)
  have sums: "unat (dx0 + (sxn - sx0)) = unat dx0 + n" "unat (dy0 + (syn - sy0)) = unat dy0 + k"
    using assms(5,6) nk by (simp_all add: unat_word_ariths n_def k_def)
  have le: "unat sx0 \<le> unat sxn" "unat sy0 \<le> unat syn" using assms(3,4) by (simp_all add: word_le_nat_alt)
  show ?thesis
  proof (cases "sxn \<le> size_x source \<and> syn \<le> size_y source \<and>
      unat dx0 + n \<le> unat (size_x m) \<and> unat dy0 + k \<le> unat (size_y m)")
    case False
    then have "copyWindow source sx0 sy0 sxn syn dx0 dy0 m = Some (False, m)"
      using sums by (auto simp: copyWindow_def Let_def word_less_nat_alt word_le_nat_alt)
    then show ?thesis using False unfolding n_def k_def by auto
  next
    case True
    then have fit: "unat sxn \<le> unat (size_x source)" "unat syn \<le> unat (size_y source)"
      "unat dx0 + n \<le> unat (size_x m)" "unat dy0 + k \<le> unat (size_y m)"
      by (simp_all add: word_le_nat_alt)
    have lens: "length src < 2 ^ 32" "length dst < 2 ^ 32" using s(2,3) d(2,3) by simp_all
    have "sxn - sx0 = 0 \<or> syn - sy0 = 0 \<or> unat dx0 + unat (sxn - sx0) \<le> unat (size_x m) \<and>
        (unat dy0 + unat (syn - sy0)) * unat (size_x m) \<le> length dst \<and>
        (unat sy0 + unat (syn - sy0) - 1) * unat (size_x source) + unat sx0 + unat (sxn - sx0) \<le> length src"
    proof (cases "n = 0 \<or> k = 0")
      case False
      then have "unat sy0 + k - 1 < unat (size_y source)" "unat sx0 + n - 1 < unat (size_x source)"
        using fit le unfolding n_def k_def by linarith+
      from row_index_less [OF this(2,1)]
      have "(unat sy0 + k - 1) * unat (size_x source) + unat sx0 + n \<le> length src"
        using s(2) False by linarith
      moreover have "(unat dy0 + k) * unat (size_x m) \<le> length dst"
        using d(2) mult_le_mono1 [OF fit(4), of "unat (size_x m)"] by (simp add: mult.commute)
      ultimately show ?thesis using fit(3) by (simp add: nk)
    qed (use nk in \<open>auto simp: unat_eq_zero\<close>)
    from copyMapRegion_spec [OF lens this] obtain dst' where
      c: "copyMapRegion src sx0 sy0 (size_x source) dst dx0 dy0 (size_x m) (sxn - sx0) (syn - sy0)
        = Some dst'" "length dst' = length dst"
      "\<And>X Y. X < unat (size_x m) \<Longrightarrow> Y * unat (size_x m) + X < length dst \<Longrightarrow> dst' ! (Y * unat (size_x m) + X) =
       (if unat dx0 \<le> X \<and> X < unat dx0 + n \<and> unat dy0 \<le> Y \<and> Y < unat dy0 + k
        then src ! ((unat sy0 + (Y - unat dy0)) * unat (size_x source) + unat sx0 + (X - unat dx0))
        else dst ! (Y * unat (size_x m) + X))" unfolding nk by blast
    let ?m = "m\<lparr>costmap := Some dst'\<rparr>"
    have "copyWindow source sx0 sy0 sxn syn dx0 dy0 m = Some (True, ?m)"
      using True c(1) s(1) d(1) sums by (simp add: copyWindow_def Let_def word_less_nat_alt word_le_nat_alt not_less)
    moreover have "map_ok ?m" using d c(2) by (simp add: map_ok_def)
    moreover have "same_frame m ?m" by (auto simp: same_frame_def)
    moreover have "cell ?m x y = (if unat dx0 \<le> x \<and> x < unat dx0 + n \<and> unat dy0 \<le> y \<and> y < unat dy0 + k
         then cell source (unat sx0 + (x - unat dx0)) (unat sy0 + (y - unat dy0)) else cell m x y)"
      if "x < unat (size_x m)" "y < unat (size_y m)" for x y
      using c(3) [of x y] that row_index_less [OF that] d(1,2) s(1)
      by (simp add: cell_def add.assoc)
    ultimately show ?thesis using True unfolding n_def k_def by blast
  qed
qed

theorem copyWindow_spec_witness:
  "\<exists>m'. copyWindow small_map 1 0 3 2 0 0 small_map = Some (True, m') \<and> cell m' 0 1 = 50"
proof -
  have s: "size_x small_map = 3" "size_y small_map = 2" "cell small_map (Suc 0) (Suc 0) = 50"
    by (simp_all add: small_map_def cell_def)
  note spec = copyWindow_spec [OF small_map_ok small_map_ok, of 1 3 0 2 0 0, unfolded s(1,2)]
  have "\<exists>m'. copyWindow small_map 1 0 3 2 0 0 small_map = Some (True, m') \<and>
      (\<forall>x < 3. \<forall>y < 2. cell m' x y =
        (if x < Suc (Suc 0) then cell small_map (Suc x) y else cell small_map x y))"
    using spec by (simp cong: if_cong) (elim exE conjE, simp cong: if_cong)
  then obtain m' where "copyWindow small_map 1 0 3 2 0 0 small_map = Some (True, m')"
    "cell m' 0 1 = cell small_map (Suc 0) 1" by auto
  then show ?thesis using s(3) by auto
qed

text \<open>
  Property C22 (functional): \<open>updateOrigin\<close> moves the window by a whole number of cells. A cell of the
  moved map keeps the cost it had at the same place in the world, and gets the default value when
  that place was outside the old window; the origin stays aligned to the old grid.
\<close>

theorem updateOrigin_shifts_cells:
  assumes "map_ok m" "unat (size_x m) < 2 ^ 31" "unat (size_y m) < 2 ^ 31"
    and "cx = trunc_real ((new_ox - origin_x m) / resolution m)"
    and "cy = trunc_real ((new_oy - origin_y m) / resolution m)"
    and "- (2 ^ 31) < cx" "cx + int (unat (size_x m)) < 2 ^ 31"
    and "- (2 ^ 31) < cy" "cy + int (unat (size_y m)) < 2 ^ 31"
  shows "\<exists>m'. updateOrigin junk new_ox new_oy m = Some m' \<and> map_ok m' \<and>
    origin_x m' = origin_x m + of_int cx * resolution m \<and>
    origin_y m' = origin_y m + of_int cy * resolution m \<and>
    size_x m' = size_x m \<and> size_y m' = size_y m \<and> resolution m' = resolution m \<and>
    (\<forall>x < unat (size_x m). \<forall>y < unat (size_y m). cell m' x y =
       (if 0 \<le> int x + cx \<and> int x + cx < int (unat (size_x m)) \<and>
           0 \<le> int y + cy \<and> int y + cy < int (unat (size_y m))
        then cell m (nat (int x + cx)) (nat (int y + cy)) else default_value m))"
proof -
  have "cx < 2 ^ 31" "cy < 2 ^ 31" using assms(7,9) by linarith+
  then have "cast_i32 ((new_ox - origin_x m) / resolution m) = Some cx"
    "cast_i32 ((new_oy - origin_y m) / resolution m) = Some cy"
    using assms(4-6,8) by (simp_all add: cast_i32_def fits_i32_def)
  then have eq: "updateOrigin junk new_ox new_oy m = shift_map junk cx cy m"
    by (simp add: updateOrigin_def)
  from shift_map_cells [OF assms(1-3,6-9), of junk] obtain m' where
    m': "shift_map junk cx cy m = Some m'" "map_ok m'"
      "same_frame (m\<lparr>origin_x := origin_x m + of_int cx * resolution m,
          origin_y := origin_y m + of_int cy * resolution m\<rparr>) m'"
    and cells: "\<forall>x < unat (size_x m). \<forall>y < unat (size_y m). cell m' x y =
       (if 0 \<le> int x + cx \<and> int x + cx < int (unat (size_x m)) \<and>
           0 \<le> int y + cy \<and> int y + cy < int (unat (size_y m))
        then cell m (nat (int x + cx)) (nat (int y + cy)) else default_value m)"
    by blast
  show ?thesis
    using eq m' cells same_frame_fields [OF m'(3)] by (intro exI [of _ m'] conjI) simp_all
qed

theorem updateOrigin_shifts_cells_witness:
  "\<exists>m'. updateOrigin (\<lambda>_. 0) 1 0 small_map = Some m' \<and> origin_x m' = 1 \<and>
     cell m' 0 1 = 50 \<and> cell m' 2 1 = NO_INFORMATION"
proof -
  have s: "unat (size_x small_map) = 3" "unat (size_y small_map) = 2" "resolution small_map = 1"
    "origin_x small_map = 0" "origin_y small_map = 0" "default_value small_map = NO_INFORMATION"
    "cell small_map 1 1 = 50"
    by (simp_all add: small_map_def cell_def)
  have t: "(1::int) = trunc_real ((1 - origin_x small_map) / resolution small_map)"
    "(0::int) = trunc_real ((0 - origin_y small_map) / resolution small_map)"
    by (simp_all add: s trunc_real_def)
  from updateOrigin_shifts_cells [OF small_map_ok _ _ t, of "\<lambda>_. 0"] s
  obtain m' where "updateOrigin (\<lambda>_. 0) 1 0 small_map = Some m'" "origin_x m' = 1"
    "\<And>x y. x < 3 \<Longrightarrow> y < 2 \<Longrightarrow> cell m' x y = (if 0 \<le> int x + 1 \<and> int x + 1 < int 3 \<and> 0 \<le> int y + 0 \<and> int y + 0 < int 2
        then cell small_map (nat (int x + 1)) (nat (int y + 0)) else NO_INFORMATION)"
    by auto
  then show ?thesis using s(7) by auto
qed

lemma std_round_mono: "0 \<le> x \<Longrightarrow> x \<le> y \<Longrightarrow> std_round x \<le> std_round y"
  by (auto simp: std_round_def intro: floor_mono)

lemma occ_to_cost_known:
  assumes "0 \<le> d" "d \<le> 100"
  shows "occ_to_cost d = Some (word_of_int (std_round (real_of_int d * 254 / 100)))"
    "0 \<le> std_round (real_of_int d * 254 / 100)" "std_round (real_of_int d * 254 / 100) \<le> 254"
proof -
  have "std_round (real_of_int d * 254 / 100) \<le> std_round 254"
    using assms by (intro std_round_mono) (auto simp: field_simps)
  moreover have "std_round 254 = 254" by (simp add: std_round_def)
  moreover have "std_round 0 \<le> std_round (real_of_int d * 254 / 100)"
    using assms by (intro std_round_mono) auto
  moreover have "std_round 0 = 0" by (simp add: std_round_def)
  ultimately show "0 \<le> std_round (real_of_int d * 254 / 100)" "std_round (real_of_int d * 254 / 100) \<le> 254"
    "occ_to_cost d = Some (word_of_int (std_round (real_of_int d * 254 / 100)))"
    using assms by (simp_all add: occ_to_cost_def Let_def)
qed

lemma map_cells_Some:
  assumes "\<And>x. x \<in> set xs \<Longrightarrow> f x = Some (g x)"
  shows "map_cells f xs = Some (map g xs)"
  using assms by (induction xs) auto

text \<open>
  An occupancy grid with the values \<open>-1\<close> and \<open>0 .. 100\<close> of the message
  definition converts to a well-formed costmap: unknown becomes NO_INFORMATION, known values
  stay below it, free is 0, occupied is LETHAL_OBSTACLE, and the order of known values is kept.
\<close>

theorem costmap_of_grid_cells:
  assumes "unat width * unat height < 2 ^ 32" "length data = unat width * unat height"
    and "\<forall>d \<in> set data. -1 \<le> d \<and> d \<le> 100"
  shows "\<exists>m. costmap_of_grid width height res ox oy data = Some m \<and> map_ok m \<and>
    (\<forall>i < length data. the (costmap m) ! i = NO_INFORMATION \<longleftrightarrow> data ! i = -1) \<and>
    (\<forall>i < length data. data ! i = 0 \<longrightarrow> the (costmap m) ! i = FREE_SPACE) \<and>
    (\<forall>i < length data. data ! i = 100 \<longrightarrow> the (costmap m) ! i = LETHAL_OBSTACLE) \<and>
    (\<forall>i < length data. \<forall>j < length data. 0 \<le> data ! i \<and> data ! i \<le> data ! j \<longrightarrow>
       the (costmap m) ! i \<le> the (costmap m) ! j)"
proof -
  define g where "g d = (if d = -1 then NO_INFORMATION
    else (word_of_int (std_round (real_of_int d * 254 / 100)) :: u8))" for d
  have known: "occ_to_cost d = Some (g d)" if "d \<in> set data" for d
  proof (cases "d = -1")
    case True
    then show ?thesis by (simp add: occ_to_cost_def g_def)
  next
    case False
    moreover have "-1 \<le> d" "d \<le> 100" using assms(3) that by auto
    ultimately show ?thesis using occ_to_cost_known(1) [of d] by (simp add: g_def)
  qed
  have ug: "uint (g d) = std_round (real_of_int d * 254 / 100) \<and> uint (g d) \<le> 254" if "0 \<le> d" "d \<le> 100" for d
    using occ_to_cost_known(2,3) [OF that] that by (simp add: g_def uint_word_of_int)
  have area: "unat (width * height) = unat width * unat height"
    using assms(1) by (simp add: unat_word_ariths)
  let ?m = "\<lparr>size_x = width, size_y = height, resolution = res, origin_x = ox, origin_y = oy,
     costmap = Some (map g data), default_value = FREE_SPACE\<rparr>"
  have g255: "g d = NO_INFORMATION \<longleftrightarrow> d = -1" if "-1 \<le> d" "d \<le> 100" for d
  proof (cases "d = -1")
    case False
    then have "uint (g d) \<le> 254" using ug [of d] that by simp
    then have "g d \<noteq> NO_INFORMATION" by (auto simp: word_uint_eq_iff)
    then show ?thesis using False by simp
  qed (simp add: g_def)
  have "g 0 = FREE_SPACE" "g 100 = LETHAL_OBSTACLE" by (simp_all add: g_def std_round_def)
  moreover have "g d \<le> g e" if "0 \<le> d" "d \<le> e" "e \<le> 100" for d e
    using ug [of d] ug [of e] that std_round_mono [of "real_of_int d * 254 / 100" "real_of_int e * 254 / 100"]
    by (simp add: word_le_def)
  moreover have "costmap_of_grid width height res ox oy data = Some ?m"
    using area assms(2) known by (simp add: costmap_of_grid_def mem_read_def map_cells_Some [where g = g])
  moreover have "map_ok ?m" using assms(1,2) by (simp add: map_ok_def)
  moreover have "-1 \<le> data ! i" "data ! i \<le> 100" if "i < length data" for i
    using assms(3) nth_mem [OF that] by auto
  ultimately show ?thesis using g255 by (intro exI [of _ ?m]) auto
qed

theorem costmap_of_grid_cells_witness:
  "\<exists>m. costmap_of_grid 2 1 1 0 0 [-1, 100] = Some m \<and> the (costmap m) ! 0 = NO_INFORMATION \<and>
     the (costmap m) ! 1 = LETHAL_OBSTACLE"
proof -
  have h: "unat (2::u32) * unat (1::u32) < 2 ^ 32" "length [-1, 100::int] = unat (2::u32) * unat (1::u32)"
    "\<forall>d \<in> set [-1, 100::int]. -1 \<le> d \<and> d \<le> 100" by simp_all
  from costmap_of_grid_cells [OF h, of 1 0 0] show ?thesis by fastforce
qed

declare of_nat_unat [simp del]

lemma cast_u32_half: "cast_u32 (real (unat w) + 1 / 2) = Some w"
proof -
  have "\<lfloor>real (unat w) + 1 / 2\<rfloor> = int (unat w)" by (intro floor_unique) auto
  moreover have "int (unat w) < 2 ^ 32" using unsigned_less [of w] int_less_pow2 [of "unat w" 32] by simp
  moreover have "0 \<le> real (unat w) + 1 / 2" by (rule add_nonneg_nonneg) simp_all
  ultimately show ?thesis
    by (simp add: cast_u32_def trunc_real_def Let_def of_nat_unat)
qed

text \<open>
  The world position of a cell's centre lies in that cell:
  \<open>worldToMap\<close> inverts \<open>mapToWorld\<close> on the cells of the map, whatever resolution and origin.
\<close>

theorem worldToMap_mapToWorld:
  assumes "0 < resolution m" "mx < size_x m" "my < size_y m"
  shows "worldToMap m (fst (mapToWorld m mx my)) (snd (mapToWorld m mx my)) = Some (Some (mx, my))"
proof -
  have "((real (unat w) + 1 / 2) * resolution m) / resolution m = real (unat w) + 1 / 2" for w :: u32
    using assms(1) by simp
  moreover have "0 \<le> (real (unat w) + 1 / 2) * resolution m" for w :: u32
    using assms(1) by (intro mult_nonneg_nonneg add_nonneg_nonneg) simp_all
  ultimately show ?thesis
    using assms by (simp add: worldToMap_def mapToWorld_def not_less cast_u32_half)
qed

theorem worldToMap_mapToWorld_witness:
  "worldToMap small_map (fst (mapToWorld small_map 2 1)) (snd (mapToWorld small_map 2 1)) = Some (Some (2, 1))"
  by (rule worldToMap_mapToWorld) (simp_all add: small_map_def)

lemma enforce_bound_range:
  assumes "0 < res" "0 < unat sz" "unat sz < 2 ^ 31"
  obtains i where "enforce_bound w origin res sz = Some i" "0 \<le> i" "i \<le> int (unat sz)"
    "i = int (unat sz) \<longleftrightarrow> w = res * real (unat sz) + origin"
proof -
  have last: "sint (sz - 1) = int (unat sz) - 1"
  proof -
    have "unat (sz - 1) = unat sz - 1" using assms(2) by (simp add: unat_sub word_le_nat_alt)
    then show ?thesis using assms(2,3) sint_small [of "sz - 1"] by (simp add: of_nat_diff)
  qed
  consider (low) "w < origin" | (high) "w > res * real (unat sz) + origin"
    | (mid) "origin \<le> w" "w \<le> res * real (unat sz) + origin" by linarith
  then show thesis
  proof cases
    case low
    moreover have "origin \<le> res * real (unat sz) + origin" using assms(1) by simp
    ultimately show thesis using that [of 0] assms(2) by (simp add: enforce_bound_def)
  next
    case high
    moreover have "origin \<le> res * real (unat sz) + origin" using assms(1) by simp
    ultimately show thesis using that [of "int (unat sz) - 1"] assms(2) last
      by (simp add: enforce_bound_def)
  next
    case mid
    define q where "q = (w - origin) / res"
    have q: "0 \<le> q" "q \<le> real (unat sz)" using mid assms(1) by (simp_all add: q_def field_simps)
    have fl: "0 \<le> \<lfloor>q\<rfloor>" "\<lfloor>q\<rfloor> \<le> int (unat sz)" using q by (simp_all add: floor_le_iff)
    have "int (unat sz) < 2 ^ 31" using assms(3) by (rule int_less_pow2)
    then have "enforce_bound w origin res sz = Some \<lfloor>q\<rfloor>"
      using mid fl q by (simp add: enforce_bound_def cast_i32_def trunc_real_def fits_i32_def q_def)
    moreover have "\<lfloor>q\<rfloor> = int (unat sz) \<longleftrightarrow> q = real (unat sz)"
      using q by linarith
    moreover have "q = real (unat sz) \<longleftrightarrow> w = res * real (unat sz) + origin"
      using assms(1) by (auto simp: q_def field_simps)
    ultimately show thesis using that fl by blast
  qed
qed

text \<open>
  \<open>worldToMapEnforceBounds\<close> returns coordinates between 0 and the size of the map,
  and the x coordinate equals the size, one past the last cell, exactly when the point lies
  on the upper edge of the map.
\<close>

theorem enforceBounds_upper_edge:
  assumes "0 < resolution m" "0 < unat (size_x m)" "unat (size_x m) < 2 ^ 31"
    and "0 < unat (size_y m)" "unat (size_y m) < 2 ^ 31"
  shows "\<exists>mx my. worldToMapEnforceBounds m wx wy = Some (mx, my) \<and>
    0 \<le> mx \<and> mx \<le> int (unat (size_x m)) \<and> 0 \<le> my \<and> my \<le> int (unat (size_y m)) \<and>
    (mx = int (unat (size_x m)) \<longleftrightarrow> wx = resolution m * real (unat (size_x m)) + origin_x m)"
proof -
  obtain i where "enforce_bound wx (origin_x m) (resolution m) (size_x m) = Some i" "0 \<le> i"
    "i \<le> int (unat (size_x m))"
    "i = int (unat (size_x m)) \<longleftrightarrow> wx = resolution m * real (unat (size_x m)) + origin_x m"
    by (rule enforce_bound_range [OF assms(1-3)])
  moreover obtain j where "enforce_bound wy (origin_y m) (resolution m) (size_y m) = Some j" "0 \<le> j"
    "j \<le> int (unat (size_y m))"
    by (rule enforce_bound_range [OF assms(1,4,5)])
  ultimately show ?thesis by (simp add: worldToMapEnforceBounds_def)
qed

theorem enforceBounds_upper_edge_witness:
  "\<exists>my. worldToMapEnforceBounds small_map 3 1 = Some (3, my)"
proof -
  have s: "resolution small_map = 1" "size_x small_map = 3" "size_y small_map = 2" "origin_x small_map = 0"
    by (simp_all add: small_map_def)
  show ?thesis using enforceBounds_upper_edge [of small_map 3 1] by (auto simp: s)
qed

declare of_nat_unat [simp]

text \<open>
  When \<open>copyCostmapWindow\<close> refuses because the window does not fit, it has
  already deleted the old cells: the map keeps its size but every later read or write of a
  cell is undefined.
\<close>

theorem failed_window_copy_deletes_cells:
  assumes "copyCostmapWindow junk False src ox oy sx sy m = Some (False, m')"
  shows "size_x m' = size_x m \<and> size_y m' = size_y m \<and>
    getCost m' x y = None \<and> setCost m' x y c = None \<and> resetMaps m' = None"
  using assms
  by (auto simp: copyCostmapWindow_def deleteMaps_def getCost_def getCost_at_def setCost_def
      resetMaps_def Let_def bind_eq_Some_conv split: option.splits)

theorem failed_window_copy_deletes_cells_witness:
  "copyCostmapWindow (\<lambda>_. 0) False small_map 0 0 5 1 small_map = Some (False, deleteMaps small_map) \<and>
   getCost (deleteMaps small_map) 0 0 = None"
proof -
  have c: "copyCostmapWindow (\<lambda>_. 0) False small_map 0 0 5 1 small_map = Some (False, deleteMaps small_map)"
    by (simp add: copyCostmapWindow_def worldToMap_def small_map_def cast_u32_def trunc_real_def)
  then show ?thesis using failed_window_copy_deletes_cells [OF c] by simp
qed

end
