(* ===== verification/Costmap_Layer.thy ===== *)
theory Costmap_Layer
  imports Costmap_2D
begin

text \<open>
  nav2_costmap_2d/costmap_layer: a layer has its own costmap and merges it into the master grid
  inside a window, with one of five rules. The loops of the five \<open>updateWith\<close> functions differ in
  the rule for one cell only, so the model has one loop and five cell rules. The windows are given
  by \<open>int\<close> bounds; \<open>it\<close> is computed in unsigned arithmetic. \<open>layer_rule\<close> is the contract of a cell
  rule that leaves the master alone where the layer knows nothing.
\<close>

section \<open>State\<close>

record costmap_layer =
  own :: costmap2d
  enabled :: bool
  current :: bool
  has_extra_bounds :: bool
  extra_min_x :: real
  extra_max_x :: real
  extra_min_y :: real
  extra_max_y :: real

definition new_layer :: "costmap2d \<Rightarrow> costmap_layer" where
  "new_layer m =
    \<lparr>own = m, enabled = False, current = False, has_extra_bounds = False,
     extra_min_x = 1000000, extra_max_x = -1000000,
     extra_min_y = 1000000, extra_max_y = -1000000\<rparr>"

text \<open>A bounding box, the four in-out parameters \<open>min_x, min_y, max_x, max_y\<close>.\<close>

record bounds =
  min_bx :: real
  min_by :: real
  max_bx :: real
  max_by :: real

definition touch :: "real \<Rightarrow> real \<Rightarrow> bounds \<Rightarrow> bounds" where
  "touch x y b =
    \<lparr>min_bx = min x (min_bx b), min_by = min y (min_by b),
     max_bx = max x (max_bx b), max_by = max y (max_by b)\<rparr>"

definition matchSize :: "(nat \<Rightarrow> u8) \<Rightarrow> costmap2d option \<Rightarrow> costmap_layer \<Rightarrow> costmap_layer option" where
  "matchSize junk master l =
    (case master of
       None \<Rightarrow> Some l
     | Some m \<Rightarrow> map_option (\<lambda>o'. l\<lparr>own := o'\<rparr>)
         (resizeMap junk (size_x m) (size_y m) (resolution m) (origin_x m) (origin_y m) (own l)))"

section \<open>Clearing an area\<close>

text \<open>
  The two nested loops of \<open>clearArea\<close> visit every cell once, column by column; each visit is
  \<open>clear_cell\<close>.
\<close>

definition in_area :: "int \<Rightarrow> int \<Rightarrow> int \<Rightarrow> int \<Rightarrow> int \<Rightarrow> int \<Rightarrow> bool" where
  "in_area start_x start_y end_x end_y x y \<longleftrightarrow>
     x > start_x \<and> x < end_x \<and> y > start_y \<and> y < end_y"

definition clear_cell ::
  "costmap2d \<Rightarrow> (int \<Rightarrow> int \<Rightarrow> bool) \<Rightarrow> bool \<Rightarrow> nat \<times> nat \<Rightarrow> u8 list \<Rightarrow> u8 list option" where
  "clear_cell m area invert xy grid =
    (case xy of (x, y) \<Rightarrow>
      if area (int x) (int y) = invert then Some grid
      else (let index = unat (getIndex m (of_nat x) (of_nat y))
            in if index < length grid
               then Some (if grid ! index \<noteq> NO_INFORMATION then grid[index := NO_INFORMATION] else grid)
               else None))"

fun visit_cells :: "('c \<Rightarrow> 'g \<Rightarrow> 'g option) \<Rightarrow> 'c list \<Rightarrow> 'g \<Rightarrow> 'g option" where
  "visit_cells f [] g = Some g"
| "visit_cells f (c # cs) g = Option.bind (f c g) (visit_cells f cs)"

definition columns :: "nat \<Rightarrow> nat \<Rightarrow> (nat \<times> nat) list" where
  "columns w h = concat (map (\<lambda>x. map (\<lambda>y. (x, y)) [0..<h]) [0..<w])"

definition clearArea ::
  "int \<Rightarrow> int \<Rightarrow> int \<Rightarrow> int \<Rightarrow> bool \<Rightarrow> costmap_layer \<Rightarrow> costmap_layer option" where
  "clearArea start_x start_y end_x end_y invert l =
    (let m = own l; sx = sint (size_x m); sy = sint (size_y m);
         area = in_area (clamp_cell start_x sx) (clamp_cell start_y sy)
                        (clamp_cell end_x sx) (clamp_cell end_y sy)
     in do { grid \<leftarrow> costmap m;
             grid' \<leftarrow> visit_cells (clear_cell m area invert) (columns (nat sx) (nat sy)) grid;
             Some (l\<lparr>current := False, own := m\<lparr>costmap := Some grid'\<rparr>\<rparr>) })"

section \<open>Extra bounds\<close>

definition addExtraBounds :: "real \<Rightarrow> real \<Rightarrow> real \<Rightarrow> real \<Rightarrow> costmap_layer \<Rightarrow> costmap_layer" where
  "addExtraBounds mx0 my0 mx1 my1 l =
    l\<lparr>extra_min_x := min mx0 (extra_min_x l), extra_max_x := max mx1 (extra_max_x l),
      extra_min_y := min my0 (extra_min_y l), extra_max_y := max my1 (extra_max_y l),
      has_extra_bounds := True\<rparr>"

definition useExtraBounds :: "bounds \<Rightarrow> costmap_layer \<Rightarrow> bounds \<times> costmap_layer" where
  "useExtraBounds b l =
    (if \<not> has_extra_bounds l then (b, l)
     else
       (\<lparr>min_bx = min (extra_min_x l) (min_bx b), min_by = min (extra_min_y l) (min_by b),
         max_bx = max (extra_max_x l) (max_bx b), max_by = max (extra_max_y l) (max_by b)\<rparr>,
        l\<lparr>extra_min_x := 1000000, extra_min_y := 1000000, extra_max_x := -1000000,
          extra_max_y := -1000000, has_extra_bounds := False\<rparr>))"

section \<open>Merging into the master grid\<close>

text \<open>The rules for one cell: the layer's cost and the master's cost give the new master cost.\<close>

definition max_rule :: "u8 \<Rightarrow> u8 \<Rightarrow> u8" where
  "max_rule layer old =
    (if layer = NO_INFORMATION then old
     else if old = NO_INFORMATION \<or> old < layer then layer else old)"

definition max_known_rule :: "u8 \<Rightarrow> u8 \<Rightarrow> u8" where
  "max_known_rule layer old =
    (if layer = NO_INFORMATION then old
     else if old \<noteq> NO_INFORMATION \<and> old < layer then layer else old)"

definition true_overwrite_rule :: "u8 \<Rightarrow> u8 \<Rightarrow> u8" where
  "true_overwrite_rule layer old = layer"

definition overwrite_rule :: "u8 \<Rightarrow> u8 \<Rightarrow> u8" where
  "overwrite_rule layer old = (if layer \<noteq> NO_INFORMATION then layer else old)"

definition addition_rule :: "u8 \<Rightarrow> u8 \<Rightarrow> u8" where
  "addition_rule layer old =
    (if layer = NO_INFORMATION then old
     else if old = NO_INFORMATION then layer
     else (let total = int (unat old) + int (unat layer)
           in if total \<ge> 253 then INSCRIBED_INFLATED_OBSTACLE - 1 else word_of_int total))"

definition merge_cell :: "(u8 \<Rightarrow> u8 \<Rightarrow> u8) \<Rightarrow> u8 list \<Rightarrow> u32 \<Rightarrow> u8 list \<Rightarrow> u8 list option" where
  "merge_cell rule layer it master =
    (if unat it < length layer \<and> unat it < length master
     then Some (master[unat it := rule (layer ! unat it) (master ! unat it)]) else None)"

text \<open>One row: \<open>it\<close> starts at \<open>j * span + min_i\<close> and is incremented for every cell of the row.\<close>

definition merge_row ::
  "(u8 \<Rightarrow> u8 \<Rightarrow> u8) \<Rightarrow> u8 list \<Rightarrow> u32 \<Rightarrow> int \<Rightarrow> int \<Rightarrow> int \<Rightarrow> u8 list \<Rightarrow> u8 list option" where
  "merge_row rule layer stride min_i max_i j master =
    (let it = word_of_int j * stride + word_of_int min_i
     in visit_cells (\<lambda>k. merge_cell rule layer (it + of_nat k)) [0..<nat (max_i - min_i)] master)"

definition merge_window ::
  "(u8 \<Rightarrow> u8 \<Rightarrow> u8) \<Rightarrow> costmap2d \<Rightarrow> int \<Rightarrow> int \<Rightarrow> int \<Rightarrow> int \<Rightarrow> costmap2d \<Rightarrow> costmap2d option" where
  "merge_window rule layer min_i min_j max_i max_j master =
    (if max_j \<le> min_j \<or> max_i \<le> min_i then Some master
     else do { lc \<leftarrow> costmap layer; mc \<leftarrow> costmap master;
               mc' \<leftarrow> visit_cells (merge_row rule lc (size_x master) min_i max_i) [min_j..max_j - 1] mc;
               Some (master\<lparr>costmap := Some mc'\<rparr>) })"

definition updateWithMax ::
  "costmap_layer \<Rightarrow> int \<Rightarrow> int \<Rightarrow> int \<Rightarrow> int \<Rightarrow> costmap2d \<Rightarrow> costmap2d option" where
  "updateWithMax l min_i min_j max_i max_j master =
    (if \<not> enabled l then Some master
     else merge_window max_rule (own l) min_i min_j max_i max_j master)"

definition updateWithMaxWithoutUnknownOverwrite ::
  "costmap_layer \<Rightarrow> int \<Rightarrow> int \<Rightarrow> int \<Rightarrow> int \<Rightarrow> costmap2d \<Rightarrow> costmap2d option" where
  "updateWithMaxWithoutUnknownOverwrite l min_i min_j max_i max_j master =
    (if \<not> enabled l then Some master
     else merge_window max_known_rule (own l) min_i min_j max_i max_j master)"

text \<open>\<open>updateWithTrueOverwrite\<close> throws when the layer has no cells: \<open>Inl\<close>.\<close>

datatype layer_error = NotInitialized

definition updateWithTrueOverwrite ::
  "costmap_layer \<Rightarrow> int \<Rightarrow> int \<Rightarrow> int \<Rightarrow> int \<Rightarrow> costmap2d \<Rightarrow> (layer_error + costmap2d) option" where
  "updateWithTrueOverwrite l min_i min_j max_i max_j master =
    (if \<not> enabled l then Some (Inr master)
     else if costmap (own l) = None then Some (Inl NotInitialized)
     else map_option Inr (merge_window true_overwrite_rule (own l) min_i min_j max_i max_j master))"

definition updateWithOverwrite ::
  "costmap_layer \<Rightarrow> int \<Rightarrow> int \<Rightarrow> int \<Rightarrow> int \<Rightarrow> costmap2d \<Rightarrow> costmap2d option" where
  "updateWithOverwrite l min_i min_j max_i max_j master =
    (if \<not> enabled l then Some master
     else merge_window overwrite_rule (own l) min_i min_j max_i max_j master)"

definition updateWithAddition ::
  "costmap_layer \<Rightarrow> int \<Rightarrow> int \<Rightarrow> int \<Rightarrow> int \<Rightarrow> costmap2d \<Rightarrow> costmap2d option" where
  "updateWithAddition l min_i min_j max_i max_j master =
    (if \<not> enabled l then Some master
     else merge_window addition_rule (own l) min_i min_j max_i max_j master)"

datatype CombinationMethod = Overwrite | Max | MaxWithoutUnknownOverwrite

definition combination_method_from_int :: "int \<Rightarrow> CombinationMethod" where
  "combination_method_from_int v =
    (if v = 0 then Overwrite else if v = 1 then Max
     else if v = 2 then MaxWithoutUnknownOverwrite else Max)"

section \<open>Visiting cells\<close>

lemma visit_cells_append [simp]:
  "visit_cells f (xs @ ys) g = Option.bind (visit_cells f xs g) (visit_cells f ys)"
  by (induction xs arbitrary: g) (auto split: Option.bind_splits)

lemma visit_cells_map [simp]: "visit_cells f (map h xs) g = visit_cells (\<lambda>x. f (h x)) xs g"
  by (induction xs arbitrary: g) (auto split: Option.bind_splits)

lemma visit_nested:
  "visit_cells (\<lambda>j. visit_cells (f j) ks) js g =
    visit_cells (\<lambda>(j, k). f j k) (concat (map (\<lambda>j. map (Pair j) ks) js)) g"
  by (induction js arbitrary: g) (auto split: Option.bind_splits)

text \<open>
  When every visit rewrites one element, no two visits the same one, the result is the
  elementwise rewriting.
\<close>

lemma visit_updates:
  assumes "distinct cs" "inj_on idx (set cs)"
    and "\<And>c. c \<in> set cs \<Longrightarrow> idx c < length g"
    and "\<And>c g'. c \<in> set cs \<Longrightarrow> length g' = length g \<Longrightarrow> f c g' = Some (g'[idx c := v c (g' ! idx c)])"
  shows "\<exists>g'. visit_cells f cs g = Some g' \<and> length g' = length g \<and>
    (\<forall>c \<in> set cs. g' ! idx c = v c (g ! idx c)) \<and>
    (\<forall>k < length g. k \<notin> idx ` set cs \<longrightarrow> g' ! k = g ! k)"
  using assms
proof (induction cs arbitrary: g)
  case (Cons c cs)
  let ?g = "g[idx c := v c (g ! idx c)]"
  have f: "f c g = Some ?g" using Cons.prems(4) by simp
  have notin: "idx c \<notin> idx ` set cs" using Cons.prems(1,2) by (auto simp: inj_on_def)
  have "\<exists>g'. visit_cells f cs ?g = Some g' \<and> length g' = length ?g \<and>
    (\<forall>c \<in> set cs. g' ! idx c = v c (?g ! idx c)) \<and>
    (\<forall>k < length ?g. k \<notin> idx ` set cs \<longrightarrow> g' ! k = ?g ! k)"
    using Cons.prems by (intro Cons.IH) auto
  then obtain g' where g': "visit_cells f cs ?g = Some g'" "length g' = length g"
    "\<forall>c \<in> set cs. g' ! idx c = v c (?g ! idx c)"
    "\<forall>k < length g. k \<notin> idx ` set cs \<longrightarrow> g' ! k = ?g ! k" by auto
  have "g' ! idx d = v d (g ! idx d)" if "d \<in> set (c # cs)" for d
  proof (cases "d = c")
    case True
    then show ?thesis using g'(4) notin Cons.prems(3) by simp
  next
    case False
    then have "d \<in> set cs" using that by simp
    moreover have "idx d \<noteq> idx c" using notin \<open>d \<in> set cs\<close> by (metis imageI)
    ultimately show ?thesis using g'(3) by simp
  qed
  moreover have "g' ! k = g ! k" if "k < length g" "k \<notin> idx ` set (c # cs)" for k
    using g'(4) that by auto
  ultimately show ?case using f g'(1,2) by auto
qed simp

section \<open>The window\<close>

lemma merge_window_cells:
  assumes "map_ok layer" "map_ok master" "size_x layer = size_x master" "size_y layer = size_y master"
    and "0 \<le> min_i" "max_i \<le> int (unat (size_x master))"
    and "0 \<le> min_j" "max_j \<le> int (unat (size_y master))"
  shows "\<exists>m'. merge_window rule layer min_i min_j max_i max_j master = Some m' \<and> map_ok m' \<and>
    same_frame master m' \<and>
    (\<forall>x < unat (size_x master). \<forall>y < unat (size_y master). cell m' x y =
      (if min_i \<le> int x \<and> int x < max_i \<and> min_j \<le> int y \<and> int y < max_j
       then rule (cell layer x y) (cell master x y) else cell master x y))"
proof (cases "max_j \<le> min_j \<or> max_i \<le> min_i")
  case True
  then show ?thesis using assms(2)
    by (intro exI [of _ master]) (auto simp: merge_window_def same_frame_def intro: exI [of _ "costmap master"])
next
  case False
  define W where "W = unat (size_x master)"
  define H where "H = unat (size_y master)"
  define a where "a = nat min_i"
  define n where "n = nat (max_i - min_i)"
  have wid: "a + n \<le> W" "int a = min_i" "max_i = int (a + n)"
    unfolding a_def n_def using False assms(5) assms(6) [folded W_def] by linarith+
  obtain lc where lc: "costmap layer = Some lc" "length lc = W * H"
    using map_okE [OF assms(1)] assms(3,4) unfolding W_def H_def by metis
  obtain mc where mc: "costmap master = Some mc" "length mc = W * H" "W * H < 2 ^ 32"
    using map_okE [OF assms(2)] unfolding W_def H_def by metis
  define idx where "idx = (\<lambda>(j, k). nat j * W + (a + k))"
  define cs where "cs = concat (map (\<lambda>j. map (Pair j) [0..<n]) [min_j..max_j - 1])"
  have cs_iff: "(j, k) \<in> set cs \<longleftrightarrow> min_j \<le> j \<and> j < max_j \<and> k < n" for j k
    by (force simp: cs_def)
  have in_row: "nat j < H" "a + k < W" if "(j, k) \<in> set cs" for j k
    using that wid(1) assms(7) assms(8) [folded H_def] by (auto simp: cs_iff)
  have less: "idx c < W * H" if "c \<in> set cs" for c
  proof -
    obtain j k where c: "c = (j, k)" by (cases c)
    show ?thesis using row_index_less [OF in_row(2,1)] that unfolding c idx_def by simp
  qed
  have inj: "inj_on idx (set cs)"
  proof (rule inj_onI)
    fix c d assume c: "c \<in> set cs" "d \<in> set cs" "idx c = idx d"
    obtain j k j' k' where cd: "c = (j, k)" "d = (j', k')" by (cases c, cases d)
    have "nat j = nat j' \<and> a + k = a + k'"
      using c row_index_eq [OF in_row(2) in_row(2), of j k j' k' "nat j" "nat j'"] unfolding cd idx_def by simp
    moreover have "0 \<le> j" "0 \<le> j'" using c assms(7) unfolding cd by (auto simp: cs_iff)
    ultimately show "c = d" unfolding cd by auto
  qed
  have word: "unat (word_of_int j * size_x master + word_of_int min_i + of_nat k) = idx (j, k)"
    if "(j, k) \<in> set cs" for j k
  proof -
    have jk: "0 \<le> j" "j < int H" using that assms(7) assms(8) [folded H_def] by (auto simp: cs_iff)
    have lt: "nat j * W + (a + k) < 2 ^ 32" using less [OF that] mc(3) by (simp add: idx_def)
    have "word_of_int j * size_x master + word_of_int min_i + of_nat k =
        (of_nat (nat j * W + (a + k)) :: u32)"
      using jk wid(2) by (simp add: W_def flip: wid(2))
    moreover have "unat (of_nat (nat j * W + (a + k)) :: u32) = nat j * W + (a + k)"
      using lt by (simp only: unat_of_nat) simp
    ultimately show ?thesis by (simp only: idx_def prod.case)
  qed
  have "n > 0" using False by (simp add: n_def)
  then have dist: "distinct cs" unfolding cs_def
    by (intro distinct_concat) (auto simp: distinct_map inj_on_def)
  have step: "(\<lambda>(j, k). merge_cell rule lc (word_of_int j * size_x master + word_of_int min_i + of_nat k)) c g
      = Some (g[idx c := rule (lc ! idx c) (g ! idx c)])" if "c \<in> set cs" "length g = length mc" for c g
  proof -
    obtain j k where c: "c = (j, k)" by (rule prod.exhaust)
    have "idx (j, k) < length lc" "idx (j, k) < length g" using that less [of c] lc(2) mc(2) c by auto
    then show ?thesis using word [of j k] that(1) by (simp add: c merge_cell_def)
  qed
  have "\<exists>g'. visit_cells (\<lambda>(j, k). merge_cell rule lc (word_of_int j * size_x master + word_of_int min_i + of_nat k)) cs mc
      = Some g' \<and> length g' = length mc \<and>
    (\<forall>c \<in> set cs. g' ! idx c = rule (lc ! idx c) (mc ! idx c)) \<and>
    (\<forall>k < length mc. k \<notin> idx ` set cs \<longrightarrow> g' ! k = mc ! k)"
    by (rule visit_updates [OF dist inj]) (use less mc(2) step in auto)
  then obtain g' where g': "visit_cells (\<lambda>(j, k). merge_cell rule lc (word_of_int j * size_x master + word_of_int min_i + of_nat k)) cs mc
      = Some g'" "length g' = length mc"
    "\<And>c. c \<in> set cs \<Longrightarrow> g' ! idx c = rule (lc ! idx c) (mc ! idx c)"
    "\<And>k. k < length mc \<Longrightarrow> k \<notin> idx ` set cs \<Longrightarrow> g' ! k = mc ! k" by blast
  let ?m = "master\<lparr>costmap := Some g'\<rparr>"
  have "merge_window rule layer min_i min_j max_i max_j master = Some ?m"
  proof -
    have row: "merge_row rule lc (size_x master) min_i max_i = (\<lambda>j. visit_cells
        (\<lambda>k. merge_cell rule lc (word_of_int j * size_x master + word_of_int min_i + of_nat k)) [0..<n])"
      by (simp add: fun_eq_iff merge_row_def n_def)
    show ?thesis using False lc(1) mc(1) g'(1)
      by (simp add: merge_window_def row visit_nested cs_def [symmetric])
  qed
  moreover have "map_ok ?m" using mc g'(2) by (simp add: map_ok_def W_def H_def)
  moreover have "same_frame master ?m" by (auto simp: same_frame_def)
  moreover have "cell ?m x y = (if min_i \<le> int x \<and> int x < max_i \<and> min_j \<le> int y \<and> int y < max_j
       then rule (cell layer x y) (cell master x y) else cell master x y)" if xy: "x < W" "y < H" for x y
  proof -
    have eqs: "cell ?m x y = g' ! (y * W + x)" "cell layer x y = lc ! (y * W + x)"
      "cell master x y = mc ! (y * W + x)" using lc(1) mc(1) assms(3) by (simp_all add: cell_def W_def)
    show ?thesis
    proof (cases "min_i \<le> int x \<and> int x < max_i \<and> min_j \<le> int y \<and> int y < max_j")
      case True
      then have "(int y, x - a) \<in> set cs" "idx (int y, x - a) = y * W + x"
        using wid by (auto simp: cs_iff idx_def)
      then show ?thesis using g'(3) True eqs by metis
    next
      case False
      have "y * W + x \<notin> idx ` set cs"
      proof
        assume "y * W + x \<in> idx ` set cs"
        then obtain j k where jk: "(j, k) \<in> set cs" "y * W + x = nat j * W + (a + k)"
          by (auto simp: idx_def)
        have "y = nat j \<and> x = a + k"
          using jk(2) row_index_eq [OF xy(1) in_row(2) [OF jk(1)]] by simp
        then show False using False jk(1) wid assms(7) by (auto simp: cs_iff)
      qed
      then have "g' ! (y * W + x) = mc ! (y * W + x)"
        using g'(4) row_index_less [OF xy] mc(2) by simp
      then show ?thesis using False eqs by (simp only: if_False)
    qed
  qed
  ultimately show ?thesis unfolding W_def H_def by blast
qed

section \<open>Contracts of the cell rules\<close>

text \<open>
  A rule that leaves the master alone where the layer knows nothing, and that changes nothing
  when the same layer is merged again; and a rule for which the order of two layers does not
  matter.
\<close>

locale layer_rule =
  fixes rule :: "u8 \<Rightarrow> u8 \<Rightarrow> u8"
  assumes unknown_keeps: "rule NO_INFORMATION old = old"
    and again: "rule layer (rule layer old) = rule layer old"
begin

lemma merge_again:
  assumes "map_ok layer" "map_ok master" "size_x layer = size_x master" "size_y layer = size_y master"
    and "0 \<le> min_i" "max_i \<le> int (unat (size_x master))"
    and "0 \<le> min_j" "max_j \<le> int (unat (size_y master))"
    and "merge_window rule layer min_i min_j max_i max_j master = Some m1"
    and "x < unat (size_x master)" "y < unat (size_y master)"
  shows "\<exists>m2. merge_window rule layer min_i min_j max_i max_j m1 = Some m2 \<and> cell m2 x y = cell m1 x y"
proof -
  from merge_window_cells [OF assms(1-8), of rule] assms(9) have m1: "map_ok m1" "same_frame master m1"
    and c1: "cell m1 x y = (if min_i \<le> int x \<and> int x < max_i \<and> min_j \<le> int y \<and> int y < max_j
       then rule (cell layer x y) (cell master x y) else cell master x y)"
    using assms(10,11) by auto
  note f = same_frame_fields(1,2) [OF m1(2)]
  from merge_window_cells [of layer m1 min_i max_i min_j max_j rule] assms(1-8,10,11) m1(1) f
  obtain m2 where "merge_window rule layer min_i min_j max_i max_j m1 = Some m2"
    "cell m2 x y = (if min_i \<le> int x \<and> int x < max_i \<and> min_j \<le> int y \<and> int y < max_j
       then rule (cell layer x y) (cell m1 x y) else cell m1 x y)" by auto
  then show ?thesis using c1 again by auto
qed

lemma unknown_layer_keeps:
  assumes "map_ok layer" "map_ok master" "size_x layer = size_x master" "size_y layer = size_y master"
    and "0 \<le> min_i" "max_i \<le> int (unat (size_x master))"
    and "0 \<le> min_j" "max_j \<le> int (unat (size_y master))"
    and "x < unat (size_x master)" "y < unat (size_y master)" "cell layer x y = NO_INFORMATION"
  shows "\<exists>m'. merge_window rule layer min_i min_j max_i max_j master = Some m' \<and> cell m' x y = cell master x y"
  using merge_window_cells [OF assms(1-8), of rule] assms(9-11) unknown_keeps by auto

end

locale commuting_rule = layer_rule +
  assumes commute: "rule a (rule b old) = rule b (rule a old)"
begin

lemma merge_commutes:
  assumes "map_ok l1" "map_ok l2" "map_ok master"
    and "size_x l1 = size_x master" "size_y l1 = size_y master"
    and "size_x l2 = size_x master" "size_y l2 = size_y master"
    and "0 \<le> min_i" "max_i \<le> int (unat (size_x master))"
    and "0 \<le> min_j" "max_j \<le> int (unat (size_y master))"
  shows "\<exists>m12 m21.
    Option.bind (merge_window rule l1 min_i min_j max_i max_j master) (merge_window rule l2 min_i min_j max_i max_j)
      = Some m12 \<and>
    Option.bind (merge_window rule l2 min_i min_j max_i max_j master) (merge_window rule l1 min_i min_j max_i max_j)
      = Some m21 \<and>
    (\<forall>x < unat (size_x master). \<forall>y < unat (size_y master). cell m12 x y = cell m21 x y)"
proof -
  let ?in = "\<lambda>x y. min_i \<le> int x \<and> int x < max_i \<and> min_j \<le> int y \<and> int y < max_j"
  have two: "\<exists>m'. Option.bind (merge_window rule k1 min_i min_j max_i max_j master)
      (merge_window rule k2 min_i min_j max_i max_j) = Some m' \<and>
    (\<forall>x < unat (size_x master). \<forall>y < unat (size_y master). cell m' x y =
      (if ?in x y then rule (cell k2 x y) (rule (cell k1 x y) (cell master x y)) else cell master x y))"
    if k: "map_ok k1" "map_ok k2" "size_x k1 = size_x master" "size_y k1 = size_y master"
      "size_x k2 = size_x master" "size_y k2 = size_y master" for k1 k2
  proof -
    from merge_window_cells [OF k(1) assms(3) k(3,4) assms(8-11), of rule] obtain m1 where
      m1: "merge_window rule k1 min_i min_j max_i max_j master = Some m1" "map_ok m1" "same_frame master m1"
      "\<And>x y. x < unat (size_x master) \<Longrightarrow> y < unat (size_y master) \<Longrightarrow> cell m1 x y =
        (if ?in x y then rule (cell k1 x y) (cell master x y) else cell master x y)" by blast
    note f = same_frame_fields(1,2) [OF m1(3)]
    from merge_window_cells [of k2 m1 min_i max_i min_j max_j rule] k assms(8-11) m1(2) f obtain m2 where
      "merge_window rule k2 min_i min_j max_i max_j m1 = Some m2"
      "\<And>x y. x < unat (size_x master) \<Longrightarrow> y < unat (size_y master) \<Longrightarrow> cell m2 x y =
        (if ?in x y then rule (cell k2 x y) (cell m1 x y) else cell m1 x y)" by auto
    then show ?thesis using m1(1,4) by auto
  qed
  from two [OF assms(1,2,4-7)] two [OF assms(2,1,6,7,4,5)] show ?thesis
    using commute by fastforce
qed

end

interpretation max_r: commuting_rule max_rule
  by unfold_locales (auto simp: max_rule_def)

interpretation max_known_r: commuting_rule max_known_rule
  by unfold_locales (auto simp: max_known_rule_def)

interpretation overwrite_r: layer_rule overwrite_rule
  by unfold_locales (auto simp: overwrite_rule_def)

section \<open>Properties\<close>

text \<open>
  An enabled layer that matches the master grid merges exactly the cells of
  the window. \<open>updateWithMax\<close> keeps the larger known cost and overwrites unknown cells,
  \<open>updateWithMaxWithoutUnknownOverwrite\<close> leaves unknown master cells unknown, and
  \<open>updateWithOverwrite\<close> copies every known cost; a disabled layer changes nothing.
\<close>

theorem updateWith_cells:
  assumes "map_ok (own l)" "map_ok master"
    and "size_x (own l) = size_x master" "size_y (own l) = size_y master"
    and "0 \<le> min_i" "max_i \<le> int (unat (size_x master))"
    and "0 \<le> min_j" "max_j \<le> int (unat (size_y master))"
    and "f \<in> {(updateWithMax, \<lambda>c old. if c = NO_INFORMATION then old
                 else if old = NO_INFORMATION then c else max c old),
              (updateWithMaxWithoutUnknownOverwrite, \<lambda>c old.
                 if c = NO_INFORMATION \<or> old = NO_INFORMATION then old else max c old),
              (updateWithOverwrite, \<lambda>c old. if c = NO_INFORMATION then old else c)}"
  shows "\<exists>m'. fst f l min_i min_j max_i max_j master = Some m' \<and> map_ok m' \<and> same_frame master m' \<and>
    (\<forall>x < unat (size_x master). \<forall>y < unat (size_y master). cell m' x y =
      (if enabled l \<and> min_i \<le> int x \<and> int x < max_i \<and> min_j \<le> int y \<and> int y < max_j
       then snd f (cell (own l) x y) (cell master x y) else cell master x y))"
proof -
  have spec: "snd f \<in> {max_rule, max_known_rule, overwrite_rule} \<and>
    fst f l min_i min_j max_i max_j master =
      (if \<not> enabled l then Some master else merge_window (snd f) (own l) min_i min_j max_i max_j master)"
  proof -
    have "max_rule = (\<lambda>c old. if c = NO_INFORMATION then old
                 else if old = NO_INFORMATION then c else max c old)"
      "max_known_rule = (\<lambda>c old. if c = NO_INFORMATION \<or> old = NO_INFORMATION then old else max c old)"
      "overwrite_rule = (\<lambda>c old. if c = NO_INFORMATION then old else c)"
      by (auto simp: fun_eq_iff max_rule_def max_known_rule_def overwrite_rule_def max_def)
    then show ?thesis
      using assms(9) by (auto simp: updateWithMax_def updateWithMaxWithoutUnknownOverwrite_def
          updateWithOverwrite_def)
  qed
  show ?thesis
  proof (cases "enabled l")
    case True
    then show ?thesis using merge_window_cells [OF assms(1-8), of "snd f"] spec by simp
  next
    case False
    then show ?thesis using spec assms(2)
      by (intro exI [of _ master]) (auto simp: same_frame_def intro: exI [of _ "costmap master"])
  qed
qed

definition layer_map :: costmap2d where
  "layer_map = small_map\<lparr>costmap := Some [5, 255, 99, 0, 254, 1]\<rparr>"

definition small_layer :: costmap_layer where
  "small_layer = (new_layer layer_map)\<lparr>enabled := True\<rparr>"

lemma small_layer_ok: "map_ok (own small_layer)" "size_x (own small_layer) = size_x small_map"
  "size_y (own small_layer) = size_y small_map" "enabled small_layer"
  by (simp_all add: small_layer_def new_layer_def layer_map_def map_ok_def small_map_def)

lemma small_window: "0 \<le> (0::int)" "3 \<le> int (unat (size_x small_map))" "2 \<le> int (unat (size_y small_map))"
  by (simp_all add: small_map_def)

theorem updateWith_cells_witness:
  "\<exists>m'. updateWithMax small_layer 0 0 3 2 small_map = Some m' \<and> cell m' 2 0 = 99 \<and> cell m' 1 0 = 20"
proof -
  have f: "(updateWithMax, \<lambda>c old. if c = NO_INFORMATION then old else if old = NO_INFORMATION then c else max c old)
     \<in> {(updateWithMax, \<lambda>c old. if c = NO_INFORMATION then old
                 else if old = NO_INFORMATION then c else max c old),
              (updateWithMaxWithoutUnknownOverwrite, \<lambda>c old.
                 if c = NO_INFORMATION \<or> old = NO_INFORMATION then old else max c old),
              (updateWithOverwrite, \<lambda>c old. if c = NO_INFORMATION then old else c)}" by simp
  have s: "unat (size_x small_map) = 3" "unat (size_y small_map) = 2" by (simp_all add: small_map_def)
  have c: "cell small_map 2 0 = 30" "cell small_map 1 0 = 20" "cell (own small_layer) 2 0 = 99"
    "cell (own small_layer) 1 0 = NO_INFORMATION"
    by (simp_all add: cell_def small_map_def small_layer_def new_layer_def layer_map_def)
  from updateWith_cells [OF small_layer_ok(1) small_map_ok small_layer_ok(2,3) small_window(1,2,1,3) f] s
  obtain m' where "updateWithMax small_layer 0 0 3 2 small_map = Some m'"
    "\<And>x y. x < 3 \<Longrightarrow> y < 2 \<Longrightarrow> cell m' x y =
      (if enabled small_layer \<and> 0 \<le> int x \<and> int x < 3 \<and> 0 \<le> int y \<and> int y < 2
       then if cell (own small_layer) x y = NO_INFORMATION then cell small_map x y
         else if cell small_map x y = NO_INFORMATION then cell (own small_layer) x y
         else max (cell (own small_layer) x y) (cell small_map x y) else cell small_map x y)" by auto
  then show ?thesis using c small_layer_ok(4) by (auto simp: max_def)
qed



text \<open>
  \<open>updateWithAddition\<close> adds known costs and caps the sum at
  INSCRIBED_INFLATED_OBSTACLE - 1 = MAX_NON_OBSTACLE. The cap applies to the master's own obstacles too: a
  LETHAL_OBSTACLE cell becomes MAX_NON_OBSTACLE as soon as the layer knows the cell, even as free.
\<close>

theorem updateWithAddition_caps_and_demotes_obstacles:
  assumes "map_ok (own l)" "map_ok master" "enabled l"
    and "size_x (own l) = size_x master" "size_y (own l) = size_y master"
    and "0 \<le> min_i" "max_i \<le> int (unat (size_x master))"
    and "0 \<le> min_j" "max_j \<le> int (unat (size_y master))"
    and "x < unat (size_x master)" "y < unat (size_y master)"
    and "min_i \<le> int x" "int x < max_i" "min_j \<le> int y" "int y < max_j"
    and "cell (own l) x y \<noteq> NO_INFORMATION" "cell master x y \<noteq> NO_INFORMATION"
  shows "\<exists>m'. updateWithAddition l min_i min_j max_i max_j master = Some m' \<and>
    unat (cell m' x y) = min 252 (unat (cell master x y) + unat (cell (own l) x y)) \<and>
    (cell master x y = LETHAL_OBSTACLE \<longrightarrow> cell m' x y = MAX_NON_OBSTACLE)"
proof -
  have rule: "unat (addition_rule c old) = min 252 (unat old + unat c)"
    if "c \<noteq> NO_INFORMATION" "old \<noteq> NO_INFORMATION" for c old
  proof (cases "unat old + unat c \<ge> 253")
    case True
    then have "int (unat old) + int (unat c) \<ge> 253" by linarith
    then have "addition_rule c old = 252" using that by (simp add: addition_rule_def Let_def del: of_nat_unat)
    then show ?thesis using True by simp
  next
    case False
    then have "\<not> int (unat old) + int (unat c) \<ge> 253" by linarith
    then have "addition_rule c old = word_of_int (int (unat old) + int (unat c))"
      using that by (simp add: addition_rule_def Let_def del: of_nat_unat)
    also have "\<dots> = of_nat (unat old + unat c)" by simp
    finally show ?thesis using False by (simp add: unat_of_nat del: of_nat_unat of_nat_add)
  qed
  have "w = MAX_NON_OBSTACLE" if "unat w = 252" for w :: u8
    using that by (simp add: word_unat_eq_iff)
  then show ?thesis
    using merge_window_cells [OF assms(1,2,4-9), of addition_rule] rule [OF assms(16,17)] assms(3,10-17)
    by (auto simp: updateWithAddition_def)
qed

theorem updateWithAddition_caps_and_demotes_obstacles_witness:
  "\<exists>m'. updateWithAddition small_layer 0 0 3 2 (small_map\<lparr>costmap := Some [254, 20, 30, 40, 50, 60]\<rparr>) = Some m' \<and>
     cell m' 0 0 = MAX_NON_OBSTACLE"
proof -
  let ?m = "small_map\<lparr>costmap := Some [254, 20, 30, 40, 50, 60]\<rparr>"
  have m: "map_ok ?m" "size_x (own small_layer) = size_x ?m" "size_y (own small_layer) = size_y ?m"
    "3 \<le> int (unat (size_x ?m))" "2 \<le> int (unat (size_y ?m))"
    by (simp_all add: map_ok_def small_map_def small_layer_ok)
  have c: "cell ?m 0 0 = LETHAL_OBSTACLE" "cell (own small_layer) 0 0 = 5"
    by (simp_all add: cell_def small_map_def small_layer_def new_layer_def layer_map_def)
  show ?thesis
    using updateWithAddition_caps_and_demotes_obstacles [OF small_layer_ok(1) m(1) small_layer_ok(4) m(2,3)
        small_window(1) m(4) small_window(1) m(5), of 0 0] c
    by (auto simp: small_map_def)
qed

lemma columns_iff: "(x, y) \<in> set (columns w h) \<longleftrightarrow> x < w \<and> y < h"
  by (force simp: columns_def)

lemma columns_distinct: "distinct (columns w h)"
proof (cases "h = 0")
  case True
  have "columns w 0 = []" by (auto simp: columns_def)
  then show ?thesis using True by simp
next
  case False
  then show ?thesis unfolding columns_def
    by (intro distinct_concat) (auto simp: distinct_map inj_on_def)
qed

text \<open>
  \<open>clearArea\<close> sets to NO_INFORMATION exactly the cells strictly between the
  clamped corners, or with \<open>invert\<close> exactly the other cells, changes no other cell, and marks the
  layer as not current.
\<close>

theorem clearArea_cells:
  assumes "map_ok (own l)" "unat (size_x (own l)) < 2 ^ 31" "unat (size_y (own l)) < 2 ^ 31"
    and "W = int (unat (size_x (own l)))" "H = int (unat (size_y (own l)))"
  shows "\<exists>l'. clearArea sx sy ex ey invert l = Some l' \<and> \<not> current l' \<and> map_ok (own l') \<and>
    same_frame (own l) (own l') \<and>
    (\<forall>x < unat (size_x (own l)). \<forall>y < unat (size_y (own l)). cell (own l') x y =
       (if (clamp_cell sx W < int x \<and> int x < clamp_cell ex W \<and>
            clamp_cell sy H < int y \<and> int y < clamp_cell ey H) \<noteq> invert
        then NO_INFORMATION else cell (own l) x y))"
proof -
  let ?m = "own l"
  define w where "w = unat (size_x ?m)"
  define h where "h = unat (size_y ?m)"
  have sint: "sint (size_x ?m) = int w" "sint (size_y ?m) = int h" "W = int w" "H = int h"
    using assms(2-5) by (simp_all add: sint_small w_def h_def)
  obtain cells where c: "costmap ?m = Some cells" "length cells = w * h" "w * h < 2 ^ 32"
    using map_okE [OF assms(1)] unfolding w_def h_def by blast
  let ?area = "in_area (clamp_cell sx W) (clamp_cell sy H) (clamp_cell ex W) (clamp_cell ey H)"
  define idx where "idx = (\<lambda>(x, y). y * w + (x::nat))"
  define v where "v = (\<lambda>(x, y) old. if ?area (int x) (int y) = invert then old else NO_INFORMATION)"
  have less: "idx (x, y) < w * h" if "x < w" "y < h" for x y
    using row_index_less [OF that] by (simp add: idx_def)
  have word: "unat (getIndex ?m (of_nat x) (of_nat y)) = idx (x, y)" if "x < w" "y < h" for x y
  proof -
    have "getIndex ?m (of_nat x) (of_nat y) = of_nat (y * w + x)" by (simp add: getIndex_def w_def)
    moreover have "unat (of_nat (y * w + x) :: u32) = y * w + x"
      using less [OF that] c(3) by (simp only: unat_of_nat idx_def prod.case) simp
    ultimately show ?thesis by (simp only: idx_def prod.case)
  qed
  have inj: "inj_on idx (set (columns w h))"
  proof (rule inj_onI)
    fix a b assume ab: "a \<in> set (columns w h)" "b \<in> set (columns w h)" "idx a = idx b"
    obtain x y x' y' where e: "a = (x, y)" "b = (x', y')" by (meson prod.exhaust)
    show "a = b" using ab row_index_eq [of x w x' y y'] unfolding e by (auto simp: columns_iff idx_def)
  qed
  have step: "clear_cell ?m ?area invert a g = Some (g[idx a := v a (g ! idx a)])"
    if "a \<in> set (columns w h)" "length g = length cells" for a g
  proof -
    obtain x y where e: "a = (x, y)" by (rule prod.exhaust)
    then have xy: "x < w" "y < h" using that by (auto simp: columns_iff)
    have "g = g[idx a := NO_INFORMATION]" if "g ! idx a = NO_INFORMATION"
      using that by (metis list_update_id)
    then show ?thesis using word [OF xy] less [OF xy] that(2) c(2) unfolding e
      by (auto simp: clear_cell_def v_def Let_def)
  qed
  have "\<exists>g'. visit_cells (clear_cell ?m ?area invert) (columns w h) cells = Some g' \<and>
    length g' = length cells \<and> (\<forall>a \<in> set (columns w h). g' ! idx a = v a (cells ! idx a)) \<and>
    (\<forall>k < length cells. k \<notin> idx ` set (columns w h) \<longrightarrow> g' ! k = cells ! k)"
    by (rule visit_updates [OF columns_distinct inj]) (use less c(2) step in \<open>auto simp: columns_iff\<close>)
  then obtain g' where g': "visit_cells (clear_cell ?m ?area invert) (columns w h) cells = Some g'"
    "length g' = length cells" "\<And>a. a \<in> set (columns w h) \<Longrightarrow> g' ! idx a = v a (cells ! idx a)" by blast
  let ?l = "l\<lparr>current := False, own := ?m\<lparr>costmap := Some g'\<rparr>\<rparr>"
  have "clearArea sx sy ex ey invert l = Some ?l"
    using g'(1) c(1) by (simp add: clearArea_def Let_def sint)
  moreover have "map_ok (own ?l)" using c g'(2) by (simp add: map_ok_def w_def h_def)
  moreover have "same_frame ?m (own ?l)" by (auto simp: same_frame_def)
  moreover have "cell (own ?l) x y = (if ?area (int x) (int y) \<noteq> invert then NO_INFORMATION else cell ?m x y)"
    if "x < w" "y < h" for x y
    using g'(3) [of "(x, y)"] that c(1) by (simp add: columns_iff idx_def v_def cell_def w_def)
  ultimately show ?thesis unfolding w_def h_def in_area_def
    by (intro exI [of _ ?l]) auto
qed

theorem clearArea_cells_witness:
  "\<exists>l'. clearArea (-1) (-1) 1 2 False small_layer = Some l' \<and>
     cell (own l') 0 1 = cell (own small_layer) 0 1"
proof -
  have s: "unat (size_x (own small_layer)) = 3" "unat (size_y (own small_layer)) = 2"
    by (simp_all add: small_layer_def new_layer_def layer_map_def small_map_def)
  have h: "unat (size_x (own small_layer)) < 2 ^ 31" "unat (size_y (own small_layer)) < 2 ^ 31"
    "3 = int (unat (size_x (own small_layer)))" "2 = int (unat (size_y (own small_layer)))"
    by (simp_all add: s)
  from clearArea_cells [OF small_layer_ok(1) h, of "-1" "-1" 1 2 False] show ?thesis
    by (auto simp: s clamp_cell_def)
qed

end
