(* ===== verification/Costmap_Polygon.thy ===== *)
theory Costmap_Polygon
  imports Costmap_2D "HOL-Library.Multiset"
begin

text \<open>
  The polygon functions of Costmap2D and the 2D ray tracing they use
  (nav2_util/raytrace_line_2d.hpp). The action of a ray is to append the visited cell, so a ray is
  the list of offsets it visits. Conventions as in \<open>Costmap_2D\<close>: \<open>None\<close> has no defined outcome.
\<close>

section \<open>Ray tracing\<close>

definition ray_sign :: "int \<Rightarrow> int" where
  "ray_sign x = (if x > 0 then 1 else -1)"

text \<open>
  The first argument is the number of iterations left. \<open>error_b\<close> is an \<open>int\<close> that is updated and
  compared in unsigned arithmetic; the offsets are added modulo \<open>2^32\<close>.
\<close>

fun bresenham2D :: "nat \<Rightarrow> u32 \<Rightarrow> u32 \<Rightarrow> u32 \<Rightarrow> u32 \<Rightarrow> u32 \<Rightarrow> u32 \<Rightarrow> u32 list" where
  "bresenham2D 0 abs_da abs_db error_b offset_a offset_b offset = [offset]"
| "bresenham2D (Suc n) abs_da abs_db error_b offset_a offset_b offset =
    (let off1 = offset + offset_a; err = error_b + abs_db
     in offset #
        (if err \<ge> abs_da
         then bresenham2D n abs_da abs_db (err - abs_da) offset_a offset_b (off1 + offset_b)
         else bresenham2D n abs_da abs_db err offset_a offset_b off1))"

definition raytraceLine ::
  "u32 \<Rightarrow> u32 \<Rightarrow> u32 \<Rightarrow> u32 \<Rightarrow> u32 \<Rightarrow> u32 \<Rightarrow> u32 \<Rightarrow> u32 list option" where
  "raytraceLine x0 y0 x1 y1 step_x max_length min_length =
    (let dx_full = sint (x1 - x0); dy_full = sint (y1 - y0);
         dist = sqrt ((real_of_int dx_full)\<^sup>2 + (real_of_int dy_full)\<^sup>2);
         ml = real (unat min_length)
     in if dist < ml then Some []
        else do {
          min_x0 \<leftarrow> (if dist > 0 then cast_u32 (real (unat x0) + real_of_int dx_full / dist * ml) else Some x0);
          min_y0 \<leftarrow> (if dist > 0 then cast_u32 (real (unat y0) + real_of_int dy_full / dist * ml) else Some y0);
          let offset = min_y0 * step_x + min_x0;
          let dx = sint (x1 - min_x0); let dy = sint (y1 - min_y0);
          ax \<leftarrow> i32 \<bar>dx\<bar>; ay \<leftarrow> i32 \<bar>dy\<bar>;
          let abs_dx = (word_of_int ax :: u32); let abs_dy = (word_of_int ay :: u32);
          let offset_dx = (word_of_int (ray_sign dx) :: u32);
          let offset_dy = (word_of_int (ray_sign dy) * step_x :: u32);
          let scale = (if dist = 0 then 1 else min 1 (real (unat max_length) / dist));
          if abs_dx \<ge> abs_dy then do {
            len \<leftarrow> cast_u32 (scale * real (unat abs_dx));
            Some (bresenham2D (unat (min len abs_dx)) abs_dx abs_dy (abs_dx div 2) offset_dx offset_dy offset) }
          else do {
            len \<leftarrow> cast_u32 (scale * real (unat abs_dy));
            Some (bresenham2D (unat (min len abs_dy)) abs_dy abs_dx (abs_dy div 2) offset_dy offset_dx offset) } })"

section \<open>Outline and filling\<close>

text \<open>The functor \<open>PolygonOutlineCells\<close>.\<close>

definition outline_cell :: "costmap2d \<Rightarrow> u32 \<Rightarrow> MapLocation option" where
  "outline_cell m offset =
    do { xy \<leftarrow> indexToCells m offset;
         c \<leftarrow> getCost m (fst xy) (snd xy);
         Some \<lparr>loc_x = fst xy, loc_y = snd xy, loc_cost = c\<rparr> }"

definition outline_edge :: "costmap2d \<Rightarrow> MapLocation \<times> MapLocation \<Rightarrow> MapLocation list option" where
  "outline_edge m e =
    do { offsets \<leftarrow> raytraceLine (loc_x (fst e)) (loc_y (fst e)) (loc_x (snd e)) (loc_y (snd e))
                      (size_x m) (-1) 0;
         map_cells (outline_cell m) offsets }"

text \<open>
  With an empty polygon \<open>polygon.size() - 1\<close> wraps around and the loop leaves the vector.
\<close>

definition polygonOutlineCells ::
  "costmap2d \<Rightarrow> MapLocation list \<Rightarrow> MapLocation list \<Rightarrow> MapLocation list option" where
  "polygonOutlineCells m polygon cells =
    (if polygon = [] then None
     else do { new \<leftarrow> map_cells (outline_edge m)
                 (zip polygon (tl polygon) @ [(last polygon, hd polygon)]);
               Some (cells @ concat new) })"

text \<open>
  The sort of \<open>convexFillCells\<close> (the comment calls it a bubble sort): it steps back after a swap.
  Its measure counts the inversions.
\<close>

definition swap_at :: "nat \<Rightarrow> 'a list \<Rightarrow> 'a list" where
  "swap_at i xs = xs[i := xs ! Suc i, Suc i := xs ! i]"

definition inversions :: "('a \<Rightarrow> 'k::linorder) \<Rightarrow> 'a list \<Rightarrow> (nat \<times> nat) set" where
  "inversions key xs = {(p, q). p < q \<and> q < length xs \<and> key (xs ! q) < key (xs ! p)}"

lemma inversions_finite [simp]: "finite (inversions key xs)"
  by (rule finite_subset [of _ "{..<length xs} \<times> {..<length xs}"]) (auto simp: inversions_def)

lemma swap_at_length [simp]: "length (swap_at i xs) = length xs"
  by (simp add: swap_at_def)

lemma swap_at_nth:
  "Suc i < length xs \<Longrightarrow> k < length xs \<Longrightarrow>
    swap_at i xs ! k = xs ! (if k = i then Suc i else if k = Suc i then i else k)"
  by (auto simp: swap_at_def nth_list_update)

lemma inversions_swap:
  assumes "Suc i < length xs" "key (xs ! Suc i) < key (xs ! i)"
  shows "card (inversions key (swap_at i xs)) < card (inversions key xs)"
proof -
  define t where "t k = (if k = i then Suc i else if k = Suc i then i else k)" for k
  have tt: "t (t k) = k" for k by (auto simp: t_def)
  have inv: "(i, Suc i) \<in> inversions key xs" using assms by (simp add: inversions_def)
  have "inj_on (map_prod t t) (inversions key (swap_at i xs))"
    by (rule inj_on_inverseI [where g = "map_prod t t"]) (auto simp: tt)
  moreover have "map_prod t t ` inversions key (swap_at i xs) \<subseteq> inversions key xs - {(i, Suc i)}"
  proof
    fix r assume "r \<in> map_prod t t ` inversions key (swap_at i xs)"
    then obtain p q where r: "r = (t p, t q)" and pq: "p < q" "q < length xs"
      "key (swap_at i xs ! q) < key (swap_at i xs ! p)" by (auto simp: inversions_def)
    have k: "key (xs ! t q) < key (xs ! t p)"
      using pq assms(1) by (simp add: swap_at_nth t_def)
    have "\<not> (p = i \<and> q = Suc i)" using k assms(2) by (auto simp: t_def)
    then have "t p < t q" using pq(1) by (auto simp: t_def)
    moreover have "t q < length xs" using pq(2) assms(1) by (auto simp: t_def)
    moreover have "(t p, t q) \<noteq> (i, Suc i)" using pq(1) by (auto simp: t_def split: if_splits)
    ultimately show "r \<in> inversions key xs - {(i, Suc i)}" using k by (simp add: r inversions_def)
  qed
  ultimately have "card (inversions key (swap_at i xs)) \<le> card (inversions key xs - {(i, Suc i)})"
    by (metis card_image card_mono finite_Diff inversions_finite)
  also have "\<dots> < card (inversions key xs)"
    using inv by (intro card_Diff1_less) simp_all
  finally show ?thesis .
qed

function sort_by_x :: "nat \<Rightarrow> MapLocation list \<Rightarrow> MapLocation list" where
  "sort_by_x i cells =
    (if i < length cells - 1 then
       (if loc_x (cells ! i) > loc_x (cells ! (i + 1))
        then sort_by_x (if i > 0 then i - 1 else i) (swap_at i cells)
        else sort_by_x (i + 1) cells)
     else cells)"
  by pat_completeness auto
termination
proof (relation "measure (\<lambda>(i, cells). 2 * card (inversions loc_x cells) + (length cells - i))", goal_cases)
  case (2 i cells)
  then have "card (inversions loc_x (swap_at i cells)) < card (inversions loc_x cells)"
    by (intro inversions_swap) auto
  then show ?case using 2(1) by auto
qed auto

declare sort_by_x.simps [simp del]

text \<open>
  The lowest and highest cell of one column: the first two cells, then every further cell of
  the same column.
\<close>

function scan_column ::
  "u32 \<Rightarrow> nat \<Rightarrow> MapLocation \<Rightarrow> MapLocation \<Rightarrow> MapLocation list \<Rightarrow> nat \<times> MapLocation \<times> MapLocation" where
  "scan_column x i min_pt max_pt cells =
    (if i < length cells \<and> loc_x (cells ! i) = x then
       (if loc_y (cells ! i) < loc_y min_pt then scan_column x (i + 1) (cells ! i) max_pt cells
        else if loc_y (cells ! i) > loc_y max_pt then scan_column x (i + 1) min_pt (cells ! i) cells
        else scan_column x (i + 1) min_pt max_pt cells)
     else (i, min_pt, max_pt))"
  by pat_completeness auto
termination
  by (relation "measure (\<lambda>(x, i, a, b, cells). length cells - i)") auto

declare scan_column.simps [simp del]

definition column_cells :: "costmap2d \<Rightarrow> u32 \<Rightarrow> u32 \<Rightarrow> u32 \<Rightarrow> MapLocation list option" where
  "column_cells m x min_y max_y =
    map_cells (\<lambda>y. map_option (\<lambda>c. \<lparr>loc_x = x, loc_y = of_nat y, loc_cost = c\<rparr>) (getCost m x (of_nat y)))
      [unat min_y..<unat max_y + 1]"

fun fill_columns ::
  "costmap2d \<Rightarrow> nat list \<Rightarrow> nat \<Rightarrow> MapLocation list \<Rightarrow> MapLocation list option" where
  "fill_columns m [] i cells = Some cells"
| "fill_columns m (x # xs) i cells =
    (if i \<ge> length cells - 1 then Some cells
     else
       (let a = cells ! i; b = cells ! (i + 1);
            lo = (if loc_y a < loc_y b then a else b);
            hi = (if loc_y a < loc_y b then b else a);
            (i', min_pt, max_pt) = scan_column (of_nat x) (i + 2) lo hi cells
        in do { col \<leftarrow> column_cells m (of_nat x) (loc_y min_pt) (loc_y max_pt);
                fill_columns m xs i' (cells @ col) }))"

definition convexFillCells ::
  "costmap2d \<Rightarrow> MapLocation list \<Rightarrow> MapLocation list \<Rightarrow> MapLocation list option" where
  "convexFillCells m polygon cells =
    (if length polygon < 3 then Some cells
     else do {
       outline \<leftarrow> polygonOutlineCells m polygon cells;
       if outline = [] then None
       else (let sorted_cells = sort_by_x 0 outline
             in fill_columns m [unat (loc_x (hd sorted_cells))..<unat (loc_x (last sorted_cells)) + 1] 0
                  sorted_cells) })"

section \<open>Setting and restoring\<close>

fun setMapRegionOccupiedByPolygon :: "MapLocation list \<Rightarrow> u8 \<Rightarrow> costmap2d \<Rightarrow> costmap2d option" where
  "setMapRegionOccupiedByPolygon [] c m = Some m"
| "setMapRegionOccupiedByPolygon (l # ls) c m =
    do { m' \<leftarrow> setCost m (loc_x l) (loc_y l) c; setMapRegionOccupiedByPolygon ls c m' }"

fun restoreMapRegionOccupiedByPolygon :: "MapLocation list \<Rightarrow> costmap2d \<Rightarrow> costmap2d option" where
  "restoreMapRegionOccupiedByPolygon [] m = Some m"
| "restoreMapRegionOccupiedByPolygon (l # ls) m =
    do { m' \<leftarrow> setCost m (loc_x l) (loc_y l) (loc_cost l); restoreMapRegionOccupiedByPolygon ls m' }"

text \<open>
  The polygon in map coordinates; the inner \<open>None\<close> is the answer false. The cost field of a
  corner is not initialised (\<open>junk\<close>) and never read.
\<close>

fun polygon_to_map :: "costmap2d \<Rightarrow> u8 \<Rightarrow> (real \<times> real) list \<Rightarrow> MapLocation list option option" where
  "polygon_to_map m junk [] = Some (Some [])"
| "polygon_to_map m junk (p # ps) =
    do { c \<leftarrow> worldToMap m (fst p) (snd p);
         case c of
           None \<Rightarrow> Some None
         | Some xy \<Rightarrow> do { rest \<leftarrow> polygon_to_map m junk ps;
             Some (map_option (\<lambda>ls. \<lparr>loc_x = fst xy, loc_y = snd xy, loc_cost = junk\<rparr> # ls) rest) } }"

definition getMapRegionOccupiedByPolygon ::
  "costmap2d \<Rightarrow> u8 \<Rightarrow> (real \<times> real) list \<Rightarrow> MapLocation list \<Rightarrow> (bool \<times> MapLocation list) option" where
  "getMapRegionOccupiedByPolygon m junk polygon region =
    do { mp \<leftarrow> polygon_to_map m junk polygon;
         case mp of
           None \<Rightarrow> Some (False, region)
         | Some map_polygon \<Rightarrow> do { cells \<leftarrow> convexFillCells m map_polygon region; Some (True, cells) } }"

definition setConvexPolygonCost ::
  "u8 \<Rightarrow> (real \<times> real) list \<Rightarrow> u8 \<Rightarrow> costmap2d \<Rightarrow> (bool \<times> costmap2d) option" where
  "setConvexPolygonCost junk polygon cost_value m =
    do { r \<leftarrow> getMapRegionOccupiedByPolygon m junk polygon [];
         if \<not> fst r then Some (False, m)
         else do { m' \<leftarrow> setMapRegionOccupiedByPolygon (snd r) cost_value m; Some (True, m') } }"

section \<open>The sort\<close>

lemma swap_at_mset: "Suc i < length xs \<Longrightarrow> mset (swap_at i xs) = mset xs"
  unfolding swap_at_def by (rule mset_swap) simp_all

lemma sort_by_x_mset: "mset (sort_by_x i cells) = mset cells"
proof (induction i cells rule: sort_by_x.induct)
  case (1 i cells)
  then show ?case
    by (subst sort_by_x.simps) (auto simp: swap_at_mset)
qed

lemma take_Suc_sorted:
  "sorted (map f (take (Suc i) xs)) \<Longrightarrow> Suc i < length xs \<Longrightarrow> f (xs ! i) \<le> f (xs ! Suc i) \<Longrightarrow>
    sorted (map f (take (Suc (Suc i)) xs))"
  by (auto simp: take_Suc_conv_app_nth sorted_append intro: order_trans)

lemma take_one_sorted: "sorted (map f (take (Suc 0) xs))"
  by (cases xs) simp_all

lemma sort_by_x_sorted:
  "sorted (map loc_x (take (Suc i) cells)) \<Longrightarrow> sorted (map loc_x (sort_by_x i cells))"
proof (induction i cells rule: sort_by_x.induct)
  case (1 i cells)
  show ?case
  proof (cases "i < length cells - 1")
    case False
    then have "take (Suc i) cells = cells" by simp
    then show ?thesis using False 1(3) by (subst sort_by_x.simps) simp
  next
    case len: True
    then have len': "Suc i < length cells" by simp
    show ?thesis
    proof (cases "loc_x (cells ! (i + 1)) < loc_x (cells ! i)")
      case True
      have "take i (swap_at i cells) = take i cells" using len' by (simp add: swap_at_def)
      moreover have "sorted (map loc_x (take i cells))"
        using 1(3) len' by (simp add: take_Suc_conv_app_nth sorted_append)
      ultimately have "sorted (map loc_x (take (Suc (if i > 0 then i - 1 else i)) (swap_at i cells)))"
        using len' by (cases i) (auto simp: take_one_sorted)
      then show ?thesis using 1(1) len True by (subst sort_by_x.simps) simp
    next
      case False
      then have "sorted (map loc_x (take (Suc (i + 1)) cells))"
        using take_Suc_sorted [OF 1(3) len'] by simp
      then show ?thesis using 1(2) len False by (subst sort_by_x.simps) simp
    qed
  qed
qed

text \<open>The sort is total, orders the cells by column and keeps every cell.\<close>

lemma convexFill_sort:
  "sorted (map loc_x (sort_by_x 0 cells)) \<and> mset (sort_by_x 0 cells) = mset cells"
  by (intro conjI sort_by_x_mset sort_by_x_sorted take_one_sorted)

section \<open>Restoring a region\<close>

definition region_ok :: "costmap2d \<Rightarrow> MapLocation list \<Rightarrow> bool" where
  "region_ok m ls \<longleftrightarrow> (\<forall>l \<in> set ls. getCost m (loc_x l) (loc_y l) = Some (loc_cost l))"

lemma map_cells_all:
  "map_cells f xs = Some ys \<Longrightarrow> (\<And>x y. f x = Some y \<Longrightarrow> P y) \<Longrightarrow> \<forall>y \<in> set ys. P y"
  by (induction f xs arbitrary: ys rule: map_cells.induct) (auto split: Option.bind_splits)

lemma polygonOutlineCells_ok:
  assumes "polygonOutlineCells m polygon cells = Some out" "region_ok m cells"
  shows "region_ok m out"
proof -
  obtain new where new: "map_cells (outline_edge m)
      (zip polygon (tl polygon) @ [(last polygon, hd polygon)]) = Some new" "out = cells @ concat new"
    using assms(1) by (auto simp: polygonOutlineCells_def split: if_splits Option.bind_splits)
  have "\<forall>ls \<in> set new. region_ok m ls"
  proof (rule map_cells_all [OF new(1)])
    fix e ls assume "outline_edge m e = Some ls"
    then obtain offs where offs: "map_cells (outline_cell m) offs = Some ls"
      by (auto simp: outline_edge_def split: Option.bind_splits)
    show "region_ok m ls"
      unfolding region_ok_def
      by (rule map_cells_all [OF offs]) (auto simp: outline_cell_def split: Option.bind_splits)
  qed
  then show ?thesis using assms(2) new(2) by (auto simp: region_ok_def)
qed

lemma sort_by_x_ok: "region_ok m (sort_by_x i cells) = region_ok m cells"
  using sort_by_x_mset [of i cells] by (simp add: region_ok_def set_mset_mset [symmetric] del: set_mset_mset)

lemma column_cells_ok: "column_cells m x lo hi = Some col \<Longrightarrow> region_ok m col"
  unfolding region_ok_def column_cells_def by (erule map_cells_all) auto

lemma fill_columns_ok:
  "fill_columns m xs i cells = Some out \<Longrightarrow> region_ok m cells \<Longrightarrow> region_ok m out"
proof (induction m xs i cells rule: fill_columns.induct)
  case (2 m x xs i cells)
  show ?case
  proof (cases "i \<ge> length cells - 1")
    case True then show ?thesis using 2(2,3) by simp
  next
    case False
    let ?lo = "if loc_y (cells ! i) < loc_y (cells ! (i + 1)) then cells ! i else cells ! (i + 1)"
    let ?hi = "if loc_y (cells ! i) < loc_y (cells ! (i + 1)) then cells ! (i + 1) else cells ! i"
    obtain i' a b where sc: "scan_column (of_nat x) (i + 2) ?lo ?hi cells = (i', a, b)"
      using prod_cases3 by blast
    then obtain col where col: "column_cells m (of_nat x) (loc_y a) (loc_y b) = Some col"
      and rest: "fill_columns m xs i' (cells @ col) = Some out"
      using 2(2) False by (simp add: Let_def del: One_nat_def split: Option.bind_splits)
    have "region_ok m (cells @ col)"
      using column_cells_ok [OF col] 2(3) by (auto simp: region_ok_def)
    then show ?thesis using 2(1) [OF False refl refl refl refl sc [symmetric] refl refl col rest] by simp
  qed
qed simp

lemma getMapRegion_ok:
  assumes "getMapRegionOccupiedByPolygon m junk polygon region = Some (b, region')" "region_ok m region"
  shows "region_ok m region'"
  using assms
  by (auto simp: getMapRegionOccupiedByPolygon_def convexFillCells_def Let_def
      split: Option.bind_splits option.splits if_splits
      intro: fill_columns_ok dest!: polygonOutlineCells_ok simp: sort_by_x_ok)

definition loc_index :: "costmap2d \<Rightarrow> MapLocation \<Rightarrow> nat" where
  "loc_index m l = unat (getIndex m (loc_x l) (loc_y l))"

lemma getCost_index:
  "getCost m (loc_x l) (loc_y l) = Some c \<longleftrightarrow>
    (\<exists>cs. costmap m = Some cs \<and> loc_index m l < length cs \<and> cs ! loc_index m l = c)"
  by (auto simp: getCost_def getCost_at_def loc_index_def split: Option.bind_splits if_splits)

lemma loc_index_costmap [simp]: "loc_index (m\<lparr>costmap := c\<rparr>) = loc_index m"
  by (simp add: loc_index_def getIndex_def fun_eq_iff)

lemma setCost_index:
  "loc_index m l < length cs \<Longrightarrow>
    setCost (m\<lparr>costmap := Some cs\<rparr>) (loc_x l) (loc_y l) c = Some (m\<lparr>costmap := Some (cs[loc_index m l := c])\<rparr>)"
  by (simp add: setCost_def loc_index_def getIndex_def)

lemma setMapRegion_cells:
  assumes "\<forall>l \<in> set ls. loc_index m l < length cs"
  shows "\<exists>cs'. setMapRegionOccupiedByPolygon ls c (m\<lparr>costmap := Some cs\<rparr>) = Some (m\<lparr>costmap := Some cs'\<rparr>) \<and>
    length cs' = length cs \<and>
    (\<forall>k < length cs. cs' ! k = (if k \<in> loc_index m ` set ls then c else cs ! k))"
  using assms
proof (induction ls arbitrary: cs)
  case (Cons l ls)
  let ?cs = "cs[loc_index m l := c]"
  have "\<forall>l \<in> set ls. loc_index m l < length ?cs" using Cons.prems by simp
  from Cons.IH [OF this] obtain cs' where
    "setMapRegionOccupiedByPolygon ls c (m\<lparr>costmap := Some ?cs\<rparr>) = Some (m\<lparr>costmap := Some cs'\<rparr>)"
    "length cs' = length cs"
    "\<forall>k < length cs. cs' ! k = (if k \<in> loc_index m ` set ls then c else ?cs ! k)" by auto
  then show ?case
    using Cons.prems by (intro exI [of _ cs']) (auto simp: setCost_index nth_list_update)
qed auto

lemma restoreMapRegion_cells:
  assumes "\<forall>l \<in> set ls. loc_index m l < length cs \<and> cs ! loc_index m l = loc_cost l"
    "length cs1 = length cs" "\<forall>k < length cs. k \<notin> loc_index m ` set ls \<longrightarrow> cs1 ! k = cs ! k"
  shows "restoreMapRegionOccupiedByPolygon ls (m\<lparr>costmap := Some cs1\<rparr>) = Some (m\<lparr>costmap := Some cs\<rparr>)"
  using assms
proof (induction ls arbitrary: cs1)
  case Nil
  then have "cs1 = cs" by (simp add: nth_equalityI)
  then show ?case by simp
next
  case (Cons l ls)
  let ?cs = "cs1[loc_index m l := loc_cost l]"
  have "restoreMapRegionOccupiedByPolygon ls (m\<lparr>costmap := Some ?cs\<rparr>) = Some (m\<lparr>costmap := Some cs\<rparr>)"
    by (rule Cons.IH) (use Cons.prems in \<open>auto simp: nth_list_update\<close>)
  then show ?case using Cons.prems by (simp add: setCost_index)
qed

text \<open>
  Property C38 (roundtrip): when the region of a polygon can be computed, \<open>setConvexPolygonCost\<close>
  writes the cost into every cell of it, and \<open>restoreMapRegionOccupiedByPolygon\<close> with that region
  gives back exactly the map before, although the region holds cells more than once.
\<close>

theorem polygon_region_restore:
  assumes "getMapRegionOccupiedByPolygon m junk polygon [] = Some (True, region)" "costmap m \<noteq> None"
  shows "\<exists>m1. setConvexPolygonCost junk polygon c m = Some (True, m1) \<and>
    (\<forall>l \<in> set region. getCost m1 (loc_x l) (loc_y l) = Some c) \<and>
    restoreMapRegionOccupiedByPolygon region m1 = Some m"
proof -
  obtain cs where cs: "costmap m = Some cs" using assms(2) by auto
  have m: "m\<lparr>costmap := Some cs\<rparr> = m" using cs by (cases m) simp
  have ok: "\<forall>l \<in> set region. loc_index m l < length cs \<and> cs ! loc_index m l = loc_cost l"
    using getMapRegion_ok [OF assms(1)] cs by (auto simp: region_ok_def getCost_index)
  obtain cs' where cs': "setMapRegionOccupiedByPolygon region c m = Some (m\<lparr>costmap := Some cs'\<rparr>)"
    "length cs' = length cs"
    "\<forall>k < length cs. cs' ! k = (if k \<in> loc_index m ` set region then c else cs ! k)"
    using setMapRegion_cells [of region m cs c] ok m by auto
  have "restoreMapRegionOccupiedByPolygon region (m\<lparr>costmap := Some cs'\<rparr>) = Some m"
    using restoreMapRegion_cells [of region m cs cs'] ok cs' m by simp
  moreover have "\<forall>l \<in> set region. getCost (m\<lparr>costmap := Some cs'\<rparr>) (loc_x l) (loc_y l) = Some c"
    using ok cs' by (simp add: getCost_index)
  ultimately show ?thesis
    using assms(1) cs'(1) by (intro exI [of _ "m\<lparr>costmap := Some cs'\<rparr>"]) (simp add: setConvexPolygonCost_def)
qed

declare of_nat_unat [simp del]

section \<open>Rays\<close>

text \<open>The steps of the minor axis after \<open>k\<close> steps of the dominant one.\<close>

definition minor_step :: "nat \<Rightarrow> nat \<Rightarrow> nat \<Rightarrow> nat" where
  "minor_step da db k = (da div 2 + k * db) div da"

lemma bresenham2D_closed:
  assumes "unat e < unat da \<or> da = 0 \<and> n = 0" "unat db \<le> unat da" "2 * unat da < 2 ^ 32"
  shows "bresenham2D n da db e oa ob off =
    map (\<lambda>k. off + of_nat k * oa + of_nat ((unat e + k * unat db) div unat da) * ob) [0..<Suc n]"
  using assms
proof (induction n arbitrary: e off)
  case 0
  then show ?case by auto
next
  case (Suc n)
  then have e: "unat e < unat da" by simp
  have sum: "unat (e + db) = unat e + unat db"
    using e Suc.prems by (simp add: unat_word_ariths)
  show ?case
  proof (cases "da \<le> e + db")
    case True
    then have ge: "unat da \<le> unat e + unat db" by (simp add: word_le_nat_alt sum)
    have e': "unat (e + db - da) = unat e + unat db - unat da" by (simp add: unat_diff_u32 [OF True] sum)
    have "(unat e + Suc k * unat db) div unat da = Suc ((unat (e + db - da) + k * unat db) div unat da)" for k
    proof -
      have "unat e + Suc k * unat db = (unat (e + db - da) + k * unat db) + unat da" using e' ge by simp
      then have "(unat e + Suc k * unat db) div unat da =
          ((unat (e + db - da) + k * unat db) + unat da) div unat da" by (rule arg_cong)
      also have "\<dots> = Suc ((unat (e + db - da) + k * unat db) div unat da)" using e by (subst div_add_self2) simp_all
      finally show ?thesis .
    qed
    moreover have "unat (e + db - da) < unat da" using e' e ge Suc.prems by linarith
    ultimately show ?thesis
      using True e Suc.prems Suc.IH [of "e + db - da" "off + oa + ob"]
      by (simp add: Let_def map_upt_Suc algebra_simps del: upt_Suc)
  next
    case False
    then have "unat (e + db) < unat da" by (simp add: word_le_nat_alt)
    then show ?thesis
      using False e sum Suc.prems Suc.IH [of "e + db" "off + oa"]
      by (simp add: Let_def map_upt_Suc algebra_simps del: upt_Suc)
  qed
qed

lemma minor_step_0: "minor_step da db 0 = 0"
  by (cases da) (simp_all add: minor_step_def)

lemma minor_step_end: "db \<le> da \<Longrightarrow> minor_step da db da = db"
  by (cases "da = 0") (simp_all add: minor_step_def)

lemma minor_step_mono: "k \<le> l \<Longrightarrow> minor_step da db k \<le> minor_step da db l"
  by (simp add: minor_step_def div_le_mono)

lemma minor_step_le: "db \<le> da \<Longrightarrow> k \<le> da \<Longrightarrow> minor_step da db k \<le> db"
  using minor_step_mono [of k da da db] minor_step_end by simp

lemma minor_step_Suc: "db \<le> da \<Longrightarrow> minor_step da db (Suc k) \<le> Suc (minor_step da db k)"
proof (cases "da = 0")
  case False
  assume "db \<le> da"
  then have "da div 2 + Suc k * db \<le> (da div 2 + k * db) + da" by simp
  then have "minor_step da db (Suc k) \<le> ((da div 2 + k * db) + da) div da"
    unfolding minor_step_def by (rule div_le_mono)
  then show ?thesis using False by (simp add: minor_step_def)
qed (simp add: minor_step_def)

text \<open>The cells of the ray from one cell to another.\<close>

definition dist_1d :: "u32 \<Rightarrow> u32 \<Rightarrow> nat" where
  "dist_1d a b = nat \<bar>int (unat b) - int (unat a)\<bar>"

definition walk :: "u32 \<Rightarrow> u32 \<Rightarrow> nat \<Rightarrow> int" where
  "walk a b k = int (unat a) + ray_sign (int (unat b) - int (unat a)) * int k"

lemma walk_props:
  "walk a b 0 = int (unat a)" "walk a b (dist_1d a b) = int (unat b)"
  "k \<le> dist_1d a b \<Longrightarrow> min (int (unat a)) (int (unat b)) \<le> walk a b k"
  "k \<le> dist_1d a b \<Longrightarrow> walk a b k \<le> max (int (unat a)) (int (unat b))"
  "\<bar>walk a b k - walk a b l\<bar> = \<bar>int k - int l\<bar>"
  by (auto simp: walk_def dist_1d_def ray_sign_def simp del: of_nat_unat)

definition ray_path :: "u32 \<Rightarrow> u32 \<Rightarrow> u32 \<Rightarrow> u32 \<Rightarrow> (int \<times> int) list" where
  "ray_path x0 y0 x1 y1 =
    (let dx = dist_1d x0 x1; dy = dist_1d y0 y1
     in if dy \<le> dx then map (\<lambda>k. (walk x0 x1 k, walk y0 y1 (minor_step dx dy k))) [0..<Suc dx]
        else map (\<lambda>k. (walk x0 x1 (minor_step dy dx k), walk y0 y1 k)) [0..<Suc dy])"

lemma cast_u32_unat: "cast_u32 (real (unat w)) = Some w"
proof -
  have "int (unat w) < 2 ^ 32" using unsigned_less [of w] int_less_pow2 [of "unat w" 32] by simp
  moreover have "trunc_real (real (unat w)) = int (unat w)" by (simp add: trunc_real_def)
  ultimately show ?thesis by (simp add: cast_u32_def of_nat_unat)
qed

lemma sint_diff_u32:
  fixes a b :: u32
  assumes "unat a < 2 ^ 31" "unat b < 2 ^ 31"
  shows "sint (b - a) = int (unat b) - int (unat a)"
proof -
  have eq: "b - a = word_of_int (int (unat b) - int (unat a))" by (simp add: of_nat_unat)
  have fits: "sint (word_of_int i :: u32) = i" if "- (2 ^ 31) \<le> i" "i < 2 ^ 31" for i
    using that by (simp add: signed_of_int signed_take_bit_int_eq_self)
  show ?thesis unfolding eq by (rule fits) (use assms [THEN int_less_pow2] in simp_all)
qed

lemma full_scale: "0 \<le> (d::real) \<Longrightarrow> d \<le> l \<Longrightarrow> (if d = 0 then 1 else min 1 (l / d)) = 1"
  by (auto simp: min_def le_divide_eq)

lemma start_cell:
  "(if (0::real) < d then cast_u32 (real (unat w) + e / d * real (unat (0::u32))) else Some w) = Some w"
  by (simp add: cast_u32_unat)

lemma dist_1d_word:
  assumes "unat a < 2 ^ 31" "unat b < 2 ^ 31"
  shows "unat (word_of_int \<bar>int (unat b) - int (unat a)\<bar> :: u32) = dist_1d a b" "dist_1d a b < 2 ^ 31"
    "i32 \<bar>int (unat b) - int (unat a)\<bar> = Some \<bar>int (unat b) - int (unat a)\<bar>"
  using assms [THEN int_less_pow2] by (auto simp: unat_word_of_int dist_1d_def i32_def fits_i32_def)

lemma bresenham2D_path:
  fixes da db :: u32
  assumes "unat db \<le> unat da" "unat da < 2 ^ 31"
  shows "bresenham2D (unat da) da db (da div 2) oa ob off =
    map (\<lambda>k. off + of_nat k * oa + of_nat (minor_step (unat da) (unat db) k) * ob) [0..<Suc (unat da)]"
proof -
  have "unat (da div 2) = unat da div 2" by (simp add: unat_div)
  moreover have "unat da div 2 < unat da \<or> da = 0 \<and> unat da = 0"
  proof (cases "da = 0")
    case False
    then have "0 < unat da" by (simp add: unat_gt_0)
    then show ?thesis by simp
  qed simp
  ultimately show ?thesis using assms by (subst bresenham2D_closed) (auto simp: minor_step_def)
qed

lemma walk_word: "(word_of_int (walk a b k) :: u32) = a + of_nat k * word_of_int (ray_sign (int (unat b) - int (unat a)))"
  by (simp add: walk_def of_nat_unat)

lemma raytraceLine_path:
  assumes "unat x0 < 2 ^ 31" "unat y0 < 2 ^ 31" "unat x1 < 2 ^ 31" "unat y1 < 2 ^ 31"
  shows "raytraceLine x0 y0 x1 y1 step_x (-1) 0 =
    Some (map (\<lambda>(x, y). word_of_int y * step_x + word_of_int x) (ray_path x0 y0 x1 y1))"
proof -
  let ?dx = "int (unat x1) - int (unat x0)" and ?dy = "int (unat y1) - int (unat y0)"
  let ?dist = "sqrt ((real_of_int ?dx)\<^sup>2 + (real_of_int ?dy)\<^sup>2)"
  let ?ax = "word_of_int \<bar>?dx\<bar> :: u32" and ?ay = "word_of_int \<bar>?dy\<bar> :: u32"
  let ?ox = "word_of_int (ray_sign ?dx) :: u32" and ?oy = "word_of_int (ray_sign ?dy) * step_x :: u32"
  let ?off = "y0 * step_x + x0"
  note lt = assms [THEN int_less_pow2]
  have d: "sint (x1 - x0) = ?dx" "sint (y1 - y0) = ?dy"
    using assms by (simp_all add: sint_diff_u32)
  have "?dist \<le> \<bar>real_of_int ?dx\<bar> + \<bar>real_of_int ?dy\<bar>" by (rule sqrt_sum_squares_le_sum_abs)
  also have "\<dots> = real_of_int (\<bar>?dx\<bar> + \<bar>?dy\<bar>)" by simp
  also have "\<dots> \<le> real_of_int (2 ^ 32 - 2)" unfolding of_int_le_iff using lt by simp
  finally have scale: "(if ?dist = 0 then 1 else min 1 (real (unat (-1 :: u32)) / ?dist)) = 1"
    by (intro full_scale) (simp_all add: unsigned_minus_1_eq_mask mask_eq_exp_minus_1)
  note wx = dist_1d_word [OF assms(1,3)] and wy = dist_1d_word [OF assms(2,4)]
  have run: "raytraceLine x0 y0 x1 y1 step_x (-1) 0 =
    (if ?ax \<ge> ?ay then Some (bresenham2D (unat ?ax) ?ax ?ay (?ax div 2) ?ox ?oy ?off)
     else Some (bresenham2D (unat ?ay) ?ay ?ax (?ay div 2) ?oy ?ox ?off))"
    unfolding raytraceLine_def Let_def d scale start_cell
    by (simp add: d wx(3) wy(3) cast_u32_unat not_sum_power2_lt_zero)
  show ?thesis
  proof (cases "?ax \<ge> ?ay")
    case True
    then have le: "dist_1d y0 y1 \<le> dist_1d x0 x1" using wx wy by (simp add: word_le_nat_alt)
    have "bresenham2D (unat ?ax) ?ax ?ay (?ax div 2) ?ox ?oy ?off =
        map (\<lambda>k. ?off + of_nat k * ?ox + of_nat (minor_step (dist_1d x0 x1) (dist_1d y0 y1) k) * ?oy)
          [0..<Suc (dist_1d x0 x1)]"
      by (subst bresenham2D_path) (use wx wy le in simp_all)
    also have "\<dots> = map (\<lambda>(x, y). word_of_int y * step_x + word_of_int x) (ray_path x0 y0 x1 y1)"
      using le by (simp add: ray_path_def Let_def walk_word algebra_simps o_def del: upt_Suc)
    finally show ?thesis unfolding run using True by simp
  next
    case False
    then have le: "dist_1d x0 x1 < dist_1d y0 y1" using wx wy by (simp add: word_le_nat_alt)
    have "bresenham2D (unat ?ay) ?ay ?ax (?ay div 2) ?oy ?ox ?off =
        map (\<lambda>k. ?off + of_nat k * ?oy + of_nat (minor_step (dist_1d y0 y1) (dist_1d x0 x1) k) * ?ox)
          [0..<Suc (dist_1d y0 y1)]"
      by (subst bresenham2D_path) (use wx wy le in simp_all)
    also have "\<dots> = map (\<lambda>(x, y). word_of_int y * step_x + word_of_int x) (ray_path x0 y0 x1 y1)"
      using le by (simp add: ray_path_def Let_def walk_word algebra_simps o_def del: upt_Suc)
    finally show ?thesis unfolding run using False by simp
  qed
qed

lemma ray_path_props:
  fixes x0 y0 x1 y1
  defines "p \<equiv> ray_path x0 y0 x1 y1"
  shows "length p = Suc (max (dist_1d x0 x1) (dist_1d y0 y1))"
    "p ! 0 = (int (unat x0), int (unat y0))"
    "last p = (int (unat x1), int (unat y1))"
    "c \<in> set p \<Longrightarrow> min (int (unat x0)) (int (unat x1)) \<le> fst c \<and> fst c \<le> max (int (unat x0)) (int (unat x1)) \<and>
      min (int (unat y0)) (int (unat y1)) \<le> snd c \<and> snd c \<le> max (int (unat y0)) (int (unat y1))"
    "Suc k < length p \<Longrightarrow> p ! Suc k \<noteq> p ! k \<and>
      \<bar>fst (p ! Suc k) - fst (p ! k)\<bar> \<le> 1 \<and> \<bar>snd (p ! Suc k) - snd (p ! k)\<bar> \<le> 1"
proof -
  let ?dx = "dist_1d x0 x1" and ?dy = "dist_1d y0 y1"
  show "length p = Suc (max ?dx ?dy)" by (simp add: p_def ray_path_def Let_def)
  show "p ! 0 = (int (unat x0), int (unat y0))"
    by (simp add: p_def ray_path_def Let_def walk_props minor_step_0 del: upt_Suc)
  show "last p = (int (unat x1), int (unat y1))"
    by (simp add: p_def ray_path_def Let_def walk_props minor_step_end)
  show "min (int (unat x0)) (int (unat x1)) \<le> fst c \<and> fst c \<le> max (int (unat x0)) (int (unat x1)) \<and>
      min (int (unat y0)) (int (unat y1)) \<le> snd c \<and> snd c \<le> max (int (unat y0)) (int (unat y1))"
    if "c \<in> set p"
  proof -
    have "\<exists>i j. c = (walk x0 x1 i, walk y0 y1 j) \<and> i \<le> ?dx \<and> j \<le> ?dy"
    proof (cases "?dy \<le> ?dx")
      case True
      then obtain k where "c = (walk x0 x1 k, walk y0 y1 (minor_step ?dx ?dy k))" "k \<le> ?dx"
        using \<open>c \<in> set p\<close> by (auto simp: p_def ray_path_def Let_def simp del: upt_Suc)
      then show ?thesis using True minor_step_le by blast
    next
      case False
      then obtain k where "c = (walk x0 x1 (minor_step ?dy ?dx k), walk y0 y1 k)" "k \<le> ?dy"
        using \<open>c \<in> set p\<close> by (auto simp: p_def ray_path_def Let_def simp del: upt_Suc)
      then show ?thesis using False minor_step_le [of ?dx ?dy k] by auto
    qed
    then show ?thesis by (auto simp: walk_props)
  qed
  show "p ! Suc k \<noteq> p ! k \<and>
      \<bar>fst (p ! Suc k) - fst (p ! k)\<bar> \<le> 1 \<and> \<bar>snd (p ! Suc k) - snd (p ! k)\<bar> \<le> 1"
    if "Suc k < length p"
  proof -
    have step: "\<bar>int (minor_step a b (Suc k)) - int (minor_step a b k)\<bar> \<le> 1" if "b \<le> a" for a b
      using minor_step_mono [of k "Suc k" a b] minor_step_Suc [OF that, of k] by simp
    have ne: "walk a b (Suc k) \<noteq> walk a b k" for a b using walk_props(5) [of a b "Suc k" k] by auto
    show ?thesis
      using \<open>Suc k < length p\<close> step [of ?dy ?dx] step [of ?dx ?dy] ne [of x0 x1] ne [of y0 y1]
      by (auto simp: p_def ray_path_def Let_def walk_props nth_append simp del: upt_Suc)
  qed
qed

section \<open>The polygon stays inside the map\<close>

definition in_map :: "costmap2d \<Rightarrow> MapLocation \<Rightarrow> bool" where
  "in_map m l \<longleftrightarrow> loc_x l < size_x m \<and> loc_y l < size_y m"

definition small_sides :: "costmap2d \<Rightarrow> bool" where
  "small_sides m \<longleftrightarrow> map_ok m \<and> unat (size_x m) \<le> 2 ^ 31 \<and> unat (size_y m) \<le> 2 ^ 31"

lemma map_cells_total:
  assumes "\<And>x. x \<in> set xs \<Longrightarrow> \<exists>y. f x = Some y \<and> P y"
  shows "\<exists>ys. map_cells f xs = Some ys \<and> (\<forall>y \<in> set ys. P y)"
  using assms
proof (induction xs)
  case (Cons x xs)
  obtain y where "f x = Some y" "P y" using Cons.prems [of x] by auto
  moreover obtain ys where "map_cells f xs = Some ys" "\<forall>y \<in> set ys. P y" using Cons by auto
  ultimately show ?case by auto
qed simp

lemma map_cells_mem: "map_cells f xs = Some ys \<Longrightarrow> x \<in> set xs \<Longrightarrow> \<exists>y \<in> set ys. f x = Some y"
  by (induction f xs arbitrary: ys rule: map_cells.induct) (auto split: Option.bind_splits)

lemma outline_cell_in_map:
  assumes "map_ok m" "x < size_x m" "y < size_y m"
  shows "outline_cell m (getIndex m x y) = Some \<lparr>loc_x = x, loc_y = y, loc_cost = cell m (unat x) (unat y)\<rparr>"
  using assms by (simp add: outline_cell_def indexToCells_getIndex getCost_cell)

lemma ray_cell_in_map:
  assumes "a < w" "b < w" "min (int (unat a)) (int (unat b)) \<le> i" "i \<le> max (int (unat a)) (int (unat b))"
  shows "word_of_int i < (w :: u32)"
proof -
  have lt: "unat a < unat w" "unat b < unat w" using assms(1,2) by (simp_all add: word_less_nat_alt)
  have i: "0 \<le> i" "i < int (unat w)" using assms(3,4) lt by linarith+
  moreover have "int (unat w) < 2 ^ 32" using unsigned_less [of w] int_less_pow2 [of "unat w" 32] by simp
  ultimately have "unat (word_of_int i :: u32) = nat i" by (intro unat_word_of_int) linarith+
  then show ?thesis using i by (simp add: word_less_nat_alt nat_less_iff)
qed

lemma outline_edge_in_map:
  assumes "small_sides m" "in_map m p" "in_map m q"
  shows "\<exists>ls. outline_edge m (p, q) = Some ls \<and> (\<forall>l \<in> set ls. in_map m l) \<and>
    (\<exists>l \<in> set ls. loc_x l = loc_x p \<and> loc_y l = loc_y p)"
proof -
  have ok: "map_ok m" using assms(1) by (simp add: small_sides_def)
  have lt: "unat (loc_x p) < 2 ^ 31" "unat (loc_y p) < 2 ^ 31" "unat (loc_x q) < 2 ^ 31" "unat (loc_y q) < 2 ^ 31"
    using assms by (auto simp: small_sides_def in_map_def word_less_nat_alt intro: less_le_trans)
  let ?path = "ray_path (loc_x p) (loc_y p) (loc_x q) (loc_y q)"
  let ?offs = "map (\<lambda>(x, y). getIndex m (word_of_int x) (word_of_int y)) ?path"
  have ray: "raytraceLine (loc_x p) (loc_y p) (loc_x q) (loc_y q) (size_x m) (-1) 0 = Some ?offs"
    using lt by (simp add: raytraceLine_path getIndex_def)
  have cell: "word_of_int (fst c) < size_x m" "word_of_int (snd c) < size_y m" if "c \<in> set ?path" for c
    using ray_path_props(4) [OF that] ray_cell_in_map assms(2,3) unfolding in_map_def by blast+
  have off: "\<exists>c \<in> set ?path. off = getIndex m (word_of_int (fst c)) (word_of_int (snd c))"
    if "off \<in> set ?offs" for off using that by force
  have "\<exists>ls. map_cells (outline_cell m) ?offs = Some ls \<and> (\<forall>l \<in> set ls. in_map m l)"
  proof (rule map_cells_total)
    fix off assume "off \<in> set ?offs"
    then obtain c where "c \<in> set ?path" "off = getIndex m (word_of_int (fst c)) (word_of_int (snd c))"
      using off by blast
    then show "\<exists>l. outline_cell m off = Some l \<and> in_map m l"
      using outline_cell_in_map [OF ok] cell by (auto simp: in_map_def)
  qed
  then obtain ls where ls: "map_cells (outline_cell m) ?offs = Some ls" "\<forall>l \<in> set ls. in_map m l" by blast
  have "0 < length ?path" by (simp add: ray_path_props)
  then have "?path ! 0 \<in> set ?path" by (rule nth_mem)
  then have "getIndex m (loc_x p) (loc_y p) \<in> set ?offs"
    by (force simp: ray_path_props(2) of_nat_unat)
  from map_cells_mem [OF ls(1) this] obtain l where l: "l \<in> set ls"
    "outline_cell m (getIndex m (loc_x p) (loc_y p)) = Some l" by blast
  then have "loc_x l = loc_x p \<and> loc_y l = loc_y p"
    using outline_cell_in_map [OF ok, of "loc_x p" "loc_y p"] assms(2) by (auto simp: in_map_def)
  then show ?thesis using ls l(1) ray by (auto simp: outline_edge_def)
qed

lemma edge_from:
  assumes "p \<in> set ps"
  shows "\<exists>q. (p, q) \<in> set (zip ps (tl ps) @ [(last ps, hd ps)])"
proof -
  obtain i where i: "i < length ps" "p = ps ! i" using assms by (auto simp: in_set_conv_nth)
  show ?thesis
  proof (cases "Suc i < length ps")
    case True
    then have "(p, tl ps ! i) \<in> set (zip ps (tl ps))" using i by (auto simp: in_set_zip)
    then show ?thesis by auto
  next
    case False
    then have "i = length ps - 1" "ps \<noteq> []" using i(1) by auto
    then have "p = last ps" using i(2) by (simp add: last_conv_nth)
    then show ?thesis by auto
  qed
qed

lemma edge_ends: "(p, q) \<in> set (zip ps (tl ps) @ [(last ps, hd ps)]) \<Longrightarrow> ps \<noteq> [] \<Longrightarrow> p \<in> set ps \<and> q \<in> set ps"
  using set_zip_leftD [of p q ps "tl ps"] set_zip_rightD [of p q ps "tl ps"] list.set_sel(2) [of ps q] by auto

lemma polygonOutlineCells_in_map:
  assumes "small_sides m" "polygon \<noteq> []" "\<forall>p \<in> set polygon. in_map m p"
  shows "\<exists>out. polygonOutlineCells m polygon [] = Some out \<and> (\<forall>l \<in> set out. in_map m l) \<and>
    (\<forall>p \<in> set polygon. \<exists>l \<in> set out. loc_x l = loc_x p \<and> loc_y l = loc_y p)"
proof -
  let ?edges = "zip polygon (tl polygon) @ [(last polygon, hd polygon)]"
  have edge: "\<exists>ls. outline_edge m e = Some ls \<and> (\<forall>l \<in> set ls. in_map m l) \<and>
    (\<exists>l \<in> set ls. loc_x l = loc_x (fst e) \<and> loc_y l = loc_y (fst e))" if "e \<in> set ?edges" for e
    using that edge_ends [of "fst e" "snd e" polygon] assms outline_edge_in_map [of m "fst e" "snd e"] by auto
  obtain new where new: "map_cells (outline_edge m) ?edges = Some new"
      "\<forall>ls \<in> set new. \<forall>l \<in> set ls. in_map m l"
    using map_cells_total [of ?edges "outline_edge m" "\<lambda>ls. \<forall>l \<in> set ls. in_map m l"] edge by blast
  have "\<exists>l \<in> set (concat new). loc_x l = loc_x p \<and> loc_y l = loc_y p" if "p \<in> set polygon" for p
  proof -
    obtain q where pq: "(p, q) \<in> set ?edges" using edge_from [of p polygon] \<open>p \<in> set polygon\<close> by blast
    show ?thesis using map_cells_mem [OF new(1) pq] edge [OF pq] by auto
  qed
  then show ?thesis using new assms(2) by (auto simp: polygonOutlineCells_def)
qed

lemma scan_column_keeps:
  "scan_column x i a b cells = (i', a', b') \<Longrightarrow> P a \<Longrightarrow> P b \<Longrightarrow> (\<forall>l \<in> set cells. P l) \<Longrightarrow> P a' \<and> P b'"
proof (induction x i a b cells rule: scan_column.induct)
  case (1 x i a b cells)
  show ?case
  proof (cases "i < length cells \<and> loc_x (cells ! i) = x")
    case True
    have c: "P (cells ! i)" using True 1(7) by simp
    have "scan_column x (i + 1) (if loc_y (cells ! i) < loc_y a then cells ! i else a)
      (if \<not> loc_y (cells ! i) < loc_y a \<and> loc_y b < loc_y (cells ! i) then cells ! i else b) cells = (i', a', b')"
      using True 1(4) by (subst (asm) scan_column.simps) (auto split: if_splits)
    then show ?thesis using 1(1-3) [OF True] 1(5-7) c by (auto split: if_splits)
  next
    case False
    then show ?thesis using 1(4-) by (subst (asm) scan_column.simps) auto
  qed
qed

lemma column_cells_in_map:
  assumes "map_ok m" "x < size_x m" "hi < size_y m"
  shows "\<exists>col. column_cells m x lo hi = Some col \<and> (\<forall>l \<in> set col. in_map m l)"
  unfolding column_cells_def
proof (rule map_cells_total)
  fix y assume "y \<in> set [unat lo..<unat hi + 1]"
  then have "y \<le> unat hi" by auto
  then have "(of_nat y :: u32) < size_y m"
    using assms(3) unat_less_u32 [of hi] by (simp add: word_less_nat_alt unat_of_nat)
  then show "\<exists>l. map_option (\<lambda>c. \<lparr>loc_x = x, loc_y = of_nat y, loc_cost = c\<rparr>) (getCost m x (of_nat y)) = Some l \<and>
      in_map m l"
    using getCost_cell [OF assms(1,2)] assms(2) by (simp add: in_map_def)
qed

lemma fill_columns_in_map:
  assumes "map_ok m" "\<forall>x \<in> set xs. x < unat (size_x m)" "\<forall>l \<in> set cells. in_map m l"
  shows "\<exists>out. fill_columns m xs i cells = Some out \<and> (\<forall>l \<in> set out. in_map m l) \<and> set cells \<subseteq> set out"
  using assms(2,3)
proof (induction xs arbitrary: i cells)
  case (Cons x xs)
  show ?case
  proof (cases "i \<ge> length cells - 1")
    case True then show ?thesis using Cons.prems by simp
  next
    case False
    then have ab: "cells ! i \<in> set cells" "cells ! (i + 1) \<in> set cells" by auto
    let ?lo = "if loc_y (cells ! i) < loc_y (cells ! (i + 1)) then cells ! i else cells ! (i + 1)"
    let ?hi = "if loc_y (cells ! i) < loc_y (cells ! (i + 1)) then cells ! (i + 1) else cells ! i"
    obtain i' a b where sc: "scan_column (of_nat x) (i + 2) ?lo ?hi cells = (i', a, b)"
      using prod_cases3 by blast
    have "in_map m ?lo" "in_map m ?hi" using ab Cons.prems(2) by (auto split: if_splits)
    from scan_column_keeps [OF sc this Cons.prems(2)] have b: "in_map m b" by simp
    have x: "(of_nat x :: u32) < size_x m"
      using Cons.prems(1) unat_less_u32 [of "size_x m"] by (simp add: word_less_nat_alt unat_of_nat)
    obtain col where col: "column_cells m (of_nat x) (loc_y a) (loc_y b) = Some col" "\<forall>l \<in> set col. in_map m l"
      using column_cells_in_map [OF assms(1) x] b unfolding in_map_def by blast
    have "\<exists>out. fill_columns m xs i' (cells @ col) = Some out \<and> (\<forall>l \<in> set out. in_map m l) \<and>
        set (cells @ col) \<subseteq> set out"
      by (rule Cons.IH) (use Cons.prems col(2) in auto)
    then show ?thesis using False sc col(1) by (auto simp: Let_def simp del: One_nat_def)
  qed
qed simp

lemma convexFillCells_in_map:
  assumes "small_sides m" "3 \<le> length polygon" "\<forall>p \<in> set polygon. in_map m p"
  shows "\<exists>out. convexFillCells m polygon [] = Some out \<and> (\<forall>l \<in> set out. in_map m l) \<and>
    (\<forall>p \<in> set polygon. \<exists>l \<in> set out. loc_x l = loc_x p \<and> loc_y l = loc_y p)"
proof -
  have ne: "polygon \<noteq> []" using assms(2) by auto
  obtain cells where cells: "polygonOutlineCells m polygon [] = Some cells" "\<forall>l \<in> set cells. in_map m l"
      "\<forall>p \<in> set polygon. \<exists>l \<in> set cells. loc_x l = loc_x p \<and> loc_y l = loc_y p"
    using polygonOutlineCells_in_map [OF assms(1) ne assms(3)] by blast
  let ?s = "sort_by_x 0 cells"
  have s: "set ?s = set cells" using sort_by_x_mset [of 0 cells] by (metis set_mset_mset)
  have c: "cells \<noteq> []" using cells(3) ne by (cases polygon) auto
  then have "?s \<noteq> []" using s by (metis set_empty)
  then have "last ?s \<in> set cells" using s last_in_set by metis
  then have "unat (loc_x (last ?s)) < unat (size_x m)"
    using cells(2) by (simp add: in_map_def word_less_nat_alt)
  then have "\<exists>out. fill_columns m [unat (loc_x (hd ?s))..<unat (loc_x (last ?s)) + 1] 0 ?s = Some out \<and>
      (\<forall>l \<in> set out. in_map m l) \<and> set ?s \<subseteq> set out"
    using assms(1) cells(2) s by (intro fill_columns_in_map) (auto simp: small_sides_def)
  then show ?thesis using assms(2) cells c s by (fastforce simp: convexFillCells_def)
qed

lemma polygon_to_map_in_map:
  "polygon_to_map m junk polygon = Some (Some corners) \<Longrightarrow>
    length corners = length polygon \<and> (\<forall>p \<in> set corners. in_map m p)"
  by (induction polygon arbitrary: corners)
    (auto split: Option.bind_splits option.splits if_splits simp: worldToMap_def in_map_def)

lemma region_in_map:
  assumes "small_sides m" "3 \<le> length polygon" "polygon_to_map m junk polygon = Some (Some corners)"
  shows "\<exists>region. getMapRegionOccupiedByPolygon m junk polygon [] = Some (True, region) \<and>
    (\<forall>l \<in> set region. in_map m l) \<and>
    (\<forall>p \<in> set corners. \<exists>l \<in> set region. loc_x l = loc_x p \<and> loc_y l = loc_y p)"
  using convexFillCells_in_map [OF assms(1), of corners] polygon_to_map_in_map [OF assms(3)] assms(2,3)
  by (auto simp: getMapRegionOccupiedByPolygon_def)

text \<open>
  The offsets of a ray are the offsets of a path of cells that
  starts at the first cell, ends at the second, has \<open>max(|dx|, |dy|) + 1\<close> cells, stays in their
  bounding box and moves to a different, adjacent cell in every step.
\<close>

theorem raytraceLine_cells:
  assumes "unat x0 < 2 ^ 31" "unat y0 < 2 ^ 31" "unat x1 < 2 ^ 31" "unat y1 < 2 ^ 31"
  shows "\<exists>path :: (int \<times> int) list.
    raytraceLine x0 y0 x1 y1 step_x (-1) 0 =
      Some (map (\<lambda>(x, y). word_of_int y * step_x + word_of_int x) path) \<and>
    int (length path) = max \<bar>int (unat x1) - int (unat x0)\<bar> \<bar>int (unat y1) - int (unat y0)\<bar> + 1 \<and>
    path ! 0 = (int (unat x0), int (unat y0)) \<and> last path = (int (unat x1), int (unat y1)) \<and>
    (\<forall>(x, y) \<in> set path. min (int (unat x0)) (int (unat x1)) \<le> x \<and> x \<le> max (int (unat x0)) (int (unat x1)) \<and>
      min (int (unat y0)) (int (unat y1)) \<le> y \<and> y \<le> max (int (unat y0)) (int (unat y1))) \<and>
    (\<forall>k. Suc k < length path \<longrightarrow> path ! Suc k \<noteq> path ! k \<and>
      \<bar>fst (path ! Suc k) - fst (path ! k)\<bar> \<le> 1 \<and> \<bar>snd (path ! Suc k) - snd (path ! k)\<bar> \<le> 1)"
proof (intro exI [of _ "ray_path x0 y0 x1 y1"] conjI allI impI ballI)
  fix c assume "c \<in> set (ray_path x0 y0 x1 y1)"
  then show "case c of (x, y) \<Rightarrow>
      min (int (unat x0)) (int (unat x1)) \<le> x \<and> x \<le> max (int (unat x0)) (int (unat x1)) \<and>
      min (int (unat y0)) (int (unat y1)) \<le> y \<and> y \<le> max (int (unat y0)) (int (unat y1))"
    using ray_path_props(4) by (simp add: case_prod_beta)
qed (simp_all add: raytraceLine_path [OF assms] ray_path_props dist_1d_def of_nat_max)

theorem raytraceLine_cells_witness:
  "\<exists>path :: (int \<times> int) list.
    raytraceLine 1 7 6 4 20 (-1) 0 = Some (map (\<lambda>(x, y). word_of_int y * 20 + word_of_int x) path) \<and>
    length path = 6 \<and> path ! 0 = (1, 7) \<and> last path = (6, 4)"
  using raytraceLine_cells [of 1 7 6 4 20] by (auto simp: of_nat_unat)

text \<open>
  For a polygon of at least three points inside the map the region is computed
  without an access outside the array; all its cells are cells of the map, and the cells of the
  corners are among them.
\<close>

theorem polygon_region_in_map:
  assumes "map_ok m" "unat (size_x m) \<le> 2 ^ 31" "unat (size_y m) \<le> 2 ^ 31"
    "3 \<le> length polygon" "polygon_to_map m junk polygon = Some (Some corners)"
  shows "\<exists>region. getMapRegionOccupiedByPolygon m junk polygon [] = Some (True, region) \<and>
    (\<forall>l \<in> set region. loc_x l < size_x m \<and> loc_y l < size_y m) \<and>
    (\<forall>p \<in> set corners. \<exists>l \<in> set region. loc_x l = loc_x p \<and> loc_y l = loc_y p)"
  using region_in_map [of m polygon junk corners] assms by (simp add: small_sides_def in_map_def)

lemma small_polygon:
  "polygon_to_map small_map 0 [(0, 0), (2, 0), (0, 1)] =
    Some (Some [\<lparr>loc_x = 0, loc_y = 0, loc_cost = 0\<rparr>, \<lparr>loc_x = 2, loc_y = 0, loc_cost = 0\<rparr>,
      \<lparr>loc_x = 0, loc_y = 1, loc_cost = 0\<rparr>])"
  by (simp add: worldToMap_def small_map_def cast_u32_def trunc_real_def)

theorem polygon_region_in_map_witness:
  "\<exists>region. getMapRegionOccupiedByPolygon small_map 0 [(0, 0), (2, 0), (0, 1)] [] = Some (True, region) \<and>
    (\<forall>l \<in> set region. loc_x l < 3 \<and> loc_y l < 2) \<and> (\<exists>l \<in> set region. loc_x l = 2 \<and> loc_y l = 0)"
  using polygon_region_in_map [OF small_map_ok _ _ _ small_polygon] by (simp add: small_map_def) blast

theorem polygon_region_restore_witness:
  "\<exists>region m1. getMapRegionOccupiedByPolygon small_map 0 [(0, 0), (2, 0), (0, 1)] [] = Some (True, region) \<and>
    setConvexPolygonCost 0 [(0, 0), (2, 0), (0, 1)] 254 small_map = Some (True, m1) \<and>
    restoreMapRegionOccupiedByPolygon region m1 = Some small_map"
proof -
  have "small_sides small_map" using small_map_ok by (simp add: small_sides_def small_map_def)
  from region_in_map [OF this _ small_polygon] obtain region where
    r: "getMapRegionOccupiedByPolygon small_map 0 [(0, 0), (2, 0), (0, 1)] [] = Some (True, region)" by auto
  have "costmap small_map \<noteq> None" by (simp add: small_map_def)
  from polygon_region_restore [OF r this, of 254] r show ?thesis by blast
qed

declare of_nat_unat [simp]

end
