(* ===== verification/Voxel_Grid.thy ===== *)
theory Voxel_Grid
  imports Costmap_2D
begin

text \<open>
  nav2_voxel_grid: a column of up to 16 voxels is one 32 bit word. Bit \<open>z\<close> and bit \<open>z + 16\<close>
  hold the status of voxel \<open>z\<close>: both clear is free, both set is marked, only the low one is
  unknown. The grid is the array of columns; the 2D costmap some functions write is passed
  along. As in \<open>Costmap_2D\<close> a result \<open>None\<close> is an access outside an array or a conversion that does
  not fit.
\<close>

unbundle bit_operations_syntax

section \<open>Columns\<close>

datatype VoxelStatus = FREE | UNKNOWN | MARKED

record voxel_grid =
  vsize_x :: u32
  vsize_y :: u32
  vsize_z :: u32
  vdata :: "u32 list"

definition unknown_col :: u32 where
  "unknown_col = drop_bit 16 (NOT 0)"

definition full_mask :: "u32 \<Rightarrow> u32" where
  "full_mask z = push_bit 16 (push_bit (unat z) 1) OR push_bit (unat z) 1"

lemma clear_lowest_less: "n \<noteq> 0 \<Longrightarrow> unat (n AND (n - 1)) < unat (n :: u32)"
proof -
  assume "n \<noteq> 0"
  have "n AND (n - 1) \<le> n - 1" by (rule word_and_le1)
  also have "n - 1 < n"
    using \<open>n \<noteq> 0\<close> by (simp add: word_less_nat_alt unat_minus_one unat_gt_0)
  finally show ?thesis by (simp add: word_less_nat_alt)
qed

function numBits_from :: "u32 \<Rightarrow> u32 \<Rightarrow> u32" where
  "numBits_from bit_count n =
    (if n = 0 then bit_count else numBits_from (bit_count + 1) (n AND (n - 1)))"
  by pat_completeness auto
termination
  by (relation "measure (\<lambda>(c, n). unat n)") (auto intro: clear_lowest_less)

declare numBits_from.simps [simp del]

definition numBits :: "u32 \<Rightarrow> u32" where
  "numBits n = numBits_from 0 n"

function bitsBelow_from :: "u32 \<Rightarrow> u32 \<Rightarrow> u32 \<Rightarrow> bool" where
  "bitsBelow_from bit_count n bit_threshold =
    (if n = 0 then True
     else if bit_count + 1 > bit_threshold then False
     else bitsBelow_from (bit_count + 1) (n AND (n - 1)) bit_threshold)"
  by pat_completeness auto
termination
  by (relation "measure (\<lambda>(c, n, t). unat n)") (auto intro: clear_lowest_less)

declare bitsBelow_from.simps [simp del]

definition bitsBelowThreshold :: "u32 \<Rightarrow> u32 \<Rightarrow> bool" where
  "bitsBelowThreshold n bit_threshold = bitsBelow_from 0 n bit_threshold"

definition marked_bits :: "u32 \<Rightarrow> u32" where
  "marked_bits col = drop_bit 16 col"

text \<open>\<open>uint16_t(*col >> 16) ^ uint16_t( *col)\<close>.\<close>

definition unknown_bits :: "u32 \<Rightarrow> u32" where
  "unknown_bits col = take_bit 16 (drop_bit 16 col) XOR take_bit 16 col"

section \<open>The grid\<close>

definition limit_z :: "u32 \<Rightarrow> u32" where
  "limit_z z = (if z > 16 then 16 else z)"

definition new_voxel_grid :: "u32 \<Rightarrow> u32 \<Rightarrow> u32 \<Rightarrow> voxel_grid" where
  "new_voxel_grid sx sy sz =
    \<lparr>vsize_x = sx, vsize_y = sy, vsize_z = limit_z sz,
     vdata = replicate (unat (sx * sy)) unknown_col\<rparr>"

definition vreset :: "voxel_grid \<Rightarrow> voxel_grid option" where
  "vreset g =
    map_option (\<lambda>d. g\<lparr>vdata := d\<rparr>)
      (mem_write 0 (replicate (unat (vsize_x g * vsize_y g)) unknown_col) (vdata g))"

definition vresize :: "u32 \<Rightarrow> u32 \<Rightarrow> u32 \<Rightarrow> voxel_grid \<Rightarrow> voxel_grid option" where
  "vresize sx sy sz g =
    (if sx = vsize_x g \<and> sy = vsize_y g \<and> sz = vsize_z g then vreset g
     else Some (new_voxel_grid sx sy sz))"

definition outside :: "voxel_grid \<Rightarrow> u32 \<Rightarrow> u32 \<Rightarrow> u32 \<Rightarrow> bool" where
  "outside g x y z \<longleftrightarrow> x \<ge> vsize_x g \<or> y \<ge> vsize_y g \<or> z \<ge> vsize_z g"

definition vindex :: "voxel_grid \<Rightarrow> u32 \<Rightarrow> u32 \<Rightarrow> u32" where
  "vindex g x y = y * vsize_x g + x"

text \<open>Replacing one column: \<open>data_[index] = f(data_[index])\<close>.\<close>

definition on_column :: "u32 \<Rightarrow> (u32 \<Rightarrow> u32) \<Rightarrow> voxel_grid \<Rightarrow> voxel_grid option" where
  "on_column index f g =
    (if unat index < length (vdata g)
     then Some (g\<lparr>vdata := (vdata g)[unat index := f (vdata g ! unat index)]\<rparr>) else None)"

definition column_at :: "voxel_grid \<Rightarrow> u32 \<Rightarrow> u32 option" where
  "column_at g index = (if unat index < length (vdata g) then Some (vdata g ! unat index) else None)"

definition markVoxel :: "u32 \<Rightarrow> u32 \<Rightarrow> u32 \<Rightarrow> voxel_grid \<Rightarrow> voxel_grid option" where
  "markVoxel x y z g =
    (if outside g x y z then Some g else on_column (vindex g x y) (\<lambda>c. c OR full_mask z) g)"

definition markVoxelInMap :: "u32 \<Rightarrow> u32 \<Rightarrow> u32 \<Rightarrow> u32 \<Rightarrow> voxel_grid \<Rightarrow> (bool \<times> voxel_grid) option" where
  "markVoxelInMap x y z marked_threshold g =
    (if outside g x y z then Some (False, g)
     else do { g' \<leftarrow> on_column (vindex g x y) (\<lambda>c. c OR full_mask z) g;
               col \<leftarrow> column_at g' (vindex g x y);
               Some (\<not> bitsBelowThreshold (marked_bits col) marked_threshold, g') })"

definition clearVoxel :: "u32 \<Rightarrow> u32 \<Rightarrow> u32 \<Rightarrow> voxel_grid \<Rightarrow> voxel_grid option" where
  "clearVoxel x y z g =
    (if outside g x y z then Some g else on_column (vindex g x y) (\<lambda>c. c AND NOT (full_mask z)) g)"

text \<open>The assertion of \<open>clearVoxelColumn\<close> is compiled out in release builds; the access is checked.\<close>

definition clearVoxelColumn :: "u32 \<Rightarrow> voxel_grid \<Rightarrow> voxel_grid option" where
  "clearVoxelColumn index g = on_column index (\<lambda>c. 0) g"

definition put_cost :: "u32 \<Rightarrow> u8 \<Rightarrow> u8 list \<Rightarrow> u8 list option" where
  "put_cost index c cm = (if unat index < length cm then Some (cm[unat index := c]) else None)"

definition clearVoxelInMap ::
  "u32 \<Rightarrow> u32 \<Rightarrow> u32 \<Rightarrow> voxel_grid \<times> u8 list \<Rightarrow> (voxel_grid \<times> u8 list) option" where
  "clearVoxelInMap x y z gc =
    (let g = fst gc; cm = snd gc
     in if outside g x y z then Some (g, cm)
        else do { g' \<leftarrow> on_column (vindex g x y) (\<lambda>c. c AND NOT (full_mask z)) g;
                  col \<leftarrow> column_at g' (vindex g x y);
                  if bitsBelowThreshold (unknown_bits col) 1 \<and> bitsBelowThreshold (marked_bits col) 1
                  then do { cm' \<leftarrow> put_cost (vindex g x y) 0 cm; Some (g', cm') }
                  else Some (g', cm) })"

definition bits_status :: "u32 \<Rightarrow> VoxelStatus" where
  "bits_status bits = (if bits < 2 then if bits < 1 then FREE else UNKNOWN else MARKED)"

definition getVoxel :: "u32 \<Rightarrow> u32 \<Rightarrow> u32 \<Rightarrow> voxel_grid \<Rightarrow> VoxelStatus option" where
  "getVoxel x y z g =
    (if outside g x y z then Some UNKNOWN
     else do { col \<leftarrow> column_at g (vindex g x y);
               Some (bits_status (numBits (col AND full_mask z))) })"

text \<open>The static variant takes the sizes and the data instead of the object.\<close>

definition getVoxel_static ::
  "u32 \<Rightarrow> u32 \<Rightarrow> u32 \<Rightarrow> u32 \<Rightarrow> u32 \<Rightarrow> u32 \<Rightarrow> u32 list \<Rightarrow> VoxelStatus option" where
  "getVoxel_static x y z sx sy sz d =
    (if x \<ge> sx \<or> y \<ge> sy \<or> z \<ge> sz then Some UNKNOWN
     else if unat (y * sx + x) < length d
     then Some (bits_status (numBits (d ! unat (y * sx + x) AND full_mask z))) else None)"

definition getVoxelColumn :: "u32 \<Rightarrow> u32 \<Rightarrow> u32 \<Rightarrow> u32 \<Rightarrow> voxel_grid \<Rightarrow> VoxelStatus option" where
  "getVoxelColumn x y unknown_threshold marked_threshold g =
    (if x \<ge> vsize_x g \<or> y \<ge> vsize_y g then Some UNKNOWN
     else do { col \<leftarrow> column_at g (vindex g x y);
               Some (if \<not> bitsBelowThreshold (marked_bits col) marked_threshold then MARKED
                     else if \<not> bitsBelowThreshold (unknown_bits col) unknown_threshold then UNKNOWN
                     else FREE) })"

section \<open>Lines\<close>

definition vsign :: "int \<Rightarrow> int" where
  "vsign i = (if i > 0 then 1 else -1)"

text \<open>
  The position on the line is the pair of the column offset and the mask of the voxel;
  \<open>GridOffset\<close> and \<open>ZOffset\<close> move it. \<open>bresenham3D\<close> is the list of positions it applies the action
  to: the action does not influence the walk. The error terms are unsigned as in the
  comparisons of the source.
\<close>

type_synonym voxel_pos = "u32 \<times> u32"

definition GridOffset :: "int \<Rightarrow> voxel_pos \<Rightarrow> voxel_pos" where
  "GridOffset offset_val p = (fst p + word_of_int offset_val, snd p)"

definition ZOffset :: "int \<Rightarrow> voxel_pos \<Rightarrow> voxel_pos" where
  "ZOffset offset_val p = (fst p, if offset_val > 0 then push_bit 1 (snd p) else drop_bit 1 (snd p))"

fun bresenham3D ::
  "nat \<Rightarrow> ('p \<Rightarrow> 'p) \<Rightarrow> ('p \<Rightarrow> 'p) \<Rightarrow> ('p \<Rightarrow> 'p) \<Rightarrow> u32 \<Rightarrow> u32 \<Rightarrow> u32 \<Rightarrow> u32 \<Rightarrow> u32 \<Rightarrow> 'p \<Rightarrow> 'p list" where
  "bresenham3D 0 off_a off_b off_c abs_da abs_db abs_dc error_b error_c p = [p]"
| "bresenham3D (Suc n) off_a off_b off_c abs_da abs_db abs_dc error_b error_c p =
    (let p1 = off_a p; eb = error_b + abs_db; ec = error_c + abs_dc;
         p2 = (if eb \<ge> abs_da then off_b p1 else p1);
         eb' = (if eb \<ge> abs_da then eb - abs_da else eb);
         p3 = (if ec \<ge> abs_da then off_c p2 else p2);
         ec' = (if ec \<ge> abs_da then ec - abs_da else ec)
     in p # bresenham3D n off_a off_b off_c abs_da abs_db abs_dc eb' ec' p3)"

definition bresenham3D_line ::
  "('p \<Rightarrow> 'p) \<Rightarrow> ('p \<Rightarrow> 'p) \<Rightarrow> ('p \<Rightarrow> 'p) \<Rightarrow> u32 \<Rightarrow> u32 \<Rightarrow> u32 \<Rightarrow> u32 \<Rightarrow> 'p \<Rightarrow> 'p list" where
  "bresenham3D_line off_a off_b off_c abs_da abs_db abs_dc max_length p =
    bresenham3D (unat (min max_length abs_da)) off_a off_b off_c abs_da abs_db abs_dc
      (abs_da div 2) (abs_da div 2) p"

definition voxel_line ::
  "voxel_grid \<Rightarrow> real \<Rightarrow> real \<Rightarrow> real \<Rightarrow> real \<Rightarrow> real \<Rightarrow> real \<Rightarrow> u32 \<Rightarrow> u32 \<Rightarrow> voxel_pos list option" where
  "voxel_line g x0 y0 z0 x1 y1 z1 max_length min_length =
    (let dist = sqrt ((x0 - x1) * (x0 - x1) + (y0 - y1) * (y0 - y1) + (z0 - z1) * (z0 - z1));
         ml = real (unat min_length)
     in do {
       d \<leftarrow> cast_u32 dist;
       if d < min_length then Some []
       else do {
         let scale = (if dist > 0 then min 1 (real (unat max_length) / dist) else 1);
         let mx0 = (if dist > 0 then x0 + (x1 - x0) / dist * ml else x0);
         let my0 = (if dist > 0 then y0 + (y1 - y0) / dist * ml else y0);
         let mz0 = (if dist > 0 then z0 + (z1 - z0) / dist * ml else z0);
         ix1 \<leftarrow> cast_i32 x1; ix0 \<leftarrow> cast_i32 mx0; dx \<leftarrow> i32 (ix1 - ix0);
         iy1 \<leftarrow> cast_i32 y1; iy0 \<leftarrow> cast_i32 my0; dy \<leftarrow> i32 (iy1 - iy0);
         iz1 \<leftarrow> cast_i32 z1; iz0 \<leftarrow> cast_i32 mz0; dz \<leftarrow> i32 (iz1 - iz0);
         let ax = (word_of_int \<bar>dx\<bar> :: u32); let ay = (word_of_int \<bar>dy\<bar> :: u32);
         let az = (word_of_int \<bar>dz\<bar> :: u32);
         let ox = GridOffset (vsign dx);
         let oy = GridOffset (sint (word_of_int (vsign dy) * vsize_x g));
         let oz = ZOffset (vsign dz);
         uz \<leftarrow> cast_u32 mz0; uy \<leftarrow> cast_u32 my0; ux \<leftarrow> cast_u32 mx0;
         let p = (uy * vsize_x g + ux, push_bit (unat uz) (push_bit 16 1 OR 1));
         if ax \<ge> max ay az then do {
           n \<leftarrow> cast_u32 (scale * real (unat ax));
           Some (bresenham3D_line ox oy oz ax ay az n p) }
         else if ay \<ge> az then do {
           n \<leftarrow> cast_u32 (scale * real (unat ay));
           Some (bresenham3D_line oy ox oz ay ax az n p) }
         else do {
           n \<leftarrow> cast_u32 (scale * real (unat az));
           Some (bresenham3D_line oz ox oy az ax ay n p) } } })"

fun along :: "(voxel_pos \<Rightarrow> 's \<Rightarrow> 's option) \<Rightarrow> voxel_pos list \<Rightarrow> 's \<Rightarrow> 's option" where
  "along act [] s = Some s"
| "along act (p # ps) s = do { s' \<leftarrow> act p s; along act ps s' }"

definition MarkVoxel :: "voxel_pos \<Rightarrow> voxel_grid \<Rightarrow> voxel_grid option" where
  "MarkVoxel p g = on_column (fst p) (\<lambda>c. c OR snd p) g"

definition ClearVoxel :: "voxel_pos \<Rightarrow> voxel_grid \<Rightarrow> voxel_grid option" where
  "ClearVoxel p g = on_column (fst p) (\<lambda>c. c AND NOT (snd p)) g"

definition ClearVoxelInMap ::
  "u32 \<Rightarrow> u32 \<Rightarrow> u8 \<Rightarrow> u8 \<Rightarrow> voxel_pos \<Rightarrow> voxel_grid \<times> u8 list \<Rightarrow> (voxel_grid \<times> u8 list) option" where
  "ClearVoxelInMap unknown_threshold marked_threshold free_cost unknown_cost p gc =
    do { g \<leftarrow> ClearVoxel p (fst gc);
         col \<leftarrow> column_at g (fst p);
         if bitsBelowThreshold (marked_bits col) marked_threshold
         then do { cm \<leftarrow> put_cost (fst p)
                     (if bitsBelowThreshold (unknown_bits col) unknown_threshold
                      then free_cost else unknown_cost) (snd gc);
                   Some (g, cm) }
         else Some (g, snd gc) }"

definition line_outside :: "voxel_grid \<Rightarrow> real \<Rightarrow> real \<Rightarrow> real \<Rightarrow> real \<Rightarrow> real \<Rightarrow> real \<Rightarrow> bool" where
  "line_outside g x0 y0 z0 x1 y1 z1 \<longleftrightarrow>
     x0 \<ge> real (unat (vsize_x g)) \<or> y0 \<ge> real (unat (vsize_y g)) \<or> z0 \<ge> real (unat (vsize_z g)) \<or>
     x1 \<ge> real (unat (vsize_x g)) \<or> y1 \<ge> real (unat (vsize_y g)) \<or> z1 \<ge> real (unat (vsize_z g))"

definition markVoxelLine ::
  "real \<Rightarrow> real \<Rightarrow> real \<Rightarrow> real \<Rightarrow> real \<Rightarrow> real \<Rightarrow> u32 \<Rightarrow> voxel_grid \<Rightarrow> voxel_grid option" where
  "markVoxelLine x0 y0 z0 x1 y1 z1 max_length g =
    (if line_outside g x0 y0 z0 x1 y1 z1 then Some g
     else do { ps \<leftarrow> voxel_line g x0 y0 z0 x1 y1 z1 max_length 0; along MarkVoxel ps g })"

definition clearVoxelLine ::
  "real \<Rightarrow> real \<Rightarrow> real \<Rightarrow> real \<Rightarrow> real \<Rightarrow> real \<Rightarrow> u32 \<Rightarrow> u32 \<Rightarrow> voxel_grid \<Rightarrow> voxel_grid option" where
  "clearVoxelLine x0 y0 z0 x1 y1 z1 max_length min_length g =
    (if line_outside g x0 y0 z0 x1 y1 z1 then Some g
     else do { ps \<leftarrow> voxel_line g x0 y0 z0 x1 y1 z1 max_length min_length; along ClearVoxel ps g })"

definition clearVoxelLineInMap ::
  "real \<Rightarrow> real \<Rightarrow> real \<Rightarrow> real \<Rightarrow> real \<Rightarrow> real \<Rightarrow> u32 \<Rightarrow> u32 \<Rightarrow> u8 \<Rightarrow> u8 \<Rightarrow> u32 \<Rightarrow> u32
    \<Rightarrow> voxel_grid \<times> u8 list option \<Rightarrow> (voxel_grid \<times> u8 list option) option" where
  "clearVoxelLineInMap x0 y0 z0 x1 y1 z1 ut mt free_cost unknown_cost max_length min_length gm =
    (case snd gm of
       None \<Rightarrow> map_option (\<lambda>g. (g, None)) (clearVoxelLine x0 y0 z0 x1 y1 z1 max_length min_length (fst gm))
     | Some cm \<Rightarrow>
         (if line_outside (fst gm) x0 y0 z0 x1 y1 z1 then Some gm
          else do { ps \<leftarrow> voxel_line (fst gm) x0 y0 z0 x1 y1 z1 max_length min_length;
                    r \<leftarrow> along (ClearVoxelInMap ut mt free_cost unknown_cost) ps (fst gm, cm);
                    Some (fst r, Some (snd r)) }))"

section \<open>Counting bits\<close>

text \<open>
  The two loops clear the lowest set bit until nothing is left; they count the set bits.
\<close>

definition popcount :: "u32 \<Rightarrow> nat" where
  "popcount n = card {i. bit n i}"

lemma bits_finite [simp]: "finite {i. bit (n :: u32) i}"
  by (rule finite_subset [of _ "{..<32}"]) (auto dest: bit_imp_le_length)

lemma popcount_0 [simp]: "popcount 0 = 0"
  by (simp add: popcount_def)

lemma popcount_le: "popcount n \<le> 32"
proof -
  have "{i. bit n i} \<subseteq> {..<32}" by (auto dest: bit_imp_le_length)
  then have "card {i. bit n i} \<le> card {..<32::nat}" by (intro card_mono) auto
  then show ?thesis by (simp add: popcount_def)
qed

text \<open>On natural numbers: clearing the lowest set bit removes exactly one bit.\<close>

lemma nat_clear_lowest:
  fixes n :: nat
  assumes "n > 0"
  shows "\<exists>k. bit n k \<and> (\<forall>i. bit (n AND (n - 1)) i \<longleftrightarrow> bit n i \<and> i \<noteq> k)"
  using assms
proof (induction n rule: less_induct)
  case (less n)
  show ?case
  proof (cases "odd n")
    case True
    then obtain m where n: "n = 2 * m + 1" by (rule oddE)
    have "bit (n AND (n - 1)) i \<longleftrightarrow> bit n i \<and> i \<noteq> 0" for i
      unfolding bit_and_iff by (cases i) (auto simp: n bit_Suc bit_0)
    moreover have "bit n 0" using True by (simp add: bit_0)
    ultimately show ?thesis by blast
  next
    case False
    then obtain m where n: "n = 2 * m" by blast
    then have m: "m < n" "m > 0" using less.prems by auto
    from less.IH [OF this] obtain k where k: "bit m k"
      "\<And>i. bit (m AND (m - 1)) i \<longleftrightarrow> bit m i \<and> i \<noteq> k" by blast
    have half: "(n - 1) div 2 = m - 1" using n m by simp
    have "bit (n AND (n - 1)) i \<longleftrightarrow> bit n i \<and> i \<noteq> Suc k" for i
    proof (cases i)
      case 0
      then show ?thesis using n unfolding bit_and_iff by (simp add: bit_0)
    next
      case (Suc j)
      then show ?thesis using k(2) [of j] half n unfolding bit_and_iff by (simp add: bit_Suc)
    qed
    moreover have "bit n (Suc k)" using k(1) n by (simp add: bit_Suc)
    ultimately show ?thesis by blast
  qed
qed

lemma bit_unat_iff: "bit (w :: u32) i \<longleftrightarrow> bit (unat w) i"
  by (simp add: bit_unsigned_iff)

lemma popcount_clear_lowest:
  assumes "n \<noteq> 0"
  shows "popcount n = Suc (popcount (n AND (n - 1)))"
proof -
  have u: "unat (n AND (n - 1)) = unat n AND (unat n - 1)"
    using assms by (simp add: unsigned_and_eq unat_minus_one)
  obtain k where k: "bit (unat n) k"
    "\<And>i. bit (unat n AND (unat n - 1)) i \<longleftrightarrow> bit (unat n) i \<and> i \<noteq> k"
    using nat_clear_lowest [of "unat n"] assms by (auto simp: unat_gt_0)
  have "{i. bit n i} = insert k {i. bit (n AND (n - 1)) i}"
    using k u by (auto simp: bit_unat_iff simp del: bit_and_iff)
  moreover have "k \<notin> {i. bit (n AND (n - 1)) i}"
    using k(2) [of k] u by (simp add: bit_unat_iff del: bit_and_iff)
  ultimately show ?thesis by (simp add: popcount_def)
qed

lemma numBits_from_popcount:
  "unat c + popcount n < 2 ^ 32 \<Longrightarrow> unat (numBits_from c n) = unat c + popcount n"
proof (induction c n rule: numBits_from.induct)
  case (1 c n)
  show ?case
  proof (cases "n = 0")
    case False
    have "unat (c + 1) = unat c + 1"
      using 1(2) popcount_clear_lowest [OF False] by (simp add: unat_word_ariths)
    then show ?thesis using 1 False popcount_clear_lowest [OF False]
      by (simp add: numBits_from.simps [of c n])
  qed (simp add: numBits_from.simps)
qed

lemma numBits_popcount: "unat (numBits n) = popcount n"
  using numBits_from_popcount [of 0 n] popcount_le [of n] by (simp add: numBits_def)

lemma bitsBelow_from_popcount:
  "unat c + popcount n < 2 ^ 32 \<Longrightarrow> c \<le> t \<Longrightarrow>
    bitsBelow_from c n t \<longleftrightarrow> unat c + popcount n \<le> unat t"
proof (induction c n t rule: bitsBelow_from.induct)
  case (1 c n t)
  show ?case
  proof (cases "n = 0")
    case True
    then show ?thesis using 1(3) by (simp add: bitsBelow_from.simps word_le_nat_alt)
  next
    case False
    note p = popcount_clear_lowest [OF False]
    have c: "unat (c + 1) = unat c + 1" using 1(2) p by (simp add: unat_word_ariths)
    show ?thesis
    proof (cases "c + 1 > t")
      case True
      then show ?thesis using False p c by (simp add: bitsBelow_from.simps [of c n] word_less_nat_alt)
    next
      case le: False
      then show ?thesis using 1(1) [OF False le] 1(2) p c False
        by (simp add: bitsBelow_from.simps [of c n])
    qed
  qed
qed

lemma bitsBelow_popcount: "bitsBelowThreshold n t \<longleftrightarrow> popcount n \<le> unat t"
  using bitsBelow_from_popcount [of 0 n t] popcount_le [of n] by (simp add: bitsBelowThreshold_def)

section \<open>The status of a voxel\<close>

definition voxel_status :: "u32 \<Rightarrow> nat \<Rightarrow> VoxelStatus" where
  "voxel_status col z =
    (if bit col (z + 16) \<and> bit col z then MARKED
     else if \<not> bit col (z + 16) \<and> \<not> bit col z then FREE else UNKNOWN)"

lemma full_mask_bit:
  assumes "unat z < 16"
  shows "bit (full_mask z) i \<longleftrightarrow> i = unat z \<or> i = unat z + 16"
  using assms by (auto simp: full_mask_def bit_or_iff bit_push_bit_iff bit_exp_iff)

lemma popcount_masked:
  assumes "unat z < 16"
  shows "popcount (col AND full_mask z) = of_bool (bit col (unat z)) + of_bool (bit col (unat z + 16))"
proof -
  have "{i. bit (col AND full_mask z) i} =
      (if bit col (unat z) then {unat z} else {}) \<union> (if bit col (unat z + 16) then {unat z + 16} else {})"
    using full_mask_bit [OF assms] by (auto simp: bit_and_iff)
  then show ?thesis by (simp add: popcount_def)
qed

lemma bits_status_voxel:
  assumes "unat z < 16"
  shows "bits_status (numBits (col AND full_mask z)) = voxel_status col (unat z)"
proof -
  have "unat (numBits (col AND full_mask z)) = of_bool (bit col (unat z)) + of_bool (bit col (unat z + 16))"
    by (simp add: numBits_popcount popcount_masked [OF assms])
  then show ?thesis
    by (auto simp: bits_status_def voxel_status_def word_less_nat_alt)
qed

section \<open>Well-formed grids\<close>

definition column_ok :: "u32 \<Rightarrow> bool" where
  "column_ok col \<longleftrightarrow> (\<forall>z < 16. bit col (z + 16) \<longrightarrow> bit col z)"

definition grid_ok :: "voxel_grid \<Rightarrow> bool" where
  "grid_ok g \<longleftrightarrow> unat (vsize_x g) * unat (vsize_y g) < 2 ^ 32 \<and>
     length (vdata g) = unat (vsize_x g) * unat (vsize_y g) \<and> vsize_z g \<le> 16 \<and>
     (\<forall>col \<in> set (vdata g). column_ok col)"

lemma unknown_col_bit: "bit unknown_col i \<longleftrightarrow> i < 16"
  by (auto simp: unknown_col_def bit_mask_iff)

lemma new_voxel_grid_ok:
  assumes "unat sx * unat sy < 2 ^ 32"
  shows "grid_ok (new_voxel_grid sx sy sz)"
proof -
  have "unat (sx * sy) = unat sx * unat sy" using assms by (simp add: unat_word_ariths)
  moreover have "column_ok unknown_col" by (simp add: column_ok_def unknown_col_bit)
  ultimately show ?thesis using assms by (auto simp: grid_ok_def new_voxel_grid_def limit_z_def)
qed

lemma column_ok_mask:
  assumes "column_ok col" "unat z < 16"
  shows "column_ok (col OR full_mask z)" "column_ok (col AND NOT (full_mask z))"
  using assms by (auto simp: column_ok_def bit_or_iff bit_and_iff bit_not_iff full_mask_bit)

lemma status_mask:
  assumes "unat z < 16" "k < 16"
  shows "voxel_status (col OR full_mask z) k = (if k = unat z then MARKED else voxel_status col k)"
    "voxel_status (col AND NOT (full_mask z)) k = (if k = unat z then FREE else voxel_status col k)"
  using assms by (auto simp: voxel_status_def bit_or_iff bit_and_iff bit_not_iff full_mask_bit)

lemma inside_facts:
  assumes "grid_ok g" "\<not> outside g x y z"
  shows "unat z < 16" "unat (vindex g x y) < length (vdata g)"
    "unat (vindex g x y) = unat y * unat (vsize_x g) + unat x" "unat x < unat (vsize_x g)"
proof -
  have b: "unat x < unat (vsize_x g)" "unat y < unat (vsize_y g)" "unat z < unat (vsize_z g)"
    "unat (vsize_z g) \<le> 16"
    using assms by (auto simp: outside_def grid_ok_def word_less_nat_alt word_le_nat_alt not_le)
  then show "unat z < 16" "unat x < unat (vsize_x g)" by simp_all
  note lt = row_index_less [OF b(1,2)]
  then show "unat (vindex g x y) = unat y * unat (vsize_x g) + unat x"
    using assms(1) unfolding vindex_def by (intro unat_mult_add_u32) (auto simp: grid_ok_def)
  then show "unat (vindex g x y) < length (vdata g)" using lt assms(1) by (simp add: grid_ok_def)
qed

lemma getVoxel_status:
  assumes "grid_ok g" "\<not> outside g x y z"
  shows "getVoxel x y z g = Some (voxel_status (vdata g ! unat (vindex g x y)) (unat z))"
  using inside_facts [OF assms] assms(2) bits_status_voxel
  by (simp add: getVoxel_def column_at_def)

lemma on_column_grid:
  assumes "grid_ok g" "\<not> outside g x y z" "\<And>c. column_ok c \<Longrightarrow> column_ok (f c)"
  obtains g' where "on_column (vindex g x y) f g = Some g'" "grid_ok g'"
    "vsize_x g' = vsize_x g" "vsize_y g' = vsize_y g" "vsize_z g' = vsize_z g"
    "vdata g' = (vdata g)[unat (vindex g x y) := f (vdata g ! unat (vindex g x y))]"
proof -
  note i = inside_facts [OF assms(1,2)]
  let ?g = "g\<lparr>vdata := (vdata g)[unat (vindex g x y) := f (vdata g ! unat (vindex g x y))]\<rparr>"
  have "column_ok (f (vdata g ! unat (vindex g x y)))"
    using assms(1) i(2) by (intro assms(3)) (simp add: grid_ok_def)
  then have "grid_ok ?g"
    using assms(1) set_update_subset_insert [of "vdata g" "unat (vindex g x y)"]
    by (fastforce simp: grid_ok_def)
  then show thesis using i(2) by (intro that [of ?g]) (simp_all add: on_column_def)
qed

lemma same_index_iff:
  assumes "grid_ok g" "\<not> outside g x y z" "\<not> outside g x' y' z'"
  shows "unat (vindex g x' y') = unat (vindex g x y) \<longleftrightarrow> x' = x \<and> y' = y"
  using inside_facts(3,4) [OF assms(1,2)] inside_facts(3,4) [OF assms(1,3)]
    row_index_eq [of "unat x'" "unat (vsize_x g)" "unat x" "unat y'" "unat y"]
  by (auto simp: word_unat_eq_iff)

section \<open>Properties\<close>

lemma masked_voxel_spec:
  assumes "grid_ok g" "\<not> outside g x y z" "\<not> outside g x' y' z'"
    and "\<And>c. column_ok c \<Longrightarrow> column_ok (f c)"
    and "\<And>c k. k < 16 \<Longrightarrow> voxel_status (f c) k = (if k = unat z then st else voxel_status c k)"
  shows "\<exists>g'. on_column (vindex g x y) f g = Some g' \<and> grid_ok g' \<and>
    getVoxel x' y' z' g' = (if x' = x \<and> y' = y \<and> z' = z then Some st else getVoxel x' y' z' g)"
proof -
  obtain g' where g': "on_column (vindex g x y) f g = Some g'" "grid_ok g'"
    "vsize_x g' = vsize_x g" "vsize_y g' = vsize_y g" "vsize_z g' = vsize_z g"
    "vdata g' = (vdata g)[unat (vindex g x y) := f (vdata g ! unat (vindex g x y))]"
    using on_column_grid [OF assms(1,2), of f] assms(4) by blast
  have out: "\<not> outside g' x' y' z'" using assms(3) g'(3-5) by (simp add: outside_def)
  have ix: "vindex g' x' y' = vindex g x' y'" using g'(3) by (simp add: vindex_def)
  have "getVoxel x' y' z' g' = (if x' = x \<and> y' = y \<and> z' = z then Some st else getVoxel x' y' z' g)"
    unfolding getVoxel_status [OF g'(2) out] getVoxel_status [OF assms(1,3)] ix
    using g'(6) same_index_iff [OF assms(1-3)] inside_facts(1,2) [OF assms(1,2)]
      inside_facts(1) [OF assms(1,3)] assms(5)
    by (auto simp: nth_list_update word_unat_eq_iff [of z'])
  then show ?thesis using g'(1,2) by blast
qed

text \<open>
  Property C37 (roundtrip): marking a voxel makes it MARKED and clearing it makes it FREE, in
  both cases without changing the status of any other voxel, and the grid stays well-formed.
\<close>

theorem voxel_mark_clear_get:
  assumes "grid_ok g" "\<not> outside g x y z" "\<not> outside g x' y' z'"
  shows "\<exists>g1 g2. markVoxel x y z g = Some g1 \<and> clearVoxel x y z g = Some g2 \<and> grid_ok g1 \<and> grid_ok g2 \<and>
    getVoxel x' y' z' g1 = (if x' = x \<and> y' = y \<and> z' = z then Some MARKED else getVoxel x' y' z' g) \<and>
    getVoxel x' y' z' g2 = (if x' = x \<and> y' = y \<and> z' = z then Some FREE else getVoxel x' y' z' g)"
proof -
  note z = inside_facts(1) [OF assms(1,2)]
  have "\<exists>g1. on_column (vindex g x y) (\<lambda>c. c OR full_mask z) g = Some g1 \<and> grid_ok g1 \<and>
      getVoxel x' y' z' g1 = (if x' = x \<and> y' = y \<and> z' = z then Some MARKED else getVoxel x' y' z' g)"
    by (rule masked_voxel_spec [OF assms]) (simp_all add: column_ok_mask status_mask z)
  moreover have "\<exists>g2. on_column (vindex g x y) (\<lambda>c. c AND NOT (full_mask z)) g = Some g2 \<and> grid_ok g2 \<and>
      getVoxel x' y' z' g2 = (if x' = x \<and> y' = y \<and> z' = z then Some FREE else getVoxel x' y' z' g)"
    by (rule masked_voxel_spec [OF assms]) (simp_all add: column_ok_mask status_mask z)
  ultimately show ?thesis using assms(2) by (auto simp: markVoxel_def clearVoxel_def)
qed

theorem voxel_mark_clear_get_witness:
  "\<exists>g1. markVoxel 1 1 3 (new_voxel_grid 2 2 10) = Some g1 \<and> getVoxel 1 1 3 g1 = Some MARKED"
proof -
  have g: "grid_ok (new_voxel_grid 2 2 10)" by (rule new_voxel_grid_ok) simp
  have i: "\<not> outside (new_voxel_grid 2 2 10) 1 1 3"
    by (simp add: outside_def new_voxel_grid_def limit_z_def word_le_nat_alt)
  from voxel_mark_clear_get [OF g i i] show ?thesis by auto
qed

lemma popcount_marked: "popcount (marked_bits col) = card {z. z < 16 \<and> bit col (z + 16)}"
proof -
  have "{i. bit (marked_bits col) i} = {z. z < 16 \<and> bit col (z + 16)}"
    by (auto simp: marked_bits_def bit_drop_bit_eq add.commute dest: bit_imp_le_length)
  then show ?thesis by (simp add: popcount_def)
qed

lemma popcount_unknown: "popcount (unknown_bits col) = card {z. z < 16 \<and> bit col (z + 16) \<noteq> bit col z}"
proof -
  have "{i. bit (unknown_bits col) i} = {z. z < 16 \<and> bit col (z + 16) \<noteq> bit col z}"
    by (auto simp: unknown_bits_def bit_xor_iff bit_take_bit_iff bit_drop_bit_eq add.commute)
  then show ?thesis by (simp add: popcount_def)
qed

text \<open>
  The status of a column is MARKED if more than \<open>marked_threshold\<close> of its 16
  voxels are marked, otherwise UNKNOWN if more than \<open>unknown_threshold\<close> are unknown, otherwise
  FREE. The bit-counting loops always end and count exactly.
\<close>

theorem getVoxelColumn_counts:
  assumes "grid_ok g" "x < vsize_x g" "y < vsize_y g"
  shows "getVoxelColumn x y ut mt g =
    (let status = voxel_status (vdata g ! (unat y * unat (vsize_x g) + unat x)) in
     Some (if unat mt < card {z. z < 16 \<and> status z = MARKED} then MARKED
           else if unat ut < card {z. z < 16 \<and> status z = UNKNOWN} then UNKNOWN else FREE))"
proof -
  let ?col = "vdata g ! (unat y * unat (vsize_x g) + unat x)"
  have xy: "unat x < unat (vsize_x g)" "unat y < unat (vsize_y g)"
    using assms(2,3) by (simp_all add: word_less_nat_alt)
  note lt = row_index_less [OF xy]
  have ix: "unat (vindex g x y) = unat y * unat (vsize_x g) + unat x"
    using lt assms(1) unfolding vindex_def by (intro unat_mult_add_u32) (auto simp: grid_ok_def)
  have len: "unat y * unat (vsize_x g) + unat x < length (vdata g)" using lt assms(1) by (simp add: grid_ok_def)
  then have ok: "column_ok ?col" using assms(1) by (simp add: grid_ok_def)
  have "popcount (marked_bits ?col) = card {z. z < 16 \<and> voxel_status ?col z = MARKED}"
    "popcount (unknown_bits ?col) = card {z. z < 16 \<and> voxel_status ?col z = UNKNOWN}"
    using ok unfolding popcount_marked popcount_unknown
    by (auto intro!: arg_cong [where f = card] simp: voxel_status_def column_ok_def)
  then show ?thesis using assms(2,3) ix len
    by (simp add: getVoxelColumn_def column_at_def bitsBelow_popcount not_le Let_def)
qed

theorem getVoxelColumn_counts_witness:
  "getVoxelColumn 0 1 15 0 (new_voxel_grid 2 2 10) = Some UNKNOWN"
proof -
  have g: "grid_ok (new_voxel_grid 2 2 10)" by (rule new_voxel_grid_ok) simp
  have d: "vdata (new_voxel_grid 2 2 10) ! 2 = unknown_col" by (simp add: new_voxel_grid_def)
  have st: "voxel_status unknown_col z = UNKNOWN" if "z < 16" for z
    using that by (simp add: voxel_status_def unknown_col_bit)
  have c: "{z. z < 16 \<and> voxel_status unknown_col z = MARKED} = {}"
    "{z. z < 16 \<and> voxel_status unknown_col z = UNKNOWN} = {..<16}" using st by auto
  have s: "vsize_x (new_voxel_grid 2 2 10) = 2" "vsize_y (new_voxel_grid 2 2 10) = 2"
    by (simp_all add: new_voxel_grid_def)
  show ?thesis
    using getVoxelColumn_counts [OF g, of 0 1 15 0] by (simp add: s d c Let_def)
qed

end
