(* ===== verification/Label_Trees.thy ===== *)
theory Label_Trees
  imports Nav2_Prelude
begin

text \<open>
  nav2_costmap_2d/denoise/image_processing.hpp, class EquivalenceLabelTrees: the union-find structure of the
  connected component labelling. The trees are one array: \<open>labels ! i\<close> is the parent of \<open>i\<close>, a parent is never larger
  than its child and a root is its own parent. A \<open>Label\<close> (\<open>uint16_t\<close> or \<open>uint32_t\<close>) is a natural number and
  \<open>lmax\<close> is \<open>std::numeric_limits<Label>::max()\<close>; \<open>reset\<close> and \<open>makeLabel\<close> keep every label at most \<open>lmax\<close>, so that no
  increment wraps around. The products of \<open>size_t\<close> are exact, since rows and columns are below \<open>2 ^ 32\<close>.
\<close>

section \<open>The structure\<close>

datatype ConnectivityType = Way4 | Way8

text \<open>
  \<open>LogicError\<close> is \<open>std::logic_error\<close>; \<open>OutOfRange\<close> is an access outside a buffer, which has no defined outcome in C++.
\<close>

datatype img_error = LabelOverflow | LogicError | OutOfRange

record EquivalenceLabelTrees =
  labels_vec :: "nat list"
  labels_size :: nat
  next_free :: nat

definition maxLabels :: "nat \<Rightarrow> nat \<Rightarrow> nat \<Rightarrow> ConnectivityType \<Rightarrow> nat" where
  "maxLabels lmax rws cols conn =
    (let max_labels = (case conn of Way4 \<Rightarrow> rws * cols div 2 + 1 | Way8 \<Rightarrow> rws * cols div 3 + 1)
     in min (max_labels + 1) lmax)"

definition reset_trees :: "nat \<Rightarrow> nat \<Rightarrow> nat \<Rightarrow> ConnectivityType \<Rightarrow> EquivalenceLabelTrees" where
  "reset_trees lmax rws cols conn =
    \<lparr>labels_vec = [0], labels_size = min (maxLabels lmax rws cols conn) lmax, next_free = 1\<rparr>"

definition makeLabel :: "EquivalenceLabelTrees \<Rightarrow> img_error + nat \<times> EquivalenceLabelTrees" where
  "makeLabel t =
    (if next_free t = labels_size t then Inl LabelOverflow
     else Inr (next_free t, t\<lparr>labels_vec := labels_vec t @ [next_free t], next_free := next_free t + 1\<rparr>))"

function findRoot :: "nat list \<Rightarrow> nat \<Rightarrow> nat" where
  "findRoot ls i = (if ls ! i < i then findRoot ls (ls ! i) else i)"
  by auto
termination by (relation "measure snd") auto

function setRoot :: "nat list \<Rightarrow> nat \<Rightarrow> nat \<Rightarrow> nat list" where
  "setRoot ls i r = (if ls ! i < i then setRoot (ls[i := r]) (ls ! i) r else ls[i := r])"
  by auto
termination by (relation "measure (\<lambda>(ls, i, r). i)") auto

declare findRoot.simps [simp del] setRoot.simps [simp del]

definition unionTrees :: "nat \<Rightarrow> nat \<Rightarrow> EquivalenceLabelTrees \<Rightarrow> nat \<times> EquivalenceLabelTrees" where
  "unionTrees i j t =
    (let ls = labels_vec t; root_i = findRoot ls i
     in if i \<noteq> j then
          (let root = min root_i (findRoot ls j)
           in (root, t\<lparr>labels_vec := setRoot (setRoot ls j root) i root\<rparr>))
        else (root_i, t\<lparr>labels_vec := setRoot ls i root_i\<rparr>))"

text \<open>
  \<open>getLabels\<close> returns the elements of the array and the size the vector is given at the end: \<open>resize\<close> to a smaller
  size keeps the elements in place behind the end of the vector.
\<close>

definition flatten_step :: "nat \<Rightarrow> nat list \<times> nat \<Rightarrow> nat list \<times> nat" where
  "flatten_step i s =
    (let ls = fst s; k = snd s
     in if ls ! i < i then (ls[i := ls ! (ls ! i)], k) else (ls[i := k], k + 1))"

definition getLabels :: "EquivalenceLabelTrees \<Rightarrow> nat list \<times> nat" where
  "getLabels t = fold flatten_step [1..<next_free t] (labels_vec t, 1)"

section \<open>Forests\<close>

definition forest :: "nat list \<Rightarrow> bool" where
  "forest ls \<longleftrightarrow> ls \<noteq> [] \<and> (\<forall>i<length ls. ls ! i \<le> i \<and> (ls ! i = 0 \<longrightarrow> i = 0))"

definition trees_ok :: "EquivalenceLabelTrees \<Rightarrow> bool" where
  "trees_ok t \<longleftrightarrow> forest (labels_vec t) \<and> length (labels_vec t) = next_free t \<and> next_free t \<le> labels_size t"

lemma forest_le: "forest ls \<Longrightarrow> i < length ls \<Longrightarrow> ls ! i \<le> i"
  by (simp add: forest_def)

lemma findRoot_le: "findRoot ls i \<le> i"
  by (induction ls i rule: findRoot.induct) (subst findRoot.simps, force)

lemma findRoot_stops: "\<not> ls ! findRoot ls i < findRoot ls i"
proof (induction ls i rule: findRoot.induct)
  case (1 ls i)
  then show ?case by (cases "ls ! i < i") (simp_all add: findRoot.simps [of ls i])
qed

lemma findRoot_parent: "forest ls \<Longrightarrow> i < length ls \<Longrightarrow> findRoot ls (ls ! i) = findRoot ls i"
  using forest_le [of ls i] by (cases "ls ! i = i") (simp_all add: findRoot.simps [of ls i])

lemma findRoot_root: "forest ls \<Longrightarrow> i < length ls \<Longrightarrow> ls ! findRoot ls i = findRoot ls i"
proof (induction ls i rule: findRoot.induct)
  case (1 ls i)
  then show ?case using forest_le [of ls i] by (subst (1 2) findRoot.simps) auto
qed

lemma findRoot_id: "ls ! i = i \<Longrightarrow> findRoot ls i = i"
  by (simp add: findRoot.simps)

lemma findRoot_idem: "forest ls \<Longrightarrow> i < length ls \<Longrightarrow> findRoot ls (findRoot ls i) = findRoot ls i"
  by (rule findRoot_id) (rule findRoot_root)

lemma findRoot_eq_0: "forest ls \<Longrightarrow> i < length ls \<Longrightarrow> findRoot ls i = 0 \<longleftrightarrow> i = 0"
proof (induction ls i rule: findRoot.induct)
  case (1 ls i)
  show ?case
  proof (cases "ls ! i < i")
    case True
    then show ?thesis using "1.IH" [OF True "1.prems"(1)] "1.prems" by (auto simp: findRoot.simps [of ls i] forest_def)
  qed (simp add: findRoot.simps [of ls i])
qed

lemma findRoot_less: "i < length ls \<Longrightarrow> findRoot ls i < length ls"
  using findRoot_le [of ls i] by simp

lemma findRoot_append: "i < length ls \<Longrightarrow> findRoot (ls @ xs) i = findRoot ls i"
proof (induction ls i rule: findRoot.induct)
  case (1 ls i)
  then show ?case by (simp add: findRoot.simps [of "ls @ xs" i] findRoot.simps [of ls i] nth_append)
qed

section \<open>Redirecting a path\<close>

text \<open>The root \<open>r\<close> a path is redirected to is a root of the forest, not above the root of the path.\<close>

lemma forest_update: "forest ls \<Longrightarrow> i < length ls \<Longrightarrow> r \<le> i \<Longrightarrow> (r = 0 \<longrightarrow> i = 0) \<Longrightarrow> forest (ls[i := r])"
  by (simp add: forest_def nth_list_update)

lemma findRoot_update:
  assumes "forest ls" "x < length ls" "i < length ls" "r \<le> i" "ls ! r = r"
  shows "findRoot (ls[i := r]) x = findRoot ls x \<or>
    findRoot (ls[i := r]) x = r \<and> findRoot ls x = findRoot ls i"
  using assms(2)
proof (induction x rule: less_induct)
  case (less x)
  have r: "findRoot (ls[i := r]) r = r"
    using assms by (intro findRoot_id) (simp add: nth_list_update)
  show ?case
  proof (cases "x = i")
    case True
    then show ?thesis
      using assms r by (cases "r = i") (simp_all add: findRoot.simps [of _ i])
  next
    case False
    show ?thesis
    proof (cases "ls ! x < x")
      case True
      then have "findRoot (ls[i := r]) x = findRoot (ls[i := r]) (ls ! x)" "findRoot ls x = findRoot ls (ls ! x)"
        using False by (simp_all add: findRoot.simps [of _ x])
      then show ?thesis using less.IH [OF True] True less.prems by simp
    next
      case nlt: False
      then show ?thesis using False by (simp add: findRoot.simps [of _ x])
    qed
  qed
qed

lemma findRoot_update_root:
  assumes "forest ls" "x < length ls" "ls ! i = i" "i < length ls" "r \<le> i" "ls ! r = r" "findRoot ls x = i"
  shows "findRoot (ls[i := r]) x = r"
proof -
  have "findRoot (ls[i := r]) x \<noteq> i \<or> r = i"
  proof (rule disjCI)
    assume "r \<noteq> i"
    then have "ls[i := r] ! i < i" using assms by simp
    then show "findRoot (ls[i := r]) x \<noteq> i" using findRoot_stops [of "ls[i := r]" x] by auto
  qed
  then show ?thesis using findRoot_update [OF assms(1,2,4,5,6)] assms(7) by auto
qed

lemma setRoot_spec:
  assumes "forest ls" "i < length ls" "r \<le> findRoot ls i" "ls ! r = r" "r = 0 \<longrightarrow> i = 0"
  shows "length (setRoot ls i r) = length ls \<and> forest (setRoot ls i r) \<and> setRoot ls i r ! r = r \<and>
    (\<forall>x<length ls. findRoot (setRoot ls i r) x = (if findRoot ls x = findRoot ls i then r else findRoot ls x))"
  using assms
proof (induction ls i r rule: setRoot.induct)
  case (1 ls i r)
  have ri: "r \<le> i" using "1.prems"(3) findRoot_le [of ls i] by simp
  have f1: "forest (ls[i := r])" using "1.prems" ri by (intro forest_update) auto
  show ?case
  proof (cases "ls ! i < i")
    case True
    define j where "j = ls ! i"
    have ji: "findRoot ls j = findRoot ls i" unfolding j_def by (rule findRoot_parent [OF "1.prems"(1,2)])
    have "r \<le> j" using "1.prems"(3) ji findRoot_le [of ls j] by simp
    then have rlt: "r < i" using True j_def by simp
    have fj: "findRoot (ls[i := r]) j = findRoot ls j"
    proof -
      have "findRoot (ls[i := r]) y = findRoot ls y" if "y < i" for y
        using that
      proof (induction y rule: less_induct)
        case (less y)
        then show ?case by (simp add: findRoot.simps [of "ls[i := r]" y] findRoot.simps [of ls y])
      qed
      then show ?thesis using True j_def by simp
    qed
    have j0: "r = 0 \<longrightarrow> j = 0" using "1.prems"(1,2,5) True by auto
    have IH: "length (setRoot (ls[i := r]) j r) = length ls \<and> forest (setRoot (ls[i := r]) j r) \<and>
      setRoot (ls[i := r]) j r ! r = r \<and>
      (\<forall>x<length ls. findRoot (setRoot (ls[i := r]) j r) x =
        (if findRoot (ls[i := r]) x = findRoot (ls[i := r]) j then r else findRoot (ls[i := r]) x))"
      using "1.IH" [OF True] f1 "1.prems" True fj ji rlt j0 unfolding j_def by simp
    have eq: "setRoot ls i r = setRoot (ls[i := r]) j r" using True by (simp add: setRoot.simps [of ls i] j_def)
    have "findRoot (setRoot ls i r) x = (if findRoot ls x = findRoot ls i then r else findRoot ls x)"
      if "x < length ls" for x
      using findRoot_update [OF "1.prems"(1) that "1.prems"(2) ri "1.prems"(4)] IH that fj ji eq by auto
    then show ?thesis using IH eq by simp
  next
    case False
    then have root: "ls ! i = i" "findRoot ls i = i" using "1.prems" forest_le [of ls i]
      by (simp_all add: findRoot.simps [of ls i])
    have "findRoot (ls[i := r]) x = (if findRoot ls x = i then r else findRoot ls x)" if "x < length ls" for x
    proof (cases "findRoot ls x = i")
      case True
      then show ?thesis using findRoot_update_root [OF "1.prems"(1) that root(1) "1.prems"(2) ri "1.prems"(4)] by simp
    next
      case False
      then show ?thesis using findRoot_update [OF "1.prems"(1) that "1.prems"(2) ri "1.prems"(4)] root by auto
    qed
    moreover have "ls[i := r] ! r = r" using "1.prems" by (cases "r = i") simp_all
    moreover have "setRoot ls i r = ls[i := r]" using False by (simp add: setRoot.simps [of ls i])
    ultimately show ?thesis using f1 root by simp
  qed
qed

section \<open>The operations\<close>

definition root_of :: "EquivalenceLabelTrees \<Rightarrow> nat \<Rightarrow> nat" where
  "root_of t i = findRoot (labels_vec t) i"

lemma root_of_0 [simp]: "trees_ok t \<Longrightarrow> root_of t 0 = 0"
  by (auto simp: root_of_def trees_ok_def findRoot.simps)

lemma root_of_eq_0: "trees_ok t \<Longrightarrow> i < next_free t \<Longrightarrow> root_of t i = 0 \<longleftrightarrow> i = 0"
  unfolding root_of_def trees_ok_def using findRoot_eq_0 by auto

lemma root_of_less: "trees_ok t \<Longrightarrow> i < next_free t \<Longrightarrow> root_of t i < next_free t"
  unfolding root_of_def trees_ok_def using findRoot_less [of i "labels_vec t"] by auto

lemma root_of_idem: "trees_ok t \<Longrightarrow> i < next_free t \<Longrightarrow> root_of t (root_of t i) = root_of t i"
  unfolding root_of_def trees_ok_def by (simp add: findRoot_idem)

lemma reset_trees_ok: "2 \<le> lmax \<Longrightarrow> trees_ok (reset_trees lmax rws cols conn)"
  by (auto simp: trees_ok_def reset_trees_def forest_def maxLabels_def split: ConnectivityType.splits)

lemma makeLabel_spec:
  assumes "trees_ok t" "makeLabel t = Inr (l, t')"
  shows "trees_ok t'" "l = next_free t" "next_free t' = next_free t + 1" "labels_size t' = labels_size t"
    "root_of t' l = l" "\<And>i. i < next_free t \<Longrightarrow> root_of t' i = root_of t i"
proof -
  note t = assms(1) [unfolded trees_ok_def]
  have eq: "l = next_free t" "t' = t\<lparr>labels_vec := labels_vec t @ [next_free t], next_free := next_free t + 1\<rparr>"
    "next_free t \<noteq> labels_size t"
    using assms(2) by (auto simp: makeLabel_def split: if_splits)
  show "trees_ok t'" using t eq by (auto simp: trees_ok_def forest_def nth_append less_Suc_eq)
  show "l = next_free t" "next_free t' = next_free t + 1" "labels_size t' = labels_size t" by (simp_all add: eq)
  show "root_of t' l = l" using t by (simp add: root_of_def eq findRoot_id nth_append)
  show "root_of t' i = root_of t i" if "i < next_free t" for i
    using t that by (simp add: root_of_def eq findRoot_append)
qed

lemma makeLabel_ok: "next_free t < labels_size t \<Longrightarrow> \<exists>t'. makeLabel t = Inr (next_free t, t')"
  by (simp add: makeLabel_def)

lemma unionTrees_spec:
  assumes "trees_ok t" "i < next_free t" "j < next_free t" "0 < i" "0 < j" "unionTrees i j t = (r, t')"
  shows "trees_ok t'" "next_free t' = next_free t" "labels_size t' = labels_size t"
    "r = min (root_of t i) (root_of t j)" "r < next_free t" "root_of t' r = r"
    "\<And>x. x < next_free t \<Longrightarrow>
      root_of t' x = (if root_of t x = root_of t i \<or> root_of t x = root_of t j then r else root_of t x)"
proof -
  define ls where "ls = labels_vec t"
  have ls: "forest ls" "length ls = next_free t" using assms(1) by (auto simp: trees_ok_def ls_def)
  define ri where "ri = findRoot ls i"
  define rj where "rj = findRoot ls j"
  have roots: "ls ! ri = ri" "ls ! rj = rj" "ri \<noteq> 0" "rj \<noteq> 0" "ri < length ls" "rj < length ls"
    unfolding ri_def rj_def
    using ls assms findRoot_less [of i ls] findRoot_less [of j ls] by (simp_all add: findRoot_root findRoot_eq_0)
  define m where "m = min ri rj"
  have m: "ls ! m = m" "m \<noteq> 0" "m < length ls" "m \<le> ri" "m \<le> rj" using roots by (auto simp: m_def min_def)
  define ls1 where "ls1 = (if i = j then ls else setRoot ls j m)"
  define ls2 where "ls2 = setRoot ls1 i m"
  have eq: "r = m" "t' = t\<lparr>labels_vec := ls2\<rparr>"
    using assms(6) by (auto simp: unionTrees_def Let_def ls2_def ls1_def m_def ri_def rj_def ls_def split: if_splits)
  have 1: "length ls1 = length ls" "forest ls1" "ls1 ! m = m"
    "\<forall>x<length ls. findRoot ls1 x = (if i \<noteq> j \<and> findRoot ls x = rj then m else findRoot ls x)"
    using setRoot_spec [of ls j m] ls assms m unfolding ls1_def rj_def by auto
  have fi: "findRoot ls1 i = ri \<or> findRoot ls1 i = m" "i \<noteq> j \<longrightarrow> ri = rj \<longrightarrow> findRoot ls1 i = m"
    using 1(4) assms(2) ls by (auto simp: ri_def)
  have 2: "length ls2 = length ls" "forest ls2" "ls2 ! m = m"
    "\<forall>x<length ls. findRoot ls2 x = (if findRoot ls1 x = findRoot ls1 i then m else findRoot ls1 x)"
    using setRoot_spec [of ls1 i m] 1 ls assms m fi unfolding ls2_def by auto
  have "findRoot ls2 x = (if findRoot ls x = ri \<or> findRoot ls x = rj then m else findRoot ls x)"
    if "x < length ls" for x
    using 2(4) 1(4) that fi assms(2) ls by (auto simp: ri_def rj_def m_def)
  then show "\<And>x. x < next_free t \<Longrightarrow>
      root_of t' x = (if root_of t x = root_of t i \<or> root_of t x = root_of t j then r else root_of t x)"
    using ls by (simp add: root_of_def eq ls_def [symmetric] ri_def rj_def)
  show "trees_ok t'" using assms(1) 2 ls by (simp add: trees_ok_def eq ls_def)
  show "next_free t' = next_free t" "labels_size t' = labels_size t" by (simp_all add: eq)
  show "r = min (root_of t i) (root_of t j)" by (simp add: eq m_def root_of_def ri_def rj_def ls_def)
  show "r < next_free t" using m ls eq by simp
  show "root_of t' r = r" using 2 by (simp add: root_of_def eq findRoot_id)
qed

section \<open>The table of final labels\<close>

definition rank_of :: "nat list \<Rightarrow> nat \<Rightarrow> nat" where
  "rank_of ls r = (if r = 0 then 0 else Suc (card {i. 0 < i \<and> i < r \<and> ls ! i = i}))"

lemma rank_of_mono:
  assumes "r < r'" "ls ! r = r"
  shows "rank_of ls r < rank_of ls r'"
proof (cases "r = 0")
  case False
  have "{i. 0 < i \<and> i < r \<and> ls ! i = i} \<subset> {i. 0 < i \<and> i < r' \<and> ls ! i = i}"
    using assms False by auto
  then have "card {i. 0 < i \<and> i < r \<and> ls ! i = i} < card {i. 0 < i \<and> i < r' \<and> ls ! i = i}"
    by (intro psubset_card_mono) auto
  then show ?thesis using assms False by (simp add: rank_of_def)
qed (use assms in \<open>simp add: rank_of_def\<close>)

lemma rank_of_inj: "ls ! r = r \<Longrightarrow> ls ! r' = r' \<Longrightarrow> rank_of ls r = rank_of ls r' \<longleftrightarrow> r = r'"
  using rank_of_mono [of r r' ls] rank_of_mono [of r' r ls] by (cases r r' rule: linorder_cases) auto

lemma rank_of_Suc: "0 < i \<Longrightarrow> rank_of ls (Suc i) = rank_of ls i + (if ls ! i = i then 1 else 0)"
proof -
  assume "0 < i"
  then have "{j. 0 < j \<and> j < Suc i \<and> ls ! j = j} =
    {j. 0 < j \<and> j < i \<and> ls ! j = j} \<union> (if ls ! i = i then {i} else {})"
    by (auto simp: less_Suc_eq)
  then show ?thesis using \<open>0 < i\<close> by (simp add: rank_of_def)
qed

lemma rank_of_onto:
  "0 < n \<Longrightarrow> 0 < l \<Longrightarrow> l < rank_of ls n \<Longrightarrow> \<exists>r. 0 < r \<and> r < n \<and> ls ! r = r \<and> rank_of ls r = l"
proof (induction n rule: nat_induct_non_zero)
  case 1
  have "{i. 0 < i \<and> i < 1 \<and> ls ! i = i} = {}" by auto
  then have "rank_of ls 1 = 1" by (simp only: rank_of_def card.empty) simp
  then show ?case using 1 by simp
next
  case (Suc n)
  show ?case
  proof (cases "l < rank_of ls n")
    case True
    then show ?thesis using Suc by (meson less_SucI)
  next
    case False
    then have "ls ! n = n \<and> rank_of ls n = l" using Suc.prems(2) Suc.hyps by (auto simp: rank_of_Suc split: if_splits)
    then show ?thesis using Suc.hyps by blast
  qed
qed

lemma flatten_spec:
  assumes "forest ls" "0 < n" "n \<le> length ls"
  shows "let s = fold flatten_step [1..<n] (ls, 1)
    in length (fst s) = length ls \<and> snd s = rank_of ls n \<and>
       (\<forall>x<length ls. fst s ! x = (if x < n then rank_of ls (findRoot ls x) else ls ! x))"
  using assms(2,3)
proof (induction n rule: nat_induct_non_zero)
  case 1
  have "ls ! 0 = 0" using assms by (auto simp: forest_def)
  then show ?case using findRoot_id [of ls 0] by (auto simp: rank_of_def)
next
  case (Suc n)
  define s where "s = fold flatten_step [1..<n] (ls, 1)"
  have s: "length (fst s) = length ls" "snd s = rank_of ls n"
    "\<forall>x<length ls. fst s ! x = (if x < n then rank_of ls (findRoot ls x) else ls ! x)"
    using Suc by (auto simp: s_def Let_def)
  have step: "fold flatten_step [1..<Suc n] (ls, 1) = flatten_step n s"
    using Suc.hyps by (simp add: s_def)
  have nl: "n < length ls" using Suc.prems by simp
  show ?case
  proof (cases "ls ! n < n")
    case True
    then have "findRoot ls n = findRoot ls (ls ! n)" by (simp add: findRoot.simps [of ls n])
    then show ?thesis
      unfolding step using s nl True Suc.hyps
      by (auto simp: flatten_step_def Let_def nth_list_update less_Suc_eq rank_of_Suc)
  next
    case False
    then have "ls ! n = n" using forest_le [OF assms(1) nl] by simp
    then show ?thesis
      unfolding step using s nl Suc.hyps
      by (auto simp: flatten_step_def Let_def nth_list_update less_Suc_eq rank_of_Suc findRoot_id)
  qed
qed

lemma getLabels_spec:
  assumes "trees_ok t" "getLabels t = (table, k)"
  shows "length table = next_free t" "0 < k"
    "\<And>i. i < next_free t \<Longrightarrow> table ! i < k"
    "\<And>i. i < next_free t \<Longrightarrow> table ! i = 0 \<longleftrightarrow> i = 0"
    "\<And>i j. i < next_free t \<Longrightarrow> j < next_free t \<Longrightarrow> table ! i = table ! j \<longleftrightarrow> root_of t i = root_of t j"
    "\<And>l. 0 < l \<Longrightarrow> l < k \<Longrightarrow> \<exists>i. 0 < i \<and> i < next_free t \<and> table ! i = l"
proof -
  define ls where "ls = labels_vec t"
  have ls: "forest ls" "length ls = next_free t" using assms(1) by (auto simp: trees_ok_def ls_def)
  then have pos: "0 < next_free t" by (cases "next_free t") (auto simp: forest_def)
  have table: "length table = length ls" "k = rank_of ls (next_free t)"
    "\<forall>x<length ls. table ! x = rank_of ls (findRoot ls x)"
    using flatten_spec [OF ls(1) pos] assms(2) ls by (auto simp: getLabels_def ls_def Let_def)
  show "length table = next_free t" using table ls by simp
  show "0 < k" using table pos by (simp add: rank_of_def)
  show "table ! i < k" if "i < next_free t" for i
    using that ls table findRoot_less [of i ls] findRoot_root [OF ls(1), of i] by (auto intro: rank_of_mono)
  show "table ! i = 0 \<longleftrightarrow> i = 0" if "i < next_free t" for i
    using that ls table findRoot_eq_0 [OF ls(1), of i] by (auto simp: rank_of_def split: if_splits)
  show "table ! i = table ! j \<longleftrightarrow> root_of t i = root_of t j" if "i < next_free t" "j < next_free t" for i j
    using that ls table findRoot_root [OF ls(1), of i] findRoot_root [OF ls(1), of j]
    by (simp add: rank_of_inj root_of_def ls_def)
  show "\<exists>i. 0 < i \<and> i < next_free t \<and> table ! i = l" if "0 < l" "l < k" for l
    using rank_of_onto [OF pos that(1), of ls] that(2) table(2,3) ls(2) by (metis findRoot_id)
qed

end
