(* ===== verification/Component_Labelling.thy ===== *)
theory Component_Labelling
  imports Image_Processing
begin

text \<open>
  Correctness of the labelling in image_processing.hpp. Pixels are pairs of a row and a column. The scan visits them
  row by row; its invariant is that two visited obstacle pixels have labels with the same root exactly if they are
  connected through visited obstacle pixels. Labels are created only for pixels without a visited neighbour, so that
  their number is bounded by the number of mutually separate pixels of the image.
\<close>

section \<open>Connected pixels\<close>

definition links :: "('p \<Rightarrow> 'p \<Rightarrow> bool) \<Rightarrow> 'p set \<Rightarrow> ('p \<times> 'p) set" where
  "links adj F = {(p, q). p \<in> F \<and> q \<in> F \<and> adj p q}"

definition group_of :: "('p \<Rightarrow> 'p \<Rightarrow> bool) \<Rightarrow> 'p set \<Rightarrow> 'p \<Rightarrow> 'p set" where
  "group_of adj F p = {q \<in> F. (p, q) \<in> (links adj F)\<^sup>*}"

lemma links_mono: "F \<subseteq> G \<Longrightarrow> (x, y) \<in> (links adj F)\<^sup>* \<Longrightarrow> (x, y) \<in> (links adj G)\<^sup>*"
  by (rule rtrancl_mono [THEN subsetD]) (auto simp: links_def)

lemma insert_vertex:
  assumes sym: "\<And>p q. adj p q \<Longrightarrow> adj q p" and "p \<notin> F"
    and f: "\<And>x y. x \<in> F \<Longrightarrow> y \<in> F \<Longrightarrow> f x = f y \<longleftrightarrow> (x, y) \<in> (links adj F)\<^sup>*"
    and N: "N = {q \<in> F. adj p q}"
    and f': "f' p = m" "\<And>x. x \<in> F \<Longrightarrow> f' x = (if f x \<in> f ` N then m else f x)"
    and m: "m \<in> f ` N \<or> N = {} \<and> m \<notin> f ` F"
    and xy: "x \<in> insert p F" "y \<in> insert p F"
  shows "f' x = f' y \<longleftrightarrow> (x, y) \<in> (links adj (insert p F))\<^sup>*"
proof
  have edge: "f' u = f' v" if "(u, v) \<in> links adj (insert p F)" for u v
  proof (cases "u = p \<or> v = p")
    case True
    then show ?thesis using that sym f' N by (auto simp: links_def)
  next
    case False
    then have "(u, v) \<in> links adj F" using that by (auto simp: links_def)
    then have "f u = f v" using f by (auto simp: links_def)
    then show ?thesis using False that f'(2) by (auto simp: links_def)
  qed
  show "f' x = f' y" if "(x, y) \<in> (links adj (insert p F))\<^sup>*"
    using that by (induction rule: rtrancl_induct) (auto dest: edge)
next
  assume eq: "f' x = f' y"
  let ?L = "(links adj (insert p F))\<^sup>*"
  have old: "(u, v) \<in> ?L" if "u \<in> F" "v \<in> F" "f u = f v" for u v
    using that f links_mono [of F "insert p F" u v adj] by auto
  have to_p: "(u, p) \<in> ?L \<and> (p, u) \<in> ?L" if u: "u \<in> F" "f u \<in> f ` N" for u
  proof -
    obtain n where n: "n \<in> F" "adj p n" "f u = f n" using u N by auto
    then have "(p, n) \<in> ?L" "(n, p) \<in> ?L" using sym by (auto simp: links_def)
    moreover have "(u, n) \<in> ?L" "(n, u) \<in> ?L" using old u n by auto
    ultimately show ?thesis by (auto intro: rtrancl_trans)
  qed
  have as_p: "z = p \<or> z \<in> F \<and> f z \<in> f ` N" if "z \<in> insert p F" "f' z = m" for z
    using that f'(2) [of z] m by (metis imageI insertE)
  show "(x, y) \<in> ?L"
  proof (cases "f' x = m")
    case True
    then have "(x, p) \<in> ?L" "(p, y) \<in> ?L" using as_p [OF xy(1)] as_p [OF xy(2)] eq to_p by auto
    then show ?thesis by (rule rtrancl_trans)
  next
    case False
    then have "x \<in> F" "y \<in> F" "f x = f y" using xy eq f' by (auto split: if_splits)
    then show ?thesis by (rule old)
  qed
qed

section \<open>Pixels of an image\<close>

type_synonym pixel = "int \<times> int"

fun adjacent :: "ConnectivityType \<Rightarrow> pixel \<Rightarrow> pixel \<Rightarrow> bool" where
  "adjacent Way4 (r, c) (r', c') \<longleftrightarrow> \<bar>r - r'\<bar> + \<bar>c - c'\<bar> = 1"
| "adjacent Way8 (r, c) (r', c') \<longleftrightarrow> (r, c) \<noteq> (r', c') \<and> \<bar>r - r'\<bar> \<le> 1 \<and> \<bar>c - c'\<bar> \<le> 1"

lemma adjacent_sym: "adjacent conn p q \<Longrightarrow> adjacent conn q p"
  by (cases conn; cases p; cases q) auto

definition pixels :: "Image \<Rightarrow> pixel set" where
  "pixels im = {0..<int (img_rows im)} \<times> {0..<int (img_columns im)}"

definition pixel_at :: "Image \<Rightarrow> 'a::zero list \<Rightarrow> pixel \<Rightarrow> 'a" where
  "pixel_at im mem p = (if p \<in> pixels im then mem ! img_index im (nat (fst p)) (nat (snd p)) else 0)"

definition obstacles :: "(u8 \<Rightarrow> bool) \<Rightarrow> Image \<Rightarrow> u8 list \<Rightarrow> pixel set" where
  "obstacles is_bg im mem = {p \<in> pixels im. \<not> is_bg (pixel_at im mem p)}"

definition before :: "Image \<Rightarrow> int \<Rightarrow> int \<Rightarrow> pixel set" where
  "before im r c = {p \<in> pixels im. fst p < r \<or> fst p = r \<and> snd p < c}"

lemma finite_pixels [simp]: "finite (pixels im)"
  by (simp add: pixels_def)

lemma before_Suc:
  "(r, c) \<in> pixels im \<Longrightarrow> before im r (c + 1) = insert (r, c) (before im r c)"
  by (auto simp: before_def)

lemma before_row: "before im (r + 1) 0 = before im r (int (img_columns im))"
  by (auto simp: before_def pixels_def)

section \<open>What the windows show\<close>

text \<open>
  A window at a pixel shows the four neighbours visited before it. With \<open>full\<close> it shows zero outside the image; the
  windows over the labels promise this only for the pixel above.
\<close>

definition window_at :: "Image \<Rightarrow> 'a::zero list \<Rightarrow> window \<Rightarrow> pixel \<Rightarrow> bool \<Rightarrow> bool" where
  "window_at im mem w p full \<longleftrightarrow>
    (let r = fst p; c = snd p
     in down_row w = img_row im (nat r) + c \<and> win_e mem w = Inr (pixel_at im mem p) \<and>
        (full \<or> (r - 1, c - 1) \<in> pixels im \<longrightarrow> win_a mem w = Inr (pixel_at im mem (r - 1, c - 1))) \<and>
        win_b mem w = Inr (pixel_at im mem (r - 1, c)) \<and>
        (full \<or> (r - 1, c + 1) \<in> pixels im \<longrightarrow> win_c mem w = Inr (pixel_at im mem (r - 1, c + 1))) \<and>
        (full \<or> (r, c - 1) \<in> pixels im \<longrightarrow> win_d mem w = Inr (pixel_at im mem (r, c - 1))))"

lemma read_pixel:
  assumes "img_fits im mem" "r < img_rows im" "0 \<le> c" "c < int (img_columns im)"
  shows "read_at mem (img_row im r + c) = Inr (pixel_at im mem (int r, c))"
  using read_at_img [OF assms(1,2), of "nat c" mem] assms by (simp add: pixel_at_def pixels_def)

lemma in_row_iff: "in_row (img_row im r) (img_columns im) (img_row im r + c) \<longleftrightarrow> 0 \<le> c \<and> c < int (img_columns im)"
  by (auto simp: in_row_def)

lemma pixel_outside: "\<not> (0 \<le> c \<and> c < int (img_columns im)) \<Longrightarrow> pixel_at im mem (r, c) = 0"
  by (auto simp: pixel_at_def pixels_def)

lemma border_up_safe:
  assumes "img_fits im mem" "r < img_rows im"
  shows "border_up (ReplaceToZero (Some (img_row im r)) d (img_columns im)) mem (img_row im r + c) =
    Inr (pixel_at im mem (int r, c))"
  using read_pixel [OF assms, of c] pixel_outside [of c im mem "int r"]
  by (auto simp: border_up_def in_row_iff)

lemma border_down_safe:
  assumes "img_fits im mem" "r < img_rows im"
  shows "border_down (ReplaceToZero u (img_row im r) (img_columns im)) mem (img_row im r + c) =
    Inr (pixel_at im mem (int r, c))"
  using read_pixel [OF assms, of c] pixel_outside [of c im mem "int r"]
  by (auto simp: border_down_def in_row_iff)

lemma border_none: "border_up (ReplaceToZero None d cols) mem v = Inr 0"
  by (simp add: border_up_def)

lemma border_nothing: "border_up DoNothing = read_at" "border_down DoNothing = read_at"
  by (simp_all add: border_up_def border_down_def fun_eq_iff)

lemmas window_simps = win_a_def win_b_def win_c_def win_d_def win_e_def makeSafeWindow_def makeUnsafeWindow_def
  border_none border_nothing add_diff_eq [symmetric] add.assoc

lemma window_first:
  assumes "img_fits im mem" "0 < img_rows im" "c < img_columns im"
  shows "window_at im mem (makeSafeWindow None (img_row im 0) (img_columns im) c) (0, int c) True"
proof -
  have above: "pixel_at im mem (- 1, x) = 0" for x by (simp add: pixel_at_def pixels_def)
  show ?thesis
    using read_pixel [OF assms(1,2), of "int c"] border_down_safe [OF assms(1,2), of None "int c - 1"] assms
    by (simp add: window_at_def window_simps above)
qed

lemma window_safe:
  assumes "img_fits im mem" "r + 1 < img_rows im" "c < img_columns im"
  shows "window_at im mem (makeSafeWindow (Some (img_row im r)) (img_row im (r + 1)) (img_columns im) c)
    (int r + 1, int c) True"
proof -
  have r: "r < img_rows im" "nat (int r + 1) = Suc r" using assms(2) by simp_all
  show ?thesis
    using border_up_safe [OF assms(1) r(1)] border_down_safe [OF assms(1,2)] read_pixel [OF assms(1,2), of "int c"] assms r
    by (simp add: window_at_def window_simps add.commute [of 1] Let_def)
qed

lemma window_unsafe:
  assumes "img_fits im mem" "r + 1 < img_rows im" "c < img_columns im"
  shows "window_at im mem (makeUnsafeWindow (img_row im r + int c) (img_row im (r + 1) + int c))
    (int r + 1, int c) (0 < c \<and> c + 1 < img_columns im)"
proof -
  have r: "r < img_rows im" "nat (int r + 1) = Suc r" using assms(2) by simp_all
  note up = read_pixel [OF assms(1) r(1)] and down = read_pixel [OF assms(1,2)]
  have cols: "0 < c \<and> c + 1 < img_columns im \<or> (int r, int c - 1) \<in> pixels im \<longrightarrow> 0 \<le> int c - 1"
    "0 < c \<and> c + 1 < img_columns im \<or> (int r + 1, int c - 1) \<in> pixels im \<longrightarrow> 0 \<le> int c - 1"
    "0 < c \<and> c + 1 < img_columns im \<or> (int r, int c + 1) \<in> pixels im \<longrightarrow> int c + 1 < int (img_columns im)"
    by (auto simp: pixels_def)
  show ?thesis
    using up [of "int c - 1"] up [of "int c"] up [of "int c + 1"] down [of "int c - 1"] down [of "int c"] assms(3) r cols
    by (simp add: window_at_def window_simps add.commute [of 1] Let_def)
qed

section \<open>The invariant of the scan\<close>

definition separate :: "ConnectivityType \<Rightarrow> pixel set \<Rightarrow> bool" where
  "separate conn C \<longleftrightarrow> (\<forall>p\<in>C. \<forall>q\<in>C. \<not> adjacent conn p q)"

definition okE :: "(img_error \<Rightarrow> bool) \<Rightarrow> ('s \<Rightarrow> bool) \<Rightarrow> img_error + 's \<Rightarrow> bool" where
  "okE bad Q x = (case x of Inl e \<Rightarrow> bad e | Inr s \<Rightarrow> Q s)"

lemma okE_simps [simp]: "okE bad Q (Inl e) = bad e" "okE bad Q (Inr s) = Q s"
  by (simp_all add: okE_def)

lemma okE_bind: "okE bad Q x \<Longrightarrow> (\<And>s. Q s \<Longrightarrow> okE bad R (f s)) \<Longrightarrow> okE bad R (bindE x f)"
  by (cases x) auto

lemma okE_upt:
  assumes "\<And>i s. a \<le> i \<Longrightarrow> i < b \<Longrightarrow> I i s \<Longrightarrow> okE bad (I (Suc i)) (f i s)" and "a \<le> b" "I a s"
  shows "okE bad (I b) (foldE f [a..<b] s)"
  using assms(2)
proof (induction rule: dec_induct)
  case (step n)
  have "okE bad (I (Suc n)) (bindE (foldE f [a..<n] s) (\<lambda>s'. bindE (f n s') Inr))"
  proof (rule okE_bind [OF step.IH])
    fix s' assume "I n s'"
    then have "okE bad (I (Suc n)) (f n s')" using assms(1) step.hyps by simp
    then show "okE bad (I (Suc n)) (bindE (f n s') Inr)" by (cases "f n s'") auto
  qed
  moreover have "foldE f [n] = (\<lambda>s'. bindE (f n s') Inr)" by (intro ext) (auto simp: bindE_def split: sum.splits)
  ultimately show ?case using step.hyps by (simp add: foldE_append)
qed (use assms(3) in simp)

definition scan_inv :: "ConnectivityType \<Rightarrow> pixel set \<Rightarrow> Image \<Rightarrow> nat \<Rightarrow> nat \<Rightarrow> pixel set \<Rightarrow> labelling \<Rightarrow> bool" where
  "scan_inv conn F lbl n cap P s \<longleftrightarrow>
    trees_ok (snd s) \<and> labels_size (snd s) = cap \<and> length (fst s) = n \<and>
    (\<forall>p\<in>P. (pixel_at lbl (fst s) p = 0 \<longleftrightarrow> p \<notin> F) \<and> pixel_at lbl (fst s) p < next_free (snd s)) \<and>
    (\<forall>x\<in>P \<inter> F. \<forall>y\<in>P \<inter> F.
      root_of (snd s) (pixel_at lbl (fst s) x) = root_of (snd s) (pixel_at lbl (fst s) y) \<longleftrightarrow>
      (x, y) \<in> (links (adjacent conn) (P \<inter> F))\<^sup>*) \<and>
    (\<exists>C \<subseteq> P \<inter> F. separate conn C \<and> card C + 1 = next_free (snd s)) \<and>
    (\<forall>i. 0 < i \<and> i < next_free (snd s) \<longrightarrow> (\<exists>p\<in>P \<inter> F. pixel_at lbl (fst s) p = i))"

lemma pixel_at_update:
  assumes "img_fits lbl lm" "p \<in> pixels lbl" "q \<in> pixels lbl"
  shows "pixel_at lbl (lm[img_index lbl (nat (fst p)) (nat (snd p)) := l]) q = (if q = p then l else pixel_at lbl lm q)"
proof -
  have *: "nat (snd x) < img_columns lbl" "nat (fst x) < img_rows lbl" "0 \<le> fst x" "0 \<le> snd x"
    if "x \<in> pixels lbl" for x using that by (auto simp: pixels_def)
  have "img_index lbl (nat (fst p)) (nat (snd p)) = img_index lbl (nat (fst q)) (nat (snd q)) \<longleftrightarrow> p = q"
    using img_index_eq [OF assms(1), of "nat (snd p)" "nat (snd q)" "nat (fst p)" "nat (fst q)"] *[OF assms(2)] *[OF assms(3)]
    by (auto simp: prod_eq_iff)
  then show ?thesis
    using assms img_fits_less [OF assms(1), of "nat (fst p)" "nat (snd p)"] *[OF assms(2)]
    by (auto simp: pixel_at_def nth_list_update)
qed

lemma scan_inv_background:
  assumes inv: "scan_inv conn F lbl n cap P s" and "img_fits lbl (fst s)" "p \<in> pixels lbl" "p \<notin> P" "p \<notin> F" "P \<subseteq> pixels lbl"
  shows "scan_inv conn F lbl n cap (insert p P) ((fst s)[img_index lbl (nat (fst p)) (nat (snd p)) := 0], snd s)"
proof -
  have new: "pixel_at lbl ((fst s)[img_index lbl (nat (fst p)) (nat (snd p)) := 0]) q =
    (if q = p then 0 else pixel_at lbl (fst s) q)" if "q \<in> insert p P" for q
    using pixel_at_update [OF assms(2,3), of q] that assms(3,6) by auto
  have "0 < next_free (snd s)" using inv by (auto simp: scan_inv_def trees_ok_def forest_def)
  moreover have "insert p P \<inter> F = P \<inter> F" using assms(5) by auto
  moreover have "\<exists>q\<in>P \<inter> F. pixel_at lbl ((fst s)[img_index lbl (nat (fst p)) (nat (snd p)) := 0]) q = i"
    if i: "0 < i \<and> i < next_free (snd s)" for i
  proof -
    obtain q where q: "q \<in> P \<inter> F" "pixel_at lbl (fst s) q = i" using inv i unfolding scan_inv_def by blast
    then show ?thesis using new [of q] assms(5) by (intro bexI [of _ q]) auto
  qed
  ultimately show ?thesis
    using inv new assms(4,5) unfolding scan_inv_def by (auto simp: Ball_def)
qed

lemma scan_inv_obstacle:
  fixes s :: labelling and lbl :: Image
  defines "f \<equiv> \<lambda>x. root_of (snd s) (pixel_at lbl (fst s) x)"
  assumes inv: "scan_inv conn F lbl n cap P s" and fits: "img_fits lbl (fst s)"
    and p: "p \<in> pixels lbl" "p \<notin> P" "p \<in> F" "P \<subseteq> pixels lbl"
    and N: "N = {q \<in> P \<inter> F. adjacent conn p q}"
    and t': "trees_ok t'" "labels_size t' = cap" "next_free (snd s) \<le> next_free t'"
    and l: "0 < l" "l < next_free t'"
    and f': "\<And>x. x \<in> P \<inter> F \<Longrightarrow> root_of t' (pixel_at lbl (fst s) x) = (if f x \<in> f ` N then root_of t' l else f x)"
    and m: "root_of t' l \<in> f ` N \<or> N = {} \<and> root_of t' l \<notin> f ` (P \<inter> F)"
    and C: "next_free t' = next_free (snd s) \<or> N = {} \<and> next_free t' = next_free (snd s) + 1 \<and> l = next_free (snd s)"
  shows "scan_inv conn F lbl n cap (insert p P) ((fst s)[img_index lbl (nat (fst p)) (nat (snd p)) := l], t')"
proof -
  let ?L = "pixel_at lbl ((fst s)[img_index lbl (nat (fst p)) (nat (snd p)) := l])"
  have new: "?L q = (if q = p then l else pixel_at lbl (fst s) q)" if "q \<in> insert p P" for q
    using pixel_at_update [OF fits p(1), of q] that p by auto
  have ins: "insert p P \<inter> F = insert p (P \<inter> F)" using p by auto
  have eqv: "root_of t' (?L x) = root_of t' (?L y) \<longleftrightarrow> (x, y) \<in> (links (adjacent conn) (insert p (P \<inter> F)))\<^sup>*"
    if "x \<in> insert p (P \<inter> F)" "y \<in> insert p (P \<inter> F)" for x y
  proof (rule insert_vertex [where f = f and m = "root_of t' l" and N = N and p = p and F = "P \<inter> F" and adj = "adjacent conn"
        and f' = "\<lambda>q. root_of t' (?L q)", OF adjacent_sym _ _ N _ _ m that])
    show "p \<notin> P \<inter> F" using p by simp
    show "f x = f y \<longleftrightarrow> (x, y) \<in> (links (adjacent conn) (P \<inter> F))\<^sup>*" if "x \<in> P \<inter> F" "y \<in> P \<inter> F" for x y
      using inv that unfolding scan_inv_def f_def by blast
    show "root_of t' (?L p) = root_of t' l" using new by simp
    show "root_of t' (?L x) = (if f x \<in> f ` N then root_of t' l else f x)" if "x \<in> P \<inter> F" for x
      using new [of x] f' [OF that] that p(2) by auto
  qed
  obtain C where C0: "C \<subseteq> P \<inter> F" "separate conn C" "card C + 1 = next_free (snd s)"
    using inv unfolding scan_inv_def by blast
  have fin: "finite C" using C0 p(4) finite_subset [of C "pixels lbl"] by auto
  have "\<exists>C \<subseteq> insert p P \<inter> F. separate conn C \<and> card C + 1 = next_free t'"
  proof (cases "next_free t' = next_free (snd s)")
    case False
    then have N0: "N = {}" "next_free t' = next_free (snd s) + 1" using C by simp_all
    have irr: "\<not> adjacent conn p p" by (cases conn; cases p) auto
    have far: "\<not> adjacent conn p q" if "q \<in> C" for q using that C0(1) N0(1) N by blast
    then have "\<not> adjacent conn q p" if "q \<in> C" for q using that adjacent_sym by blast
    then have "separate conn (insert p C)"
      using C0(2) irr far unfolding separate_def by blast
    moreover have "card (insert p C) = card C + 1" using fin C0(1) p(2) by (subst card_insert_disjoint) auto
    ultimately show ?thesis using C0 N0 p by (intro exI [of _ "insert p C"]) auto
  qed (use C0 in auto)
  moreover have "\<exists>q\<in>insert p (P \<inter> F). ?L q = i" if i: "0 < i" "i < next_free t'" for i
  proof (cases "i < next_free (snd s)")
    case True
    then obtain q where q: "q \<in> P \<inter> F" "pixel_at lbl (fst s) q = i" using inv i(1) unfolding scan_inv_def by blast
    then show ?thesis using new [of q] p(2) by (intro bexI [of _ q]) auto
  next
    case False
    then have "i = l" using C i(2) by auto
    then show ?thesis using new [of p] by (intro bexI [of _ p]) simp_all
  qed
  ultimately show ?thesis
    unfolding scan_inv_def ins using inv new eqv t' l p by (auto simp: scan_inv_def ins intro: less_le_trans)
qed

section \<open>One pixel\<close>

lemma set_label_at:
  assumes "img_fits lbl lm" "window_at lbl lm wl p full" "p \<in> pixels lbl"
  shows "set_label wl lm t l = Inr (lm[img_index lbl (nat (fst p)) (nat (snd p)) := l], t)"
proof -
  have p: "nat (fst p) < img_rows lbl" "nat (snd p) < img_columns lbl" "snd p = int (nat (snd p))"
    using assms(3) by (auto simp: pixels_def)
  have "down_row wl = img_row lbl (nat (fst p)) + int (nat (snd p))"
    using assms(2) p(3) by (simp add: window_at_def Let_def)
  then show ?thesis using write_at_img [OF assms(1) p(1,2) refl] by (simp add: set_label_def)
qed

lemma scan_inv_label:
  assumes "scan_inv conn F lbl n cap P s" "q \<in> P \<inter> F"
  shows "0 < pixel_at lbl (fst s) q" "pixel_at lbl (fst s) q < next_free (snd s)"
  using assms by (auto simp: scan_inv_def)

lemma scan_inv_root:
  assumes "scan_inv conn F lbl n cap P s" "x \<in> P \<inter> F" "y \<in> P \<inter> F"
  shows "root_of (snd s) (pixel_at lbl (fst s) x) = root_of (snd s) (pixel_at lbl (fst s) y) \<longleftrightarrow>
    (x, y) \<in> (links (adjacent conn) (P \<inter> F))\<^sup>*"
  using assms unfolding scan_inv_def by metis

lemma copy_label_inv:
  assumes inv: "scan_inv conn F lbl n cap P s" and fits: "img_fits lbl (fst s)" and wl: "window_at lbl (fst s) wl p full"
    and p: "p \<in> pixels lbl" "p \<notin> P" "p \<in> F" "P \<subseteq> pixels lbl"
    and N: "N = {q \<in> P \<inter> F. adjacent conn p q}" and q: "q \<in> N"
    and same: "\<And>x. x \<in> N \<Longrightarrow> (x, q) \<in> (links (adjacent conn) (P \<inter> F))\<^sup>*"
    and rd: "rd (fst s) wl = Inr (pixel_at lbl (fst s) q)"
  shows "okE bad (scan_inv conn F lbl n cap (insert p P)) (copy_label rd wl s)"
proof -
  let ?f = "\<lambda>x. root_of (snd s) (pixel_at lbl (fst s) x)"
  have qP: "q \<in> P \<inter> F" using q N by simp
  have N': "x \<in> P \<inter> F" if "x \<in> N" for x using that N by simp
  have all: "?f x = ?f q" if "x \<in> N" for x
    using scan_inv_root [OF inv N' [OF that] qP] same [OF that] by simp
  have img: "?f ` N = {?f q}"
  proof (intro equalityI image_subsetI)
    show "?f x \<in> {?f q}" if "x \<in> N" for x unfolding singleton_iff by (rule all [OF that])
  qed (use q in simp)
  have t: "trees_ok (snd s)" "labels_size (snd s) = cap" using inv by (simp_all add: scan_inv_def)
  have "scan_inv conn F lbl n cap (insert p P)
    ((fst s)[img_index lbl (nat (fst p)) (nat (snd p)) := pixel_at lbl (fst s) q], snd s)"
  proof (rule scan_inv_obstacle [OF inv fits p N t])
    show "?f x = (if ?f x \<in> ?f ` N then ?f q else ?f x)" if "x \<in> P \<inter> F" for x unfolding img by simp
    show "?f q \<in> ?f ` N \<or> N = {} \<and> ?f q \<notin> ?f ` (P \<inter> F)" using q by simp
  qed (use scan_inv_label [OF inv qP] in simp_all)
  then show ?thesis by (simp add: copy_label_def rd set_label_at [OF fits wl p(1)])
qed

lemma union_labels_inv:
  assumes inv: "scan_inv conn F lbl n cap P s" and fits: "img_fits lbl (fst s)" and wl: "window_at lbl (fst s) wl p full"
    and p: "p \<in> pixels lbl" "p \<notin> P" "p \<in> F" "P \<subseteq> pixels lbl"
    and N: "N = {q \<in> P \<inter> F. adjacent conn p q}" and q: "q1 \<in> N" "q2 \<in> N"
    and same: "\<And>x. x \<in> N \<Longrightarrow> (x, q1) \<in> (links (adjacent conn) (P \<inter> F))\<^sup>* \<or> (x, q2) \<in> (links (adjacent conn) (P \<inter> F))\<^sup>*"
    and rd: "rd1 (fst s) wl = Inr (pixel_at lbl (fst s) q1)" "rd2 (fst s) wl = Inr (pixel_at lbl (fst s) q2)"
  shows "okE bad (scan_inv conn F lbl n cap (insert p P)) (union_labels rd1 rd2 wl s)"
proof -
  let ?L = "pixel_at lbl (fst s)"
  let ?f = "\<lambda>x. root_of (snd s) (?L x)"
  have qP: "q1 \<in> P \<inter> F" "q2 \<in> P \<inter> F" using q N by simp_all
  have N': "x \<in> P \<inter> F" if "x \<in> N" for x using that N by simp
  have all: "?f x = ?f q1 \<or> ?f x = ?f q2" if "x \<in> N" for x
    using scan_inv_root [OF inv N' [OF that] qP(1)] scan_inv_root [OF inv N' [OF that] qP(2)] same [OF that] by simp
  have img: "?f ` N = {?f q1, ?f q2}"
  proof (intro equalityI image_subsetI)
    show "?f x \<in> {?f q1, ?f q2}" if "x \<in> N" for x unfolding insert_iff empty_iff using all [OF that] by (simp only: simp_thms)
  qed (use q in simp)
  have t: "trees_ok (snd s)" "labels_size (snd s) = cap" using inv by (simp_all add: scan_inv_def)
  obtain r t' where u: "unionTrees (?L q1) (?L q2) (snd s) = (r, t')" by fastforce
  note l1 = scan_inv_label [OF inv qP(1)] and l2 = scan_inv_label [OF inv qP(2)]
  note us = unionTrees_spec [OF t(1) l1(2) l2(2) l1(1) l2(1) u]
  have r: "r \<in> {?f q1, ?f q2}" using us(4) by (auto simp: min_def)
  have "0 < r" using us(4) root_of_eq_0 [OF t(1) l1(2)] root_of_eq_0 [OF t(1) l2(2)] l1 l2 by (simp add: min_def)
  have "scan_inv conn F lbl n cap (insert p P) ((fst s)[img_index lbl (nat (fst p)) (nat (snd p)) := r], t')"
  proof (rule scan_inv_obstacle [OF inv fits p N us(1)])
    show "root_of t' (?L x) = (if ?f x \<in> ?f ` N then root_of t' r else ?f x)" if "x \<in> P \<inter> F" for x
      using us(6) us(7) [OF scan_inv_label(2) [OF inv that]] unfolding img by auto
    show "root_of t' r \<in> ?f ` N \<or> N = {} \<and> root_of t' r \<notin> ?f ` (P \<inter> F)" using us(6) r img by simp
  qed (use us t \<open>0 < r\<close> in auto)
  then show ?thesis by (simp add: union_labels_def rd u set_label_at [OF fits wl p(1)])
qed

definition label_shortage :: "ConnectivityType \<Rightarrow> pixel set \<Rightarrow> nat \<Rightarrow> img_error \<Rightarrow> bool" where
  "label_shortage conn F cap e \<longleftrightarrow> e = LabelOverflow \<and> (\<exists>C \<subseteq> F. separate conn C \<and> card C = cap)"

lemma new_label_inv:
  assumes inv: "scan_inv conn F lbl n cap P s" and fits: "img_fits lbl (fst s)" and wl: "window_at lbl (fst s) wl p full"
    and p: "p \<in> pixels lbl" "p \<notin> P" "p \<in> F" "P \<subseteq> pixels lbl"
    and N: "{} = {q \<in> P \<inter> F. adjacent conn p q}"
  shows "okE (label_shortage conn F cap) (scan_inv conn F lbl n cap (insert p P)) (new_label wl s)"
proof (cases "next_free (snd s) = labels_size (snd s)")
  case True
  obtain C where C: "C \<subseteq> P \<inter> F" "separate conn C" "card C + 1 = next_free (snd s)"
    using inv unfolding scan_inv_def by blast
  have "finite C" using C p(4) finite_subset [of C "pixels lbl"] by auto
  moreover have "separate conn (insert p C)"
  proof -
    have far: "\<not> adjacent conn p q" if "q \<in> C" for q using that C(1) N by blast
    then have "\<not> adjacent conn q p" if "q \<in> C" for q using that adjacent_sym by blast
    moreover have "\<not> adjacent conn p p" by (cases conn; cases p) auto
    ultimately show ?thesis using C(2) far unfolding separate_def by blast
  qed
  moreover have "labels_size (snd s) = cap" using inv by (simp add: scan_inv_def)
  moreover have "p \<notin> C" using C p by auto
  ultimately have "label_shortage conn F cap LabelOverflow"
    using C True p(3) unfolding label_shortage_def by (intro conjI exI [of _ "insert p C"]) auto
  then show ?thesis using True by (simp add: new_label_def makeLabel_def)
next
  case False
  have t: "trees_ok (snd s)" "labels_size (snd s) = cap" using inv by (simp_all add: scan_inv_def)
  then have "next_free (snd s) < labels_size (snd s)" using False by (simp add: trees_ok_def)
  then obtain t' where mk: "makeLabel (snd s) = Inr (next_free (snd s), t')" using makeLabel_ok by blast
  note ms = makeLabel_spec [OF t(1) mk]
  let ?L = "pixel_at lbl (fst s)"
  let ?l = "next_free (snd s)"
  have "scan_inv conn F lbl n cap (insert p P) ((fst s)[img_index lbl (nat (fst p)) (nat (snd p)) := ?l], t')"
  proof (rule scan_inv_obstacle [OF inv fits p N ms(1)])
    show "root_of t' (?L x) = (if root_of (snd s) (?L x) \<in> (\<lambda>x. root_of (snd s) (?L x)) ` {} then root_of t' ?l
      else root_of (snd s) (?L x))" if "x \<in> P \<inter> F" for x
      using ms(6) [OF scan_inv_label(2) [OF inv that]] by simp
    have "root_of (snd s) (?L x) \<noteq> ?l" if "x \<in> P \<inter> F" for x
      using root_of_less [OF t(1) scan_inv_label(2) [OF inv that]] by simp
    then have "?l \<notin> (\<lambda>x. root_of (snd s) (?L x)) ` (P \<inter> F)" unfolding image_iff by metis
    then show "root_of t' ?l \<in> (\<lambda>x. root_of (snd s) (?L x)) ` {} \<or>
      {} = {} \<and> root_of t' ?l \<notin> (\<lambda>x. root_of (snd s) (?L x)) ` (P \<inter> F)"
      using ms(5) by simp
    show "0 < ?l" using t by (cases "?l") (auto simp: trees_ok_def forest_def)
  qed (use ms(3,4) t(2) in simp_all)
  then show ?thesis by (simp add: new_label_def mk set_label_at [OF fits wl p(1)])
qed

definition prior :: "ConnectivityType \<Rightarrow> pixel \<Rightarrow> pixel set" where
  "prior conn p =
    (let r = fst p; c = snd p
     in case conn of Way4 \<Rightarrow> {(r - 1, c), (r, c - 1)}
        | Way8 \<Rightarrow> {(r - 1, c - 1), (r - 1, c), (r - 1, c + 1), (r, c - 1)})"

lemma prior_neighbours:
  assumes "F \<subseteq> pixels im"
  shows "{q \<in> before im (fst p) (snd p) \<inter> F. adjacent conn p q} = prior conn p \<inter> F"
  using assms by (cases conn; cases p) (auto simp: prior_def before_def pixels_def)

lemma prior_before: "F \<subseteq> pixels im \<Longrightarrow> q \<in> prior conn p \<Longrightarrow> q \<in> F \<Longrightarrow> q \<in> before im (fst p) (snd p) \<inter> F"
  using prior_neighbours [of F im p conn] by auto

lemma link_prior:
  assumes "F \<subseteq> pixels im" "x \<in> prior conn p \<inter> F" "y \<in> prior conn p \<inter> F" "x = y \<or> adjacent conn x y"
  shows "(x, y) \<in> (links (adjacent conn) (before im (fst p) (snd p) \<inter> F))\<^sup>*"
proof (cases "x = y")
  case False
  then have "(x, y) \<in> links (adjacent conn) (before im (fst p) (snd p) \<inter> F)"
    using assms prior_before [OF assms(1), of x conn p] prior_before [OF assms(1), of y conn p] by (simp add: links_def)
  then show ?thesis by (rule r_into_rtrancl)
qed simp

lemma is_bg_pixel:
  assumes "is_bg 0"
  shows "is_bg (pixel_at im mem q) \<longleftrightarrow> q \<notin> obstacles is_bg im mem"
  using assms by (auto simp: obstacles_def pixel_at_def)

lemma obstacles_pixels: "obstacles is_bg im mem \<subseteq> pixels im"
  by (auto simp: obstacles_def)

lemma pass_inv:
  fixes im lbl :: Image and mem :: "u8 list" and is_bg :: "u8 \<Rightarrow> bool"
  defines "F \<equiv> obstacles is_bg im mem"
  assumes bg: "is_bg 0" and dims: "img_rows lbl = img_rows im" "img_columns lbl = img_columns im"
    and p: "p \<in> pixels im" and inv: "scan_inv conn F lbl n cap (before im (fst p) (snd p)) s"
    and fits: "img_fits lbl (fst s)"
    and wi: "window_at im mem wi p True" and wl: "window_at lbl (fst s) wl p full"
  shows "okE (label_shortage conn F cap) (scan_inv conn F lbl n cap (insert p (before im (fst p) (snd p))))
    (pass conn is_bg mem wi wl s)"
proof -
  define P where "P = before im (fst p) (snd p)"
  define r where "r = fst p"
  define c where "c = snd p"
  have pix: "pixels lbl = pixels im" using dims by (simp add: pixels_def)
  have F: "F \<subseteq> pixels im" unfolding F_def by (rule obstacles_pixels)
  have P: "p \<notin> P" "P \<subseteq> pixels lbl" unfolding P_def before_def pix by auto
  have pl: "p \<in> pixels lbl" using p pix by simp
  have inv': "scan_inv conn F lbl n cap P s" using inv unfolding P_def .
  note bgp = is_bg_pixel [where is_bg = is_bg, OF bg, of im mem, folded F_def]
  have rd: "win_e mem wi = Inr (pixel_at im mem p)" "win_a mem wi = Inr (pixel_at im mem (r - 1, c - 1))"
    "win_b mem wi = Inr (pixel_at im mem (r - 1, c))" "win_c mem wi = Inr (pixel_at im mem (r - 1, c + 1))"
    "win_d mem wi = Inr (pixel_at im mem (r, c - 1))"
    using wi by (simp_all add: window_at_def Let_def r_def c_def)
  have lb: "win_b (fst s) wl = Inr (pixel_at lbl (fst s) (r - 1, c))"
    "\<And>q. q = (r - 1, c - 1) \<Longrightarrow> q \<in> F \<Longrightarrow> win_a (fst s) wl = Inr (pixel_at lbl (fst s) q)"
    "\<And>q. q = (r - 1, c + 1) \<Longrightarrow> q \<in> F \<Longrightarrow> win_c (fst s) wl = Inr (pixel_at lbl (fst s) q)"
    "\<And>q. q = (r, c - 1) \<Longrightarrow> q \<in> F \<Longrightarrow> win_d (fst s) wl = Inr (pixel_at lbl (fst s) q)"
    using wl F pix by (auto simp: window_at_def Let_def r_def c_def)
  have N: "prior conn p \<inter> F = {q \<in> P \<inter> F. adjacent conn p q}"
    unfolding P_def using prior_neighbours [OF F] by simp
  note link = link_prior [OF F, of _ conn p, folded P_def]
  show ?thesis
  proof (cases "p \<in> F")
    case False
    have "set_label wl (fst s) (snd s) 0 = Inr ((fst s)[img_index lbl (nat (fst p)) (nat (snd p)) := 0], snd s)"
      by (rule set_label_at [OF fits wl pl])
    then show ?thesis
      using scan_inv_background [OF inv' fits pl P(1) False P(2)] False rd(1) bgp
      by (cases conn) (simp_all add: pass_way4_def pass_way8_def P_def)
  next
    case True
    note copy = copy_label_inv [OF inv' fits wl pl P(1) True P(2) N, where bad = "label_shortage conn F cap"]
    note union = union_labels_inv [OF inv' fits wl pl P(1) True P(2) N, where bad = "label_shortage conn F cap"]
    have new: "okE (label_shortage conn F cap) (scan_inv conn F lbl n cap (insert p P)) (new_label wl s)"
      if "prior conn p \<inter> F = {}"
      by (rule new_label_inv [OF inv' fits wl pl P(1) True P(2)]) (use N that in simp)
    show ?thesis
    proof (cases conn)
      case Way4
      have pr: "prior conn p = {(r - 1, c), (r, c - 1)}" by (simp add: prior_def Way4 r_def c_def Let_def)
      show ?thesis
      proof (cases "(r - 1, c) \<in> F"; cases "(r, c - 1) \<in> F")
        assume bd: "(r - 1, c) \<in> F" "(r, c - 1) \<in> F"
        have "okE (label_shortage conn F cap) (scan_inv conn F lbl n cap (insert p P)) (union_labels win_d win_b wl s)"
          by (rule union [of "(r, c - 1)" "(r - 1, c)"]) (use bd lb pr link in auto)
        then show ?thesis using True bd rd bgp Way4 by (simp add: pass_way4_def P_def)
      next
        assume bd: "(r - 1, c) \<in> F" "(r, c - 1) \<notin> F"
        have "okE (label_shortage conn F cap) (scan_inv conn F lbl n cap (insert p P)) (copy_label win_b wl s)"
          by (rule copy [of "(r - 1, c)"]) (use bd lb pr link in auto)
        then show ?thesis using True bd rd bgp Way4 by (simp add: pass_way4_def P_def)
      next
        assume bd: "(r - 1, c) \<notin> F" "(r, c - 1) \<in> F"
        have "okE (label_shortage conn F cap) (scan_inv conn F lbl n cap (insert p P)) (copy_label win_d wl s)"
          by (rule copy [of "(r, c - 1)"]) (use bd lb pr link in auto)
        then show ?thesis using True bd rd bgp Way4 by (simp add: pass_way4_def P_def)
      next
        assume bd: "(r - 1, c) \<notin> F" "(r, c - 1) \<notin> F"
        then show ?thesis using new pr True rd bgp Way4 by (simp add: pass_way4_def P_def)
      qed
    next
      case Way8
      have pr: "prior conn p = {(r - 1, c - 1), (r - 1, c), (r - 1, c + 1), (r, c - 1)}"
        by (simp add: prior_def Way8 r_def c_def Let_def)
      have lb0: "pixel_at lbl (fst s) (r - 1, c) \<noteq> 0 \<longleftrightarrow> (r - 1, c) \<in> F"
      proof (cases "(r - 1, c) \<in> P")
        case True
        then show ?thesis using inv' by (auto simp: scan_inv_def)
      next
        case False
        then have "(r - 1, c) \<notin> pixels im" using p by (auto simp: P_def before_def r_def)
        then show ?thesis using F pix by (auto simp: pixel_at_def)
      qed
      have adj: "conn = Way8" by (rule Way8)
      show ?thesis
      proof (cases "(r - 1, c) \<in> F")
        case b: True
        have "okE (label_shortage conn F cap) (scan_inv conn F lbl n cap (insert p P)) (copy_label win_b wl s)"
          by (rule copy [of "(r - 1, c)"]) (use b lb pr link adj in auto)
        then show ?thesis using True b rd lb(1) lb0 bgp Way8 by (simp add: pass_way8_def P_def)
      next
        case b: False
        consider (ca) "(r - 1, c + 1) \<in> F" "(r - 1, c - 1) \<in> F"
          | (cd) "(r - 1, c + 1) \<in> F" "(r - 1, c - 1) \<notin> F" "(r, c - 1) \<in> F"
          | (c) "(r - 1, c + 1) \<in> F" "(r - 1, c - 1) \<notin> F" "(r, c - 1) \<notin> F"
          | (a) "(r - 1, c + 1) \<notin> F" "(r - 1, c - 1) \<in> F"
          | (d) "(r - 1, c + 1) \<notin> F" "(r - 1, c - 1) \<notin> F" "(r, c - 1) \<in> F"
          | (none) "(r - 1, c + 1) \<notin> F" "(r - 1, c - 1) \<notin> F" "(r, c - 1) \<notin> F"
          by blast
        then show ?thesis
        proof cases
          case ca
          have "okE (label_shortage conn F cap) (scan_inv conn F lbl n cap (insert p P)) (union_labels win_c win_a wl s)"
            by (rule union [of "(r - 1, c + 1)" "(r - 1, c - 1)"]) (use ca b lb pr link adj in auto)
          then show ?thesis using True ca b rd lb(1) lb0 bgp Way8 by (simp add: pass_way8_def P_def)
        next
          case cd
          have "okE (label_shortage conn F cap) (scan_inv conn F lbl n cap (insert p P)) (union_labels win_c win_d wl s)"
            by (rule union [of "(r - 1, c + 1)" "(r, c - 1)"]) (use cd b lb pr link adj in auto)
          then show ?thesis using True cd b rd lb(1) lb0 bgp Way8 by (simp add: pass_way8_def P_def)
        next
          case c
          have "okE (label_shortage conn F cap) (scan_inv conn F lbl n cap (insert p P)) (copy_label win_c wl s)"
            by (rule copy [of "(r - 1, c + 1)"]) (use c b lb pr link adj in auto)
          then show ?thesis using True c b rd lb(1) lb0 bgp Way8 by (simp add: pass_way8_def P_def)
        next
          case a
          have "okE (label_shortage conn F cap) (scan_inv conn F lbl n cap (insert p P)) (copy_label win_a wl s)"
            by (rule copy [of "(r - 1, c - 1)"]) (use a b lb pr link adj in auto)
          then show ?thesis using True a b rd lb(1) lb0 bgp Way8 by (simp add: pass_way8_def P_def)
        next
          case d
          have "okE (label_shortage conn F cap) (scan_inv conn F lbl n cap (insert p P)) (copy_label win_d wl s)"
            by (rule copy [of "(r, c - 1)"]) (use d b lb pr link adj in auto)
          then show ?thesis using True d b rd lb(1) lb0 bgp Way8 by (simp add: pass_way8_def P_def)
        next
          case none
          then show ?thesis using new pr True b rd lb(1) lb0 bgp Way8 by (simp add: pass_way8_def P_def)
        qed
      qed
    qed
  qed
qed

section \<open>The scan\<close>

text \<open>The facts about the images and buffers every step of the scan uses.\<close>

definition scan_setting :: "(u8 \<Rightarrow> bool) \<Rightarrow> Image \<Rightarrow> u8 list \<Rightarrow> Image \<Rightarrow> nat \<Rightarrow> bool" where
  "scan_setting is_bg im mem lbl n \<longleftrightarrow>
    is_bg 0 \<and> img_fits im mem \<and> img_rows lbl = img_rows im \<and> img_columns lbl = img_columns im \<and>
    (\<forall>lm. length lm = n \<longrightarrow> img_fits lbl (lm :: nat list)) \<and> 0 < img_rows im \<and> 0 < img_columns im"

lemma pass_step:
  assumes S: "scan_setting is_bg im mem lbl n" and F: "F = obstacles is_bg im mem"
    and rc: "r < img_rows im" "c < img_columns im"
    and inv: "scan_inv conn F lbl n cap (before im (int r) (int c)) s"
    and wi: "window_at im mem wi (int r, int c) True"
    and wl: "img_fits lbl (fst s) \<Longrightarrow> window_at lbl (fst s) wl (int r, int c) full"
  shows "okE (label_shortage conn F cap) (scan_inv conn F lbl n cap (before im (int r) (int (Suc c))))
    (pass conn is_bg mem wi wl s)"
proof -
  have p: "(int r, int c) \<in> pixels im" using rc by (simp add: pixels_def)
  have fits: "img_fits lbl (fst s)" using inv S by (simp add: scan_inv_def scan_setting_def)
  have "okE (label_shortage conn F cap)
    (scan_inv conn F lbl n cap (insert (int r, int c) (before im (fst (int r, int c)) (snd (int r, int c)))))
    (pass conn is_bg mem wi wl s)"
    unfolding F
    by (rule pass_inv [OF _ _ _ p _ fits wi wl [OF fits]]) (use S inv F in \<open>auto simp: scan_setting_def\<close>)
  then show ?thesis using before_Suc [OF p] by (simp add: add.commute)
qed

lemma scan_first_row_inv:
  assumes S: "scan_setting is_bg im mem lbl n" and F: "F = obstacles is_bg im mem"
    and inv: "scan_inv conn F lbl n cap {} s"
  shows "okE (label_shortage conn F cap) (scan_inv conn F lbl n cap (before im 1 0))
    (scan_first_row conn is_bg mem im lbl s)"
proof -
  note s = S [unfolded scan_setting_def]
  have "before im 0 0 = {}" by (auto simp: before_def pixels_def)
  then have start: "scan_inv conn F lbl n cap (before im (int 0) (int 0)) s" using inv by simp
  have "okE (label_shortage conn F cap) (scan_inv conn F lbl n cap (before im (int 0) (int (img_columns im))))
    (scan_first_row conn is_bg mem im lbl s)"
    unfolding scan_first_row_def
  proof (rule okE_upt [where I = "\<lambda>c. scan_inv conn F lbl n cap (before im (int 0) (int c))", OF _ _ start])
    fix c t assume c: "c < img_columns im" and inv_t: "scan_inv conn F lbl n cap (before im (int 0) (int c)) t"
    show "okE (label_shortage conn F cap) (scan_inv conn F lbl n cap (before im (int 0) (int (Suc c))))
      (pass conn is_bg mem (makeSafeWindow None (img_row im 0) (img_columns im) c)
        (makeSafeWindow None (img_row lbl 0) (img_columns im) c) t)"
    proof (rule pass_step [OF S F _ c inv_t])
      show "window_at im mem (makeSafeWindow None (img_row im 0) (img_columns im) c) (int 0, int c) True"
        using window_first [of im mem c] s c by simp
      show "window_at lbl (fst t) (makeSafeWindow None (img_row lbl 0) (img_columns im) c) (int 0, int c) True"
        if "img_fits lbl (fst t)"
        using window_first [OF that, of c] s c by simp
    qed (use s in simp)
  qed simp
  then show ?thesis using before_row [of im 0] by simp
qed

lemma scan_next_row_inv:
  assumes S: "scan_setting is_bg im mem lbl n" and F: "F = obstacles is_bg im mem" and r: "r + 1 < img_rows im"
    and inv: "scan_inv conn F lbl n cap (before im (int r + 1) 0) s"
  shows "okE (label_shortage conn F cap) (scan_inv conn F lbl n cap (before im (int r + 2) 0))
    (scan_next_row conn is_bg mem im lbl r s)"
proof -
  note s = S [unfolded scan_setting_def]
  define cols where "cols = img_columns im"
  let ?I = "\<lambda>c. scan_inv conn F lbl n cap (before im (int (r + 1)) (int c))"
  let ?bad = "label_shortage conn F cap"
  have fits: "img_fits im mem" and cols: "0 < cols" "img_columns lbl = cols" "img_rows lbl = img_rows im"
    using s by (auto simp: cols_def)
  have rl: "r + 1 < img_rows lbl" using r cols by simp
  have rr: "int (r + 1) = int r + 1" by simp
  have safe: "window_at im mem (makeSafeWindow (Some (img_row im r)) (img_row im (r + 1)) cols c) (int (r + 1), int c) True"
    if "c < cols" for c
    using window_safe [OF fits r, of c] that by (simp add: cols_def add.commute)
  have unsafe: "window_at im mem (makeUnsafeWindow (img_row im r + int c) (img_row im (r + 1) + int c)) (int (r + 1), int c) True"
    if "0 < c" "c + 1 < cols" for c
    using window_unsafe [OF fits r, of c] that by (simp add: cols_def add.commute)
  have unsafe_lbl: "window_at lbl lm (makeUnsafeWindow (img_row lbl r + int c) (img_row lbl (r + 1) + int c))
      (int (r + 1), int c) (0 < c \<and> c + 1 < cols)"
    if "img_fits lbl lm" "c < cols" for lm :: "nat list" and c
    using window_unsafe [OF that(1) rl, of c] that(2) cols by (simp add: add.commute)
  have safe_lbl: "window_at lbl lm (makeSafeWindow (Some (img_row lbl r)) (img_row lbl (r + 1)) cols c) (int (r + 1), int c) True"
    if "img_fits lbl lm" "c < cols" for lm :: "nat list" and c
    using window_safe [OF that(1) rl, of c] that(2) cols by (simp add: add.commute)
  have 1: "okE ?bad (?I 1) (pass conn is_bg mem (makeSafeWindow (Some (img_row im r)) (img_row im (r + 1)) cols 0)
      (makeUnsafeWindow (img_row lbl r) (img_row lbl (r + 1))) s)"
  proof -
    have "okE ?bad (?I (Suc 0)) (pass conn is_bg mem (makeSafeWindow (Some (img_row im r)) (img_row im (r + 1)) cols 0)
      (makeUnsafeWindow (img_row lbl r + int 0) (img_row lbl (r + 1) + int 0)) s)"
      by (rule pass_step [OF S F r _ _ safe unsafe_lbl]) (use inv cols in \<open>simp_all add: cols_def add.commute\<close>)
    then show ?thesis by simp
  qed
  have 2: "okE ?bad (?I (max 1 (cols - 1))) (foldE (\<lambda>c. pass conn is_bg mem (makeUnsafeWindow (img_row im r + int c) (img_row im (r + 1) + int c))
      (makeUnsafeWindow (img_row lbl r + int c) (img_row lbl (r + 1) + int c))) [1..<cols - 1] t)"
    if "?I 1 t" for t
  proof (cases "1 \<le> cols - 1")
    case True
    have "okE ?bad (?I (cols - 1)) (foldE (\<lambda>c. pass conn is_bg mem (makeUnsafeWindow (img_row im r + int c) (img_row im (r + 1) + int c))
      (makeUnsafeWindow (img_row lbl r + int c) (img_row lbl (r + 1) + int c))) [1..<cols - 1] t)"
    proof (rule okE_upt [where I = ?I, OF _ True that])
      fix c u assume c: "1 \<le> c" "c < cols - 1" and inv_u: "?I c u"
      show "okE ?bad (?I (Suc c)) (pass conn is_bg mem (makeUnsafeWindow (img_row im r + int c) (img_row im (r + 1) + int c))
        (makeUnsafeWindow (img_row lbl r + int c) (img_row lbl (r + 1) + int c)) u)"
        by (rule pass_step [OF S F r _ inv_u unsafe unsafe_lbl]) (use c in \<open>simp_all add: cols_def\<close>)
    qed
    then show ?thesis using True by (simp add: max_def)
  next
    case False
    then have "cols = 1" using cols by simp
    then show ?thesis using that by simp
  qed
  have 3: "okE ?bad (?I cols) (if 1 < cols then pass conn is_bg mem
      (makeSafeWindow (Some (img_row im r)) (img_row im (r + 1)) cols (cols - 1))
      (makeSafeWindow (Some (img_row lbl r)) (img_row lbl (r + 1)) cols (cols - 1)) t else Inr t)"
    if "?I (max 1 (cols - 1)) t" for t
  proof (cases "1 < cols")
    case True
    then have I: "?I (cols - 1) t" using that by (simp add: max_def split: if_splits)
    have "okE ?bad (?I (Suc (cols - 1))) (pass conn is_bg mem
      (makeSafeWindow (Some (img_row im r)) (img_row im (r + 1)) cols (cols - 1))
      (makeSafeWindow (Some (img_row lbl r)) (img_row lbl (r + 1)) cols (cols - 1)) t)"
      by (rule pass_step [OF S F r _ I safe safe_lbl]) (use True in \<open>simp_all add: cols_def\<close>)
    then show ?thesis using True by simp
  next
    case False
    then have "cols = 1" using cols by simp
    then show ?thesis using that by simp
  qed
  have "okE ?bad (?I cols) (scan_next_row conn is_bg mem im lbl r s)"
    unfolding scan_next_row_def Let_def cols_def [symmetric]
    by (rule okE_bind [OF 1 okE_bind [OF 2 3]])
  then show ?thesis using before_row [of im "int (r + 1)"] by (simp add: cols_def add.commute)
qed

lemma scan_inv_all:
  assumes S: "scan_setting is_bg im mem lbl n" and F: "F = obstacles is_bg im mem"
    and inv: "scan_inv conn F lbl n cap {} s"
  shows "okE (label_shortage conn F cap) (scan_inv conn F lbl n cap (pixels im))
    (bindE (scan_first_row conn is_bg mem im lbl s) (foldE (scan_next_row conn is_bg mem im lbl) [0..<img_rows im - 1]))"
proof (rule okE_bind [OF scan_first_row_inv [OF S F inv]])
  fix t assume "scan_inv conn F lbl n cap (before im 1 0) t"
  then have start: "scan_inv conn F lbl n cap (before im (int 0 + 1) 0) t" by simp
  have rows: "0 < img_rows im" using S by (simp add: scan_setting_def)
  have "okE (label_shortage conn F cap) (scan_inv conn F lbl n cap (before im (int (img_rows im - 1) + 1) 0))
    (foldE (scan_next_row conn is_bg mem im lbl) [0..<img_rows im - 1] t)"
  proof (rule okE_upt [where I = "\<lambda>r. scan_inv conn F lbl n cap (before im (int r + 1) 0)", OF _ _ start])
    fix r u assume "r < img_rows im - 1" "scan_inv conn F lbl n cap (before im (int r + 1) 0) u"
    then show "okE (label_shortage conn F cap) (scan_inv conn F lbl n cap (before im (int (Suc r) + 1) 0))
      (scan_next_row conn is_bg mem im lbl r u)"
      using scan_next_row_inv [OF S F, of r conn cap u] by (simp add: add.commute)
  qed simp
  moreover have "before im (int (img_rows im - 1) + 1) 0 = pixels im" using rows by (auto simp: before_def pixels_def)
  ultimately show "okE (label_shortage conn F cap) (scan_inv conn F lbl n cap (pixels im))
    (foldE (scan_next_row conn is_bg mem im lbl) [0..<img_rows im - 1] t)" by simp
qed

section \<open>The labelled image\<close>

lemma forEach_spec:
  assumes fits: "img_fits im mem"
    and f: "\<And>r c. r < img_rows im \<Longrightarrow> c < img_columns im \<Longrightarrow> f (mem ! img_index im r c) = Inr (h (mem ! img_index im r c))"
  shows "\<exists>mem'. forEach f im mem = Inr mem' \<and> length mem' = length mem \<and>
    (\<forall>r<img_rows im. \<forall>c<img_columns im. mem' ! img_index im r c = h (mem ! img_index im r c))"
proof -
  have "\<exists>mem'. foldE (\<lambda>r. foldE (\<lambda>c m. bindE (read_at m (img_row im r + int c))
      (\<lambda>v. bindE (f v) (write_at m (img_row im r + int c)))) [0..<img_columns im]) [0..<img_rows im] mem = Inr mem' \<and>
    length mem' = length mem \<and>
    (\<forall>r<img_rows im. \<forall>c<img_columns im. mem' ! img_index im r c = h (mem ! img_index im r c)) \<and>
    (\<forall>k. (\<forall>r<img_rows im. \<forall>c<img_columns im. k \<noteq> img_index im r c) \<longrightarrow> mem' ! k = mem ! k)"
  proof (rule grid_updates [where idx = "img_index im" and h = "\<lambda>r c. h"])
    show "bindE (read_at m (img_row im r + int c)) (\<lambda>v. bindE (f v) (write_at m (img_row im r + int c))) =
        Inr (m[img_index im r c := h (mem ! img_index im r c)])"
      if "r < img_rows im" "c < img_columns im" "length m = length mem" "m ! img_index im r c = mem ! img_index im r c"
      for r c m
      using f [OF that(1,2)] that(4) by (simp add: read_at_img [OF fits that(1,2,3)] write_at_img [OF fits that(1,2,3)])
  qed (use img_index_eq [OF fits] img_fits_less [OF fits] in auto)
  then show ?thesis unfolding forEach_def by blast
qed

definition label_image :: "Image \<Rightarrow> Image" where
  "label_image im =
    \<lparr>data_start = 0, img_rows = img_rows im, img_columns = img_columns im, img_step = img_columns im\<rparr>"

lemma label_image_sel [simp]:
  "img_rows (label_image im) = img_rows im" "img_columns (label_image im) = img_columns im"
  "pixels (label_image im) = pixels im"
  by (simp_all add: label_image_def pixels_def)

lemma label_image_fits: "length lm = img_rows im * img_columns im \<Longrightarrow> img_fits (label_image im) lm"
  using row_index_less [of _ "img_columns im" _ "img_rows im"]
  by (auto simp: img_fits_def label_image_def img_index_def img_row_def nat_add_distrib nat_mult_distrib mult.commute)

definition labels_ok :: "ConnectivityType \<Rightarrow> pixel set \<Rightarrow> Image \<Rightarrow> nat list \<Rightarrow> nat \<Rightarrow> bool" where
  "labels_ok conn F im lm k \<longleftrightarrow>
    length lm = img_rows im * img_columns im \<and> 0 < k \<and>
    (\<forall>p\<in>pixels im. pixel_at (label_image im) lm p < k \<and> (pixel_at (label_image im) lm p = 0 \<longleftrightarrow> p \<notin> F)) \<and>
    (\<forall>p\<in>F. \<forall>q\<in>F. pixel_at (label_image im) lm p = pixel_at (label_image im) lm q \<longleftrightarrow> q \<in> group_of (adjacent conn) F p) \<and>
    (\<forall>l. 0 < l \<and> l < k \<longrightarrow> (\<exists>p\<in>F. pixel_at (label_image im) lm p = l))"

lemma connectedComponents_labels:
  assumes bg: "is_bg 0" and fits: "img_fits im mem" and dims: "0 < img_rows im" "0 < img_columns im" and "2 \<le> lmax"
  shows "okE (label_shortage conn (obstacles is_bg im mem) (min (maxLabels lmax (img_rows im) (img_columns im) conn) lmax))
    (\<lambda>((lbl, lm), k). lbl = label_image im \<and> labels_ok conn (obstacles is_bg im mem) im lm k)
    (connectedComponents lmax junk conn is_bg mem im)"
proof -
  define F where "F = obstacles is_bg im mem"
  define n where "n = img_rows im * img_columns im"
  define lbl where "lbl = label_image im"
  define cap where "cap = min (maxLabels lmax (img_rows im) (img_columns im) conn) lmax"
  define s0 where "s0 = (map junk [0..<n], reset_trees lmax (img_rows im) (img_columns im) conn)"
  have S: "scan_setting is_bg im mem lbl n"
    using assms by (auto simp: scan_setting_def lbl_def n_def intro: label_image_fits)
  have inv0: "scan_inv conn F lbl n cap {} s0"
    using reset_trees_ok [OF \<open>2 \<le> lmax\<close>, of "img_rows im" "img_columns im" conn]
    by (auto simp: scan_inv_def s0_def cap_def reset_trees_def separate_def)
  have last: "okE (label_shortage conn F cap) (\<lambda>(lm, k). labels_ok conn F im lm k)
      (let (labels_map, k) = getLabels (snd s)
       in bindE (forEach (\<lambda>l. read_at labels_map (int l)) lbl (fst s)) (\<lambda>lm. Inr (lm, k)))"
    if inv: "scan_inv conn F lbl n cap (pixels im) s" for s
  proof -
    obtain tab k where g: "getLabels (snd s) = (tab, k)" by fastforce
    have ok: "trees_ok (snd s)" and len: "length (fst s) = n" using inv by (auto simp: scan_inv_def)
    note gs = getLabels_spec [OF ok g]
    have fitl: "img_fits lbl (fst s)" using len label_image_fits by (simp add: lbl_def n_def)
    have old: "fst s ! img_index lbl r c = pixel_at lbl (fst s) (int r, int c)"
      "(int r, int c) \<in> pixels im" if "r < img_rows im" "c < img_columns im" for r c
      using that by (simp_all add: pixel_at_def lbl_def pixels_def)
    have lab: "pixel_at lbl (fst s) p < next_free (snd s)" "pixel_at lbl (fst s) p = 0 \<longleftrightarrow> p \<notin> F" if "p \<in> pixels im" for p
      using inv that by (auto simp: scan_inv_def)
    obtain lm where lm: "forEach (\<lambda>l. read_at tab (int l)) lbl (fst s) = Inr lm" "length lm = n"
      "\<forall>r<img_rows im. \<forall>c<img_columns im. lm ! img_index lbl r c = tab ! (fst s ! img_index lbl r c)"
      using forEach_spec [OF fitl, of "\<lambda>l. read_at tab (int l)" "\<lambda>l. tab ! l"] lab(1) old gs(1) len
      by (auto simp: read_at_def lbl_def)
    have new: "pixel_at lbl lm p = tab ! pixel_at lbl (fst s) p" if "p \<in> pixels im" for p
      using lm(3) that by (auto simp: pixel_at_def lbl_def pixels_def)
    have FP: "F \<subseteq> pixels im" "pixels im \<inter> F = F" unfolding F_def using obstacles_pixels by auto
    have "labels_ok conn F im lm k"
      unfolding labels_ok_def lbl_def [symmetric]
    proof (intro conjI ballI allI impI)
      show "\<exists>p\<in>F. pixel_at lbl lm p = l" if l: "0 < l \<and> l < k" for l
      proof -
        obtain i where i: "0 < i" "i < next_free (snd s)" "tab ! i = l" using gs(6) l by blast
        then obtain p where "p \<in> F" "pixel_at lbl (fst s) p = i" using inv FP unfolding scan_inv_def by auto
        then show ?thesis using new [of p] i FP by auto
      qed
      show "length lm = img_rows im * img_columns im" using lm by (simp add: n_def)
      show "0 < k" by (rule gs(2))
      show "pixel_at lbl lm p < k" "pixel_at lbl lm p = 0 \<longleftrightarrow> p \<notin> F" if "p \<in> pixels im" for p
        using new that lab gs(3,4) by auto
      show "pixel_at lbl lm p = pixel_at lbl lm q \<longleftrightarrow> q \<in> group_of (adjacent conn) F p" if "p \<in> F" "q \<in> F" for p q
      proof -
        have pq: "p \<in> pixels im" "q \<in> pixels im" using that FP by auto
        have "pixel_at lbl lm p = pixel_at lbl lm q \<longleftrightarrow>
          root_of (snd s) (pixel_at lbl (fst s) p) = root_of (snd s) (pixel_at lbl (fst s) q)"
          unfolding new [OF pq(1)] new [OF pq(2)] by (rule gs(5) [OF lab(1) [OF pq(1)] lab(1) [OF pq(2)]])
        then show ?thesis using scan_inv_root [OF inv, of p q] that pq FP by (simp add: group_of_def)
      qed
    qed
    then show ?thesis by (simp add: g lm)
  qed
  have "okE (label_shortage conn F cap) (\<lambda>(lm, k). labels_ok conn F im lm k) (connectedComponentsImpl conn is_bg mem im lbl s0)"
  proof -
    have split: "connectedComponentsImpl conn is_bg mem im lbl s0 =
      bindE (bindE (scan_first_row conn is_bg mem im lbl s0) (foldE (scan_next_row conn is_bg mem im lbl) [0..<img_rows im - 1]))
        (\<lambda>s. let (labels_map, k) = getLabels (snd s)
         in bindE (forEach (\<lambda>l. read_at labels_map (int l)) lbl (fst s)) (\<lambda>lm. Inr (lm, k)))"
      by (auto simp: connectedComponentsImpl_def bindE_def split: sum.splits)
    show ?thesis unfolding split by (rule okE_bind [OF scan_inv_all [OF S F_def inv0] last])
  qed
  then have "okE (label_shortage conn F cap) (\<lambda>((l, lm), k). l = lbl \<and> labels_ok conn F im lm k)
    (bindE (connectedComponentsImpl conn is_bg mem im lbl s0) (\<lambda>(lm, k). Inr ((lbl, lm), k)))"
    by (rule okE_bind) auto
  moreover have "connectedComponents lmax junk conn is_bg mem im =
    bindE (connectedComponentsImpl conn is_bg mem im lbl s0) (\<lambda>(lm, k). Inr ((lbl, lm), k))"
    using dims by (simp add: connectedComponents_def Let_def s0_def lbl_def label_image_def n_def)
  ultimately show ?thesis by (simp add: F_def cap_def lbl_def)
qed

section \<open>How many labels an image needs\<close>

lemma separate_bound:
  assumes C: "C \<subseteq> pixels im" "separate conn C"
    and g: "\<And>p. p \<in> pixels im \<Longrightarrow> g p \<in> B" "finite B"
      "\<And>p q. p \<in> pixels im \<Longrightarrow> q \<in> pixels im \<Longrightarrow> g p = g q \<Longrightarrow> p = q \<or> adjacent conn p q"
  shows "card C \<le> card B"
proof (rule card_inj_on_le [of g])
  show "inj_on g C" using C g(3) unfolding separate_def inj_on_def by blast
  show "g ` C \<subseteq> B" using C g(1) by blast
qed (rule g(2))

text \<open>Along a snake through the image two consecutive pixels are neighbours.\<close>

definition snake :: "nat \<Rightarrow> pixel \<Rightarrow> nat" where
  "snake cols p =
    (let r = nat (fst p); c = nat (snd p) in r * cols + (if even r then c else cols - 1 - c))"

lemma snake_next:
  fixes r c r' c' cols :: nat
  defines "k \<equiv> \<lambda>r c. if even r then c else cols - 1 - c"
  assumes c: "c < cols" "c' < cols" and eq: "r' * cols + k r' c' = r * cols + k r c + 1"
  shows "r' = r \<and> (c' = c + 1 \<or> c = c' + 1) \<or> r' = r + 1 \<and> c' = c"
proof (cases "k r c + 1 < cols")
  case True
  have "k r' c' < cols" using c by (auto simp: k_def)
  then have "r' = r \<and> k r' c' = k r c + 1" using row_index_eq [of "k r' c'" cols "k r c + 1" r' r] True eq by simp
  then show ?thesis using c by (auto simp: k_def split: if_splits)
next
  case False
  then have last: "k r c = cols - 1" using c by (auto simp: k_def split: if_splits)
  then have "r' * cols + k r' c' = (r + 1) * cols + 0" using eq c by simp
  moreover have "k r' c' < cols" using c by (auto simp: k_def)
  ultimately have "r' = r + 1 \<and> k r' c' = 0" using row_index_eq [of "k r' c'" cols 0 r' "r + 1"] c by simp
  then show ?thesis using last c by (auto simp: k_def split: if_splits)
qed

lemma pixels_nat: "p \<in> pixels im \<Longrightarrow> \<exists>r c. p = (int r, int c) \<and> r < img_rows im \<and> c < img_columns im"
  unfolding pixels_def by (cases p) (auto intro!: exI [of _ "nat _"])

lemma snake_div2:
  assumes "p \<in> pixels im" "q \<in> pixels im" "snake (img_columns im) p div 2 = snake (img_columns im) q div 2"
  shows "p = q \<or> adjacent Way4 p q"
proof -
  define cols where "cols = img_columns im"
  obtain r c r' c' where pq: "p = (int r, int c)" "q = (int r', int c')" "c < cols" "c' < cols"
    using pixels_nat [OF assms(1)] pixels_nat [OF assms(2)] unfolding cols_def by blast
  have "snake cols p = snake cols q \<or> snake cols q = snake cols p + 1 \<or> snake cols p = snake cols q + 1"
    using assms(3) unfolding cols_def by presburger
  then consider "snake cols p = snake cols q" | "snake cols q = snake cols p + 1" | "snake cols p = snake cols q + 1"
    by blast
  then show ?thesis
  proof cases
    case 1
    then have "r = r'" "(if even r then c else cols - 1 - c) = (if even r' then c' else cols - 1 - c')"
      using pq row_index_eq [of "if even r then c else cols - 1 - c" cols "if even r' then c' else cols - 1 - c'" r r']
      by (auto simp: snake_def Let_def split: if_splits)
    then show ?thesis using pq by (auto split: if_splits)
  next
    case 2
    then show ?thesis using snake_next [of c cols c' r' r] pq by (auto simp: snake_def Let_def)
  next
    case 3
    then show ?thesis using snake_next [of c' cols c r r'] pq by (auto simp: snake_def Let_def)
  qed
qed

lemma snake_less: "p \<in> pixels im \<Longrightarrow> snake (img_columns im) p < img_rows im * img_columns im"
proof -
  assume "p \<in> pixels im"
  then obtain r c where "p = (int r, int c)" "r < img_rows im" "c < img_columns im" using pixels_nat by blast
  then show ?thesis
    using row_index_less [of "if even r then c else img_columns im - 1 - c" "img_columns im" r "img_rows im"]
    by (auto simp: snake_def Let_def mult.commute split: if_splits)
qed

lemma separate_way4:
  assumes "C \<subseteq> pixels im" "separate Way4 C"
  shows "card C \<le> (img_rows im * img_columns im + 1) div 2"
proof -
  have "card C \<le> card {..<(img_rows im * img_columns im + 1) div 2}"
  proof (rule separate_bound [OF assms, of "\<lambda>p. snake (img_columns im) p div 2"])
    show "snake (img_columns im) p div 2 \<in> {..<(img_rows im * img_columns im + 1) div 2}" if "p \<in> pixels im" for p
      using snake_less [OF that] unfolding lessThan_iff by linarith
  qed (use snake_div2 in simp_all)
  then show ?thesis by simp
qed

lemma separate_way8:
  assumes "C \<subseteq> pixels im" "separate Way8 C"
  shows "card C \<le> ((img_rows im + 1) div 2) * ((img_columns im + 1) div 2)"
proof -
  have "card C \<le> card ({0..<(int (img_rows im) + 1) div 2} \<times> {0..<(int (img_columns im) + 1) div 2})"
  proof (rule separate_bound [OF assms, of "\<lambda>p. (fst p div 2, snd p div 2)"])
    show "p = q \<or> adjacent Way8 p q" if "(fst p div 2, snd p div 2) = (fst q div 2, snd q div 2)" for p q
      using that by (cases p; cases q) (simp, presburger)
  qed (auto simp: pixels_def)
  also have "\<dots> = ((img_rows im + 1) div 2) * ((img_columns im + 1) div 2)"
    by (simp add: card_cartesian_product nat_div_distrib nat_add_distrib)
  finally show ?thesis .
qed

text \<open>
  The labels suffice for every image when neighbours are horizontal and vertical; with diagonal neighbours they
  suffice if the image has at least two rows and two columns.
\<close>

lemma quarter_third:
  fixes r c :: nat
  assumes "2 \<le> r" "2 \<le> c"
  shows "((r + 1) div 2) * ((c + 1) div 2) \<le> r * c div 3 + 1"
proof -
  have *: "((r + 1) div 2) * ((c + 1) div 2) \<le> r * c div 3 + 1" if "r = 2" "2 \<le> c" for r c :: nat
    using that by simp
  consider "r = 2" | "c = 2" | "3 \<le> r" "3 \<le> c" using assms by linarith
  then show ?thesis
  proof cases
    case 1
    then show ?thesis using *[of r c] assms by simp
  next
    case 2
    then show ?thesis using *[of c r] assms by (simp add: mult.commute)
  next
    case 3
    define a where "a = (r + 1) div 2"
    define b where "b = (c + 1) div 2"
    have ab: "2 * a \<le> r + 1" "2 * b \<le> c + 1" by (simp_all add: a_def b_def)
    obtain x y where xy: "r = 3 + x" "c = 3 + y" using 3 by (auto simp: le_iff_add)
    have "3 * r + 3 * c \<le> r * c + 9" by (simp add: xy algebra_simps)
    then have "3 * ((r + 1) * (c + 1)) \<le> 4 * (r * c) + 12" by (simp add: algebra_simps)
    moreover have "(2 * a) * (2 * b) \<le> (r + 1) * (c + 1)" using ab by (rule mult_le_mono)
    ultimately have "12 * (a * b) \<le> 4 * (r * c) + 12" by (simp add: algebra_simps)
    then have "3 * (a * b) \<le> r * c + 3" by simp
    then show ?thesis unfolding a_def [symmetric] b_def [symmetric] by linarith
  qed
qed

lemma enough_labels:
  assumes "F \<subseteq> pixels im" "img_rows im * img_columns im + 2 \<le> lmax"
    and "conn = Way4 \<or> 2 \<le> img_rows im \<and> 2 \<le> img_columns im"
  shows "\<not> label_shortage conn F (min (maxLabels lmax (img_rows im) (img_columns im) conn) lmax) e"
proof
  assume "label_shortage conn F (min (maxLabels lmax (img_rows im) (img_columns im) conn) lmax) e"
  then obtain C where C: "C \<subseteq> pixels im" "separate conn C"
    "card C = min (maxLabels lmax (img_rows im) (img_columns im) conn) lmax"
    using assms(1) unfolding label_shortage_def by blast
  show False
  proof (cases conn)
    case Way4
    then show False using separate_way4 [OF C(1)] C(2,3) assms(2) by (simp add: maxLabels_def)
  next
    case Way8
    then have "card C \<le> img_rows im * img_columns im div 3 + 1"
      using separate_way8 [OF C(1)] C(2) quarter_third [of "img_rows im" "img_columns im"] assms(3) by auto
    then show False using C(3) assms(2) Way8 by (simp add: maxLabels_def)
  qed
qed



end
