(* ===== verification/Noise_Removal.thy ===== *)
theory Noise_Removal
  imports Component_Labelling
begin

text \<open>
  The removal of small groups (GroupsRemover in image_processing.hpp): the histogram of the labels counts the pixels of
  each group up to one more than the limit, and the groups below the limit become free. With it, the morphological
  dilation that the noise layer uses for the limit two.
\<close>

section \<open>The histogram\<close>

lemma add_pixel_values:
  assumes "\<forall>v\<in>set vs. v < length bins" "\<forall>h\<in>set bins. h \<le> m"
  shows "\<exists>bins'. foldE (add_pixel_value m) vs bins = Inr bins' \<and> length bins' = length bins \<and>
    (\<forall>i<length bins. bins' ! i = min (bins ! i + count_list vs i) m)"
  using assms
proof (induction vs arbitrary: bins)
  case Nil
  then show ?case by (auto simp: min_def)
next
  case (Cons v vs)
  define b1 where "b1 = bins[v := min (bins ! v + 1) m]"
  have v: "v < length bins" using Cons.prems by simp
  have step: "add_pixel_value m v bins = Inr b1"
    using v by (simp add: add_pixel_value_def read_at_def write_at_def b1_def)
  have "\<forall>h\<in>set b1. h \<le> m" using Cons.prems(2) unfolding b1_def by (auto dest!: set_update_subset_insert [THEN subsetD])
  moreover have "\<forall>v\<in>set vs. v < length b1" using Cons.prems(1) by (simp add: b1_def)
  ultimately obtain b2 where b2: "foldE (add_pixel_value m) vs b1 = Inr b2" "length b2 = length b1"
    "\<forall>i<length b1. b2 ! i = min (b1 ! i + count_list vs i) m"
    using Cons.IH by blast
  have "b2 ! i = min (bins ! i + count_list (v # vs) i) m" if "i < length bins" for i
    using b2(3) that v by (cases "i = v") (auto simp: b1_def)
  then show ?case using step b2 by (intro exI [of _ b2]) (simp add: b1_def)
qed

lemma foldE_map_cong:
  "(\<And>x s. x \<in> set xs \<Longrightarrow> g x s = f (h x) s) \<Longrightarrow> foldE g xs s = foldE f (map h xs) s"
  by (subst foldE_map) (rule foldE_cong)

lemma count_list_map_distinct:
  "distinct xs \<Longrightarrow> count_list (map f xs) i = card {x \<in> set xs. f x = i}"
proof (induction xs)
  case (Cons x xs)
  have "{y \<in> set (x # xs). f y = i} = (if f x = i then insert x {y \<in> set xs. f y = i} else {y \<in> set xs. f y = i})"
    by auto
  then show ?case using Cons by (auto simp: card_insert_if)
qed simp

lemma histogram_spec:
  fixes m :: nat
  assumes len: "length lm = img_rows im * img_columns im" and dims: "0 < img_rows im" "0 < img_columns im"
    and small: "\<forall>p\<in>pixels im. pixel_at (label_image im) lm p < k"
  shows "\<exists>bins. histogram (label_image im) lm (k - 1) m = Inr bins \<and> length bins = k \<and>
    (\<forall>i<k. bins ! i = min (card {p \<in> pixels im. pixel_at (label_image im) lm p = i}) m)"
proof -
  define lbl where "lbl = label_image im"
  define xs where "xs = List.product [0..<img_rows im] [0..<img_columns im]"
  define L where "L x = pixel_at lbl lm (int (fst x), int (snd x))" for x :: "nat \<times> nat"
  have fits: "img_fits lbl lm" unfolding lbl_def by (rule label_image_fits [OF len])
  have "(0, 0) \<in> pixels im" using dims by (simp add: pixels_def)
  then have k: "0 < k" using small by fastforce
  have Lk: "L x < k" if "x \<in> set xs" for x
    using small that by (auto simp: L_def lbl_def xs_def pixels_def)
  have read: "read_at lm (img_row lbl r + int c) = Inr (L (r, c))" if "(r, c) \<in> set xs" for r c
    using read_at_img [OF fits, of r c lm] that by (simp add: L_def pixel_at_def xs_def lbl_def pixels_def)
  have "histogram lbl lm (k - 1) m = foldE (add_pixel_value m) (map L xs) (replicate k 0)"
  proof -
    have "histogram lbl lm (k - 1) m = foldE (\<lambda>(r, c) s. bindE (read_at lm (img_row lbl r + int c)) (\<lambda>v. add_pixel_value m v s))
      xs (replicate k 0)"
      using dims k by (simp add: histogram_def img_empty_def forEach_const_def foldE_product xs_def lbl_def)
    also have "\<dots> = foldE (add_pixel_value m) (map L xs) (replicate k 0)"
      by (rule foldE_map_cong) (use read in auto)
    finally show ?thesis .
  qed
  moreover have "\<exists>bins. foldE (add_pixel_value m) (map L xs) (replicate k 0) = Inr bins \<and>
      length bins = length (replicate k (0 :: nat)) \<and>
      (\<forall>i<length (replicate k (0 :: nat)). bins ! i = min (replicate k 0 ! i + count_list (map L xs) i) m)"
    by (rule add_pixel_values) (use Lk in auto)
  moreover have "count_list (map L xs) i = card {p \<in> pixels im. pixel_at lbl lm p = i}" for i
  proof -
    have "distinct xs" by (simp add: xs_def distinct_product)
    then have "count_list (map L xs) i = card {x \<in> set xs. L x = i}" by (rule count_list_map_distinct)
    also have "\<dots> = card ((\<lambda>x. (int (fst x), int (snd x))) ` {x \<in> set xs. L x = i})"
      by (rule card_image [symmetric]) (auto simp: inj_on_def)
    also have "(\<lambda>x. (int (fst x), int (snd x))) ` {x \<in> set xs. L x = i} = {p \<in> pixels im. pixel_at lbl lm p = i}"
      using pixels_nat [of _ im] by (auto simp: L_def xs_def pixels_def image_iff) (metis fst_conv snd_conv)+
    finally show ?thesis .
  qed
  ultimately show ?thesis unfolding lbl_def by auto
qed

section \<open>Small groups\<close>

text \<open>
  What a noise filter promises: the obstacle pixels whose group is smaller than the limit become free, and no other
  element of the buffer changes.
\<close>

definition denoised ::
  "ConnectivityType \<Rightarrow> nat \<Rightarrow> (u8 \<Rightarrow> bool) \<Rightarrow> Image \<Rightarrow> u8 list \<Rightarrow> u8 list \<Rightarrow> bool" where
  "denoised conn minimal_group_size is_bg im mem mem' \<longleftrightarrow>
    length mem' = length mem \<and>
    (\<forall>p\<in>pixels im. pixel_at im mem' p =
      (if p \<in> obstacles is_bg im mem \<and>
          card (group_of (adjacent conn) (obstacles is_bg im mem) p) < minimal_group_size
       then 0 else pixel_at im mem p)) \<and>
    (\<forall>k. (\<forall>r<img_rows im. \<forall>c<img_columns im. k \<noteq> img_index im r c) \<longrightarrow> mem' ! k = mem ! k)"

lemma convert_spec:
  assumes src: "img_fits src smem" and trg: "img_fits trg tmem"
    and dims: "img_rows src = img_rows trg" "img_columns src = img_columns trg"
    and f: "\<And>r c. r < img_rows trg \<Longrightarrow> c < img_columns trg \<Longrightarrow>
      f (smem ! img_index src r c) (tmem ! img_index trg r c) = Inr (h (smem ! img_index src r c) (tmem ! img_index trg r c))"
  shows "\<exists>mem'. convert f src smem trg tmem = Inr mem' \<and> length mem' = length tmem \<and>
    (\<forall>r<img_rows trg. \<forall>c<img_columns trg.
      mem' ! img_index trg r c = h (smem ! img_index src r c) (tmem ! img_index trg r c)) \<and>
    (\<forall>k. (\<forall>r<img_rows trg. \<forall>c<img_columns trg. k \<noteq> img_index trg r c) \<longrightarrow> mem' ! k = tmem ! k)"
proof -
  let ?g = "\<lambda>r c mem. bindE (read_at smem (img_row src r + int c)) (\<lambda>v.
            bindE (read_at mem (img_row trg r + int c)) (\<lambda>w.
            bindE (f v w) (write_at mem (img_row trg r + int c))))"
  have "\<exists>mem'. foldE (\<lambda>r. foldE (?g r) [0..<img_columns trg]) [0..<img_rows trg] tmem = Inr mem' \<and>
    length mem' = length tmem \<and>
    (\<forall>r<img_rows trg. \<forall>c<img_columns trg.
      mem' ! img_index trg r c = h (smem ! img_index src r c) (tmem ! img_index trg r c)) \<and>
    (\<forall>k. (\<forall>r<img_rows trg. \<forall>c<img_columns trg. k \<noteq> img_index trg r c) \<longrightarrow> mem' ! k = tmem ! k)"
  proof (rule grid_updates [where idx = "img_index trg" and h = "\<lambda>r c. h (smem ! img_index src r c)"])
    show "?g r c m = Inr (m[img_index trg r c := h (smem ! img_index src r c) (tmem ! img_index trg r c)])"
      if "r < img_rows trg" "c < img_columns trg" "length m = length tmem" "m ! img_index trg r c = tmem ! img_index trg r c"
      for r c m
      using f [OF that(1,2)] that(4) read_at_img [OF src, of r c smem] that(1,2) dims
      by (simp add: read_at_img [OF trg that(1,2,3)] write_at_img [OF trg that(1,2,3)])
  qed (use img_index_eq [OF trg] img_fits_less [OF trg] in auto)
  then show ?thesis using dims by (simp add: convert_def)
qed

lemma removeGroupsImpl_correct:
  assumes bg: "is_bg 0" and fits: "img_fits im mem" and dims: "0 < img_rows im" "0 < img_columns im" and "2 \<le> lmax"
  shows "okE (label_shortage conn (obstacles is_bg im mem) (min (maxLabels lmax (img_rows im) (img_columns im) conn) lmax))
    (denoised conn mgs is_bg im mem) (removeGroupsImpl lmax junk conn mgs is_bg im mem)"
proof -
  define G where "G = (\<lambda>((lbl, lm), groups_count).
    bindE (histogram lbl lm (groups_count - 1) (mgs + 1)) (\<lambda>sizes.
    (let noise = map (\<lambda>bin. bin < mgs) (reset_front sizes)
     in convert (\<lambda>src trg. if is_bg trg then Inr trg
           else bindE (read_at noise (int src)) (\<lambda>b. Inr (if b then 0 else trg))) lbl lm im mem)))"
  have eq: "removeGroupsImpl lmax junk conn mgs is_bg im mem = bindE (connectedComponents lmax junk conn is_bg mem im) G"
    by (simp add: removeGroupsImpl_def G_def)
  show ?thesis
    unfolding eq
  proof (rule okE_bind [OF connectedComponents_labels [where is_bg = is_bg, OF assms]])
  define F where "F = obstacles is_bg im mem"
  define lbl where "lbl = label_image im"
  fix s :: "(Image \<times> nat list) \<times> nat"
  assume s: "(\<lambda>((lbl, lm), k). lbl = label_image im \<and> labels_ok conn (obstacles is_bg im mem) im lm k) s"
  obtain lm k where sk: "s = ((lbl, lm), k)" and ok: "labels_ok conn F im lm k"
    using s by (cases s) (auto simp: F_def lbl_def)
  have lm: "length lm = img_rows im * img_columns im" "0 < k"
    "\<forall>p\<in>pixels im. pixel_at (label_image im) lm p < k"
    and L0: "\<And>p. p \<in> pixels im \<Longrightarrow> pixel_at lbl lm p = 0 \<longleftrightarrow> p \<notin> F"
    and Lg: "\<And>p q. p \<in> F \<Longrightarrow> q \<in> F \<Longrightarrow> pixel_at lbl lm p = pixel_at lbl lm q \<longleftrightarrow> q \<in> group_of (adjacent conn) F p"
    using ok by (auto simp: labels_ok_def lbl_def)
  obtain bins where bins: "histogram lbl lm (k - 1) (mgs + 1) = Inr bins" "length bins = k"
    "\<forall>i<k. bins ! i = min (card {p \<in> pixels im. pixel_at lbl lm p = i}) (mgs + 1)"
    using histogram_spec [OF lm(1) dims lm(3)] unfolding lbl_def by blast
  define noise where "noise = map (\<lambda>bin. bin < mgs) (reset_front bins)"
  have noise: "length noise = k" "\<And>i. 0 < i \<Longrightarrow> i < k \<Longrightarrow> noise ! i \<longleftrightarrow> card {p \<in> pixels im. pixel_at lbl lm p = i} < mgs"
    using bins lm(2) by (auto simp: noise_def reset_front_def)
  have FP: "F \<subseteq> pixels im" unfolding F_def by (rule obstacles_pixels)
  have group: "{q \<in> pixels im. pixel_at lbl lm q = pixel_at lbl lm p} = group_of (adjacent conn) F p" if p: "p \<in> F" for p
  proof -
    have "pixel_at lbl lm p \<noteq> 0" using L0 [of p] p FP by auto
    then have "q \<in> pixels im \<and> pixel_at lbl lm q = pixel_at lbl lm p \<longleftrightarrow> q \<in> F \<and> pixel_at lbl lm p = pixel_at lbl lm q" for q
      using L0 [of q] FP by auto
    then show ?thesis using Lg [OF p] by (auto simp: group_of_def)
  qed
  have noisy: "noise ! pixel_at lbl lm p \<longleftrightarrow> card (group_of (adjacent conn) F p) < mgs" if p: "p \<in> F" for p
  proof -
    have "0 < pixel_at lbl lm p" using L0 [of p] p FP by auto
    moreover have "pixel_at lbl lm p < k" using lm(3) p FP unfolding lbl_def by blast
    ultimately show ?thesis using noise(2) group [OF p] by simp
  qed
  have fitl: "img_fits lbl lm" unfolding lbl_def by (rule label_image_fits [OF lm(1)])
  have at: "lm ! img_index lbl r c = pixel_at lbl lm (int r, int c)" "mem ! img_index im r c = pixel_at im mem (int r, int c)"
    "(int r, int c) \<in> pixels im" if "r < img_rows im" "c < img_columns im" for r c
    using that by (simp_all add: pixel_at_def lbl_def pixels_def)
  let ?f = "\<lambda>src trg. if is_bg trg then Inr trg else bindE (read_at noise (int src)) (\<lambda>b. Inr (if b then 0 else trg))"
  let ?h = "\<lambda>src trg. if is_bg trg then trg else if noise ! src then 0 else trg"
  have f: "?f (lm ! img_index lbl r c) (mem ! img_index im r c) = Inr (?h (lm ! img_index lbl r c) (mem ! img_index im r c))"
    if "r < img_rows im" "c < img_columns im" for r c
    using at [OF that] lm(3) noise(1) by (auto simp: read_at_def lbl_def)
  obtain mem' where conv: "convert ?f lbl lm im mem = Inr mem'" "length mem' = length mem"
    "\<forall>r<img_rows im. \<forall>c<img_columns im. mem' ! img_index im r c = ?h (lm ! img_index lbl r c) (mem ! img_index im r c)"
    "\<forall>k. (\<forall>r<img_rows im. \<forall>c<img_columns im. k \<noteq> img_index im r c) \<longrightarrow> mem' ! k = mem ! k"
    using convert_spec [OF fitl fits, where f = ?f and h = ?h] f by (force simp: lbl_def)
  have "pixel_at im mem' p = (if p \<in> F \<and> card (group_of (adjacent conn) F p) < mgs then 0 else pixel_at im mem p)"
    if "p \<in> pixels im" for p
  proof -
    obtain r c where rc: "p = (int r, int c)" "r < img_rows im" "c < img_columns im" using pixels_nat \<open>p \<in> pixels im\<close> by blast
    have "pixel_at im mem' p = mem' ! img_index im r c" using rc by (simp add: pixel_at_def pixels_def)
    also have "\<dots> = ?h (pixel_at lbl lm p) (pixel_at im mem p)"
      using conv(3) rc at [OF rc(2,3)] by simp
    finally show ?thesis using noisy [of p] is_bg_pixel [where is_bg = is_bg, OF bg, of im mem p] by (auto simp: F_def)
  qed
  then have "denoised conn mgs is_bg im mem mem'" using conv by (simp add: denoised_def F_def)
  then show "okE (label_shortage conn (obstacles is_bg im mem) (min (maxLabels lmax (img_rows im) (img_columns im) conn) lmax))
    (denoised conn mgs is_bg im mem) (G s)"
    using conv(1) [unfolded noise_def] bins(1) by (simp add: sk G_def)
  qed
qed

lemma removeGroups_correct:
  assumes bg: "is_bg 0" and fits: "img_fits im mem" and dims: "0 < img_rows im" "0 < img_columns im"
    and room: "img_rows im * img_columns im + 2 < 2 ^ 32" "conn = Way4 \<or> 2 \<le> img_rows im \<and> 2 \<le> img_columns im"
  shows "\<exists>mem' lt'. removeGroups junk conn mgs is_bg im mem lt = (Inr mem', lt') \<and> denoised conn mgs is_bg im mem mem'"
proof -
  have ok: "okE (label_shortage conn (obstacles is_bg im mem)
      (min (maxLabels (label_max ty) (img_rows im) (img_columns im) conn) (label_max ty)))
    (denoised conn mgs is_bg im mem) (removeGroupsImpl (label_max ty) (junk ty) conn mgs is_bg im mem)" for ty
    by (rule removeGroupsImpl_correct [where is_bg = is_bg, OF bg fits dims]) (cases ty; simp)
  have 32: "\<exists>mem'. removeGroupsImpl (label_max Uint32) (junk Uint32) conn mgs is_bg im mem = Inr mem' \<and>
    denoised conn mgs is_bg im mem mem'"
    using ok [of Uint32] enough_labels [OF obstacles_pixels, of im "label_max Uint32" conn is_bg mem] room
    by (cases "removeGroupsImpl (label_max Uint32) (junk Uint32) conn mgs is_bg im mem") auto
  have 16: "\<exists>mem'. removeGroupsImpl (label_max Uint16) (junk Uint16) conn mgs is_bg im mem = Inr mem' \<and>
    denoised conn mgs is_bg im mem mem'"
    if "removeGroupsImpl (label_max Uint16) (junk Uint16) conn mgs is_bg im mem \<noteq> Inl LabelOverflow"
    using ok [of Uint16] that
    by (cases "removeGroupsImpl (label_max Uint16) (junk Uint16) conn mgs is_bg im mem") (auto simp: label_shortage_def)
  show ?thesis using 32 16 by (auto simp: removeGroups_def Let_def)
qed

section \<open>Dilation\<close>

lemma probe_row_fold:
  assumes "0 < cols"
  shows "probe_row smem srow touch cols imem inp out omem =
    foldE (\<lambda>c. touch_pixel touch
        (if 0 < c then apply_shape smem srow (read_at imem (inp + int (c - 1))) 0 else Inr 0)
        (apply_shape smem srow (read_at imem (inp + int c)) 1)
        (if c + 1 < cols then apply_shape smem srow (read_at imem (inp + int (c + 1))) 2 else Inr 0)
        (out + int c)) [0..<cols] omem"
proof (cases "cols = 1")
  case True
  then show ?thesis by (simp add: probe_row_def Let_def bindE_def split: sum.splits)
next
  case False
  then have cols: "[0..<cols] = 0 # [1..<cols - 1] @ [cols - 1]"
    using assms upt_conv_Cons [of 0 cols] upt_Suc_append [of 1 "cols - 1"] by simp
  define G where "G c = touch_pixel touch
        (if 0 < c then apply_shape smem srow (read_at imem (inp + int (c - 1))) 0 else Inr 0)
        (apply_shape smem srow (read_at imem (inp + int c)) 1)
        (if c + 1 < cols then apply_shape smem srow (read_at imem (inp + int (c + 1))) 2 else Inr 0)
        (out + int c)" for c
  have first: "G 0 = touch_pixel touch (Inr 0) (apply_shape smem srow (read_at imem (inp + int 0)) 1)
      (apply_shape smem srow (read_at imem (inp + int 1)) 2) out"
    using False assms by (simp add: G_def)
  have last: "G (cols - 1) = touch_pixel touch (apply_shape smem srow (read_at imem (inp + int (cols - 2))) 0)
      (apply_shape smem srow (read_at imem (inp + int (cols - 1))) 1) (Inr 0) (out + int (cols - 1))"
    using False assms by (simp add: G_def numeral_2_eq_2)
  have mid: "foldE G [1..<cols - 1] =
     foldE (\<lambda>c. touch_pixel touch (apply_shape smem srow (read_at imem (inp + int (c - 1))) 0)
        (apply_shape smem srow (read_at imem (inp + int c)) 1)
        (apply_shape smem srow (read_at imem (inp + int (c + 1))) 2) (out + int c)) [1..<cols - 1]"
    by (rule ext) (rule foldE_cong, auto simp: G_def)
  have "foldE G [0..<cols] omem = bindE (G 0 omem) (\<lambda>o1. bindE (foldE G [1..<cols - 1] o1) (G (cols - 1)))"
    by (simp add: cols foldE_append del: upt_Suc) (auto simp: bindE_def foldE_append split: sum.splits)
  then show ?thesis
    using False unfolding probe_row_def Let_def first last mid by (simp only: G_def [abs_def] if_False)
qed

text \<open>The three pixels around a column, masked by a row of the shape.\<close>

definition overlay :: "Image \<Rightarrow> u8 list \<Rightarrow> u8 list \<Rightarrow> nat \<Rightarrow> int \<Rightarrow> int \<Rightarrow> u8 \<times> u8 \<times> u8" where
  "overlay im mem smem srow r c =
    (and (pixel_at im mem (r, c - 1)) (smem ! (3 * srow)),
     and (pixel_at im mem (r, c)) (smem ! (3 * srow + 1)),
     and (pixel_at im mem (r, c + 1)) (smem ! (3 * srow + 2)))"

lemma probeRows_spec:
  assumes inp: "img_fits input imem" and out: "img_fits output omem"
    and dims: "img_rows input = img_rows output" "img_columns input = img_columns output" "0 < img_columns input"
    and smem: "length smem = 9" "srow < 3"
  shows "\<exists>omem'. probeRows input imem fi output fo smem (int (3 * srow)) touch omem = Inr omem' \<and>
    length omem' = length omem \<and>
    (\<forall>p\<in>pixels output. pixel_at output omem' p =
      (if int fo \<le> fst p \<and> fst p - int fo + int (max fi fo) < int (img_rows output)
       then touch (pixel_at output omem p) (overlay input imem smem srow (fst p - int fo + int fi) (snd p))
       else pixel_at output omem p))"
proof -
  let ?R = "img_rows input - max fi fo"
  let ?C = "img_columns input"
  let ?g = "\<lambda>i c. touch_pixel touch
        (if 0 < c then apply_shape smem (int (3 * srow)) (read_at imem (img_row input (i + fi) + int (c - 1))) 0 else Inr 0)
        (apply_shape smem (int (3 * srow)) (read_at imem (img_row input (i + fi) + int c)) 1)
        (if c + 1 < ?C then apply_shape smem (int (3 * srow)) (read_at imem (img_row input (i + fi) + int (c + 1))) 2 else Inr 0)
        (img_row output (i + fo) + int c)"
  have shape: "apply_shape smem (int (3 * srow)) (Inr x) j = Inr (and x (smem ! (3 * srow + j)))" if "j < 3" for x j
    using smem that by (simp add: apply_shape_def read_at_def nat_add_distrib nat_mult_distrib)
  have rd: "read_at imem (img_row input r + int c) = Inr (pixel_at input imem (int r, int c))" if "r < img_rows input" "c < ?C" for r c
    using read_pixel [OF inp that(1), of "int c"] that by simp
  have "\<exists>omem'. foldE (\<lambda>i. foldE (?g i) [0..<?C]) [0..<?R] omem = Inr omem' \<and> length omem' = length omem \<and>
    (\<forall>i<?R. \<forall>c<?C. omem' ! img_index output (i + fo) c =
      touch (omem ! img_index output (i + fo) c) (overlay input imem smem srow (int (i + fi)) (int c))) \<and>
    (\<forall>k. (\<forall>i<?R. \<forall>c<?C. k \<noteq> img_index output (i + fo) c) \<longrightarrow> omem' ! k = omem ! k)"
  proof (rule grid_updates [where idx = "\<lambda>i. img_index output (i + fo)"
        and h = "\<lambda>i c res. touch res (overlay input imem smem srow (int (i + fi)) (int c))"])
    fix i c m assume ic: "i < ?R" "c < ?C" and m: "length m = length omem"
      "m ! img_index output (i + fo) c = omem ! img_index output (i + fo) c"
    have r: "i + fi < img_rows input" "i + fo < img_rows output" using ic(1) dims by auto
    have left: "(if 0 < c then apply_shape smem (int (3 * srow)) (read_at imem (img_row input (i + fi) + int (c - 1))) 0 else Inr 0) =
      Inr (and (pixel_at input imem (int (i + fi), int c - 1)) (smem ! (3 * srow)))"
    proof (cases "0 < c")
      case True
      then show ?thesis using rd [OF r(1), of "c - 1"] shape [of 0] ic(2) by (simp add: of_nat_diff)
    qed (simp add: pixel_outside)
    have mid: "apply_shape smem (int (3 * srow)) (read_at imem (img_row input (i + fi) + int c)) 1 =
      Inr (and (pixel_at input imem (int (i + fi), int c)) (smem ! (3 * srow + 1)))"
      using rd [OF r(1) ic(2)] shape [of 1] by simp
    have right: "(if c + 1 < ?C then apply_shape smem (int (3 * srow)) (read_at imem (img_row input (i + fi) + int (c + 1))) 2 else Inr 0) =
      Inr (and (pixel_at input imem (int (i + fi), int c + 1)) (smem ! (3 * srow + 2)))"
    proof (cases "c + 1 < ?C")
      case True
      then show ?thesis using rd [OF r(1) True] shape [of 2] by (simp add: add.commute)
    qed (simp add: pixel_outside)
    show "?g i c m = Inr (m[img_index output (i + fo) c :=
        touch (omem ! img_index output (i + fo) c) (overlay input imem smem srow (int (i + fi)) (int c))])"
      unfolding left mid right
      using read_at_img [OF out r(2), of c m] write_at_img [OF out r(2), of c m] ic(2) dims m
      by (simp add: touch_pixel_def overlay_def)
  next
    show "i = i' \<and> c = c'" if "i < ?R" "c < ?C" "i' < ?R" "c' < ?C" "img_index output (i + fo) c = img_index output (i' + fo) c'"
      for i c i' c' using img_index_eq [OF out, of c c' "i + fo" "i' + fo"] that dims by simp
    show "img_index output (i + fo) c < length omem" if "i < ?R" "c < ?C" for i c
      using img_fits_less [OF out, of "i + fo" c] that dims by simp
  qed
  moreover have "foldE (\<lambda>i. foldE (?g i) [0..<?C]) [0..<?R] omem =
    probeRows input imem fi output fo smem (int (3 * srow)) touch omem"
    unfolding probeRows_def by (rule foldE_cong) (simp only: probe_row_fold [OF dims(3)])
  ultimately obtain omem' where om: "probeRows input imem fi output fo smem (int (3 * srow)) touch omem = Inr omem'"
    "length omem' = length omem"
    "\<forall>i<?R. \<forall>c<?C. omem' ! img_index output (i + fo) c =
      touch (omem ! img_index output (i + fo) c) (overlay input imem smem srow (int (i + fi)) (int c))"
    "\<forall>k. (\<forall>i<?R. \<forall>c<?C. k \<noteq> img_index output (i + fo) c) \<longrightarrow> omem' ! k = omem ! k"
    by auto
  have "pixel_at output omem' p =
      (if int fo \<le> fst p \<and> fst p - int fo + int (max fi fo) < int (img_rows output)
       then touch (pixel_at output omem p) (overlay input imem smem srow (fst p - int fo + int fi) (snd p))
       else pixel_at output omem p)" if p: "p \<in> pixels output" for p
  proof -
    obtain r c where rc: "p = (int r, int c)" "r < img_rows output" "c < img_columns output" using pixels_nat [OF p] by blast
    have at: "pixel_at output m p = m ! img_index output r c" for m :: "u8 list" using p by (simp add: pixel_at_def rc)
    show ?thesis
    proof (cases "fo \<le> r \<and> r - fo < ?R")
      case True
      then have "omem' ! img_index output r c =
        touch (omem ! img_index output r c) (overlay input imem smem srow (int (r - fo + fi)) (int c))"
        using om(3) rc(3) dims by (metis le_add_diff_inverse2)
      moreover have "int (r - fo + fi) = fst p - int fo + int fi" using True rc by (simp add: of_nat_diff)
      moreover have "int fo \<le> fst p \<and> fst p - int fo + int (max fi fo) < int (img_rows output)"
        using True rc dims by auto
      ultimately show ?thesis using at [unfolded rc(1)] by (simp add: rc)
    next
      case False
      have "img_index output r c \<noteq> img_index output (i + fo) c'" if "i < ?R" "c' < ?C" for i c'
        using img_index_eq [OF out, of c c' r "i + fo"] that rc dims False by auto
      then have "omem' ! img_index output r c = omem ! img_index output r c" using om(4) by blast
      moreover have "\<not> (int fo \<le> fst p \<and> fst p - int fo + int (max fi fo) < int (img_rows output))"
        using False rc dims by auto
      ultimately show ?thesis by (simp only: at if_False)
    qed
  qed
  then show ?thesis using om(1,2) by blast
qed

lemma adjacent_iff:
  "adjacent Way4 (r, c) q \<longleftrightarrow> q \<in> {(r - 1, c), (r, c - 1), (r, c + 1), (r + 1, c)}"
  "adjacent Way8 (r, c) q \<longleftrightarrow>
    q \<in> {(r - 1, c - 1), (r - 1, c), (r - 1, c + 1), (r, c - 1), (r, c + 1), (r + 1, c - 1), (r + 1, c), (r + 1, c + 1)}"
proof -
  obtain a b where q: "q = (a, b)" by (rule prod.exhaust)
  show "adjacent Way4 (r, c) q \<longleftrightarrow> q \<in> {(r - 1, c), (r, c - 1), (r, c + 1), (r + 1, c)}"
    unfolding q adjacent.simps insert_iff empty_iff prod.inject by presburger
  show "adjacent Way8 (r, c) q \<longleftrightarrow>
    q \<in> {(r - 1, c - 1), (r - 1, c), (r - 1, c + 1), (r, c - 1), (r, c + 1), (r + 1, c - 1), (r + 1, c), (r + 1, c + 1)}"
    unfolding q adjacent.simps insert_iff empty_iff prod.inject by presburger
qed

text \<open>
  The aggregate of the noise layer is the maximum of three pixels: it is background exactly if all three are.
  Dilation with such a function shows at each pixel whether it has an obstacle among its neighbours.
\<close>

locale neighbour_max =
  fixes agg :: "u8 \<times> u8 \<times> u8 \<Rightarrow> u8" and is_bg :: "u8 \<Rightarrow> bool"
  assumes bg_zero: "is_bg 0"
    and agg_bg: "is_bg (agg (x, y, z)) \<longleftrightarrow> is_bg x \<and> is_bg y \<and> is_bg z"
begin

lemma overlay_bg:
  "is_bg (agg (overlay im mem (createShape Way8) 0 r c)) \<longleftrightarrow>
    is_bg (pixel_at im mem (r, c - 1)) \<and> is_bg (pixel_at im mem (r, c)) \<and> is_bg (pixel_at im mem (r, c + 1))"
  "is_bg (agg (overlay im mem (createShape Way8) 1 r c)) \<longleftrightarrow>
    is_bg (pixel_at im mem (r, c - 1)) \<and> is_bg (pixel_at im mem (r, c + 1))"
  "is_bg (agg (overlay im mem (createShape Way8) 2 r c)) \<longleftrightarrow>
    is_bg (pixel_at im mem (r, c - 1)) \<and> is_bg (pixel_at im mem (r, c)) \<and> is_bg (pixel_at im mem (r, c + 1))"
  "is_bg (agg (overlay im mem (createShape Way4) 0 r c)) \<longleftrightarrow> is_bg (pixel_at im mem (r, c))"
  "is_bg (agg (overlay im mem (createShape Way4) 1 r c)) \<longleftrightarrow>
    is_bg (pixel_at im mem (r, c - 1)) \<and> is_bg (pixel_at im mem (r, c + 1))"
  "is_bg (agg (overlay im mem (createShape Way4) 2 r c)) \<longleftrightarrow> is_bg (pixel_at im mem (r, c))"
proof -
  have mask: "and x 255 = x" "and x 0 = 0" for x :: u8
  proof -
    have "(- 1 :: u8) = 255" by simp
    then show "and x 255 = x" using and.right_neutral [of x] by (simp only:)
  qed simp
  show "is_bg (agg (overlay im mem (createShape Way8) 0 r c)) \<longleftrightarrow>
    is_bg (pixel_at im mem (r, c - 1)) \<and> is_bg (pixel_at im mem (r, c)) \<and> is_bg (pixel_at im mem (r, c + 1))"
    "is_bg (agg (overlay im mem (createShape Way8) 1 r c)) \<longleftrightarrow>
    is_bg (pixel_at im mem (r, c - 1)) \<and> is_bg (pixel_at im mem (r, c + 1))"
    "is_bg (agg (overlay im mem (createShape Way8) 2 r c)) \<longleftrightarrow>
    is_bg (pixel_at im mem (r, c - 1)) \<and> is_bg (pixel_at im mem (r, c)) \<and> is_bg (pixel_at im mem (r, c + 1))"
    "is_bg (agg (overlay im mem (createShape Way4) 0 r c)) \<longleftrightarrow> is_bg (pixel_at im mem (r, c))"
    "is_bg (agg (overlay im mem (createShape Way4) 1 r c)) \<longleftrightarrow>
    is_bg (pixel_at im mem (r, c - 1)) \<and> is_bg (pixel_at im mem (r, c + 1))"
    "is_bg (agg (overlay im mem (createShape Way4) 2 r c)) \<longleftrightarrow> is_bg (pixel_at im mem (r, c))"
    using bg_zero by (simp_all add: overlay_def createShape_def agg_bg mask numeral_nat)
qed

lemma dilate_spec:
  assumes inp: "img_fits input imem" and out: "img_fits output omem"
    and dims: "img_rows input = img_rows output" "img_columns input = img_columns output" "0 < img_rows input" "0 < img_columns input"
  shows "\<exists>omem'. dilate input imem output omem conn agg = Inr omem' \<and> length omem' = length omem \<and>
    (\<forall>p\<in>pixels input. is_bg (pixel_at output omem' p) \<longleftrightarrow> (\<forall>q. adjacent conn p q \<longrightarrow> is_bg (pixel_at input imem q)))"
proof -
  define smem where "smem = createShape conn"
  have len: "length smem = 9" by (cases conn) (simp_all add: smem_def createShape_def)
  have pix: "pixels output = pixels input" using dims by (simp add: pixels_def)
  let ?O = "\<lambda>srow r c. overlay input imem smem srow r c"
  let ?upd = "\<lambda>res l. agg (res, agg l, 0)"
  obtain o1 where o1: "probeRows input imem 0 output 0 smem (int (3 * 1)) (\<lambda>res. agg) omem = Inr o1" "length o1 = length omem"
    "\<forall>p\<in>pixels input. pixel_at output o1 p = agg (?O 1 (fst p) (snd p))"
    using probeRows_spec [OF inp out dims(1,2,4) len, of 1 0 0 "\<lambda>res. agg", unfolded pix] dims(1) by (auto simp: pixels_def)
  have out1: "img_fits output o1" using out o1(2) img_fits_length by blast
  obtain o2 where o2: "probeRows input imem 0 output 1 smem (int (3 * 0)) ?upd o1 = Inr o2" "length o2 = length o1"
    "\<forall>p\<in>pixels input. pixel_at output o2 p =
      (if 1 \<le> fst p then ?upd (pixel_at output o1 p) (?O 0 (fst p - 1) (snd p)) else pixel_at output o1 p)"
    using probeRows_spec [OF inp out1 dims(1,2,4) len, of 0 0 1 ?upd, unfolded pix] dims(1) by (auto simp: pixels_def)
  have out2: "img_fits output o2" using out1 o2(2) img_fits_length by blast
  obtain o3 where o3: "probeRows input imem 1 output 0 smem (int (3 * 2)) ?upd o2 = Inr o3" "length o3 = length o2"
    "\<forall>p\<in>pixels input. pixel_at output o3 p =
      (if fst p + 1 < int (img_rows input) then ?upd (pixel_at output o2 p) (?O 2 (fst p + 1) (snd p)) else pixel_at output o2 p)"
    using probeRows_spec [OF inp out2 dims(1,2,4) len, of 2 1 0 ?upd, unfolded pix] dims(1) by (auto simp: pixels_def add.commute)
  have rows: "img_row \<lparr>data_start = 0, img_rows = 3, img_columns = 3, img_step = 3\<rparr> r = int (3 * r)" for r
    by (simp add: img_row_def)
  have outside: "pixel_at input imem (r, c) = 0" if "\<not> (0 \<le> r \<and> r < int (img_rows input))" for r c
    using that by (auto simp: pixel_at_def pixels_def)
  have final: "dilate input imem output omem conn agg = Inr (if 1 < img_rows input then o3 else o1)"
    using dims o1(1) o2(1) o3(1) rows [of 0] rows [of 1] rows [of 2]
    by (simp add: dilate_def morphologyOperation_def img_empty_def smem_def [symmetric])
  have "is_bg (pixel_at output (if 1 < img_rows input then o3 else o1) p) \<longleftrightarrow>
      is_bg (agg (?O 0 (fst p - 1) (snd p))) \<and> is_bg (agg (?O 1 (fst p) (snd p))) \<and> is_bg (agg (?O 2 (fst p + 1) (snd p)))"
    if p: "p \<in> pixels input" for p
  proof -
    have top: "is_bg (agg (?O 0 (fst p - 1) (snd p)))" if "\<not> 1 \<le> fst p"
      using that p bg_zero by (simp add: overlay_def agg_bg outside)
    have bottom: "is_bg (agg (?O 2 (fst p + 1) (snd p)))" if "\<not> fst p + 1 < int (img_rows input)"
      using that p bg_zero by (simp add: overlay_def agg_bg outside)
    show ?thesis
    proof (cases "1 < img_rows input")
      case True
      then show ?thesis using bspec [OF o1(3) p] bspec [OF o2(3) p] bspec [OF o3(3) p] top bottom bg_zero
        by (auto simp: agg_bg)
    next
      case False
      then have "\<not> 1 \<le> fst p" "\<not> fst p + 1 < int (img_rows input)" using p by (auto simp: pixels_def)
      then show ?thesis using False bspec [OF o1(3) p] top bottom by simp
    qed
  qed
  moreover have "is_bg (agg (?O 0 (fst p - 1) (snd p))) \<and> is_bg (agg (?O 1 (fst p) (snd p))) \<and> is_bg (agg (?O 2 (fst p + 1) (snd p))) \<longleftrightarrow>
      (\<forall>q. adjacent conn p q \<longrightarrow> is_bg (pixel_at input imem q))" for p
    by (cases conn; cases p) (simp only: smem_def overlay_bg adjacent_iff fst_conv snd_conv, blast)+
  ultimately show ?thesis using final o1(2) o2(2) o3(2) by (intro exI [of _ "if 1 < img_rows input then o3 else o1"]) simp
qed

end

end
