(* ===== verification/Footprint.thy ===== *)
theory Footprint
  imports Costmap_2D
begin

text \<open>
  The robot's footprint (nav2_costmap_2d/footprint.cpp, costmap_math), Bresenham's line (nav2_util/line_iterator.hpp)
  and the cost of a footprint on a costmap (footprint_collision_checker.cpp). A point is a pair of reals; \<open>double\<close> is
  modelled by the reals. The coordinates of a line are cells of a map, so its \<open>int\<close> arithmetic
  stays far from overflow and is that of \<open>int\<close>. \<open>None\<close> has no defined outcome: an access outside the
  map or the use of a variable that was never set.
\<close>

section \<open>Geometry\<close>

type_synonym fpoint = "real \<times> real"

definition DBL_MAX :: real where
  "DBL_MAX = (2 - 1 / 2 ^ 52) * 2 ^ 1023"

definition sign0 :: "real \<Rightarrow> real" where
  "sign0 x = (if x < 0 then -1 else if x > 0 then 1 else 0)"

definition distance :: "real \<Rightarrow> real \<Rightarrow> real \<Rightarrow> real \<Rightarrow> real" where
  "distance ax ay bx by' = sqrt ((bx - ax)\<^sup>2 + (by' - ay)\<^sup>2)"

text \<open>
  For an edge of length zero the code divides zero by zero, and \<open>std::min\<close> and \<open>std::max\<close> in the caller drop the
  NaN; here the quotient is 0 and the distance that of the vertex, with the same minimum and maximum.
\<close>

definition distanceToLine :: "real \<Rightarrow> real \<Rightarrow> real \<Rightarrow> real \<Rightarrow> real \<Rightarrow> real \<Rightarrow> real" where
  "distanceToLine pX pY ax ay bx by' =
    (let A = pX - ax; B = pY - ay; C = bx - ax; D = by' - ay;
         dot = A * C + B * D; len_sq = C * C + D * D; param = dot / len_sq
     in if param < 0 then distance pX pY ax ay
        else if param > 1 then distance pX pY bx by'
        else distance pX pY (ax + param * C) (ay + param * D))"

definition outline_edges :: "'a list \<Rightarrow> ('a \<times> 'a) list" where
  "outline_edges ps = zip ps (tl ps) @ [(last ps, hd ps)]"

definition min_max_step :: "fpoint \<times> fpoint \<Rightarrow> real \<times> real \<Rightarrow> real \<times> real" where
  "min_max_step e mm =
    (let vertex_dist = distance 0 0 (fst (fst e)) (snd (fst e));
         edge_dist = distanceToLine 0 0 (fst (fst e)) (snd (fst e)) (fst (snd e)) (snd (snd e))
     in (min (fst mm) (min vertex_dist edge_dist), max (snd mm) (max vertex_dist edge_dist)))"

definition calculateMinAndMaxDistances :: "fpoint list \<Rightarrow> real \<times> real" where
  "calculateMinAndMaxDistances footprint =
    (if length footprint \<le> 2 then (DBL_MAX, 0)
     else fold min_max_step (outline_edges footprint) (DBL_MAX, 0))"

definition transformFootprint :: "real \<Rightarrow> real \<Rightarrow> real \<Rightarrow> fpoint list \<Rightarrow> fpoint list" where
  "transformFootprint x y theta footprint_spec =
    map (\<lambda>p. (x + (fst p * cos theta - snd p * sin theta), y + (fst p * sin theta + snd p * cos theta)))
      footprint_spec"

definition padFootprint :: "real \<Rightarrow> fpoint list \<Rightarrow> fpoint list" where
  "padFootprint padding = map (\<lambda>p. (fst p + sign0 (fst p) * padding, snd p + sign0 (snd p) * padding))"

definition makeFootprintFromRadius :: "real \<Rightarrow> fpoint list" where
  "makeFootprintFromRadius radius =
    map (\<lambda>i. (cos (real i * 2 * pi / 16) * radius, sin (real i * 2 * pi / 16) * radius)) [0..<16]"

section \<open>Lines of cells\<close>

record LineIterator =
  line_x :: int
  line_y :: int
  curpixel :: int
  xinc1 :: int
  xinc2 :: int
  yinc1 :: int
  yinc2 :: int
  den :: int
  num :: int
  numadd :: int
  numpixels :: int

definition new_line :: "int \<Rightarrow> int \<Rightarrow> int \<Rightarrow> int \<Rightarrow> LineIterator" where
  "new_line x0 y0 x1 y1 =
    (let dx = \<bar>x1 - x0\<bar>; dy = \<bar>y1 - y0\<bar>;
         xs = (if x1 \<ge> x0 then 1 else -1); ys = (if y1 \<ge> y0 then 1 else -1)
     in if dx \<ge> dy
        then \<lparr>line_x = x0, line_y = y0, curpixel = 0, xinc1 = 0, xinc2 = xs, yinc1 = ys, yinc2 = 0,
              den = dx, num = dx div 2, numadd = dy, numpixels = dx\<rparr>
        else \<lparr>line_x = x0, line_y = y0, curpixel = 0, xinc1 = xs, xinc2 = 0, yinc1 = 0, yinc2 = ys,
              den = dy, num = dy div 2, numadd = dx, numpixels = dy\<rparr>)"

definition isValid :: "LineIterator \<Rightarrow> bool" where
  "isValid l \<longleftrightarrow> curpixel l \<le> numpixels l"

definition advance :: "LineIterator \<Rightarrow> LineIterator" where
  "advance l =
    (let n = num l + numadd l;
         l1 = (if n \<ge> den l
               then l\<lparr>num := n - den l, line_x := line_x l + xinc1 l, line_y := line_y l + yinc1 l\<rparr>
               else l\<lparr>num := n\<rparr>)
     in l1\<lparr>line_x := line_x l1 + xinc2 l1, line_y := line_y l1 + yinc2 l1, curpixel := curpixel l1 + 1\<rparr>)"

section \<open>The cost of a footprint\<close>

definition pointCost :: "costmap2d \<Rightarrow> int \<Rightarrow> int \<Rightarrow> real option" where
  "pointCost m x y = map_option (\<lambda>c. real (unat c)) (getCost m (word_of_int x) (word_of_int y))"

function lineCost_loop :: "costmap2d \<Rightarrow> LineIterator \<Rightarrow> real \<Rightarrow> real option" where
  "lineCost_loop m line line_cost =
    (if \<not> isValid line then Some line_cost
     else Option.bind (pointCost m (line_x line) (line_y line)) (\<lambda>point_cost.
       if point_cost = real (unat LETHAL_OBSTACLE) then Some point_cost
       else lineCost_loop m (advance line) (if line_cost < point_cost then point_cost else line_cost)))"
  by auto
termination
  by (relation "measure (\<lambda>(m, l, c). nat (numpixels l + 1 - curpixel l))")
     (auto simp: isValid_def advance_def Let_def)

definition lineCost :: "costmap2d \<Rightarrow> int \<Rightarrow> int \<Rightarrow> int \<Rightarrow> int \<Rightarrow> real option" where
  "lineCost m x0 x1 y0 y1 = lineCost_loop m (new_line x0 y0 x1 y1) 0"

text \<open>
  The loop over the vertices after the first: an early result, or the last vertex and the cost so far.
\<close>

definition cells_line :: "costmap2d \<Rightarrow> u32 \<times> u32 \<Rightarrow> u32 \<times> u32 \<Rightarrow> real option" where
  "cells_line m a b = lineCost m (sint (fst a)) (sint (fst b)) (sint (snd a)) (sint (snd b))"

fun footprint_loop ::
  "costmap2d \<Rightarrow> fpoint list \<Rightarrow> u32 \<times> u32 \<Rightarrow> real \<Rightarrow> (real + (u32 \<times> u32) \<times> real) option" where
  "footprint_loop m [] c0 cost = Some (Inr (c0, cost))"
| "footprint_loop m (p # ps) c0 cost =
    Option.bind (worldToMap m (fst p) (snd p)) (\<lambda>r. case r of
       None \<Rightarrow> Some (Inl (real (unat LETHAL_OBSTACLE)))
     | Some c1 \<Rightarrow> Option.bind (cells_line m c0 c1) (\<lambda>lc.
         let cost' = max lc cost
         in if cost' = real (unat LETHAL_OBSTACLE) then Some (Inl cost')
            else footprint_loop m ps c1 cost'))"

definition footprintCost :: "costmap2d \<Rightarrow> fpoint list \<Rightarrow> real option" where
  "footprintCost m footprint =
    (case footprint of
       [] \<Rightarrow> None
     | p # ps \<Rightarrow> Option.bind (worldToMap m (fst p) (snd p)) (\<lambda>r. case r of
         None \<Rightarrow> Some (real (unat LETHAL_OBSTACLE))
       | Some start \<Rightarrow>
           (if ps = [] then None
            else Option.bind (footprint_loop m ps start 0) (\<lambda>res. case res of
              Inl c \<Rightarrow> Some c
            | Inr (last_cell, cost) \<Rightarrow>
                map_option (\<lambda>lc. max lc cost) (cells_line m start last_cell)))))"

definition footprintCostAtPose :: "costmap2d \<Rightarrow> real \<Rightarrow> real \<Rightarrow> real \<Rightarrow> fpoint list \<Rightarrow> real option" where
  "footprintCostAtPose m x y theta footprint = footprintCost m (transformFootprint x y theta footprint)"

section \<open>Bresenham's line\<close>

text \<open>After \<open>k\<close> steps the iterator has moved \<open>q\<close> times along the minor axis.\<close>

lemma advance_funpow:
  fixes l :: LineIterator
  assumes "0 < den l" "0 \<le> num l" "num l < den l" "0 \<le> numadd l" "numadd l \<le> den l"
  defines "q k \<equiv> (num l + int k * numadd l) div den l"
  shows "(advance ^^ k) l = l\<lparr>line_x := line_x l + int k * xinc2 l + q k * xinc1 l,
    line_y := line_y l + int k * yinc2 l + q k * yinc1 l,
    num := num l + int k * numadd l - q k * den l, curpixel := curpixel l + int k\<rparr>"
proof (induction k)
  case 0
  have "q 0 = 0" using assms(1-3) by (simp add: q_def div_pos_pos_trivial)
  then show ?case by simp
next
  case (Suc k)
  define n where "n = num l + int k * numadd l - q k * den l"
  have n: "0 \<le> n" "n < den l"
    using assms(1) by (simp_all add: n_def q_def minus_div_mult_eq_mod)
  have eq: "num l + int (Suc k) * numadd l = (n + numadd l) + q k * den l"
    by (simp add: n_def algebra_simps)
  have qS: "q (Suc k) = q k + (n + numadd l) div den l"
    unfolding q_def eq using assms(1) by (simp add: q_def)
  have "(n + numadd l) div den l = (if n + numadd l \<ge> den l then 1 else 0)"
  proof (cases "n + numadd l \<ge> den l")
    case True
    then have "(n + numadd l) div den l = (n + numadd l - den l + 1 * den l) div den l" by simp
    also have "\<dots> = 1 + (n + numadd l - den l) div den l" using assms(1) by (subst div_mult_self1) simp_all
    also have "\<dots> = 1" using True n assms(5) by (simp add: div_pos_pos_trivial)
    finally show ?thesis using True by simp
  qed (use n assms(4) in \<open>simp add: div_pos_pos_trivial\<close>)
  then have q': "q (Suc k) = q k + (if n + numadd l \<ge> den l then 1 else 0)" using qS by simp
  have "(advance ^^ Suc k) l = advance ((advance ^^ k) l)" by simp
  also have "\<dots> = advance (l\<lparr>line_x := line_x l + int k * xinc2 l + q k * xinc1 l,
    line_y := line_y l + int k * yinc2 l + q k * yinc1 l, num := n, curpixel := curpixel l + int k\<rparr>)"
    by (simp add: Suc.IH n_def)
  also have "\<dots> = l\<lparr>line_x := line_x l + int (Suc k) * xinc2 l + q (Suc k) * xinc1 l,
    line_y := line_y l + int (Suc k) * yinc2 l + q (Suc k) * yinc1 l,
    num := num l + int (Suc k) * numadd l - q (Suc k) * den l, curpixel := curpixel l + int (Suc k)\<rparr>"
    unfolding q' eq by (cases l) (auto simp: advance_def Let_def algebra_simps)
  finally show ?case .
qed

definition line_pos :: "int \<Rightarrow> int \<Rightarrow> int \<Rightarrow> int \<Rightarrow> nat \<Rightarrow> int \<times> int" where
  "line_pos x0 y0 x1 y1 k =
    (line_x ((advance ^^ k) (new_line x0 y0 x1 y1)), line_y ((advance ^^ k) (new_line x0 y0 x1 y1)))"

definition line_steps :: "int \<Rightarrow> int \<Rightarrow> int \<Rightarrow> int \<Rightarrow> nat" where
  "line_steps x0 y0 x1 y1 = nat (max \<bar>x1 - x0\<bar> \<bar>y1 - y0\<bar>)"

lemma minor_steps:
  fixes d a :: int
  assumes "0 < d" "0 \<le> a" "a \<le> d" "0 \<le> k" "k \<le> d"
  shows "0 \<le> (d div 2 + k * a) div d" "(d div 2 + k * a) div d \<le> a" "(d div 2 + d * a) div d = a"
proof -
  have half: "0 \<le> d div 2" "d div 2 < d" using assms(1) by (auto simp: pos_imp_zdiv_nonneg_iff)
  show "0 \<le> (d div 2 + k * a) div d" using half assms by (simp add: pos_imp_zdiv_nonneg_iff)
  show e: "(d div 2 + d * a) div d = a" using half assms(1) by (simp add: div_pos_pos_trivial)
  have "k * a \<le> d * a" using assms by (simp add: mult_right_mono)
  then have "(d div 2 + k * a) div d \<le> (d div 2 + d * a) div d"
    by (intro zdiv_mono1) (use assms(1) in auto)
  then show "(d div 2 + k * a) div d \<le> a" unfolding e .
qed

text \<open>The line stays in the box of its two ends and reaches the second one.\<close>

lemma new_line_den: "den (new_line x0 y0 x1 y1) = max \<bar>x1 - x0\<bar> \<bar>y1 - y0\<bar>"
  "numpixels (new_line x0 y0 x1 y1) = max \<bar>x1 - x0\<bar> \<bar>y1 - y0\<bar>"
  "num (new_line x0 y0 x1 y1) = max \<bar>x1 - x0\<bar> \<bar>y1 - y0\<bar> div 2"
  "numadd (new_line x0 y0 x1 y1) = min \<bar>x1 - x0\<bar> \<bar>y1 - y0\<bar>"
  "curpixel (new_line x0 y0 x1 y1) = 0"
  by (auto simp: new_line_def Let_def max_def min_def)

lemma min_le_max: "min a b \<le> max a b" "0 \<le> max \<bar>a\<bar> \<bar>b\<bar>" for a b :: int
  by auto

lemma half_less: "0 < d \<Longrightarrow> d div 2 < d" for d :: int
  by presburger

lemma line_pos_eq:
  fixes x0 y0 x1 y1 :: int and k :: nat
  defines "dx \<equiv> \<bar>x1 - x0\<bar>" and "dy \<equiv> \<bar>y1 - y0\<bar>"
  defines "xs \<equiv> (if x1 \<ge> x0 then 1 else -1 :: int)" and "ys \<equiv> (if y1 \<ge> y0 then 1 else -1 :: int)"
  assumes "0 < max dx dy"
  shows "line_pos x0 y0 x1 y1 k =
    (if dx \<ge> dy then (x0 + int k * xs, y0 + ((dx div 2 + int k * dy) div dx) * ys)
     else (x0 + ((dy div 2 + int k * dx) div dy) * xs, y0 + int k * ys))"
proof -
  have "(advance ^^ k) (new_line x0 y0 x1 y1) = (let l = new_line x0 y0 x1 y1; q = (num l + int k * numadd l) div den l
     in l\<lparr>line_x := line_x l + int k * xinc2 l + q * xinc1 l, line_y := line_y l + int k * yinc2 l + q * yinc1 l,
    num := num l + int k * numadd l - q * den l, curpixel := curpixel l + int k\<rparr>)"
    unfolding Let_def
    by (rule advance_funpow)
      (use assms(5) half_less [of "max dx dy"] min_le_max(1) in \<open>auto simp: new_line_den dx_def dy_def\<close>)
  then show ?thesis
    by (simp add: line_pos_def Let_def new_line_def dx_def [symmetric] dy_def [symmetric] xs_def ys_def)
qed

lemma scaled_between:
  fixes a b k :: int
  assumes "0 \<le> k" "k \<le> \<bar>b - a\<bar>"
  shows "min a b \<le> a + k * (if b \<ge> a then 1 else -1)" "a + k * (if b \<ge> a then 1 else -1) \<le> max a b"
  using assms by auto

lemma line_pos_box:
  assumes "k \<le> line_steps x0 y0 x1 y1"
  shows "min x0 x1 \<le> fst (line_pos x0 y0 x1 y1 k)" "fst (line_pos x0 y0 x1 y1 k) \<le> max x0 x1"
    "min y0 y1 \<le> snd (line_pos x0 y0 x1 y1 k)" "snd (line_pos x0 y0 x1 y1 k) \<le> max y0 y1"
proof -
  let ?dx = "\<bar>x1 - x0\<bar>" and ?dy = "\<bar>y1 - y0\<bar>"
  have k: "int k \<le> max ?dx ?dy" using assms by (simp add: line_steps_def le_nat_iff)
  have "(min x0 x1 \<le> fst (line_pos x0 y0 x1 y1 k) \<and> fst (line_pos x0 y0 x1 y1 k) \<le> max x0 x1) \<and>
    (min y0 y1 \<le> snd (line_pos x0 y0 x1 y1 k) \<and> snd (line_pos x0 y0 x1 y1 k) \<le> max y0 y1)"
  proof (cases "0 < max ?dx ?dy")
    case True
    show ?thesis
    proof (cases "?dx \<ge> ?dy")
      case dx: True
      then have m: "0 < ?dx" "int k \<le> ?dx" using True k by auto
      define q where "q = (?dx div 2 + int k * ?dy) div ?dx"
      have q: "0 \<le> q" "q \<le> ?dy" unfolding q_def by (rule minor_steps [OF m(1) _ dx _ m(2)]; simp)+
      have "line_pos x0 y0 x1 y1 k =
          (x0 + int k * (if x1 \<ge> x0 then 1 else -1), y0 + q * (if y1 \<ge> y0 then 1 else -1))"
        unfolding line_pos_eq [OF True] if_P [OF dx] q_def by simp
      then show ?thesis
        using scaled_between [OF of_nat_0_le_iff m(2)] scaled_between [OF q] by simp
    next
      case dy: False
      then have m: "0 < ?dy" "int k \<le> ?dy" using True k by auto
      define q where "q = (?dy div 2 + int k * ?dx) div ?dy"
      have "?dx \<le> ?dy" using dy by simp
      then have q: "0 \<le> q" "q \<le> ?dx" unfolding q_def by (intro minor_steps [OF m(1) _ _ _ m(2)]; simp)+
      have "line_pos x0 y0 x1 y1 k =
          (x0 + q * (if x1 \<ge> x0 then 1 else -1), y0 + int k * (if y1 \<ge> y0 then 1 else -1))"
        unfolding line_pos_eq [OF True] if_not_P [OF dy] q_def by simp
      then show ?thesis
        using scaled_between [OF of_nat_0_le_iff m(2)] scaled_between [OF q] by simp
    qed
  next
    case False
    then have "k = 0" using k by linarith
    then show ?thesis by (simp add: line_pos_def new_line_def Let_def)
  qed
  then show "min x0 x1 \<le> fst (line_pos x0 y0 x1 y1 k)" "fst (line_pos x0 y0 x1 y1 k) \<le> max x0 x1"
    "min y0 y1 \<le> snd (line_pos x0 y0 x1 y1 k)" "snd (line_pos x0 y0 x1 y1 k) \<le> max y0 y1" by blast+
qed

lemma line_pos_ends:
  "line_pos x0 y0 x1 y1 0 = (x0, y0)" "line_pos x0 y0 x1 y1 (line_steps x0 y0 x1 y1) = (x1, y1)"
proof -
  show "line_pos x0 y0 x1 y1 0 = (x0, y0)" by (simp add: line_pos_def new_line_def Let_def)
  let ?dx = "\<bar>x1 - x0\<bar>" and ?dy = "\<bar>y1 - y0\<bar>"
  show "line_pos x0 y0 x1 y1 (line_steps x0 y0 x1 y1) = (x1, y1)"
  proof (cases "0 < max ?dx ?dy")
    case True
    show ?thesis
    proof (cases "?dx \<ge> ?dy")
      case dx: True
      then have m: "0 < ?dx" "max ?dx ?dy = ?dx" using True by auto
      have e: "(?dx div 2 + ?dx * ?dy) div ?dx = ?dy" by (rule minor_steps(3) [OF m(1), where k = 0]) (use dx in auto)
      have "line_pos x0 y0 x1 y1 (nat ?dx) =
          (x0 + ?dx * (if x1 \<ge> x0 then 1 else -1), y0 + ?dy * (if y1 \<ge> y0 then 1 else -1))"
        unfolding line_pos_eq [OF True] if_P [OF dx] using e m(1) by simp
      then show ?thesis unfolding line_steps_def m(2) by simp
    next
      case dy: False
      then have m: "0 < ?dy" "max ?dx ?dy = ?dy" using True by auto
      have e: "(?dy div 2 + ?dy * ?dx) div ?dy = ?dx" by (rule minor_steps(3) [OF m(1), where k = 0]) (use dy in auto)
      have "line_pos x0 y0 x1 y1 (nat ?dy) =
          (x0 + ?dx * (if x1 \<ge> x0 then 1 else -1), y0 + ?dy * (if y1 \<ge> y0 then 1 else -1))"
        unfolding line_pos_eq [OF True] if_not_P [OF dy] using e m(1) by simp
      then show ?thesis unfolding line_steps_def m(2) by simp
    qed
  next
    case False
    then have "x1 = x0" "y1 = y0" by auto
    then show ?thesis by (simp add: line_pos_def new_line_def Let_def line_steps_def)
  qed
qed

section \<open>Costs along a line\<close>

definition fits :: "costmap2d \<Rightarrow> bool" where
  "fits m \<longleftrightarrow> map_ok m \<and> unat (size_x m) < 2 ^ 31 \<and> unat (size_y m) < 2 ^ 31"

definition on_map :: "costmap2d \<Rightarrow> int \<times> int \<Rightarrow> bool" where
  "on_map m c \<longleftrightarrow> 0 \<le> fst c \<and> fst c < int (unat (size_x m)) \<and> 0 \<le> snd c \<and> snd c < int (unat (size_y m))"

definition cost_at :: "costmap2d \<Rightarrow> int \<times> int \<Rightarrow> real" where
  "cost_at m c = real (unat (cell m (nat (fst c)) (nat (snd c))))"

definition line_cells :: "int \<times> int \<Rightarrow> int \<times> int \<Rightarrow> (int \<times> int) set" where
  "line_cells a b = line_pos (fst a) (snd a) (fst b) (snd b) ` {..line_steps (fst a) (snd a) (fst b) (snd b)}"

lemma line_cells_finite [simp]: "finite (line_cells a b)"
  by (simp add: line_cells_def)

lemma line_cells_ends: "a \<in> line_cells a b" "b \<in> line_cells a b"
proof -
  have "line_pos (fst a) (snd a) (fst b) (snd b) 0 \<in> line_cells a b"
    "line_pos (fst a) (snd a) (fst b) (snd b) (line_steps (fst a) (snd a) (fst b) (snd b)) \<in> line_cells a b"
    unfolding line_cells_def by blast+
  then show "a \<in> line_cells a b" "b \<in> line_cells a b" by (simp_all add: line_pos_ends)
qed

lemma line_cells_on_map:
  assumes "on_map m a" "on_map m b" "c \<in> line_cells a b"
  shows "on_map m c"
proof -
  obtain k where k: "k \<le> line_steps (fst a) (snd a) (fst b) (snd b)"
    "c = line_pos (fst a) (snd a) (fst b) (snd b) k"
    using assms(3) unfolding line_cells_def by auto
  show ?thesis using line_pos_box [OF k(1)] assms(1,2) unfolding k(2) on_map_def by linarith
qed

lemma pointCost_on_map:
  assumes "map_ok m" "on_map m (x, y)"
  shows "pointCost m x y = Some (cost_at m (x, y))"
proof -
  have b: "nat x < unat (size_x m)" "nat y < unat (size_y m)" and pos: "0 \<le> x" "0 \<le> y"
    using assms(2) unfolding on_map_def fst_conv snd_conv by linarith+
  have lt: "x < 2 ^ 32" "y < 2 ^ 32"
    using assms(2) uint_lt2p [of "size_x m"] uint_lt2p [of "size_y m"] by (auto simp: on_map_def)
  have u: "unat (word_of_int x :: u32) = nat x" "unat (word_of_int y :: u32) = nat y"
    by (rule unat_word_of_int [OF pos(1) lt(1)], rule unat_word_of_int [OF pos(2) lt(2)])
  have "word_of_int x < size_x m" "word_of_int y < size_y m" unfolding word_less_nat_alt u by (rule b)+
  from getCost_cell [OF assms(1) this]
  have "getCost m (word_of_int x) (word_of_int y) = Some (cell m (nat x) (nat y))" unfolding u .
  then show ?thesis by (simp add: pointCost_def cost_at_def)
qed

abbreviation LETHAL :: real where "LETHAL \<equiv> 254"

text \<open>What a line costs: LETHAL if it meets a lethal cell, else the largest cost on it.\<close>

definition worst :: "real set \<Rightarrow> real" where
  "worst C = (if LETHAL \<in> C then LETHAL else Max (insert 0 C))"

lemma curpixel_funpow: "curpixel ((advance ^^ k) l) = curpixel l + int k \<and> numpixels ((advance ^^ k) l) = numpixels l"
  by (induction k) (auto simp: advance_def Let_def)

lemma lineCost_loop_spec:
  assumes "\<And>j. k \<le> j \<Longrightarrow> j \<le> n \<Longrightarrow> pointCost m (fst (line_pos x0 y0 x1 y1 j)) (snd (line_pos x0 y0 x1 y1 j)) = Some (c j)"
    and "n = line_steps x0 y0 x1 y1" "k \<le> Suc n" "lc \<noteq> LETHAL"
  shows "lineCost_loop m ((advance ^^ k) (new_line x0 y0 x1 y1)) lc =
    Some (if LETHAL \<in> c ` {k..n} then LETHAL else Max (insert lc (c ` {k..n})))"
  using assms(3,1,4)
proof (induction arbitrary: lc rule: inc_induct)
  case base
  have "\<not> isValid ((advance ^^ Suc n) (new_line x0 y0 x1 y1))"
    using curpixel_funpow [of "Suc n" "new_line x0 y0 x1 y1"] assms(2) min_le_max(2) [of "x1 - x0" "y1 - y0"]
    by (simp add: isValid_def new_line_den line_steps_def del: funpow.simps)
  then show ?case by (simp del: funpow.simps)
next
  case (step k)
  let ?l = "(advance ^^ k) (new_line x0 y0 x1 y1)"
  have kn: "k \<le> n" using step.hyps by simp
  have valid: "isValid ?l"
    using curpixel_funpow [of k "new_line x0 y0 x1 y1"] assms(2) kn
    by (simp add: isValid_def new_line_den line_steps_def le_nat_iff)
  have pc: "pointCost m (line_x ?l) (line_y ?l) = Some (c k)"
    using step.prems(1) [of k] kn by (simp add: line_pos_def)
  have split: "{k..n} = insert k {Suc k..n}" using kn by auto
  let ?lc = "if lc < c k then c k else lc"
  have "lineCost_loop m ?l lc = (if c k = LETHAL then Some (c k) else lineCost_loop m (advance ?l) ?lc)"
    by (subst lineCost_loop.simps) (simp add: valid pc)
  moreover have "lineCost_loop m (advance ?l) ?lc =
      Some (if LETHAL \<in> c ` {Suc k..n} then LETHAL else Max (insert ?lc (c ` {Suc k..n})))"
    if "c k \<noteq> LETHAL"
    using step.IH [of ?lc] step.prems that by simp
  moreover have "Max (insert ?lc (c ` {Suc k..n})) = Max (insert lc (c ` {k..n}))"
    unfolding split image_insert by (cases "c ` {Suc k..n} = {}") (auto simp: max_def)
  ultimately show ?case unfolding split image_insert by auto
qed

lemma lineCost_spec:
  assumes "map_ok m" "on_map m (x0, y0)" "on_map m (x1, y1)"
  shows "lineCost m x0 x1 y0 y1 = Some (worst (cost_at m ` line_cells (x0, y0) (x1, y1)))"
proof -
  let ?n = "line_steps x0 y0 x1 y1" and ?pos = "line_pos x0 y0 x1 y1"
  have "pointCost m (fst (?pos j)) (snd (?pos j)) = Some (cost_at m (?pos j))" if "j \<le> ?n" for j
  proof -
    have "?pos j \<in> line_cells (x0, y0) (x1, y1)" using that by (auto simp: line_cells_def)
    then show ?thesis using pointCost_on_map [OF assms(1)] line_cells_on_map [OF assms(2,3)] by simp
  qed
  then have "lineCost_loop m ((advance ^^ 0) (new_line x0 y0 x1 y1)) 0 =
      Some (if LETHAL \<in> (\<lambda>j. cost_at m (?pos j)) ` {0..?n} then LETHAL
            else Max (insert 0 ((\<lambda>j. cost_at m (?pos j)) ` {0..?n})))"
    by (intro lineCost_loop_spec) auto
  moreover have "(\<lambda>j. cost_at m (?pos j)) ` {0..?n} = cost_at m ` line_cells (x0, y0) (x1, y1)"
    by (auto simp: line_cells_def image_image atLeast0AtMost)
  ultimately show ?thesis by (simp add: lineCost_def worst_def)
qed

section \<open>The cost of the outline\<close>

definition vertex_cell :: "costmap2d \<Rightarrow> fpoint \<Rightarrow> (u32 \<times> u32) option" where
  "vertex_cell m p = Option.bind (worldToMap m (fst p) (snd p)) (\<lambda>r. r)"

definition int_cell :: "u32 \<times> u32 \<Rightarrow> int \<times> int" where
  "int_cell c = (int (unat (fst c)), int (unat (snd c)))"

text \<open>The cells of the outline: each edge, and the closing edge drawn from the first vertex to the last.\<close>

definition edge_cells :: "(u32 \<times> u32) list \<Rightarrow> (int \<times> int) set" where
  "edge_cells cs = (\<Union>(a, b) \<in> set (zip cs (tl cs)). line_cells (int_cell a) (int_cell b))"

definition outline_cells :: "costmap2d \<Rightarrow> fpoint list \<Rightarrow> (int \<times> int) set" where
  "outline_cells m fp =
    (let cs = map (the \<circ> vertex_cell m) fp
     in edge_cells cs \<union> line_cells (int_cell (hd cs)) (int_cell (last cs)))"

definition on_map_cell :: "costmap2d \<Rightarrow> u32 \<times> u32 \<Rightarrow> bool" where
  "on_map_cell m c \<longleftrightarrow> fst c < size_x m \<and> snd c < size_y m"

lemma on_map_int_cell: "on_map_cell m c \<Longrightarrow> on_map m (int_cell c)"
  by (simp add: on_map_cell_def on_map_def int_cell_def word_less_nat_alt del: of_nat_unat)

lemma cells_line_spec:
  assumes "fits m" "on_map_cell m a" "on_map_cell m b"
  shows "cells_line m a b = Some (worst (cost_at m ` line_cells (int_cell a) (int_cell b)))"
proof -
  have "sint w = int (unat w)" if "w < z" "unat z < 2 ^ 31" for w z :: u32
    using that by (intro sint_small) (simp add: word_less_nat_alt)
  then have "cells_line m a b = lineCost m (int (unat (fst a))) (int (unat (fst b))) (int (unat (snd a))) (int (unat (snd b)))"
    using assms unfolding cells_line_def fits_def on_map_cell_def by metis
  also have "\<dots> = Some (worst (cost_at m ` line_cells (int_cell a) (int_cell b)))"
    using lineCost_spec [of m "int (unat (fst a))" "int (unat (snd a))" "int (unat (fst b))" "int (unat (snd b))"]
      on_map_int_cell [OF assms(2)] on_map_int_cell [OF assms(3)] assms(1)
    unfolding int_cell_def fits_def by blast
  finally show ?thesis .
qed

lemma vertex_cell_on_map: "vertex_cell m p = Some c \<Longrightarrow> on_map_cell m c"
  by (auto simp: vertex_cell_def worldToMap_def on_map_cell_def Let_def split: if_splits Option.bind_splits option.splits)

lemma worst_nonneg: "finite C \<Longrightarrow> 0 \<le> worst C"
  by (simp add: worst_def)

lemma cost_at_le: "0 \<le> cost_at m c" "cost_at m c \<le> 255"
proof -
  have "unat w \<le> 255" for w :: u8
    using unsigned_less [of w, where ?'a = nat] by simp
  then have "real (unat w) \<le> real 255" for w :: u8 unfolding of_nat_le_iff .
  then show "cost_at m c \<le> 255" unfolding cost_at_def by (simp only: of_nat_numeral)
  show "0 \<le> cost_at m c" unfolding cost_at_def by (rule of_nat_0_le_iff)
qed

lemma edge_cells_finite [simp]: "finite (edge_cells cs)"
  by (auto simp: edge_cells_def)

lemma worst_known:
  assumes "finite C" "\<forall>c\<in>C. 0 \<le> c \<and> c \<le> LETHAL"
  shows "worst C = Max (insert 0 C)"
proof (cases "LETHAL \<in> C")
  case True
  then have "Max (insert 0 C) = LETHAL" using assms by (intro Max_eqI) auto
  then show ?thesis using True by (simp add: worst_def)
qed (simp add: worst_def)

text \<open>A vertex outside the map makes the whole footprint lethal.\<close>

lemma footprint_loop_outside:
  assumes "fits m" "on_map_cell m c0" "\<forall>p\<in>set ps. worldToMap m (fst p) (snd p) \<noteq> None"
    and "\<exists>p\<in>set ps. vertex_cell m p = None"
  shows "footprint_loop m ps c0 cost = Some (Inl LETHAL)"
  using assms(2-4)
proof (induction ps arbitrary: c0 cost)
  case (Cons p ps)
  obtain r where r: "worldToMap m (fst p) (snd p) = Some r" using Cons.prems(2) by auto
  show ?case
  proof (cases r)
    case (Some c1)
    then have v: "vertex_cell m p = Some c1" using r by (simp add: vertex_cell_def)
    then have c1: "on_map_cell m c1" by (rule vertex_cell_on_map)
    show ?thesis
      using Cons.IH [OF c1] Cons.prems v cells_line_spec [OF assms(1) Cons.prems(1) c1] r Some
      by (auto simp: Let_def)
  qed (use r in simp)
qed simp

lemma footprint_loop_some:
  assumes "fits m" "on_map_cell m c0" "\<forall>p\<in>set ps. worldToMap m (fst p) (snd p) \<noteq> None"
  shows "\<exists>res. footprint_loop m ps c0 cost = Some res \<and> (\<forall>z. res = Inr z \<longrightarrow> on_map_cell m (fst z))"
  using assms(2,3)
proof (induction ps arbitrary: c0 cost)
  case Nil
  then show ?case by auto
next
  case (Cons p ps)
  obtain r where r: "worldToMap m (fst p) (snd p) = Some r" using Cons.prems(2) by auto
  show ?case
  proof (cases r)
    case (Some c1)
    then have c1: "on_map_cell m c1" using r vertex_cell_on_map [of m p c1] by (simp add: vertex_cell_def)
    show ?thesis
      using Cons.IH [OF c1] Cons.prems(2) cells_line_spec [OF assms(1) Cons.prems(1) c1] r Some
      by (simp add: Let_def)
  qed (use r in simp)
qed

lemma footprint_loop_inside:
  assumes "fits m" "on_map_cell m c0" "\<forall>p\<in>set ps. vertex_cell m p \<noteq> None"
    and "\<forall>c\<in>edge_cells (c0 # map (the \<circ> vertex_cell m) ps). cost_at m c \<le> LETHAL" "0 \<le> cost" "cost < LETHAL"
  defines "E \<equiv> Max (insert cost (cost_at m ` edge_cells (c0 # map (the \<circ> vertex_cell m) ps)))"
  shows "footprint_loop m ps c0 cost =
    Some (if E = LETHAL then Inl LETHAL else Inr (last (c0 # map (the \<circ> vertex_cell m) ps), E))"
  using assms(2-6) unfolding E_def
proof (induction ps arbitrary: c0 cost)
  case Nil
  then show ?case by (simp add: edge_cells_def)
next
  case (Cons p ps)
  obtain c1 where v: "vertex_cell m p = Some c1" using Cons.prems(2) by auto
  then have r: "worldToMap m (fst p) (snd p) = Some (Some c1)"
    by (auto simp: vertex_cell_def split: Option.bind_splits)
  have c1: "on_map_cell m c1" using v by (rule vertex_cell_on_map)
  let ?cs = "map (the \<circ> vertex_cell m) ps"
  define L where "L = cost_at m ` line_cells (int_cell c0) (int_cell c1)"
  define R where "R = cost_at m ` edge_cells (c1 # ?cs)"
  have edges: "cost_at m ` edge_cells (c0 # map (the \<circ> vertex_cell m) (p # ps)) = L \<union> R"
    using v by (simp add: edge_cells_def L_def R_def image_Un)
  have fin: "finite L" "finite R" by (simp_all add: L_def R_def)
  have le: "c \<le> LETHAL" if "c \<in> L \<union> R" for c
    using Cons.prems(3) that unfolding edges [symmetric] by blast
  have ne: "L \<noteq> {}" using line_cells_ends(1) [of "int_cell c0" "int_cell c1"] unfolding L_def by blast
  have ge: "0 \<le> c" if "c \<in> L \<union> R" for c using that cost_at_le(1) by (auto simp: L_def R_def)
  have w: "worst L = Max (insert 0 L)" by (rule worst_known) (use fin le ge in auto)
  have cl: "cells_line m c0 c1 = Some (worst L)"
    unfolding L_def by (rule cells_line_spec [OF assms(1) Cons.prems(1) c1])
  define cost' where "cost' = max (worst L) cost"
  have cost': "cost' = Max (insert cost L)" "0 \<le> cost'"
    using fin(1) Cons.prems(4) ne ge unfolding cost'_def w
    by (auto simp: Max_insert max.commute max.left_commute max_def Max_ge_iff)
  have c_le: "cost' \<le> LETHAL" unfolding cost'(1) using fin(1) le Cons.prems(5) by simp
  have all: "Max (insert cost (L \<union> R)) = Max (insert cost' R)"
  proof -
    have "insert cost (L \<union> R) = insert cost L \<union> R" by simp
    then have "Max (insert cost (L \<union> R)) = Max (insert cost L \<union> R)" by (rule arg_cong)
    also have "\<dots> = (if R = {} then cost' else max cost' (Max R))"
    proof (cases "R = {}")
      case False
      then show ?thesis using Max_Un [of "insert cost L" R] fin unfolding cost'(1) by simp
    qed (use cost'(1) in simp)
    also have "\<dots> = Max (insert cost' R)" using fin by simp
    finally show ?thesis .
  qed
  have loop: "footprint_loop m (p # ps) c0 cost =
      (if cost' = LETHAL then Some (Inl cost') else footprint_loop m ps c1 cost')"
    using r cl by (simp add: cost'_def Let_def)
  show ?case
  proof (cases "cost' = LETHAL")
    case True
    have "Max (insert cost' R) = LETHAL" using True fin le by (intro Max_eqI) auto
    then show ?thesis unfolding loop edges all using True by simp
  next
    case False
    have "footprint_loop m ps c1 cost' = Some (if Max (insert cost' R) = LETHAL then Inl LETHAL
        else Inr (last (c1 # ?cs), Max (insert cost' R)))"
      unfolding R_def
    proof (rule Cons.IH [OF c1])
      show "\<forall>c\<in>edge_cells (c1 # ?cs). cost_at m c \<le> LETHAL" using le unfolding R_def by auto
    qed (use Cons.prems(2) cost'(2) c_le False in auto)
    then show ?thesis unfolding loop edges all using False v by simp
  qed
qed

lemma edge_cells_ends: "2 \<le> length cs \<Longrightarrow> int_cell (last cs) \<in> edge_cells cs"
proof (induction cs rule: induct_list012)
  case (3 a b cs)
  show ?case
  proof (cases cs)
    case Nil
    then show ?thesis using line_cells_ends(2) by (simp add: edge_cells_def)
  next
    case (Cons c cs')
    then have "int_cell (last (b # cs)) \<in> edge_cells (b # cs)" using "3.IH"(2) by simp
    moreover have "edge_cells (b # cs) \<subseteq> edge_cells (a # b # cs)" by (auto simp: edge_cells_def)
    ultimately show ?thesis by auto
  qed
qed simp_all

section \<open>Properties\<close>


lemma small_map_fits: "fits small_map"
  using small_map_ok by (simp add: fits_def small_map_def)

lemma unknown_cell_hides_lethal_cell:
  "footprintCost (small_map\<lparr>costmap := Some [0, 255, 254, 0, 0, 0]\<rparr>)
     [(1 / 2, 1 / 2), (3 / 2, 1 / 2), (5 / 2, 1 / 2)] = Some 255"
  by (simp add: footprintCost_def worldToMap_def small_map_def cast_u32_def trunc_real_def cells_line_def
      lineCost_def new_line_def lineCost_loop.simps isValid_def advance_def pointCost_def getCost_def
      getCost_at_def getIndex_def Let_def)

lemma small_map_vertices:
  "worldToMap small_map (1 / 2) (1 / 2) = Some (Some (0, 0))"
  "worldToMap small_map (5 / 2) (1 / 2) = Some (Some (2, 0))"
  "worldToMap small_map (5 / 2) (3 / 2) = Some (Some (2, 1))"
  by (simp_all add: worldToMap_def small_map_def cast_u32_def trunc_real_def)

lemma small_map_known: "on_map small_map c \<Longrightarrow> cost_at small_map c \<le> LETHAL"
proof -
  assume "on_map small_map c"
  then have "0 \<le> fst c" "fst c < 3" "0 \<le> snd c" "snd c < 2" by (simp_all add: on_map_def small_map_def)
  then have "nat (snd c) * 3 + nat (fst c) < length [10, 20, 30, 40, 50, 60 :: u8]" by simp
  from nth_mem [OF this] have "cell small_map (nat (fst c)) (nat (snd c)) \<in> set [10, 20, 30, 40, 50, 60]"
    by (simp add: cell_def small_map_def)
  then show "cost_at small_map c \<le> LETHAL" by (auto simp: cost_at_def)
qed


text \<open>
  The radii: no point of the outline of the footprint is nearer to the robot's centre than the inscribed radius, and none
  is farther away than the circumscribed radius.
\<close>

lemma edge_point_bounds:
  fixes a b :: fpoint and t :: real
  assumes "0 \<le> t" "t \<le> 1"
  defines "px \<equiv> fst a + t * (fst b - fst a)" and "py \<equiv> snd a + t * (snd b - snd a)"
  shows "distanceToLine 0 0 (fst a) (snd a) (fst b) (snd b) \<le> distance 0 0 px py"
    and "distance 0 0 px py \<le> max (distance 0 0 (fst a) (snd a)) (distance 0 0 (fst b) (snd b))"
proof -
  define C where "C = fst b - fst a"
  define D where "D = snd b - snd a"
  define dot where "dot = - fst a * C - snd a * D"
  define L where "L = C * C + D * D"
  define N where "N = (fst a)\<^sup>2 + (snd a)\<^sup>2"
  have L0: "0 \<le> L" by (simp add: L_def)
  have sq: "px\<^sup>2 + py\<^sup>2 = N - 2 * t * dot + t * t * L"
    by (simp add: px_def py_def N_def dot_def L_def C_def D_def power2_eq_square algebra_simps)
  have sqb: "(fst b)\<^sup>2 + (snd b)\<^sup>2 = N - 2 * dot + L"
    by (simp add: N_def dot_def L_def C_def D_def power2_eq_square algebra_simps)
  have sqp: "(fst a + s * C)\<^sup>2 + (snd a + s * D)\<^sup>2 = N - 2 * s * dot + s * s * L" for s
    by (simp add: N_def dot_def L_def power2_eq_square algebra_simps)
  have d: "distance 0 0 u v = sqrt (u\<^sup>2 + v\<^sup>2)" for u v by (simp add: distance_def)
  have line: "distanceToLine 0 0 (fst a) (snd a) (fst b) (snd b) =
      (if dot / L < 0 then sqrt N else if dot / L > 1 then sqrt ((fst b)\<^sup>2 + (snd b)\<^sup>2)
       else sqrt ((fst a + (dot / L) * C)\<^sup>2 + (snd a + (dot / L) * D)\<^sup>2))"
    unfolding distanceToLine_def Let_def d N_def by (simp add: dot_def L_def C_def D_def)
  show "distanceToLine 0 0 (fst a) (snd a) (fst b) (snd b) \<le> distance 0 0 px py"
  proof -
    consider "dot / L < 0" | "dot / L > 1" | "0 \<le> dot / L" "dot / L \<le> 1" by linarith
    then show ?thesis
    proof cases
      case 1
      then have "dot < 0" using L0 by (simp add: divide_less_0_iff)
      then have "t * dot \<le> 0" "0 \<le> t * t * L" using assms(1) L0 by (simp_all add: mult_nonneg_nonpos)
      then have "0 \<le> - 2 * t * dot + t * t * L" by linarith
      then show ?thesis unfolding line using 1 by (simp add: d sq)
    next
      case 2
      then have L: "0 < L" using L0 by (cases "L = 0") auto
      then have "L < dot" using 2 by (simp add: less_divide_eq)
      have "(1 + t) * L \<le> 2 * L" using assms(2) L by simp
      then have "0 \<le> (1 - t) * (2 * dot - (1 + t) * L)" using \<open>L < dot\<close> assms(2)
        by (intro mult_nonneg_nonneg) auto
      then have "N - 2 * dot + L \<le> N - 2 * t * dot + t * t * L" by (simp add: algebra_simps)
      then show ?thesis unfolding line using 2 by (simp add: d sq sqb)
    next
      case 3
      define p where "p = dot / L"
      have "dot = p * L"
      proof (cases "L = 0")
        case True
        then have "C = 0" "D = 0" by (simp_all add: L_def add_nonneg_eq_0_iff)
        then show ?thesis using True by (simp add: dot_def)
      qed (simp add: p_def)
      moreover have "0 \<le> (t - p) * (t - p) * L" using L0 by simp
      ultimately have "N - 2 * p * dot + p * p * L \<le> N - 2 * t * dot + t * t * L"
        by (simp add: algebra_simps)
      then show ?thesis unfolding line using 3 by (simp add: d sq sqp flip: p_def)
    qed
  qed
  show "distance 0 0 px py \<le> max (distance 0 0 (fst a) (snd a)) (distance 0 0 (fst b) (snd b))"
  proof -
    let ?B = "N - 2 * dot + L"
    have "t * t * L \<le> t * L" using assms L0 by (simp add: mult_right_mono mult_left_le)
    then have "px\<^sup>2 + py\<^sup>2 \<le> (1 - t) * N + t * ?B" unfolding sq by (simp add: algebra_simps)
    also have "\<dots> \<le> (1 - t) * max N ?B + t * max N ?B"
      using assms(1,2) by (intro add_mono mult_left_mono) auto
    also have "\<dots> = max N ?B" by (simp add: algebra_simps)
    finally have "sqrt (px\<^sup>2 + py\<^sup>2) \<le> sqrt (max N ?B)" by simp
    then show ?thesis unfolding d sqb N_def [symmetric] by (auto simp: max_def split: if_splits)
  qed
qed

lemma min_max_fold:
  assumes "(lo, hi) = fold min_max_step es (l, h)"
  shows "lo \<le> l \<and> h \<le> hi \<and> (\<forall>(a, b) \<in> set es. lo \<le> distance 0 0 (fst a) (snd a) \<and>
    lo \<le> distanceToLine 0 0 (fst a) (snd a) (fst b) (snd b) \<and> distance 0 0 (fst a) (snd a) \<le> hi)"
  using assms
proof (induction es arbitrary: l h)
  case (Cons e es)
  obtain a b where e: "e = (a, b)" by (rule prod.exhaust)
  show ?case using Cons.IH [of "fst (min_max_step e (l, h))" "snd (min_max_step e (l, h))"] Cons.prems
    unfolding e by (auto simp: min_max_step_def Let_def)
qed simp

text \<open>
  For a footprint of at least three vertices every point of its outline is at least the inscribed
  radius and at most the circumscribed radius away from the robot's centre.
\<close>

theorem footprint_radii_bound_outline:
  assumes "3 \<le> length fp" "(inscribed, circumscribed) = calculateMinAndMaxDistances fp"
    and "(a, b) \<in> set (outline_edges fp)" "0 \<le> t" "t \<le> 1"
  shows "inscribed \<le> distance 0 0 (fst a + t * (fst b - fst a)) (snd a + t * (snd b - snd a)) \<and>
    distance 0 0 (fst a + t * (fst b - fst a)) (snd a + t * (snd b - snd a)) \<le> circumscribed"
proof -
  have "(inscribed, circumscribed) = fold min_max_step (outline_edges fp) (DBL_MAX, 0)"
    using assms(1,2) by (simp add: calculateMinAndMaxDistances_def)
  note m = min_max_fold [OF this]
  have "b \<in> set fp" using assms(1,3)
    by (cases fp) (auto simp: outline_edges_def dest: set_zip_rightD)
  moreover have "set fp = fst ` set (outline_edges fp)"
  proof -
    have ne: "fp \<noteq> []" using assms(1) by auto
    have "map fst (outline_edges fp) = butlast fp @ [last fp]"
      by (simp add: outline_edges_def map_fst_zip_take butlast_conv_take)
    also have "\<dots> = fp" using ne by simp
    finally show ?thesis by (metis set_map)
  qed
  ultimately obtain c where "(b, c) \<in> set (outline_edges fp)" by force
  then have "distance 0 0 (fst b) (snd b) \<le> circumscribed" using m by blast
  moreover have "distance 0 0 (fst a) (snd a) \<le> circumscribed"
    "inscribed \<le> distanceToLine 0 0 (fst a) (snd a) (fst b) (snd b)" using m assms(3) by blast+
  ultimately show ?thesis using edge_point_bounds [OF assms(4,5), of a b] by linarith
qed

theorem footprint_radii_bound_outline_witness:
  "\<exists>i c. (i, c) = calculateMinAndMaxDistances [(1, 0), (0, 1), (-1, 0)] \<and>
    i \<le> distance 0 0 (1 / 2) (1 / 2) \<and> distance 0 0 (1 / 2) (1 / 2) \<le> c"
proof -
  let ?fp = "[(1, 0), (0, 1), (-1, 0)] :: fpoint list"
  obtain i c where ic: "(i, c) = calculateMinAndMaxDistances ?fp" by (metis surj_pair)
  have "((1, 0), (0, 1)) \<in> set (outline_edges ?fp)" by (simp add: outline_edges_def)
  from footprint_radii_bound_outline [OF _ ic this, of "1 / 2"] ic show ?thesis by auto
qed

end
