(* ===== verification/Layered_Costmap.thy ===== *)
theory Layered_Costmap
  imports Costmap_Layer Footprint
begin

text \<open>
  nav2_costmap_2d/layered_costmap.cpp: the costmap of a robot as a stack of layers. Every update asks the layers which
  area they want to change, resets that area and lets the layers write their costs into it in order; filters
  work on a copy, so that the layers never see their results. A layer is a plugin: a record of its virtual functions
  over the state \<open>'w\<close> of all layers. \<open>updateBounds\<close> also receives the two maps, because a layer may resize them
  (the static layer does). \<open>None\<close> has no defined outcome. \<open>window_layer\<close> is the contract of a layer.
\<close>

section \<open>State\<close>

record 'w lc_maps =
  primary :: costmap2d
  combined :: costmap2d
  layers_state :: 'w

record 'w Layer =
  updateBounds :: "real \<Rightarrow> real \<Rightarrow> real \<Rightarrow> bounds \<Rightarrow> 'w lc_maps \<Rightarrow> (bounds \<times> 'w lc_maps) option"
  updateCosts :: "int \<Rightarrow> int \<Rightarrow> int \<Rightarrow> int \<Rightarrow> costmap2d \<Rightarrow> 'w \<Rightarrow> (costmap2d \<times> 'w) option"
  layer_matchSize :: "costmap2d \<Rightarrow> 'w \<Rightarrow> 'w option"
  layer_isCurrent :: "'w \<Rightarrow> bool"
  layer_isEnabled :: "'w \<Rightarrow> bool"
  layer_setCurrent :: "bool \<Rightarrow> 'w \<Rightarrow> 'w"
  onFootprintChanged :: "fpoint list \<Rightarrow> costmap2d \<Rightarrow> 'w \<Rightarrow> 'w option"

record 'w LayeredCostmap =
  lc_maps :: "'w lc_maps"
  rolling_window :: bool
  lc_bounds :: bounds
  bx0 :: u32
  bxn :: u32
  by0 :: u32
  byn :: u32
  plugins :: "'w Layer list"
  filters :: "'w Layer list"
  lc_initialized :: bool
  size_locked :: bool
  circumscribed_radius :: real
  inscribed_radius :: real
  lc_footprint :: "fpoint list"

definition new_layered :: "costmap2d \<Rightarrow> bool \<Rightarrow> bool \<Rightarrow> 'w \<Rightarrow> 'w LayeredCostmap" where
  "new_layered fresh rolling track_unknown w =
    (let m = setDefaultValue (if track_unknown then NO_INFORMATION else FREE_SPACE) fresh
     in \<lparr>lc_maps = \<lparr>primary = m, combined = m, layers_state = w\<rparr>, rolling_window = rolling,
         lc_bounds = \<lparr>min_bx = 0, min_by = 0, max_bx = 0, max_by = 0\<rparr>, bx0 = 0, bxn = 0, by0 = 0, byn = 0,
         plugins = [], filters = [], lc_initialized = False, size_locked = False,
         circumscribed_radius = 1, inscribed_radius = 1 / 10, lc_footprint = []\<rparr>)"

definition addPlugin :: "'w Layer \<Rightarrow> 'w LayeredCostmap \<Rightarrow> 'w LayeredCostmap" where
  "addPlugin l lc = lc\<lparr>plugins := plugins lc @ [l]\<rparr>"

definition addFilter :: "'w Layer \<Rightarrow> 'w LayeredCostmap \<Rightarrow> 'w LayeredCostmap" where
  "addFilter l lc = lc\<lparr>filters := filters lc @ [l]\<rparr>"

definition isTrackingUnknown :: "'w LayeredCostmap \<Rightarrow> bool" where
  "isTrackingUnknown lc \<longleftrightarrow> getDefaultValue (combined (lc_maps lc)) = NO_INFORMATION"

section \<open>Resizing\<close>

fun match_sizes :: "'w Layer list \<Rightarrow> costmap2d \<Rightarrow> 'w \<Rightarrow> 'w option" where
  "match_sizes [] m w = Some w"
| "match_sizes (l # ls) m w = Option.bind (layer_matchSize l m w) (match_sizes ls m)"

definition lc_resizeMap ::
  "(nat \<Rightarrow> u8) \<Rightarrow> u32 \<Rightarrow> u32 \<Rightarrow> real \<Rightarrow> real \<Rightarrow> real \<Rightarrow> bool \<Rightarrow> 'w LayeredCostmap
    \<Rightarrow> 'w LayeredCostmap option" where
  "lc_resizeMap junk sx sy res ox oy locked lc =
    do { p \<leftarrow> resizeMap junk sx sy res ox oy (primary (lc_maps lc));
         c \<leftarrow> resizeMap junk sx sy res ox oy (combined (lc_maps lc));
         w1 \<leftarrow> match_sizes (plugins lc) c (layers_state (lc_maps lc));
         w2 \<leftarrow> match_sizes (filters lc) c w1;
         Some (lc\<lparr>size_locked := locked, lc_maps := \<lparr>primary = p, combined = c, layers_state = w2\<rparr>\<rparr>) }"

definition isOutofBounds :: "real \<Rightarrow> real \<Rightarrow> 'w LayeredCostmap \<Rightarrow> bool option" where
  "isOutofBounds x y lc = map_option (\<lambda>r. r = None) (worldToMap (combined (lc_maps lc)) x y)"

section \<open>Updating\<close>

text \<open>The rolling window follows the robot.\<close>

definition roll :: "(nat \<Rightarrow> u8) \<Rightarrow> real \<Rightarrow> real \<Rightarrow> 'w lc_maps \<Rightarrow> 'w lc_maps option" where
  "roll junk robot_x robot_y m =
    (let new_ox = robot_x - getSizeInMetersX (combined m) / 2;
         new_oy = robot_y - getSizeInMetersY (combined m) / 2
     in do { p \<leftarrow> updateOrigin junk new_ox new_oy (primary m);
             c \<leftarrow> updateOrigin junk new_ox new_oy (combined m);
             Some (m\<lparr>primary := p, combined := c\<rparr>) })"

text \<open>Shrinking bounds are reported in the log only.\<close>

fun update_bounds ::
  "real \<Rightarrow> real \<Rightarrow> real \<Rightarrow> 'w Layer list \<Rightarrow> bounds \<times> 'w lc_maps \<Rightarrow> (bounds \<times> 'w lc_maps) option" where
  "update_bounds x y yaw [] bm = Some bm"
| "update_bounds x y yaw (l # ls) bm =
    Option.bind (updateBounds l x y yaw (fst bm) (snd bm)) (update_bounds x y yaw ls)"

fun update_costs ::
  "'w Layer list \<Rightarrow> int \<Rightarrow> int \<Rightarrow> int \<Rightarrow> int \<Rightarrow> costmap2d \<times> 'w \<Rightarrow> (costmap2d \<times> 'w) option" where
  "update_costs [] x0 y0 xn yn mw = Some mw"
| "update_costs (l # ls) x0 y0 xn yn mw =
    Option.bind (updateCosts l x0 y0 xn yn (fst mw) (snd mw)) (update_costs ls x0 y0 xn yn)"

definition update_window :: "costmap2d \<Rightarrow> bounds \<Rightarrow> (int \<times> int \<times> int \<times> int) option" where
  "update_window m b =
    do { lo \<leftarrow> worldToMapEnforceBounds m (min_bx b) (min_by b);
         hi \<leftarrow> worldToMapEnforceBounds m (max_bx b) (max_by b);
         xn \<leftarrow> i32 (fst hi + 1);
         yn \<leftarrow> i32 (snd hi + 1);
         Some (max 0 (fst lo), min (sint (size_x m)) xn, max 0 (snd lo), min (sint (size_y m)) yn) }"

datatype costmap_error = CanNotCopyCostmap

definition merge_layers ::
  "'w Layer list \<Rightarrow> 'w Layer list \<Rightarrow> int \<Rightarrow> int \<Rightarrow> int \<Rightarrow> int \<Rightarrow> 'w lc_maps \<Rightarrow> (costmap_error + 'w lc_maps) option" where
  "merge_layers ps fs x0 y0 xn yn m =
    (let wx0 = word_of_int x0; wy0 = word_of_int y0; wxn = word_of_int xn; wyn = word_of_int yn
     in if fs = [] then
          do { c \<leftarrow> resetMap wx0 wy0 wxn wyn (combined m);
               cw \<leftarrow> update_costs ps x0 y0 xn yn (c, layers_state m);
               Some (Inr (m\<lparr>combined := fst cw, layers_state := snd cw\<rparr>)) }
        else
          do { p \<leftarrow> resetMap wx0 wy0 wxn wyn (primary m);
               pw \<leftarrow> update_costs ps x0 y0 xn yn (p, layers_state m);
               okc \<leftarrow> copyWindow (fst pw) wx0 wy0 wxn wyn wx0 wy0 (combined m);
               if \<not> fst okc then Some (Inl CanNotCopyCostmap)
               else do { cw \<leftarrow> update_costs fs x0 y0 xn yn (snd okc, snd pw);
                         Some (Inr (m\<lparr>primary := fst pw, combined := fst cw, layers_state := snd cw\<rparr>)) } })"

definition mark_disabled_current :: "'w Layer list \<Rightarrow> 'w \<Rightarrow> 'w" where
  "mark_disabled_current = fold (\<lambda>l w. if layer_isEnabled l w then w else layer_setCurrent l True w)"

definition updateMap ::
  "(nat \<Rightarrow> u8) \<Rightarrow> real \<Rightarrow> real \<Rightarrow> real \<Rightarrow> 'w LayeredCostmap \<Rightarrow> (costmap_error + 'w LayeredCostmap) option" where
  "updateMap junk robot_x robot_y robot_yaw lc =
    do { m1 \<leftarrow> (if rolling_window lc then roll junk robot_x robot_y (lc_maps lc) else Some (lc_maps lc));
         let lc1 = lc\<lparr>lc_maps := m1\<rparr>;
         out \<leftarrow> isOutofBounds robot_x robot_y lc1;
         if plugins lc = [] \<and> filters lc = [] then Some (Inr lc1)
         else do {
           bm \<leftarrow> update_bounds robot_x robot_y robot_yaw (plugins lc @ filters lc)
                   (\<lparr>min_bx = DBL_MAX, min_by = DBL_MAX, max_bx = - DBL_MAX, max_by = - DBL_MAX\<rparr>, m1);
           let lc2 = lc1\<lparr>lc_bounds := fst bm, lc_maps := snd bm\<rparr>;
           window \<leftarrow> update_window (combined (snd bm)) (fst bm);
           case window of (x0, xn, y0, yn) \<Rightarrow>
             if xn < x0 \<or> yn < y0 then Some (Inr lc2)
             else do {
               res \<leftarrow> merge_layers (plugins lc) (filters lc) x0 y0 xn yn (snd bm);
               case res of
                 Inl e \<Rightarrow> Some (Inl e)
               | Inr m2 \<Rightarrow>
                   Some (Inr (lc2\<lparr>
                     lc_maps := m2\<lparr>layers_state :=
                       mark_disabled_current (plugins lc @ filters lc) (layers_state m2)\<rparr>,
                     bx0 := word_of_int x0, bxn := word_of_int xn, by0 := word_of_int y0, byn := word_of_int yn,
                     lc_initialized := True\<rparr>)) } } }"

section \<open>Queries and the footprint\<close>

definition lc_isCurrent :: "'w LayeredCostmap \<Rightarrow> bool" where
  "lc_isCurrent lc \<longleftrightarrow> list_all (\<lambda>l. layer_isCurrent l (layers_state (lc_maps lc))) (plugins lc @ filters lc)"

fun notify_footprint :: "fpoint list \<Rightarrow> costmap2d \<Rightarrow> 'w Layer list \<Rightarrow> 'w \<Rightarrow> 'w option" where
  "notify_footprint fp m [] w = Some w"
| "notify_footprint fp m (l # ls) w = Option.bind (onFootprintChanged l fp m w) (notify_footprint fp m ls)"

definition setFootprint :: "fpoint list \<Rightarrow> 'w LayeredCostmap \<Rightarrow> 'w LayeredCostmap option" where
  "setFootprint footprint_spec lc =
    (let inside_outside = calculateMinAndMaxDistances footprint_spec
     in map_option (\<lambda>w. lc\<lparr>lc_footprint := footprint_spec, inscribed_radius := fst inside_outside,
          circumscribed_radius := snd inside_outside, lc_maps := (lc_maps lc)\<lparr>layers_state := w\<rparr>\<rparr>)
        (notify_footprint footprint_spec (combined (lc_maps lc)) (plugins lc @ filters lc) (layers_state (lc_maps lc))))"

section \<open>Well-formed maps\<close>

definition grid_ok :: "costmap2d \<Rightarrow> bool" where
  "grid_ok m \<longleftrightarrow> map_ok m \<and> 0 < resolution m \<and> 0 < unat (size_x m) \<and> unat (size_x m) < 2 ^ 31 - 1 \<and>
     0 < unat (size_y m) \<and> unat (size_y m) < 2 ^ 31 - 1 \<and> (unat (size_y m) + 1) * unat (size_x m) < 2 ^ 32"

definition alike :: "costmap2d \<Rightarrow> costmap2d \<Rightarrow> bool" where
  "alike m m' \<longleftrightarrow> size_x m' = size_x m \<and> size_y m' = size_y m \<and> resolution m' = resolution m \<and>
     origin_x m' = origin_x m \<and> origin_y m' = origin_y m \<and> default_value m' = default_value m"

definition lc_ok :: "'w lc_maps \<Rightarrow> bool" where
  "lc_ok m \<longleftrightarrow> grid_ok (combined m) \<and> map_ok (primary m) \<and> alike (combined m) (primary m)"

lemma grid_okD:
  assumes "grid_ok m"
  shows "map_ok m" "0 < resolution m" "0 < unat (size_x m)" "unat (size_x m) < 2 ^ 31" "0 < unat (size_y m)"
    "unat (size_y m) < 2 ^ 31" "int (unat (size_x m)) < 2 ^ 31 - 1" "int (unat (size_y m)) < 2 ^ 31 - 1"
proof -
  have lt: "unat (size_x m) < 2 ^ 31 - 1" "unat (size_y m) < 2 ^ 31 - 1" using assms unfolding grid_ok_def by blast+
  then show "unat (size_x m) < 2 ^ 31" "unat (size_y m) < 2 ^ 31" by linarith+
  have "int k < 2 ^ 31 - 1" if "k < 2 ^ 31 - 1" for k using that by simp
  then show "int (unat (size_x m)) < 2 ^ 31 - 1" "int (unat (size_y m)) < 2 ^ 31 - 1" using lt by blast+
  show "map_ok m" "0 < resolution m" "0 < unat (size_x m)" "0 < unat (size_y m)"
    using assms unfolding grid_ok_def by blast+
qed

lemma alike_refl [simp]: "alike m m" by (simp add: alike_def)

lemma same_frame_alike: "same_frame m m' \<Longrightarrow> alike m m'"
  by (simp add: alike_def same_frame_fields)

lemma alike_trans: "alike a b \<Longrightarrow> alike b c \<Longrightarrow> alike a c"
  by (simp add: alike_def)

lemma alike_sym: "alike a b \<Longrightarrow> alike b a"
  by (simp add: alike_def)

lemma alike_grid_ok: "alike m m' \<Longrightarrow> grid_ok m \<Longrightarrow> map_ok m' \<Longrightarrow> grid_ok m'"
  by (simp add: alike_def grid_ok_def)

definition window_in :: "costmap2d \<Rightarrow> int \<Rightarrow> int \<Rightarrow> int \<Rightarrow> int \<Rightarrow> bool" where
  "window_in m x0 y0 xn yn \<longleftrightarrow> 0 \<le> x0 \<and> x0 \<le> xn \<and> xn \<le> int (unat (size_x m)) \<and>
     0 \<le> y0 \<and> y0 \<le> yn \<and> yn \<le> int (unat (size_y m))"

definition inside :: "int \<Rightarrow> int \<Rightarrow> int \<Rightarrow> int \<Rightarrow> nat \<Rightarrow> nat \<Rightarrow> bool" where
  "inside x0 y0 xn yn x y \<longleftrightarrow> x0 \<le> int x \<and> int x < xn \<and> y0 \<le> int y \<and> int y < yn"

text \<open>One area covers another one as far as \<open>double\<close> reaches.\<close>

definition covers :: "bounds \<Rightarrow> bounds \<Rightarrow> bool" where
  "covers b b' \<longleftrightarrow> (min_bx b' \<le> min_bx b \<or> min_bx b' \<le> - DBL_MAX) \<and> (min_by b' \<le> min_by b \<or> min_by b' \<le> - DBL_MAX) \<and>
     (max_bx b \<le> max_bx b' \<or> DBL_MAX \<le> max_bx b') \<and> (max_by b \<le> max_by b' \<or> DBL_MAX \<le> max_by b')"

lemma covers_refl [simp]: "covers b b" by (simp add: covers_def)

lemma covers_trans: "covers a b \<Longrightarrow> covers b c \<Longrightarrow> covers a c"
  by (auto simp: covers_def)

lemma window_in_alike: "alike m m' \<Longrightarrow> window_in m' x0 y0 xn yn = window_in m x0 y0 xn yn"
  by (simp add: alike_def window_in_def)

text \<open>Two maps that agree outside a window.\<close>

definition agree_outside :: "int \<Rightarrow> int \<Rightarrow> int \<Rightarrow> int \<Rightarrow> costmap2d \<Rightarrow> costmap2d \<Rightarrow> bool" where
  "agree_outside x0 y0 xn yn m m' \<longleftrightarrow>
    (\<forall>x < unat (size_x m). \<forall>y < unat (size_y m). \<not> inside x0 y0 xn yn x y \<longrightarrow> cell m' x y = cell m x y)"

lemma agree_outside_trans:
  "agree_outside x0 y0 xn yn a b \<Longrightarrow> agree_outside x0 y0 xn yn b c \<Longrightarrow> alike a b \<Longrightarrow> agree_outside x0 y0 xn yn a c"
  by (simp add: agree_outside_def alike_def)

section \<open>The contract of a layer\<close>

text \<open>
  A layer may enlarge the bounds but not shrink them, leaves the maps alone while it does so, always answers, and writes
  only into the window it is given. \<open>good\<close> says when the states of the layers fit a map.
\<close>

locale window_layer =
  fixes l :: "'w Layer" and good :: "costmap2d \<Rightarrow> 'w \<Rightarrow> bool"
  assumes good_alike: "good m w \<Longrightarrow> alike m m' \<Longrightarrow> good m' w"
    and bounds_law: "lc_ok mw \<Longrightarrow> good (combined mw) (layers_state mw) \<Longrightarrow>
      \<exists>b' w'. updateBounds l x y yaw b mw = Some (b', mw\<lparr>layers_state := w'\<rparr>) \<and> covers b b' \<and> good (combined mw) w'"
    and costs_law: "grid_ok m \<Longrightarrow> good m w \<Longrightarrow> window_in m x0 y0 xn yn \<Longrightarrow>
      \<exists>m' w'. updateCosts l x0 y0 xn yn m w = Some (m', w') \<and> map_ok m' \<and> alike m m' \<and> good m w' \<and>
        agree_outside x0 y0 xn yn m m'"
    and current_law: "good m w \<Longrightarrow> good m (layer_setCurrent l c w)"

text \<open>A layer that computes each new cost from the old cost of the same cell and its own state.\<close>

locale cell_layer = window_layer +
  fixes rule :: "'a \<Rightarrow> nat \<Rightarrow> nat \<Rightarrow> u8 \<Rightarrow> u8"
  assumes cells_law: "grid_ok m \<Longrightarrow> good m w \<Longrightarrow> window_in m x0 y0 xn yn \<Longrightarrow>
      \<exists>m'. updateCosts l x0 y0 xn yn m w = Some (m', w) \<and>
        (\<forall>x < unat (size_x m). \<forall>y < unat (size_y m). inside x0 y0 xn yn x y \<longrightarrow>
          cell m' x y = rule w x y (cell m x y))"

lemma update_bounds_law:
  assumes "\<forall>l\<in>set ls. window_layer l good" "lc_ok mw" "good (combined mw) (layers_state mw)"
  shows "\<exists>b' w'. update_bounds x y yaw ls (b, mw) = Some (b', mw\<lparr>layers_state := w'\<rparr>) \<and> covers b b' \<and>
    good (combined mw) w'"
  using assms
proof (induction ls arbitrary: b mw)
  case Nil
  then show ?case by (intro exI [of _ b] exI [of _ "layers_state mw"]) simp
next
  case (Cons l ls)
  have wl: "window_layer l good" using Cons.prems(1) by simp
  obtain b1 w1 where 1: "updateBounds l x y yaw b mw = Some (b1, mw\<lparr>layers_state := w1\<rparr>)" "covers b b1"
    "good (combined mw) w1" using window_layer.bounds_law [OF wl Cons.prems(2,3)] by blast
  have "lc_ok (mw\<lparr>layers_state := w1\<rparr>)" using Cons.prems(2) by (simp add: lc_ok_def)
  then obtain b2 w2 where "update_bounds x y yaw ls (b1, mw\<lparr>layers_state := w1\<rparr>) =
      Some (b2, mw\<lparr>layers_state := w2\<rparr>)" "covers b1 b2" "good (combined mw) w2"
    using Cons.IH [of "mw\<lparr>layers_state := w1\<rparr>" b1] Cons.prems(1) 1(3) by auto
  then show ?case using 1 covers_trans by fastforce
qed

lemma update_costs_law:
  assumes "\<forall>l\<in>set ls. window_layer l good" "grid_ok m" "good m w" "window_in m x0 y0 xn yn"
  shows "\<exists>m' w'. update_costs ls x0 y0 xn yn (m, w) = Some (m', w') \<and> map_ok m' \<and> alike m m' \<and> good m w' \<and>
        agree_outside x0 y0 xn yn m m'"
  using assms
proof (induction ls arbitrary: m w)
  case Nil
  then show ?case by (auto simp: grid_ok_def agree_outside_def)
next
  case (Cons l ls)
  have wl: "window_layer l good" using Cons.prems(1) by simp
  obtain m1 w1 where 1: "updateCosts l x0 y0 xn yn m w = Some (m1, w1)" "map_ok m1" "alike m m1" "good m w1"
    "agree_outside x0 y0 xn yn m m1" using window_layer.costs_law [OF wl Cons.prems(2-4)] by blast
  have "grid_ok m1" "good m1 w1" "window_in m1 x0 y0 xn yn"
    using alike_grid_ok [OF 1(3)] Cons.prems 1 window_layer.good_alike [OF wl] window_in_alike [OF 1(3)] by blast+
  then obtain m2 w2 where 2: "update_costs ls x0 y0 xn yn (m1, w1) = Some (m2, w2)" "map_ok m2" "alike m1 m2"
    "good m1 w2" "agree_outside x0 y0 xn yn m1 m2" using Cons.IH [of m1 w1] Cons.prems(1) by auto
  then show ?case
    using 1 alike_trans [OF 1(3) 2(3)] agree_outside_trans [OF 1(5) 2(5) 1(3)]
      window_layer.good_alike [OF wl 2(4) alike_sym [OF 1(3)]] by simp
qed

lemma update_costs_cells:
  assumes "\<forall>(l, rule)\<in>set lrs. cell_layer l good rule" "grid_ok m" "good m w" "window_in m x0 y0 xn yn"
  shows "\<exists>m'. update_costs (map fst lrs) x0 y0 xn yn (m, w) = Some (m', w) \<and>
    (\<forall>x < unat (size_x m). \<forall>y < unat (size_y m). inside x0 y0 xn yn x y \<longrightarrow>
      cell m' x y = fold (\<lambda>r. r w x y) (map snd lrs) (cell m x y))"
  using assms
proof (induction lrs arbitrary: m)
  case (Cons lr lrs)
  obtain l rule where lr: "lr = (l, rule)" by (rule prod.exhaust)
  have cl: "cell_layer l good rule" using Cons.prems(1) lr by auto
  note wl = cell_layer.axioms(1) [OF cl]
  obtain m1 where 1: "updateCosts l x0 y0 xn yn m w = Some (m1, w)"
    and cells: "\<forall>x < unat (size_x m). \<forall>y < unat (size_y m). inside x0 y0 xn yn x y \<longrightarrow>
          cell m1 x y = rule w x y (cell m x y)" using cell_layer.cells_law [OF cl Cons.prems(2-4)] by blast
  have 2: "map_ok m1" "alike m m1" using window_layer.costs_law [OF wl Cons.prems(2-4)] 1 by auto
  then have "grid_ok m1" "good m1 w" "window_in m1 x0 y0 xn yn"
    using alike_grid_ok Cons.prems window_layer.good_alike [OF wl] window_in_alike by blast+
  then obtain m2 where "update_costs (map fst lrs) x0 y0 xn yn (m1, w) = Some (m2, w)"
    "\<forall>x < unat (size_x m1). \<forall>y < unat (size_y m1). inside x0 y0 xn yn x y \<longrightarrow>
      cell m2 x y = fold (\<lambda>r. r w x y) (map snd lrs) (cell m1 x y)"
    using Cons.IH [of m1] Cons.prems(1) by auto
  then show ?case using 1 cells 2(2) lr by (simp add: alike_def)
qed simp

section \<open>The window of an update\<close>

lemma enforce_bound_mono:
  assumes "0 < res" "0 < unat sz" "unat sz < 2 ^ 31" "lo \<le> w" "w \<le> hi" "origin \<le> w"
    and "(w - origin) / res < real (unat sz)"
    and "enforce_bound lo origin res sz = Some i" "enforce_bound hi origin res sz = Some j"
  shows "i \<le> \<lfloor>(w - origin) / res\<rfloor> \<and> \<lfloor>(w - origin) / res\<rfloor> \<le> j"
proof -
  define q where "q v = (v - origin) / res" for v
  have mono: "q a \<le> q b" if "a \<le> b" for a b using that assms(1) by (simp add: q_def divide_right_mono)
  have q0: "0 \<le> q w" using assms(1,6) by (simp add: q_def)
  have up: "q v > real (unat sz)" if "v > res * real (unat sz) + origin" for v
    using that assms(1) by (simp add: q_def pos_less_divide_eq mult.commute)
  have last: "sint (sz - 1) = int (unat sz) - 1"
  proof -
    have "unat (sz - 1) = unat sz - 1" using assms(2) by (simp add: unat_sub word_le_nat_alt)
    then show ?thesis using assms(2,3) sint_small [of "sz - 1"] by (simp add: of_nat_diff)
  qed
  have "i \<le> \<lfloor>q w\<rfloor>"
  proof (cases "lo < origin")
    case True
    then have "i = 0" using assms(8) by (simp add: enforce_bound_def)
    then show ?thesis using q0 by simp
  next
    case False
    have "\<not> lo > res * real (unat sz) + origin" using up [of lo] mono [OF assms(4)] assms(7) by (auto simp: q_def)
    then have "i = trunc_real (q lo)" using False assms(8)
      by (auto simp: enforce_bound_def cast_i32_def q_def split: if_splits)
    also have "\<dots> = \<lfloor>q lo\<rfloor>" using False assms(1) by (simp add: trunc_real_def q_def)
    also have "\<dots> \<le> \<lfloor>q w\<rfloor>" using mono [OF assms(4)] by (rule floor_mono)
    finally show ?thesis .
  qed
  moreover have "\<lfloor>q w\<rfloor> \<le> j"
  proof (cases "hi > res * real (unat sz) + origin")
    case True
    then have "j = int (unat sz) - 1" using assms(5,6,9) last by (auto simp: enforce_bound_def split: if_splits)
    then show ?thesis using assms(7) unfolding q_def by linarith
  next
    case False
    have "\<not> hi < origin" using assms(5,6) by linarith
    then have "j = trunc_real (q hi)" using False assms(9)
      by (auto simp: enforce_bound_def cast_i32_def q_def split: if_splits)
    also have "\<dots> = \<lfloor>q hi\<rfloor>" using assms(1,5,6) by (simp add: trunc_real_def q_def)
    finally show ?thesis using floor_mono [OF mono [OF assms(5)]] by simp
  qed
  ultimately show ?thesis by (simp add: q_def)
qed

lemma cast_u32_floor:
  assumes "cast_u32 r = Some w" "0 \<le> r"
  shows "int (unat w) = \<lfloor>r\<rfloor>"
proof -
  have "0 \<le> \<lfloor>r\<rfloor>" "\<lfloor>r\<rfloor> < 2 ^ 32" "w = word_of_int \<lfloor>r\<rfloor>"
    using assms by (auto simp: cast_u32_def trunc_real_def Let_def split: if_splits)
  then show ?thesis using unat_word_of_int [of "\<lfloor>r\<rfloor>"] by (simp del: of_nat_unat)
qed

lemma update_window_spec:
  assumes "grid_ok m"
  shows "\<exists>x0 xn y0 yn. update_window m b = Some (x0, xn, y0, yn) \<and> 0 \<le> x0 \<and> xn \<le> int (unat (size_x m)) \<and>
    0 \<le> y0 \<and> yn \<le> int (unat (size_y m)) \<and>
    (\<forall>wx wy cx cy. worldToMap m wx wy = Some (Some (cx, cy)) \<longrightarrow> min_bx b \<le> wx \<longrightarrow> wx \<le> max_bx b \<longrightarrow>
      min_by b \<le> wy \<longrightarrow> wy \<le> max_by b \<longrightarrow> inside x0 y0 xn yn (unat cx) (unat cy))"
proof -
  note g = grid_okD(2-6) [OF assms]
  note sx = sint_small [OF g(3)] and sy = sint_small [OF g(5)]
  obtain lx where lx: "enforce_bound (min_bx b) (origin_x m) (resolution m) (size_x m) = Some lx" "0 \<le> lx"
    "lx \<le> int (unat (size_x m))" by (rule enforce_bound_range [OF g(1-3)])
  obtain hx where hx: "enforce_bound (max_bx b) (origin_x m) (resolution m) (size_x m) = Some hx" "0 \<le> hx"
    "hx \<le> int (unat (size_x m))" by (rule enforce_bound_range [OF g(1-3)])
  obtain ly where ly: "enforce_bound (min_by b) (origin_y m) (resolution m) (size_y m) = Some ly" "0 \<le> ly"
    "ly \<le> int (unat (size_y m))" by (rule enforce_bound_range [OF g(1,4,5)])
  obtain hy where hy: "enforce_bound (max_by b) (origin_y m) (resolution m) (size_y m) = Some hy" "0 \<le> hy"
    "hy \<le> int (unat (size_y m))" by (rule enforce_bound_range [OF g(1,4,5)])
  have fit: "i32 (hx + 1) = Some (hx + 1)" "i32 (hy + 1) = Some (hy + 1)"
    using hx(2,3) hy(2,3) grid_okD(7,8) [OF assms] unfolding i32_def fits_i32_def by auto
  have "update_window m b = Some (lx, min (int (unat (size_x m))) (hx + 1), ly, min (int (unat (size_y m))) (hy + 1))"
    using lx ly hx(1) hy(1) fit sx sy
    by (simp add: update_window_def worldToMapEnforceBounds_def max_def)
  moreover have "inside lx ly (min (int (unat (size_x m))) (hx + 1)) (min (int (unat (size_y m))) (hy + 1))
      (unat cx) (unat cy)"
    if wm: "worldToMap m wx wy = Some (Some (cx, cy))" and le: "min_bx b \<le> wx" "wx \<le> max_bx b"
      "min_by b \<le> wy" "wy \<le> max_by b" for wx wy cx cy
  proof -
    have o: "origin_x m \<le> wx" "origin_y m \<le> wy" "cx < size_x m" "cy < size_y m"
      "cast_u32 ((wx - origin_x m) / resolution m) = Some cx" "cast_u32 ((wy - origin_y m) / resolution m) = Some cy"
      using wm by (auto simp: worldToMap_def split: if_splits Option.bind_splits)
    have f: "int (unat cx) = \<lfloor>(wx - origin_x m) / resolution m\<rfloor>" "int (unat cy) = \<lfloor>(wy - origin_y m) / resolution m\<rfloor>"
      using o g(1) by (auto intro: cast_u32_floor simp del: of_nat_unat)
    have lt: "unat cx < unat (size_x m)" "unat cy < unat (size_y m)" using o by (simp_all add: word_less_nat_alt)
    then have "(wx - origin_x m) / resolution m < real (unat (size_x m))"
      "(wy - origin_y m) / resolution m < real (unat (size_y m))" using f by linarith+
    then show ?thesis
      using enforce_bound_mono [OF g(1-3) le(1,2) o(1) _ lx(1) hx(1)]
        enforce_bound_mono [OF g(1,4,5) le(3,4) o(2) _ ly(1) hy(1)] f lt
      unfolding inside_def by linarith
  qed
  ultimately show ?thesis using lx(2) ly(2) by auto
qed

section \<open>Merging\<close>

lemma window_words:
  assumes "grid_ok m" "window_in m x0 y0 xn yn"
  shows "unat (word_of_int x0 :: u32) = nat x0" "unat (word_of_int xn :: u32) = nat xn"
    "unat (word_of_int y0 :: u32) = nat y0" "unat (word_of_int yn :: u32) = nat yn"
proof -
  have "int (unat (size_x m)) < 2 ^ 31" "int (unat (size_y m)) < 2 ^ 31"
    by (rule int_less_pow2, rule grid_okD [OF assms(1)])+
  then show "unat (word_of_int x0 :: u32) = nat x0" "unat (word_of_int xn :: u32) = nat xn"
    "unat (word_of_int y0 :: u32) = nat y0" "unat (word_of_int yn :: u32) = nat yn"
    using assms(2) unfolding window_in_def by (auto intro!: unat_word_of_int simp del: of_nat_unat)
qed

lemma window_word_le:
  assumes "grid_ok m" "window_in m x0 y0 xn yn"
  shows "(word_of_int x0 :: u32) \<le> word_of_int xn" "word_of_int xn \<le> size_x m"
    "(word_of_int y0 :: u32) \<le> word_of_int yn" "word_of_int yn \<le> size_y m"
  using assms(2) unfolding word_le_nat_alt window_words [OF assms] window_in_def
  by (simp_all add: nat_le_iff del: of_nat_unat)

lemma in_words_inside:
  assumes "0 \<le> x0" "0 \<le> y0"
  shows "(nat x0 \<le> x \<and> x < nat xn \<and> nat y0 \<le> y \<and> y < nat yn) = inside x0 y0 xn yn x y"
  using assms by (auto simp: inside_def)

lemma resetMap_window:
  assumes "grid_ok m" "window_in m x0 y0 xn yn"
  shows "\<exists>m'. resetMap (word_of_int x0) (word_of_int y0) (word_of_int xn) (word_of_int yn) m = Some m' \<and>
    grid_ok m' \<and> alike m m' \<and> agree_outside x0 y0 xn yn m m' \<and>
    (\<forall>x < unat (size_x m). \<forall>y < unat (size_y m). inside x0 y0 xn yn x y \<longrightarrow> cell m' x y = default_value m)"
proof -
  have pos: "0 \<le> x0" "0 \<le> y0" using assms(2) by (auto simp: window_in_def)
  have "map_ok m" "(unat (size_y m) + 1) * unat (size_x m) < 2 ^ 32" using assms(1) by (auto simp: grid_ok_def)
  from resetMapToValue_window [OF this(1) window_word_le [OF assms] this(2), of "default_value m"]
  obtain m' where "resetMap (word_of_int x0) (word_of_int y0) (word_of_int xn) (word_of_int yn) m = Some m'"
    "map_ok m'" "same_frame m m'" and c: "\<And>x y. x < unat (size_x m) \<Longrightarrow> y < unat (size_y m) \<Longrightarrow>
      cell m' x y = (if inside x0 y0 xn yn x y then default_value m else cell m x y)"
    unfolding window_words [OF assms] in_words_inside [OF pos] resetMap_def by blast
  then show ?thesis
    using same_frame_alike alike_grid_ok [OF _ assms(1)] by (auto simp: agree_outside_def)
qed

lemma copyWindow_window:
  assumes "grid_ok src" "map_ok dst" "alike dst src" "window_in dst x0 y0 xn yn"
  shows "\<exists>m'. copyWindow src (word_of_int x0) (word_of_int y0) (word_of_int xn) (word_of_int yn)
      (word_of_int x0) (word_of_int y0) dst = Some (True, m') \<and>
    grid_ok m' \<and> alike dst m' \<and> agree_outside x0 y0 xn yn dst m' \<and>
    (\<forall>x < unat (size_x dst). \<forall>y < unat (size_y dst). inside x0 y0 xn yn x y \<longrightarrow> cell m' x y = cell src x y)"
proof -
  have w: "window_in src x0 y0 xn yn" and src: "map_ok src"
    using window_in_alike [OF assms(3)] assms(1,4) by (simp_all add: grid_ok_def)
  note u = window_words [OF assms(1) w]
  have pos: "0 \<le> x0" "0 \<le> y0" "x0 \<le> xn" "y0 \<le> yn" using w by (auto simp: window_in_def)
  have fits: "nat xn \<le> unat (size_x src)" "nat yn \<le> unat (size_y src)"
    using w by (auto simp: window_in_def nat_le_iff simp del: of_nat_unat)
  have diff: "nat x0 + (nat xn - nat x0) = nat xn" "nat y0 + (nat yn - nat y0) = nat yn" using pos by auto
  have size: "size_x src = size_x dst" "size_y src = size_y dst" using assms(3) by (simp_all add: alike_def)
  have lt: "nat xn < 2 ^ 32" "nat yn < 2 ^ 32"
    using unsigned_less [of "word_of_int xn :: u32", where ?'a = nat] unsigned_less [of "word_of_int yn :: u32", where ?'a = nat]
    unfolding u by simp_all
  from copyWindow_spec [OF src assms(2) window_word_le(1,3) [OF assms(1) w], of "word_of_int x0" "word_of_int y0"]
  obtain ok m' where m': "copyWindow src (word_of_int x0) (word_of_int y0) (word_of_int xn) (word_of_int yn)
      (word_of_int x0) (word_of_int y0) dst = Some (ok, m')" "ok" "map_ok m'" "same_frame dst m'"
    and cells: "\<And>x y. x < unat (size_x dst) \<Longrightarrow> y < unat (size_y dst) \<Longrightarrow> cell m' x y =
        (if inside x0 y0 xn yn x y then cell src (nat x0 + (x - nat x0)) (nat y0 + (y - nat y0)) else cell dst x y)"
    unfolding u diff word_le_nat_alt in_words_inside [OF pos(1,2)] using lt fits size by auto
  have "cell m' x y = cell src x y" if "x < unat (size_x dst)" "y < unat (size_y dst)" "inside x0 y0 xn yn x y" for x y
  proof -
    have "nat x0 \<le> x" "nat y0 \<le> y" using that(3) by (auto simp: inside_def)
    then show ?thesis using cells [OF that(1,2)] that(3) by simp
  qed
  moreover have "grid_ok m'"
    using assms(1) m'(3) same_frame_fields [OF m'(4)] size assms(3) by (simp add: grid_ok_def alike_def)
  ultimately show ?thesis using m' cells same_frame_alike [OF m'(4)] by (auto simp: agree_outside_def)
qed

lemma merge_layers_law:
  assumes "\<forall>l\<in>set (ps @ fs). window_layer l good" "lc_ok m" "good (combined m) (layers_state m)"
    and "window_in (combined m) x0 y0 xn yn"
  shows "\<exists>m'. merge_layers ps fs x0 y0 xn yn m = Some (Inr m') \<and> lc_ok m' \<and> alike (combined m) (combined m') \<and>
    good (combined m) (layers_state m') \<and>
    agree_outside x0 y0 xn yn (combined m) (combined m') \<and> agree_outside x0 y0 xn yn (primary m) (primary m')"
proof -
  note ok = assms(2) [unfolded lc_ok_def]
  have wl: "\<forall>l\<in>set ps. window_layer l good" "\<forall>l\<in>set fs. window_layer l good" using assms(1) by auto
  show ?thesis
  proof (cases "fs = []")
    case True
    from resetMap_window [OF _ assms(4)] ok obtain c where c:
      "resetMap (word_of_int x0) (word_of_int y0) (word_of_int xn) (word_of_int yn) (combined m) = Some c"
      "grid_ok c" "alike (combined m) c" "agree_outside x0 y0 xn yn (combined m) c" by blast
    have w: "window_in c x0 y0 xn yn" using window_in_alike [OF c(3)] assms(4) by simp
    show ?thesis
    proof (cases "ps = []")
      case empty: True
      then show ?thesis using True c assms(3) ok alike_trans [OF alike_sym [OF c(3)]]
        by (simp add: merge_layers_def Let_def lc_ok_def agree_outside_def)
    next
      case False
      then obtain l where "window_layer l good" using wl(1) by (metis list.set_sel(1))
      note ga = window_layer.good_alike [OF this]
      obtain c' w' where c': "update_costs ps x0 y0 xn yn (c, layers_state m) = Some (c', w')" "map_ok c'" "alike c c'"
        "good c w'" "agree_outside x0 y0 xn yn c c'"
        using update_costs_law [OF wl(1) c(2) ga [OF assms(3) c(3)] w] by blast
      have a: "alike (combined m) c'" by (rule alike_trans [OF c(3) c'(3)])
      have "agree_outside x0 y0 xn yn (combined m) c'" by (rule agree_outside_trans [OF c(4) c'(5) c(3)])
      moreover have "good (combined m) w'" by (rule ga [OF c'(4) alike_sym [OF c(3)]])
      moreover have "lc_ok (m\<lparr>combined := c', layers_state := w'\<rparr>)"
        using ok alike_grid_ok [OF a] c'(2) alike_trans [OF alike_sym [OF a]] by (simp add: lc_ok_def)
      ultimately show ?thesis using True c(1) c'(1) a
        by (intro exI [of _ "m\<lparr>combined := c', layers_state := w'\<rparr>"])
           (simp add: merge_layers_def Let_def agree_outside_def)
    qed
  next
    case False
    then obtain l where "window_layer l good" using wl(2) by (metis list.set_sel(1))
    note ga = window_layer.good_alike [OF this]
    have gp: "grid_ok (primary m)" "window_in (primary m) x0 y0 xn yn" "good (primary m) (layers_state m)"
      using ok alike_grid_ok window_in_alike assms(3,4) ga by blast+
    from resetMap_window [OF gp(1,2)] obtain p where p:
      "resetMap (word_of_int x0) (word_of_int y0) (word_of_int xn) (word_of_int yn) (primary m) = Some p"
      "grid_ok p" "alike (primary m) p" "agree_outside x0 y0 xn yn (primary m) p" by blast
    have w: "window_in p x0 y0 xn yn" using window_in_alike [OF p(3)] gp(2) by simp
    obtain p' w' where p': "update_costs ps x0 y0 xn yn (p, layers_state m) = Some (p', w')" "map_ok p'" "alike p p'"
        "good p w'" "agree_outside x0 y0 xn yn p p'"
      using update_costs_law [OF wl(1) p(2) ga [OF gp(3) p(3)] w] by blast
    have ap: "alike (primary m) p'" by (rule alike_trans [OF p(3) p'(3)])
    then have acp: "alike (combined m) p'" using ok alike_trans by blast
    have gp': "grid_ok p'" using alike_grid_ok [OF p'(3) p(2) p'(2)] .
    have mc: "map_ok (combined m)" using ok by (simp add: grid_ok_def)
    from copyWindow_window [OF gp' mc acp assms(4)] obtain c where c:
      "copyWindow p' (word_of_int x0) (word_of_int y0) (word_of_int xn) (word_of_int yn)
      (word_of_int x0) (word_of_int y0) (combined m) = Some (True, c)" "grid_ok c" "alike (combined m) c"
      "agree_outside x0 y0 xn yn (combined m) c" by blast
    have wc: "window_in c x0 y0 xn yn" using window_in_alike [OF c(3)] assms(4) by simp
    have "alike p c" using alike_trans [OF alike_sym [OF alike_trans [OF conjunct2 [OF conjunct2 [OF ok]] p(3)]] c(3)] .
    then have gw: "good c w'" using ga [OF p'(4)] by blast
    obtain c' w'' where c': "update_costs fs x0 y0 xn yn (c, w') = Some (c', w'')" "map_ok c'" "alike c c'"
        "good c w''" "agree_outside x0 y0 xn yn c c'"
      using update_costs_law [OF wl(2) c(2) gw wc] by blast
    have ac: "alike (combined m) c'" by (rule alike_trans [OF c(3) c'(3)])
    have "agree_outside x0 y0 xn yn (combined m) c'" by (rule agree_outside_trans [OF c(4) c'(5) c(3)])
    moreover have "agree_outside x0 y0 xn yn (primary m) p'" by (rule agree_outside_trans [OF p(4) p'(5) p(3)])
    moreover have "good (combined m) w''" by (rule ga [OF c'(4) alike_sym [OF c(3)]])
    moreover have "lc_ok (m\<lparr>primary := p', combined := c', layers_state := w''\<rparr>)"
      using ok alike_grid_ok [OF ac] c'(2) p'(2) alike_trans [OF alike_sym [OF ac] acp] by (simp add: lc_ok_def)
    ultimately show ?thesis using False p(1) p'(1) c(1) c'(1) ac
      by (intro exI [of _ "m\<lparr>primary := p', combined := c', layers_state := w''\<rparr>"])
         (simp add: merge_layers_def Let_def)
  qed
qed

lemma cell_layers_good:
  assumes "\<forall>(l, rule)\<in>set lrs. cell_layer l good rule"
  shows "\<forall>l\<in>set (map fst lrs). window_layer l good"
proof
  fix l assume "l \<in> set (map fst lrs)"
  then obtain r where "(l, r) \<in> set lrs" by auto
  then have "cell_layer l good r" using assms by blast
  then show "window_layer l good" by (rule cell_layer.axioms(1))
qed

lemma costs_after_reset:
  assumes "\<forall>(l, rule)\<in>set lrs. cell_layer l good rule" "grid_ok m" "good m w" "window_in m x0 y0 xn yn"
    and "resetMap (word_of_int x0) (word_of_int y0) (word_of_int xn) (word_of_int yn) m = Some c"
    and "update_costs (map fst lrs) x0 y0 xn yn (c, w) = Some cw"
    and "x < unat (size_x m)" "y < unat (size_y m)" "inside x0 y0 xn yn x y"
  shows "snd cw = w \<and> cell (fst cw) x y = fold (\<lambda>r. r w x y) (map snd lrs) (default_value m) \<and> alike m c"
proof -
  have c: "grid_ok c" "alike m c" "cell c x y = default_value m"
    using resetMap_window [OF assms(2,4)] assms(5,7-9) by auto
  show ?thesis
  proof (cases "lrs = []")
    case True
    then have "cw = (c, w)" using assms(6) by simp
    then show ?thesis using True c by simp
  next
    case False
    then obtain l where "window_layer l good" using cell_layers_good [OF assms(1)] by (cases lrs) auto
    note g = window_layer.good_alike [OF this assms(3) c(2)]
    have w: "window_in c x0 y0 xn yn" using window_in_alike [OF c(2)] assms(4) by simp
    show ?thesis using update_costs_cells [OF assms(1) c(1) g w] assms(6-9) c(2,3) by (auto simp: alike_def)
  qed
qed

lemma merge_layers_cells:
  assumes "\<forall>(l, rule)\<in>set (prs @ frs). cell_layer l good rule" "lc_ok m" "good (combined m) (layers_state m)"
    and "window_in (combined m) x0 y0 xn yn"
    and "merge_layers (map fst prs) (map fst frs) x0 y0 xn yn m = Some (Inr m')"
    and "x < unat (size_x (combined m))" "y < unat (size_y (combined m))" "inside x0 y0 xn yn x y"
  defines "plugin_cost \<equiv> fold (\<lambda>r. r (layers_state m) x y) (map snd prs) (default_value (combined m))"
  shows "cell (combined m') x y = fold (\<lambda>r. r (layers_state m) x y) (map snd frs) plugin_cost \<and>
    (frs \<noteq> [] \<longrightarrow> cell (primary m') x y = plugin_cost)"
proof -
  note ok = assms(2) [unfolded lc_ok_def]
  have cl: "\<forall>(l, rule)\<in>set prs. cell_layer l good rule" "\<forall>(l, rule)\<in>set frs. cell_layer l good rule"
    using assms(1) by auto
  show ?thesis
  proof (cases "frs = []")
    case True
    obtain c cw where "resetMap (word_of_int x0) (word_of_int y0) (word_of_int xn) (word_of_int yn) (combined m) = Some c"
      "update_costs (map fst prs) x0 y0 xn yn (c, layers_state m) = Some cw" "m' = m\<lparr>combined := fst cw, layers_state := snd cw\<rparr>"
      using assms(5) True by (auto simp: merge_layers_def Let_def split: Option.bind_splits)
    then show ?thesis
      using costs_after_reset [OF cl(1) conjunct1 [OF ok] assms(3,4)] assms(6-8) True by (simp add: plugin_cost_def)
  next
    case False
    then obtain l where wl: "window_layer l good" using cell_layers_good [OF cl(2)] by (cases frs) auto
    note ga = window_layer.good_alike [OF wl]
    obtain p pw c cw where p: "resetMap (word_of_int x0) (word_of_int y0) (word_of_int xn) (word_of_int yn) (primary m) = Some p"
      and pw: "update_costs (map fst prs) x0 y0 xn yn (p, layers_state m) = Some pw"
      and c: "copyWindow (fst pw) (word_of_int x0) (word_of_int y0) (word_of_int xn) (word_of_int yn)
        (word_of_int x0) (word_of_int y0) (combined m) = Some (True, c)"
      and cw: "update_costs (map fst frs) x0 y0 xn yn (c, snd pw) = Some cw"
      and m': "m' = m\<lparr>primary := fst pw, combined := fst cw, layers_state := snd cw\<rparr>"
      using assms(5) False by (auto simp: merge_layers_def Let_def split: Option.bind_splits if_splits)
    have a: "alike (combined m) (primary m)" using ok by blast
    have gp: "grid_ok (primary m)" "window_in (primary m) x0 y0 xn yn" "good (primary m) (layers_state m)"
      using ok alike_grid_ok window_in_alike assms(3,4) ga by blast+
    have sizes: "x < unat (size_x (primary m))" "y < unat (size_y (primary m))"
      "default_value (primary m) = default_value (combined m)" using a assms(6,7) by (simp_all add: alike_def)
    have pr: "snd pw = layers_state m" "cell (fst pw) x y = plugin_cost" "alike (primary m) p"
      using costs_after_reset [OF cl(1) gp(1,3,2) p pw sizes(1,2) assms(8)] sizes(3) by (simp_all add: plugin_cost_def)
    have gok: "grid_ok p" using resetMap_window [OF gp(1,2)] p by auto
    have "window_in p x0 y0 xn yn" using window_in_alike [OF pr(3)] gp(2) by simp
    from update_costs_law [OF cell_layers_good [OF cl(1)] gok ga [OF gp(3) pr(3)] this]
    obtain p' w' where "update_costs (map fst prs) x0 y0 xn yn (p, layers_state m) = Some (p', w')"
      "map_ok p'" "alike p p'" by blast
    then have "map_ok (fst pw) \<and> alike p (fst pw)" using pw by simp
    then have src: "grid_ok (fst pw)" "alike (combined m) (fst pw)"
      using alike_grid_ok gok alike_trans [OF a alike_trans [OF pr(3)]] by blast+
    have mc: "map_ok (combined m)" using ok by (simp add: grid_ok_def)
    have cc: "cell c x y = plugin_cost" "alike (combined m) c" "grid_ok c"
      using copyWindow_window [OF src(1) mc src(2) assms(4)] c assms(6-8) pr(2) by auto
    have "x < unat (size_x c)" "y < unat (size_y c)" using cc(2) assms(6,7) by (simp_all add: alike_def)
    moreover have "window_in c x0 y0 xn yn" using window_in_alike [OF cc(2)] assms(4) by simp
    from update_costs_cells [OF cl(2) cc(3) ga [OF assms(3) cc(2)] this]
    obtain c' where "update_costs (map fst frs) x0 y0 xn yn (c, layers_state m) = Some (c', layers_state m)"
      "\<forall>x < unat (size_x c). \<forall>y < unat (size_y c). inside x0 y0 xn yn x y \<longrightarrow>
        cell c' x y = fold (\<lambda>r. r (layers_state m) x y) (map snd frs) (cell c x y)" by blast
    ultimately have "cell (fst cw) x y = fold (\<lambda>r. r (layers_state m) x y) (map snd frs) plugin_cost"
      using cw pr(1) cc(1) assms(8) by fastforce
    then show ?thesis using m' pr(2) by simp
  qed
qed

section \<open>Layers with a costmap of their own\<close>

text \<open>
  A layer derived from CostmapLayer: its bounds are its extra bounds, its costs its own costmap, merged with one of
  the five rules. The state of all layers is the list of the costmap layers.
\<close>

definition costmap_layer_at ::
  "(costmap_layer \<Rightarrow> int \<Rightarrow> int \<Rightarrow> int \<Rightarrow> int \<Rightarrow> costmap2d \<Rightarrow> costmap2d option) \<Rightarrow> (nat \<Rightarrow> u8) \<Rightarrow> nat \<Rightarrow>
    costmap_layer list Layer" where
  "costmap_layer_at U junk i =
    \<lparr>updateBounds = (\<lambda>_ _ _ b m.
       if i < length (layers_state m)
       then (let (b', l') = useExtraBounds b (layers_state m ! i)
             in Some (b', m\<lparr>layers_state := (layers_state m)[i := l']\<rparr>))
       else None),
     updateCosts = (\<lambda>x0 y0 xn yn m w.
       if i < length w then map_option (\<lambda>m'. (m', w)) (U (w ! i) x0 y0 xn yn m) else None),
     layer_matchSize = (\<lambda>m w.
       if i < length w then map_option (\<lambda>l'. w[i := l']) (matchSize junk (Some m) (w ! i)) else None),
     layer_isCurrent = (\<lambda>w. current (w ! i)),
     layer_isEnabled = (\<lambda>w. enabled (w ! i)),
     layer_setCurrent = (\<lambda>c w. w[i := (w ! i)\<lparr>current := c\<rparr>]),
     onFootprintChanged = (\<lambda>_ _ w. Some w)\<rparr>"

definition fit_layers :: "nat \<Rightarrow> costmap2d \<Rightarrow> costmap_layer list \<Rightarrow> bool" where
  "fit_layers n m w \<longleftrightarrow> length w = n \<and>
    (\<forall>l\<in>set w. map_ok (own l) \<and> size_x (own l) = size_x m \<and> size_y (own l) = size_y m)"

lemma fit_layers_update:
  "fit_layers n m w \<Longrightarrow> own l = own (w ! i) \<Longrightarrow> i < n \<Longrightarrow> fit_layers n m (w[i := l])"
  unfolding fit_layers_def by (metis in_set_conv_nth length_list_update nth_list_update)

lemma useExtraBounds_covers: "covers b (fst (useExtraBounds b l)) \<and> own (snd (useExtraBounds b l)) = own l"
  by (simp add: useExtraBounds_def covers_def)

definition if_enabled :: "(u8 \<Rightarrow> u8 \<Rightarrow> u8) \<Rightarrow> nat \<Rightarrow> costmap_layer list \<Rightarrow> nat \<Rightarrow> nat \<Rightarrow> u8 \<Rightarrow> u8" where
  "if_enabled rule i w x y old = (if enabled (w ! i) then rule (cell (own (w ! i)) x y) old else old)"

definition merging :: "(u8 \<Rightarrow> u8 \<Rightarrow> u8) \<Rightarrow> costmap_layer \<Rightarrow> int \<Rightarrow> int \<Rightarrow> int \<Rightarrow> int \<Rightarrow> costmap2d \<Rightarrow> costmap2d option" where
  "merging rule l min_i min_j max_i max_j master =
    (if \<not> enabled l then Some master else merge_window rule (own l) min_i min_j max_i max_j master)"

lemma merging_eqs:
  "updateWithMax = merging max_rule" "updateWithOverwrite = merging overwrite_rule"
  "updateWithMaxWithoutUnknownOverwrite = merging max_known_rule" "updateWithAddition = merging addition_rule"
  by (simp_all add: fun_eq_iff merging_def updateWithMax_def updateWithOverwrite_def
      updateWithMaxWithoutUnknownOverwrite_def updateWithAddition_def)

lemma merging_cells:
  assumes "grid_ok m" "fit_layers n m w" "i < n" "window_in m x0 y0 xn yn"
  shows "\<exists>m'. merging rule (w ! i) x0 y0 xn yn m = Some m' \<and> map_ok m' \<and> alike m m' \<and>
    (\<forall>x < unat (size_x m). \<forall>y < unat (size_y m). cell m' x y =
      (if inside x0 y0 xn yn x y then if_enabled rule i w x y (cell m x y) else cell m x y))"
proof (cases "enabled (w ! i)")
  case True
  have l: "map_ok (own (w ! i))" "size_x (own (w ! i)) = size_x m" "size_y (own (w ! i)) = size_y m"
    using assms(2,3) by (auto simp: fit_layers_def)
  have w: "0 \<le> x0" "xn \<le> int (unat (size_x m))" "0 \<le> y0" "yn \<le> int (unat (size_y m))"
    using assms(4) by (auto simp: window_in_def)
  obtain m' where "merge_window rule (own (w ! i)) x0 y0 xn yn m = Some m'" "map_ok m'" "same_frame m m'"
    "\<forall>x < unat (size_x m). \<forall>y < unat (size_y m). cell m' x y =
      (if inside x0 y0 xn yn x y then rule (cell (own (w ! i)) x y) (cell m x y) else cell m x y)"
    using merge_window_cells [OF l(1) grid_okD(1) [OF assms(1)] l(2,3) w, of rule] unfolding inside_def by blast
  then show ?thesis using True same_frame_alike by (auto simp: merging_def if_enabled_def)
next
  case False
  then show ?thesis using assms(1) by (auto simp: merging_def if_enabled_def grid_ok_def)
qed

lemma costmap_cell_layer:
  assumes "i < n"
  shows "cell_layer (costmap_layer_at (merging rule) junk i) (fit_layers n) (if_enabled rule i)"
proof
  fix m m' w
  assume "fit_layers n m w" "alike m m'"
  then show "fit_layers n m' w" by (simp add: fit_layers_def alike_def)
next
  fix mw :: "costmap_layer list lc_maps" and x y yaw b
  assume f: "fit_layers n (combined mw) (layers_state mw)"
  obtain b' l' where u: "useExtraBounds b (layers_state mw ! i) = (b', l')" by (rule prod.exhaust)
  then have "covers b b'" "own l' = own (layers_state mw ! i)"
    using useExtraBounds_covers [of b "layers_state mw ! i"] by auto
  moreover have "i < length (layers_state mw)" using f assms by (simp add: fit_layers_def)
  ultimately show "\<exists>b' w'. updateBounds (costmap_layer_at (merging rule) junk i) x y yaw b mw =
      Some (b', mw\<lparr>layers_state := w'\<rparr>) \<and> covers b b' \<and> fit_layers n (combined mw) w'"
    using u fit_layers_update [OF f _ assms, of l']
    by (intro exI [of _ b'] exI [of _ "(layers_state mw)[i := l']"]) (simp add: costmap_layer_at_def)
next
  fix m w x0 y0 xn yn
  assume a: "grid_ok m" "fit_layers n m w" "window_in m x0 y0 xn yn"
  have len: "i < length w" using a(2) assms by (simp add: fit_layers_def)
  from merging_cells [OF a(1,2) assms a(3), of rule] obtain m' where m':
    "merging rule (w ! i) x0 y0 xn yn m = Some m'" "map_ok m'" "alike m m'"
    "\<forall>x < unat (size_x m). \<forall>y < unat (size_y m). cell m' x y =
      (if inside x0 y0 xn yn x y then if_enabled rule i w x y (cell m x y) else cell m x y)" by blast
  then show "\<exists>m' w'. updateCosts (costmap_layer_at (merging rule) junk i) x0 y0 xn yn m w = Some (m', w') \<and>
      map_ok m' \<and> alike m m' \<and> fit_layers n m w' \<and> agree_outside x0 y0 xn yn m m'"
    using a(2) len by (auto simp: costmap_layer_at_def agree_outside_def)
  show "\<exists>m'. updateCosts (costmap_layer_at (merging rule) junk i) x0 y0 xn yn m w = Some (m', w) \<and>
      (\<forall>x < unat (size_x m). \<forall>y < unat (size_y m). inside x0 y0 xn yn x y \<longrightarrow>
        cell m' x y = if_enabled rule i w x y (cell m x y))"
    using m' len by (auto simp: costmap_layer_at_def)
next
  fix m w c
  assume "fit_layers n m w"
  then show "fit_layers n m (layer_setCurrent (costmap_layer_at (merging rule) junk i) c w)"
    using assms by (simp add: costmap_layer_at_def fit_layers_update)
qed

interpretation mx: cell_layer "costmap_layer_at updateWithMax junk i" "fit_layers (Suc (i + k))" "if_enabled max_rule i"
  for junk i k
  unfolding merging_eqs by (rule costmap_cell_layer) simp

interpretation ow: cell_layer "costmap_layer_at updateWithOverwrite junk i" "fit_layers (Suc (i + k))"
  "if_enabled overwrite_rule i" for junk i k
  unfolding merging_eqs by (rule costmap_cell_layer) simp

section \<open>Properties\<close>

lemma updateMap_steps:
  assumes "(if rolling_window lc then roll junk rx ry (lc_maps lc) else Some (lc_maps lc)) = Some m1"
    and "worldToMap (combined m1) rx ry \<noteq> None" "plugins lc \<noteq> [] \<or> filters lc \<noteq> []"
    and "update_bounds rx ry yaw (plugins lc @ filters lc)
      (\<lparr>min_bx = DBL_MAX, min_by = DBL_MAX, max_bx = - DBL_MAX, max_by = - DBL_MAX\<rparr>, m1) = Some (b, m2)"
    and "update_window (combined m2) b = Some (x0, xn, y0, yn)"
  shows "xn < x0 \<or> yn < y0 \<Longrightarrow> updateMap junk rx ry yaw lc = Some (Inr (lc\<lparr>lc_maps := m2, lc_bounds := b\<rparr>))"
    and "\<not> (xn < x0 \<or> yn < y0) \<Longrightarrow> merge_layers (plugins lc) (filters lc) x0 y0 xn yn m2 = Some (Inr m3) \<Longrightarrow>
      updateMap junk rx ry yaw lc = Some (Inr (lc\<lparr>
        lc_maps := m3\<lparr>layers_state := mark_disabled_current (plugins lc @ filters lc) (layers_state m3)\<rparr>,
        lc_bounds := b, bx0 := word_of_int x0, bxn := word_of_int xn, by0 := word_of_int y0, byn := word_of_int yn,
        lc_initialized := True\<rparr>))"
  using assms by (cases lc; auto simp: updateMap_def isOutofBounds_def Let_def)+

lemma mark_disabled_good:
  "\<forall>l\<in>set ls. window_layer l good \<Longrightarrow> good m w \<Longrightarrow> good m (mark_disabled_current ls w)"
proof (induction ls arbitrary: w)
  case (Cons l ls)
  then show ?case using window_layer.current_law [of l good m w] by (simp add: mark_disabled_current_def)
qed (simp add: mark_disabled_current_def)

text \<open>
  Rolling keeps the maps well-formed and alike as long as the robot is within reach of the \<open>int\<close> cell indices.
\<close>

lemma updateOrigin_ok:
  assumes "grid_ok m" "map_ok m'" "alike m m'"
    and "cx = trunc_real ((ox - origin_x m) / resolution m)" "cy = trunc_real ((oy - origin_y m) / resolution m)"
    and "- (2 ^ 31) < cx" "cx + int (unat (size_x m)) < 2 ^ 31" "- (2 ^ 31) < cy" "cy + int (unat (size_y m)) < 2 ^ 31"
  shows "\<exists>n. updateOrigin junk ox oy m' = Some n \<and> map_ok n \<and>
    alike (m\<lparr>origin_x := origin_x m + of_int cx * resolution m, origin_y := origin_y m + of_int cy * resolution m\<rparr>) n"
proof -
  have e: "size_x m' = size_x m" "size_y m' = size_y m" "resolution m' = resolution m" "origin_x m' = origin_x m"
    "origin_y m' = origin_y m" "default_value m' = default_value m" using assms(3) by (simp_all add: alike_def)
  have "cx < 2 ^ 31" "cy < 2 ^ 31" using assms(7,9) by linarith+
  then have "updateOrigin junk ox oy m' = shift_map junk cx cy m'"
    using assms(4-6,8) by (simp add: updateOrigin_def cast_i32_def fits_i32_def e)
  moreover obtain n where "shift_map junk cx cy m' = Some n" "map_ok n"
    "same_frame (m'\<lparr>origin_x := origin_x m' + of_int cx * resolution m',
                  origin_y := origin_y m' + of_int cy * resolution m'\<rparr>) n"
    using shift_map_cells [of m' cx cy junk] assms(2,6-9) grid_okD(4,6) [OF assms(1)] e by auto
  ultimately show ?thesis using same_frame_fields [of _ n] e
    by (intro exI [of _ n]) (auto simp: alike_def)
qed

lemma roll_ok:
  assumes "lc_ok m"
    and "cx = trunc_real ((rx - getSizeInMetersX (combined m) / 2 - origin_x (combined m)) / resolution (combined m))"
    and "cy = trunc_real ((ry - getSizeInMetersY (combined m) / 2 - origin_y (combined m)) / resolution (combined m))"
    and "- (2 ^ 31) < cx" "cx + int (unat (size_x (combined m))) < 2 ^ 31"
    and "- (2 ^ 31) < cy" "cy + int (unat (size_y (combined m))) < 2 ^ 31"
  shows "\<exists>m1. roll junk rx ry m = Some m1 \<and> lc_ok m1 \<and> layers_state m1 = layers_state m"
proof -
  let ?c = "combined m"
  let ?f = "?c\<lparr>origin_x := origin_x ?c + of_int cx * resolution ?c, origin_y := origin_y ?c + of_int cy * resolution ?c\<rparr>"
  note ok = assms(1) [unfolded lc_ok_def]
  note g = conjunct1 [OF ok]
  obtain p c where
    "updateOrigin junk (rx - getSizeInMetersX ?c / 2) (ry - getSizeInMetersY ?c / 2) (primary m) = Some p" "map_ok p" "alike ?f p"
    "updateOrigin junk (rx - getSizeInMetersX ?c / 2) (ry - getSizeInMetersY ?c / 2) ?c = Some c" "map_ok c" "alike ?f c"
    using updateOrigin_ok [OF g _ _ assms(2-7), of "primary m" junk] ok
      updateOrigin_ok [OF g grid_okD(1) [OF g] alike_refl assms(2-7), of junk] by blast
  moreover from this have "grid_ok c" using g by (simp add: grid_ok_def alike_def)
  moreover from calculation have "alike c p" using alike_trans [OF alike_sym] by blast
  ultimately show ?thesis
    by (intro exI [of _ "m\<lparr>primary := p, combined := c\<rparr>"]) (simp add: roll_def lc_ok_def)
qed

text \<open>What one update does, for any stack of layers that keep their contract.\<close>

lemma updateMap_law:
  assumes "(if rolling_window lc then roll junk rx ry (lc_maps lc) else Some (lc_maps lc)) = Some m1"
    and "lc_ok m1" "good (combined m1) (layers_state m1)"
    and "\<forall>l\<in>set (plugins lc @ filters lc). window_layer l good"
    and "worldToMap (combined m1) rx ry \<noteq> None" "plugins lc \<noteq> [] \<or> filters lc \<noteq> []"
  shows "\<exists>b w x0 xn y0 yn lc'. updateMap junk rx ry yaw lc = Some (Inr lc') \<and>
    good (combined m1) w \<and> lc_bounds lc' = b \<and>
    lc_ok (lc_maps lc') \<and> alike (combined m1) (combined (lc_maps lc')) \<and>
    good (combined m1) (layers_state (lc_maps lc')) \<and>
    agree_outside x0 y0 xn yn (combined m1) (combined (lc_maps lc')) \<and>
    agree_outside x0 y0 xn yn (primary m1) (primary (lc_maps lc')) \<and>
    (\<forall>wx wy cx cy. worldToMap (combined m1) wx wy = Some (Some (cx, cy)) \<longrightarrow> min_bx b \<le> wx \<longrightarrow> wx \<le> max_bx b \<longrightarrow>
      min_by b \<le> wy \<longrightarrow> wy \<le> max_by b \<longrightarrow> inside x0 y0 xn yn (unat cx) (unat cy)) \<and>
    (xn < x0 \<or> yn < y0 \<or> window_in (combined m1) x0 y0 xn yn \<and>
      (\<exists>m3. merge_layers (plugins lc) (filters lc) x0 y0 xn yn (m1\<lparr>layers_state := w\<rparr>) = Some (Inr m3) \<and>
        combined (lc_maps lc') = combined m3 \<and> primary (lc_maps lc') = primary m3)) \<and>
    update_bounds rx ry yaw (plugins lc @ filters lc)
      (\<lparr>min_bx = DBL_MAX, min_by = DBL_MAX, max_bx = - DBL_MAX, max_by = - DBL_MAX\<rparr>, m1) =
      Some (b, m1\<lparr>layers_state := w\<rparr>)"
proof -
  obtain b w where ub: "update_bounds rx ry yaw (plugins lc @ filters lc)
      (\<lparr>min_bx = DBL_MAX, min_by = DBL_MAX, max_bx = - DBL_MAX, max_by = - DBL_MAX\<rparr>, m1) =
      Some (b, m1\<lparr>layers_state := w\<rparr>)" and gw: "good (combined m1) w"
    using update_bounds_law [OF assms(4,2,3)] by blast
  define m2 where "m2 = m1\<lparr>layers_state := w\<rparr>"
  have m2: "combined m2 = combined m1" "primary m2 = primary m1" "layers_state m2 = w" "lc_ok m2"
    using assms(2) by (simp_all add: m2_def lc_ok_def)
  have grid: "grid_ok (combined m1)" using assms(2) by (simp add: lc_ok_def)
  obtain x0 xn y0 yn where win: "update_window (combined m1) b = Some (x0, xn, y0, yn)" "0 \<le> x0" "0 \<le> y0"
      "xn \<le> int (unat (size_x (combined m1)))" "yn \<le> int (unat (size_y (combined m1)))"
    and cover: "\<forall>wx wy cx cy. worldToMap (combined m1) wx wy = Some (Some (cx, cy)) \<longrightarrow> min_bx b \<le> wx \<longrightarrow>
      wx \<le> max_bx b \<longrightarrow> min_by b \<le> wy \<longrightarrow> wy \<le> max_by b \<longrightarrow> inside x0 y0 xn yn (unat cx) (unat cy)"
    using update_window_spec [OF grid, of b] by blast
  note steps = updateMap_steps [OF assms(1,5,6) ub [folded m2_def], unfolded m2(1), OF win(1)]
  show ?thesis
  proof (cases "xn < x0 \<or> yn < y0")
    case True
    let ?lc = "lc\<lparr>lc_maps := m2, lc_bounds := b\<rparr>"
    have up: "updateMap junk rx ry yaw lc = Some (Inr ?lc)" by (rule steps(1) [OF True])
    show ?thesis
      by (rule exI [of _ b], rule exI [of _ w], rule exI [of _ x0], rule exI [of _ xn], rule exI [of _ y0],
          rule exI [of _ yn], rule exI [of _ ?lc], insert up True cover m2 gw ub,
          simp add: agree_outside_def m2_def, blast)
  next
    case False
    then have wi: "window_in (combined m2) x0 y0 xn yn" using win m2(1) by (auto simp: window_in_def)
    have "good (combined m2) (layers_state m2)" using gw m2 by simp
    from merge_layers_law [OF assms(4) m2(4) this wi] obtain m3 where
      m3: "merge_layers (plugins lc) (filters lc) x0 y0 xn yn m2 = Some (Inr m3)" "lc_ok m3"
        "alike (combined m2) (combined m3)" "good (combined m2) (layers_state m3)"
        "agree_outside x0 y0 xn yn (combined m2) (combined m3)" "agree_outside x0 y0 xn yn (primary m2) (primary m3)"
      by blast
    let ?w = "mark_disabled_current (plugins lc @ filters lc) (layers_state m3)"
    let ?lc = "lc\<lparr>lc_maps := m3\<lparr>layers_state := ?w\<rparr>, lc_bounds := b, bx0 := word_of_int x0, bxn := word_of_int xn,
      by0 := word_of_int y0, byn := word_of_int yn, lc_initialized := True\<rparr>"
    have up: "updateMap junk rx ry yaw lc = Some (Inr ?lc)" by (rule steps(2) [OF False m3(1)])
    have "good (combined m2) ?w" by (rule mark_disabled_good [OF assms(4) m3(4)])
    note facts = up this cover m2 m3 gw ub wi
    show ?thesis
      by (rule exI [of _ b], rule exI [of _ w], rule exI [of _ x0], rule exI [of _ xn], rule exI [of _ y0],
          rule exI [of _ yn], rule exI [of _ ?lc], insert facts, simp add: lc_ok_def m2_def)
  qed
qed



definition demo_lc :: "costmap_layer list LayeredCostmap" where
  "demo_lc = addPlugin (costmap_layer_at updateWithMax (\<lambda>_. 0) 0)
     ((new_layered small_map False True [addExtraBounds 0 0 (5 / 2) (3 / 2) small_layer])
       \<lparr>lc_maps := \<lparr>primary = small_map, combined = small_map,
          layers_state = [addExtraBounds 0 0 (5 / 2) (3 / 2) small_layer]\<rparr>\<rparr>)"

lemma demo_lc_fields:
  "rolling_window demo_lc = False" "plugins demo_lc = [costmap_layer_at updateWithMax (\<lambda>_. 0) 0]" "filters demo_lc = []"
  "combined (lc_maps demo_lc) = small_map" "primary (lc_maps demo_lc) = small_map"
  "layers_state (lc_maps demo_lc) = [addExtraBounds 0 0 (5 / 2) (3 / 2) small_layer]"
  by (simp_all add: demo_lc_def addPlugin_def new_layered_def Let_def)

lemma demo_lc_ok:
  "lc_ok (lc_maps demo_lc)" "fit_layers (Suc (0 + 0)) small_map [addExtraBounds 0 0 (5 / 2) (3 / 2) small_layer]"
  "worldToMap small_map (1 / 2) (1 / 2) \<noteq> None"
  using small_map_ok small_layer_ok small_map_vertices(1)
  by (simp_all add: lc_ok_def demo_lc_fields grid_ok_def fit_layers_def addExtraBounds_def)
     (simp_all add: small_map_def)



end
