(* ===== verification/Denoise_Layer.thy ===== *)
theory Denoise_Layer
  imports Noise_Removal Layered_Costmap
begin

text \<open>
  nav2_costmap_2d/plugins/denoise_layer.cpp: the layer that removes isolated obstacles from the window the layered
  costmap gives it. A limit of two takes the fast path over the dilated image, a larger limit labels the groups; both
  implement the same filter. An exception inside the filter is logged and leaves the map as it was. The memory buffers
  come uninitialised (\<open>junk\<close>).
\<close>

section \<open>The layer\<close>

record DenoiseLayer =
  dn_enabled :: bool
  dn_current :: bool
  minimal_group_size :: nat
  group_connectivity_type :: ConnectivityType
  no_information_is_obstacle :: bool
  label_trees :: label_type

text \<open>The parameters are those of the node; warnings are left out.\<close>

definition dn_onInitialize :: "bool \<Rightarrow> int \<Rightarrow> int \<Rightarrow> DenoiseLayer \<Rightarrow> DenoiseLayer" where
  "dn_onInitialize enabled_param minimal_group_size_param group_connectivity_type_param l =
    l\<lparr>dn_enabled := enabled_param,
      minimal_group_size := (if minimal_group_size_param \<le> 1 then 1 else nat minimal_group_size_param),
      group_connectivity_type := (if group_connectivity_type_param = 4 then Way4 else Way8),
      dn_current := True\<rparr>"

definition dn_reset :: "DenoiseLayer \<Rightarrow> DenoiseLayer" where
  "dn_reset l = l\<lparr>dn_current := False\<rparr>"

definition isBackground :: "DenoiseLayer \<Rightarrow> u8 \<Rightarrow> bool" where
  "isBackground l pixel =
    (let is_obstacle = pixel = LETHAL_OBSTACLE \<or> pixel = INSCRIBED_INFLATED_OBSTACLE \<or>
           (pixel = NO_INFORMATION \<and> no_information_is_obstacle l)
     in \<not> is_obstacle)"

fun max3 :: "u8 \<times> u8 \<times> u8 \<Rightarrow> u8" where
  "max3 (x, y, z) = max (max x y) z"

definition replace_to_free :: "u8 \<Rightarrow> u8" where
  "replace_to_free v = (if v = NO_INFORMATION then FREE_SPACE else v)"

fun max3_known :: "u8 \<times> u8 \<times> u8 \<Rightarrow> u8" where
  "max3_known (x, y, z) = max3 (replace_to_free x, replace_to_free y, replace_to_free z)"

definition removeSinglePixels :: "(nat \<Rightarrow> u8) \<Rightarrow> DenoiseLayer \<Rightarrow> Image \<Rightarrow> u8 list \<Rightarrow> img_error + u8 list" where
  "removeSinglePixels junk l im mem =
    (let buf = map junk [0..<img_rows im * img_columns im];
         max_neighbors_image = \<lparr>data_start = 0, img_rows = img_rows im, img_columns = img_columns im,
           img_step = img_columns im\<rparr>
     in bindE (dilate im mem max_neighbors_image buf (group_connectivity_type l)
            (if \<not> no_information_is_obstacle l then max3_known else max3)) (\<lambda>buf'.
          convert (\<lambda>maxNeighbor img. Inr (if \<not> isBackground l img \<and> isBackground l maxNeighbor then FREE_SPACE else img))
            max_neighbors_image buf' im mem))"

definition denoise ::
  "(nat \<Rightarrow> u8) \<Rightarrow> (label_type \<Rightarrow> nat \<Rightarrow> nat) \<Rightarrow> DenoiseLayer \<Rightarrow> Image \<Rightarrow> u8 list \<Rightarrow> (img_error + u8 list) \<times> label_type" where
  "denoise junk8 junk l im mem =
    (if img_empty im then (Inr mem, label_trees l)
     else if minimal_group_size l \<le> 1 then (Inr mem, label_trees l)
     else if minimal_group_size l = 2 then (removeSinglePixels junk8 l im mem, label_trees l)
     else removeGroups junk (group_connectivity_type l) (minimal_group_size l) (isBackground l) im mem (label_trees l))"

text \<open>
  \<open>None\<close>: the map has no cells, the offset of the window overflows \<open>int\<close>, or an access leaves a buffer.
\<close>

definition dn_updateCosts ::
  "(nat \<Rightarrow> u8) \<Rightarrow> (label_type \<Rightarrow> nat \<Rightarrow> nat) \<Rightarrow> int \<Rightarrow> int \<Rightarrow> int \<Rightarrow> int \<Rightarrow> costmap2d \<Rightarrow> DenoiseLayer
    \<Rightarrow> (costmap2d \<times> DenoiseLayer) option" where
  "dn_updateCosts junk8 junk min_x min_y max_x max_y master l =
    (if \<not> dn_enabled l then Some (master, l)
     else if max_x \<le> min_x \<or> max_y \<le> min_y then Some (master, l)
     else
       (let l1 = l\<lparr>no_information_is_obstacle := getDefaultValue master \<noteq> NO_INFORMATION\<rparr>;
            step = sint (size_x master)
        in do {
          master_array \<leftarrow> costmap master;
          offset \<leftarrow> i32 (min_y * step);
          let roi_image = \<lparr>data_start = offset + min_x, img_rows = nat (max_y - min_y),
                img_columns = nat (max_x - min_x), img_step = nat step\<rparr>;
          let (res, lt) = denoise junk8 junk l1 roi_image master_array;
          let l2 = l1\<lparr>label_trees := lt, dn_current := True\<rparr>;
          case res of
            Inr cells \<Rightarrow> Some (master\<lparr>costmap := Some cells\<rparr>, l2)
          | Inl e \<Rightarrow> if e = OutOfRange then None else Some (master, l2) }))"

section \<open>The fast path\<close>

lemma u8_upper: "253 \<le> (v :: u8) \<longleftrightarrow> v = 253 \<or> v = 254 \<or> v = 255"
proof -
  have "unat v < 256" using unsigned_less [of v, where ?'a = nat] by simp
  then have "253 \<le> unat v \<longleftrightarrow> unat v = 253 \<or> unat v = 254 \<or> unat v = 255" by linarith
  then show ?thesis by (simp add: word_le_nat_alt word_unat_eq_iff)
qed

lemma isBackground_known: "no_information_is_obstacle l \<Longrightarrow> isBackground l v \<longleftrightarrow> v < 253"
  using u8_upper [of v] by (auto simp: isBackground_def not_less [symmetric] simp del: not_less)

lemma isBackground_unknown:
  "\<not> no_information_is_obstacle l \<Longrightarrow> isBackground l v \<longleftrightarrow> replace_to_free v < 253"
  using u8_upper [of v] by (auto simp: isBackground_def replace_to_free_def not_less [symmetric] simp del: not_less)

lemma isBackground_0 [simp]: "isBackground l 0"
  by (simp add: isBackground_def)

lemma max3_law: "no_information_is_obstacle l \<Longrightarrow> neighbour_max max3 (isBackground l)"
  by unfold_locales (simp_all add: isBackground_known)

lemma replace_max3: "replace_to_free (max3_known (x, y, z)) = max3_known (x, y, z)"
  by (simp add: replace_to_free_def max_def)

lemma max3_known_law: "\<not> no_information_is_obstacle l \<Longrightarrow> neighbour_max max3_known (isBackground l)"
  by unfold_locales (simp, subst (1 2 3 4) isBackground_unknown, simp_all add: replace_max3 del: max3_known.simps, simp)

interpretation dn_max: neighbour_max "if \<not> no_information_is_obstacle l then max3_known else max3" "isBackground l" for l
  using max3_law [of l] max3_known_law [of l] by (cases "no_information_is_obstacle l") simp_all

lemma group_single:
  assumes "finite F" "p \<in> F"
  shows "card (group_of (adjacent conn) F p) < 2 \<longleftrightarrow> (\<forall>q. adjacent conn p q \<longrightarrow> q \<notin> F)"
proof -
  have fin: "finite (group_of (adjacent conn) F p)" using assms(1) by (simp add: group_of_def)
  have self: "p \<in> group_of (adjacent conn) F p" using assms(2) by (simp add: group_of_def)
  show ?thesis
  proof
    assume lt: "card (group_of (adjacent conn) F p) < 2"
    show "\<forall>q. adjacent conn p q \<longrightarrow> q \<notin> F"
    proof (intro allI impI notI)
      fix q assume q: "adjacent conn p q" "q \<in> F"
      then have "(p, q) \<in> (links (adjacent conn) F)\<^sup>*" using assms(2) by (intro r_into_rtrancl) (simp add: links_def)
      then have "{p, q} \<subseteq> group_of (adjacent conn) F p" using q assms(2) by (simp add: group_of_def)
      then have "card {p, q} \<le> card (group_of (adjacent conn) F p)" by (rule card_mono [OF fin])
      moreover have "p \<noteq> q" using q(1) by (cases conn; cases p) auto
      ultimately show False using lt by simp
    qed
  next
    assume alone: "\<forall>q. adjacent conn p q \<longrightarrow> q \<notin> F"
    have "q = p" if "(p, q) \<in> (links (adjacent conn) F)\<^sup>*" for q
      using that by (induction rule: rtrancl_induct) (use alone in \<open>auto simp: links_def\<close>)
    then have "group_of (adjacent conn) F p = {p}" using self by (auto simp: group_of_def)
    then show "card (group_of (adjacent conn) F p) < 2" by simp
  qed
qed

lemma removeSinglePixels_correct:
  assumes fits: "img_fits im mem" and dims: "0 < img_rows im" "0 < img_columns im"
  shows "\<exists>mem'. removeSinglePixels junk l im mem = Inr mem' \<and>
    denoised (group_connectivity_type l) 2 (isBackground l) im mem mem'"
proof -
  define conn where "conn = group_connectivity_type l"
  define F where "F = obstacles (isBackground l) im mem"
  define nb where "nb = label_image im"
  define buf where "buf = map junk [0..<img_rows im * img_columns im]"
  define agg where "agg = (if \<not> no_information_is_obstacle l then max3_known else max3)"
  have fitn: "img_fits nb b" if "length b = length buf" for b :: "u8 list"
    using row_index_less [of _ "img_columns im" _ "img_rows im"] that unfolding buf_def nb_def
    by (auto simp: img_fits_def label_image_def img_index_def img_row_def nat_add_distrib nat_mult_distrib mult.commute)
  from dn_max.dilate_spec [OF fits fitn [OF refl], of conn l, folded agg_def] obtain b where
    b: "dilate im mem nb buf conn agg = Inr b" "length b = length buf"
    "\<forall>p\<in>pixels im. isBackground l (pixel_at nb b p) \<longleftrightarrow> (\<forall>q. adjacent conn p q \<longrightarrow> isBackground l (pixel_at im mem q))"
    using dims by (auto simp: nb_def)
  let ?h = "\<lambda>mx px. if \<not> isBackground l px \<and> isBackground l mx then FREE_SPACE else px"
  obtain mem' where c: "convert (\<lambda>mx px. Inr (?h mx px)) nb b im mem = Inr mem'" "length mem' = length mem"
    "\<forall>r<img_rows im. \<forall>c<img_columns im. mem' ! img_index im r c = ?h (b ! img_index nb r c) (mem ! img_index im r c)"
    "\<forall>k. (\<forall>r<img_rows im. \<forall>c<img_columns im. k \<noteq> img_index im r c) \<longrightarrow> mem' ! k = mem ! k"
    using convert_spec [OF fitn [OF b(2)] fits, where f = "\<lambda>mx px. Inr (?h mx px)" and h = ?h] by (auto simp: nb_def)
  have "pixel_at im mem' p = (if p \<in> F \<and> card (group_of (adjacent conn) F p) < 2 then 0 else pixel_at im mem p)"
    if p: "p \<in> pixels im" for p
  proof -
    obtain r c' where rc: "p = (int r, int c')" "r < img_rows im" "c' < img_columns im" using pixels_nat [OF p] by blast
    have "pixel_at im mem' p = mem' ! img_index im r c'" "pixel_at im mem p = mem ! img_index im r c'"
      "pixel_at nb b p = b ! img_index nb r c'" using rc by (simp_all add: pixel_at_def pixels_def nb_def)
    then have "pixel_at im mem' p = ?h (pixel_at nb b p) (pixel_at im mem p)" using c(3) rc by simp
    moreover have "isBackground l (pixel_at im mem q) \<longleftrightarrow> q \<notin> F" for q
      unfolding F_def by (rule is_bg_pixel [where is_bg = "isBackground l"]) simp
    moreover have "finite F" unfolding F_def by (rule finite_subset [OF obstacles_pixels]) simp
    ultimately show ?thesis using bspec [OF b(3) p] group_single [of F p conn] by auto
  qed
  then have "denoised conn 2 (isBackground l) im mem mem'" using c(2,4) by (simp add: denoised_def F_def)
  then show ?thesis
    using b(1) c(1) by (simp add: removeSinglePixels_def conn_def nb_def label_image_def buf_def agg_def Let_def)
qed

section \<open>The filter\<close>

lemma denoised_unchanged:
  assumes "mgs \<le> 1"
  shows "denoised conn mgs is_bg im mem mem"
proof -
  have "1 \<le> card (group_of (adjacent conn) (obstacles is_bg im mem) p)" if "p \<in> obstacles is_bg im mem" for p
  proof -
    have "finite (obstacles is_bg im mem)" by (rule finite_subset [OF obstacles_pixels]) simp
    then have "finite (group_of (adjacent conn) (obstacles is_bg im mem) p)" by (simp add: group_of_def)
    moreover have "p \<in> group_of (adjacent conn) (obstacles is_bg im mem) p" using that by (simp add: group_of_def)
    ultimately show ?thesis by (simp add: Suc_le_eq card_gt_0_iff) blast
  qed
  then show ?thesis using assms by (fastforce simp: denoised_def)
qed

lemma denoise_correct:
  assumes "img_fits im mem" "0 < img_rows im" "0 < img_columns im" "img_rows im * img_columns im + 2 < 2 ^ 32"
    and "group_connectivity_type l = Way4 \<or> minimal_group_size l \<le> 2 \<or> 2 \<le> img_rows im \<and> 2 \<le> img_columns im"
  shows "\<exists>mem' lt'. denoise junk8 junk l im mem = (Inr mem', lt') \<and>
    denoised (group_connectivity_type l) (minimal_group_size l) (isBackground l) im mem mem'"
proof -
  consider "minimal_group_size l \<le> 1" | "minimal_group_size l = 2" | "2 < minimal_group_size l" by linarith
  then show ?thesis
  proof cases
    case 1
    then show ?thesis using assms(2,3) denoised_unchanged by (simp add: denoise_def img_empty_def)
  next
    case 2
    then show ?thesis
      using removeSinglePixels_correct [OF assms(1-3), of junk8 l] assms(2,3) by (auto simp: denoise_def img_empty_def)
  next
    case 3
    then show ?thesis
      using removeGroups_correct [where is_bg = "isBackground l", OF isBackground_0 assms(1-4),
          of "group_connectivity_type l" junk "minimal_group_size l" "label_trees l"] assms(2,3,5)
      by (auto simp: denoise_def img_empty_def)
  qed
qed

text \<open>Whatever the filter meets, it leaves no buffer.\<close>

lemma denoise_safe:
  assumes "img_fits im mem" "0 < img_rows im" "0 < img_columns im"
  shows "\<exists>lt'. denoise junk8 junk l im mem = (Inl LabelOverflow, lt') \<or>
    (\<exists>mem'. denoise junk8 junk l im mem = (Inr mem', lt') \<and>
      denoised (group_connectivity_type l) (minimal_group_size l) (isBackground l) im mem mem')"
proof -
  consider "minimal_group_size l \<le> 1" | "minimal_group_size l = 2" | "2 < minimal_group_size l" by linarith
  then show ?thesis
  proof cases
    case 1
    then show ?thesis using assms(2,3) denoised_unchanged by (simp add: denoise_def img_empty_def)
  next
    case 2
    then show ?thesis
      using removeSinglePixels_correct [OF assms(1-3), of junk8 l] assms(2,3) by (auto simp: denoise_def img_empty_def)
  next
    case 3
    let ?r = "\<lambda>ty. removeGroupsImpl (label_max ty) (junk ty) (group_connectivity_type l) (minimal_group_size l) (isBackground l) im mem"
    have "?r ty = Inl LabelOverflow \<or>
      (\<exists>mem'. ?r ty = Inr mem' \<and> denoised (group_connectivity_type l) (minimal_group_size l) (isBackground l) im mem mem')" for ty
    proof -
      have "2 \<le> label_max ty" by (cases ty) auto
      from removeGroupsImpl_correct [where is_bg = "isBackground l", OF isBackground_0 assms this,
          of "group_connectivity_type l" "minimal_group_size l" "junk ty"]
      show ?thesis by (cases "?r ty") (auto simp: label_shortage_def)
    qed
    from this [of Uint16] this [of Uint32] show ?thesis
      using 3 assms(2,3) by (auto simp: denoise_def img_empty_def removeGroups_def Let_def)
  qed
qed

section \<open>The window of the map\<close>

definition roi_of :: "costmap2d \<Rightarrow> int \<Rightarrow> int \<Rightarrow> int \<Rightarrow> int \<Rightarrow> Image" where
  "roi_of m x0 y0 xn yn =
    \<lparr>data_start = y0 * int (unat (size_x m)) + x0, img_rows = nat (yn - y0), img_columns = nat (xn - x0),
     img_step = unat (size_x m)\<rparr>"

text \<open>The offset of the last row still fits \<open>int\<close> when the map has fewer than \<open>2 ^ 31\<close> cells.\<close>

definition small_grid :: "costmap2d \<Rightarrow> bool" where
  "small_grid m \<longleftrightarrow> unat (size_x m) * unat (size_y m) < 2 ^ 31"

lemma dn_updateCosts_roi:
  assumes "grid_ok m" "small_grid m" "window_in m x0 y0 xn yn" "dn_enabled l" "x0 < xn" "y0 < yn"
  shows "\<exists>cells. costmap m = Some cells \<and> img_fits (roi_of m x0 y0 xn yn) cells \<and>
    dn_updateCosts junk8 junk x0 y0 xn yn m l =
      (let l1 = l\<lparr>no_information_is_obstacle := default_value m \<noteq> NO_INFORMATION\<rparr>;
           (res, lt) = denoise junk8 junk l1 (roi_of m x0 y0 xn yn) cells;
           l2 = l1\<lparr>label_trees := lt, dn_current := True\<rparr>
       in case res of
            Inr cells' \<Rightarrow> Some (m\<lparr>costmap := Some cells'\<rparr>, l2)
          | Inl e \<Rightarrow> if e = OutOfRange then None else Some (m, l2))"
proof -
  define W where "W = unat (size_x m)"
  define H where "H = unat (size_y m)"
  obtain cells where cells: "costmap m = Some cells" "length cells = W * H"
    using grid_okD(1) [OF assms(1)] unfolding W_def H_def by (elim map_okE) blast
  have win: "0 \<le> x0" "xn \<le> int W" "0 \<le> y0" "yn \<le> int H"
    using assms(3) by (simp_all add: window_in_def W_def H_def)
  have step: "sint (size_x m) = int W" using sint_small [OF grid_okD(4) [OF assms(1)]] by (simp add: W_def)
  have "y0 * int W \<le> int H * int W" using win assms(6) by (intro mult_right_mono) auto
  also have "\<dots> = int (W * H)" by simp
  also have "\<dots> < 2 ^ 31" using assms(2) unfolding small_grid_def W_def H_def by (metis of_nat_less_iff of_nat_numeral of_nat_power)
  finally have lt: "y0 * int W < 2 ^ 31" .
  have "0 \<le> y0 * int W" using win by simp
  then have off: "i32 (y0 * int W) = Some (y0 * int W)" using lt by (simp add: i32_def fits_i32_def)
  have idx: "img_index (roi_of m x0 y0 xn yn) r c = (nat y0 + r) * W + (nat x0 + c)" for r c
  proof -
    obtain a b where ab: "y0 = int a" "x0 = int b" using win zero_le_imp_eq_int by metis
    have "img_row (roi_of m x0 y0 xn yn) r + int c = int ((nat y0 + r) * W + (nat x0 + c))"
      by (simp add: img_row_def roi_of_def W_def [symmetric] ab algebra_simps del: of_nat_unat)
    then show ?thesis unfolding img_index_def by (simp only: nat_int)
  qed
  have fits: "img_fits (roi_of m x0 y0 xn yn) cells"
    unfolding img_fits_def idx
  proof (intro conjI allI impI)
    show "0 \<le> data_start (roi_of m x0 y0 xn yn)" using win by (simp add: roi_of_def)
    show "img_columns (roi_of m x0 y0 xn yn) \<le> img_step (roi_of m x0 y0 xn yn)"
      using win by (simp add: roi_of_def W_def [symmetric])
    fix r c assume "r < img_rows (roi_of m x0 y0 xn yn)" "c < img_columns (roi_of m x0 y0 xn yn)"
    then have "nat y0 + r < H" "nat x0 + c < W" using win by (auto simp: roi_of_def)
    then show "(nat y0 + r) * W + (nat x0 + c) < length cells" unfolding cells(2) by (intro row_index_less)
  qed
  show ?thesis
  proof (intro exI conjI)
    show "dn_updateCosts junk8 junk x0 y0 xn yn m l =
      (let l1 = l\<lparr>no_information_is_obstacle := default_value m \<noteq> NO_INFORMATION\<rparr>;
           (res, lt) = denoise junk8 junk l1 (roi_of m x0 y0 xn yn) cells;
           l2 = l1\<lparr>label_trees := lt, dn_current := True\<rparr>
       in case res of
            Inr cells' \<Rightarrow> Some (m\<lparr>costmap := Some cells'\<rparr>, l2)
          | Inl e \<Rightarrow> if e = OutOfRange then None else Some (m, l2))"
      using assms(4-6)
      by (simp add: dn_updateCosts_def getDefaultValue_def cells step off roi_of_def W_def [symmetric] Let_def split_def)
        (simp only: nat_int)
  qed (use cells fits in auto)
qed

text \<open>An obstacle cell of the window, and its group there. Unknown cells are obstacles unless the map starts unknown.\<close>

definition is_obstacle :: "costmap2d \<Rightarrow> u8 \<Rightarrow> bool" where
  "is_obstacle m v \<longleftrightarrow> v = LETHAL_OBSTACLE \<or> v = INSCRIBED_INFLATED_OBSTACLE \<or>
     v = NO_INFORMATION \<and> default_value m \<noteq> NO_INFORMATION"

definition window_obstacles :: "costmap2d \<Rightarrow> int \<Rightarrow> int \<Rightarrow> int \<Rightarrow> int \<Rightarrow> pixel set" where
  "window_obstacles m x0 y0 xn yn =
    {(r, c). y0 \<le> r \<and> r < yn \<and> x0 \<le> c \<and> c < xn \<and> is_obstacle m (cell m (nat c) (nat r))}"

definition shift :: "int \<Rightarrow> int \<Rightarrow> pixel \<Rightarrow> pixel" where
  "shift dr dc p = (fst p + dr, snd p + dc)"

lemma shift_inj: "inj (shift dr dc)"
  by (auto simp: inj_def shift_def prod_eq_iff)

lemma adjacent_shift: "adjacent conn (shift dr dc p) (shift dr dc q) = adjacent conn p q"
  by (cases conn; cases p; cases q) (simp_all add: shift_def)

lemma links_shift:
  assumes "(p, q) \<in> (links (adjacent conn) F)\<^sup>*"
  shows "(shift dr dc p, shift dr dc q) \<in> (links (adjacent conn) (shift dr dc ` F))\<^sup>*"
  using assms
proof (induction rule: rtrancl_induct)
  case (step y z)
  have "(shift dr dc y, shift dr dc z) \<in> links (adjacent conn) (shift dr dc ` F)"
    using step.hyps(2) by (auto simp: links_def adjacent_shift)
  with step.IH show ?case by (rule rtrancl_into_rtrancl)
qed simp

lemma group_shift:
  "card (group_of (adjacent conn) (shift dr dc ` F) (shift dr dc p)) = card (group_of (adjacent conn) F p)"
proof -
  have undo: "shift (- dr) (- dc) (shift dr dc q) = q" for q by (simp add: shift_def)
  have img: "shift (- dr) (- dc) ` shift dr dc ` F = F" by (simp add: image_image undo)
  have "group_of (adjacent conn) (shift dr dc ` F) (shift dr dc p) = shift dr dc ` group_of (adjacent conn) F p"
  proof (intro equalityI subsetI)
    fix q assume "q \<in> group_of (adjacent conn) (shift dr dc ` F) (shift dr dc p)"
    then obtain q' where q: "q = shift dr dc q'" "q' \<in> F" "(shift dr dc p, q) \<in> (links (adjacent conn) (shift dr dc ` F))\<^sup>*"
      by (auto simp: group_of_def)
    from links_shift [OF q(3), of "- dr" "- dc"] have "(p, q') \<in> (links (adjacent conn) F)\<^sup>*"
      unfolding img q(1) undo .
    then show "q \<in> shift dr dc ` group_of (adjacent conn) F p" using q by (auto simp: group_of_def)
  next
    fix q assume "q \<in> shift dr dc ` group_of (adjacent conn) F p"
    then show "q \<in> group_of (adjacent conn) (shift dr dc ` F) (shift dr dc p)"
      using links_shift [of p _ conn F dr dc] by (auto simp: group_of_def)
  qed
  then show ?thesis using card_image [OF inj_on_subset [OF shift_inj]] by simp
qed

text \<open>The filter on the window, in the coordinates of the map.\<close>

definition cells_denoised ::
  "ConnectivityType \<Rightarrow> nat \<Rightarrow> int \<Rightarrow> int \<Rightarrow> int \<Rightarrow> int \<Rightarrow> costmap2d \<Rightarrow> costmap2d \<Rightarrow> bool" where
  "cells_denoised conn mgs x0 y0 xn yn m m' \<longleftrightarrow>
    (\<forall>x < unat (size_x m). \<forall>y < unat (size_y m). cell m' x y =
      (let obs = window_obstacles m x0 y0 xn yn; p = (int y, int x)
       in if p \<in> obs \<and> card (group_of (adjacent conn) obs p) < mgs then FREE_SPACE else cell m x y))"

lemma cells_denoised_roi:
  assumes "grid_ok m" "window_in m x0 y0 xn yn" "costmap m = Some cells" "img_fits (roi_of m x0 y0 xn yn) cells"
    and bg: "\<And>v. is_bg v \<longleftrightarrow> \<not> is_obstacle m v"
    and dn: "denoised conn mgs is_bg (roi_of m x0 y0 xn yn) cells cells'"
  shows "cells_denoised conn mgs x0 y0 xn yn m (m\<lparr>costmap := Some cells'\<rparr>)"
proof -
  define im where "im = roi_of m x0 y0 xn yn"
  define W where "W = unat (size_x m)"
  have win: "0 \<le> x0" "xn \<le> int W" "0 \<le> y0" "yn \<le> int (unat (size_y m))"
    using assms(2) by (simp_all add: window_in_def W_def)
  have idx: "img_index im r c = (nat y0 + r) * W + (nat x0 + c)" for r c
  proof -
    obtain a b where ab: "y0 = int a" "x0 = int b" using win zero_le_imp_eq_int by metis
    have "img_row im r + int c = int ((nat y0 + r) * W + (nat x0 + c))"
      by (simp add: img_row_def im_def roi_of_def W_def [symmetric] ab algebra_simps del: of_nat_unat)
    then show ?thesis unfolding img_index_def by (simp only: nat_int)
  qed
  have pix: "p \<in> pixels im \<longleftrightarrow> 0 \<le> fst p \<and> fst p < yn - y0 \<and> 0 \<le> snd p \<and> snd p < xn - x0" for p
    by (cases p) (auto simp: pixels_def im_def roi_of_def)
  have at: "pixel_at im cs p = cell (m\<lparr>costmap := Some cs\<rparr>) (nat (snd p + x0)) (nat (fst p + y0))"
    if "p \<in> pixels im" for p cs
    using that pix [of p] win
    by (simp add: pixel_at_def idx cell_def W_def nat_add_distrib algebra_simps)
  have mm: "m\<lparr>costmap := Some cells\<rparr> = m" using assms(3) by simp
  define F where "F = obstacles is_bg im cells"
  have obs: "window_obstacles m x0 y0 xn yn = shift y0 x0 ` F"
  proof (intro equalityI subsetI)
    fix p assume "p \<in> window_obstacles m x0 y0 xn yn"
    then have p: "y0 \<le> fst p" "fst p < yn" "x0 \<le> snd p" "snd p < xn" "is_obstacle m (cell m (nat (snd p)) (nat (fst p)))"
      by (auto simp: window_obstacles_def)
    define q where "q = (fst p - y0, snd p - x0)"
    have q: "q \<in> pixels im" "p = shift y0 x0 q" using p by (simp_all add: q_def pix shift_def)
    moreover have "pixel_at im cells q = cell m (nat (snd p)) (nat (fst p))"
      using at [OF q(1), of cells] unfolding mm by (simp add: q_def)
    then have "\<not> is_bg (pixel_at im cells q)" using p(5) bg by simp
    ultimately show "p \<in> shift y0 x0 ` F" by (simp add: F_def obstacles_def)
  next
    fix p assume "p \<in> shift y0 x0 ` F"
    then obtain q where q: "p = shift y0 x0 q" "q \<in> pixels im" "\<not> is_bg (pixel_at im cells q)"
      by (auto simp: F_def obstacles_def)
    then show "p \<in> window_obstacles m x0 y0 xn yn"
      using pix [of q] at [OF q(2), of cells] by (simp add: window_obstacles_def shift_def mm bg)
  qed
  show ?thesis
    unfolding cells_denoised_def Let_def
  proof (intro allI impI)
    fix x y assume xy: "x < unat (size_x m)" "y < unat (size_y m)"
    define q where "q = (int y - y0, int x - x0)"
    have sq: "shift y0 x0 q = (int y, int x)" by (simp add: q_def shift_def)
    show "cell (m\<lparr>costmap := Some cells'\<rparr>) x y =
      (if (int y, int x) \<in> window_obstacles m x0 y0 xn yn \<and>
          card (group_of (adjacent conn) (window_obstacles m x0 y0 xn yn) (int y, int x)) < mgs
       then FREE_SPACE else cell m x y)"
    proof (cases "q \<in> pixels im")
      case True
      have cellq: "pixel_at im cs q = cell (m\<lparr>costmap := Some cs\<rparr>) x y" for cs
        using at [OF True, of cs] by (simp add: q_def)
      have "q \<in> F \<longleftrightarrow> (int y, int x) \<in> window_obstacles m x0 y0 xn yn"
        unfolding obs sq [symmetric] using inj_image_mem_iff [OF shift_inj, of y0 x0 q F] by simp
      moreover have "card (group_of (adjacent conn) (window_obstacles m x0 y0 xn yn) (int y, int x)) =
          card (group_of (adjacent conn) F q)"
        unfolding obs sq [symmetric] by (rule group_shift)
      moreover have "pixel_at im cells' q =
          (if q \<in> F \<and> card (group_of (adjacent conn) F q) < mgs then 0 else pixel_at im cells q)"
        using dn True by (simp add: denoised_def im_def F_def)
      ultimately show ?thesis by (simp add: cellq mm)
    next
      case False
      have "y * W + x \<noteq> img_index im r c" if "r < img_rows im" "c < img_columns im" for r c
      proof
        assume eq: "y * W + x = img_index im r c"
        have "nat x0 + c < W" using that win by (auto simp: im_def roi_of_def)
        then have "y = nat y0 + r" "x = nat x0 + c"
          using row_index_eq [of x W "nat x0 + c" y "nat y0 + r"] xy(1) eq by (simp_all add: idx W_def)
        then have "q = (int r, int c)" using win by (simp add: q_def)
        then show False using False that by (simp add: pixels_def)
      qed
      then have "cells' ! (y * W + x) = cells ! (y * W + x)" using dn by (simp add: denoised_def im_def)
      moreover have "(int y, int x) \<notin> window_obstacles m x0 y0 xn yn"
        using False by (auto simp: window_obstacles_def pix q_def)
      ultimately show ?thesis using assms(3) by (simp add: cell_def W_def)
    qed
  qed
qed

lemma isBackground_obstacle:
  "isBackground (l\<lparr>no_information_is_obstacle := default_value m \<noteq> NO_INFORMATION\<rparr>) v \<longleftrightarrow> \<not> is_obstacle m v"
  by (auto simp: isBackground_def is_obstacle_def)

lemma cells_denoised_empty: "xn \<le> x0 \<or> yn \<le> y0 \<Longrightarrow> cells_denoised conn mgs x0 y0 xn yn m m"
  by (auto simp: cells_denoised_def window_obstacles_def Let_def)

lemma roi_dims:
  assumes "x0 < xn" "y0 < yn"
  shows "0 < img_rows (roi_of m x0 y0 xn yn)" "0 < img_columns (roi_of m x0 y0 xn yn)"
  using assms by (simp_all add: roi_of_def)

lemma dn_updateCosts_cells:
  assumes "grid_ok m" "small_grid m" "window_in m x0 y0 xn yn" "dn_enabled l"
  shows "dn_updateCosts junk8 junk x0 y0 xn yn m l = Some (m, l) \<and> (xn \<le> x0 \<or> yn \<le> y0) \<or>
    (\<exists>l'. dn_updateCosts junk8 junk x0 y0 xn yn m l = Some (m, l') \<and> group_connectivity_type l = Way8 \<and>
      2 < minimal_group_size l \<and> (xn - x0 = 1 \<or> yn - y0 = 1) \<and> dn_enabled l' = dn_enabled l) \<or>
    (\<exists>m' l'. dn_updateCosts junk8 junk x0 y0 xn yn m l = Some (m', l') \<and> map_ok m' \<and> alike m m' \<and>
      dn_enabled l' = dn_enabled l \<and> dn_current l' \<and>
      cells_denoised (group_connectivity_type l) (minimal_group_size l) x0 y0 xn yn m m')"
proof (cases "xn \<le> x0 \<or> yn \<le> y0")
  case True
  then show ?thesis using assms(4) by (auto simp: dn_updateCosts_def)
next
  case False
  then have lt: "x0 < xn" "y0 < yn" by auto
  obtain cells where c: "costmap m = Some cells" "img_fits (roi_of m x0 y0 xn yn) cells"
    "dn_updateCosts junk8 junk x0 y0 xn yn m l =
      (let l1 = l\<lparr>no_information_is_obstacle := default_value m \<noteq> NO_INFORMATION\<rparr>;
           (res, lt) = denoise junk8 junk l1 (roi_of m x0 y0 xn yn) cells;
           l2 = l1\<lparr>label_trees := lt, dn_current := True\<rparr>
       in case res of
            Inr cells' \<Rightarrow> Some (m\<lparr>costmap := Some cells'\<rparr>, l2)
          | Inl e \<Rightarrow> if e = OutOfRange then None else Some (m, l2))"
    using dn_updateCosts_roi [OF assms lt] by blast
  define l1 where "l1 = l\<lparr>no_information_is_obstacle := default_value m \<noteq> NO_INFORMATION\<rparr>"
  have l1: "minimal_group_size l1 = minimal_group_size l" "group_connectivity_type l1 = group_connectivity_type l"
    by (simp_all add: l1_def)
  have bg: "isBackground l1 v \<longleftrightarrow> \<not> is_obstacle m v" for v unfolding l1_def by (rule isBackground_obstacle)
  have good: ?thesis if "denoise junk8 junk l1 (roi_of m x0 y0 xn yn) cells = (Inr cells', lt')"
      "denoised (group_connectivity_type l1) (minimal_group_size l1) (isBackground l1) (roi_of m x0 y0 xn yn) cells cells'"
    for cells' lt'
  proof -
    have "length cells' = length cells" using that(2) by (simp add: denoised_def)
    then have "map_ok (m\<lparr>costmap := Some cells'\<rparr>)" using grid_okD(1) [OF assms(1)] c(1) by (simp add: map_ok_def)
    moreover have "alike m (m\<lparr>costmap := Some cells'\<rparr>)" by (simp add: alike_def)
    moreover have "cells_denoised (group_connectivity_type l) (minimal_group_size l) x0 y0 xn yn m (m\<lparr>costmap := Some cells'\<rparr>)"
      using cells_denoised_roi [OF assms(1,3) c(1,2) bg that(2)] by (simp add: l1)
    moreover have "dn_updateCosts junk8 junk x0 y0 xn yn m l = Some (m\<lparr>costmap := Some cells'\<rparr>, l1\<lparr>label_trees := lt', dn_current := True\<rparr>)"
      using c(3) that(1) by (simp add: l1_def [symmetric] Let_def)
    moreover have "dn_enabled (l1\<lparr>label_trees := lt', dn_current := True\<rparr>) = dn_enabled l" by (simp add: l1_def)
    ultimately show ?thesis
      by (intro disjI2 exI [of _ "m\<lparr>costmap := Some cells'\<rparr>"] exI [of _ "l1\<lparr>label_trees := lt', dn_current := True\<rparr>"]) simp
  qed
  show ?thesis
  proof (cases "group_connectivity_type l = Way4 \<or> minimal_group_size l \<le> 2 \<or> 2 \<le> xn - x0 \<and> 2 \<le> yn - y0")
    case True
    have win: "0 \<le> x0" "xn \<le> int (unat (size_x m))" "0 \<le> y0" "yn \<le> int (unat (size_y m))"
      using assms(3) by (simp_all add: window_in_def)
    have "nat (yn - y0) * nat (xn - x0) \<le> unat (size_y m) * unat (size_x m)"
      using win lt by (intro mult_le_mono) linarith+
    also have "\<dots> < 2 ^ 31" using assms(2) by (simp add: small_grid_def mult.commute)
    finally have "img_rows (roi_of m x0 y0 xn yn) * img_columns (roi_of m x0 y0 xn yn) + 2 < 2 ^ 32"
      by (simp add: roi_of_def)
    note small = this
    have "group_connectivity_type l1 = Way4 \<or> minimal_group_size l1 \<le> 2 \<or>
      2 \<le> img_rows (roi_of m x0 y0 xn yn) \<and> 2 \<le> img_columns (roi_of m x0 y0 xn yn)"
      using True by (auto simp: l1 roi_of_def)
    from denoise_correct [OF c(2) roi_dims [OF lt] small this, of junk8 junk] show ?thesis using good by blast
  next
    case False
    from denoise_safe [OF c(2) roi_dims(1) roi_dims(2), of junk8 junk l1] lt
    obtain lt' where "denoise junk8 junk l1 (roi_of m x0 y0 xn yn) cells = (Inl LabelOverflow, lt') \<or>
      (\<exists>cells'. denoise junk8 junk l1 (roi_of m x0 y0 xn yn) cells = (Inr cells', lt') \<and>
        denoised (group_connectivity_type l1) (minimal_group_size l1) (isBackground l1) (roi_of m x0 y0 xn yn) cells cells')"
      by blast
    then show ?thesis
    proof
      assume "denoise junk8 junk l1 (roi_of m x0 y0 xn yn) cells = (Inl LabelOverflow, lt')"
      then have "dn_updateCosts junk8 junk x0 y0 xn yn m l = Some (m, l1\<lparr>label_trees := lt', dn_current := True\<rparr>)"
        using c(3) by (simp add: l1_def [symmetric] Let_def)
      moreover have "group_connectivity_type l = Way8" using False by (cases "group_connectivity_type l") auto
      moreover have "xn - x0 = 1 \<or> yn - y0 = 1" using False lt by linarith
      moreover have "dn_enabled (l1\<lparr>label_trees := lt', dn_current := True\<rparr>) = dn_enabled l" by (simp add: l1_def)
      ultimately show ?thesis
        using False by (intro disjI2 disjI1 exI [of _ "l1\<lparr>label_trees := lt', dn_current := True\<rparr>"]) simp
    qed (use good in blast)
  qed
qed


definition dots_map :: costmap2d where
  "dots_map = \<lparr>size_x = 4, size_y = 2, resolution = 1, origin_x = 0, origin_y = 0,
     costmap = Some [254, 0, 254, 0, 0, 0, 0, 253], default_value = 0\<rparr>"

definition dots_layer :: DenoiseLayer where
  "dots_layer = dn_onInitialize True 2 8 \<lparr>dn_enabled = False, dn_current = False, minimal_group_size = 0,
     group_connectivity_type = Way4, no_information_is_obstacle = False, label_trees = Uint16\<rparr>"



section \<open>A layer of the stack\<close>

definition dn_layer_at :: "(nat \<Rightarrow> u8) \<Rightarrow> (label_type \<Rightarrow> nat \<Rightarrow> nat) \<Rightarrow> nat \<Rightarrow> DenoiseLayer list Layer" where
  "dn_layer_at junk8 junk i =
    \<lparr>updateBounds = (\<lambda>_ _ _ b m. Some (b, m)),
     updateCosts = (\<lambda>x0 y0 xn yn m w.
       if i < length w then map_option (\<lambda>(m', l'). (m', w[i := l'])) (dn_updateCosts junk8 junk x0 y0 xn yn m (w ! i)) else None),
     layer_matchSize = (\<lambda>m w. Some w),
     layer_isCurrent = (\<lambda>w. dn_current (w ! i)),
     layer_isEnabled = (\<lambda>w. dn_enabled (w ! i)),
     layer_setCurrent = (\<lambda>c w. w[i := (w ! i)\<lparr>dn_current := c\<rparr>]),
     onFootprintChanged = (\<lambda>_ _ w. Some w)\<rparr>"

definition denoisable :: "nat \<Rightarrow> costmap2d \<Rightarrow> DenoiseLayer list \<Rightarrow> bool" where
  "denoisable n m w \<longleftrightarrow> length w = n \<and> small_grid m"

lemma dn_updateCosts_contract:
  assumes "grid_ok m" "small_grid m" "window_in m x0 y0 xn yn"
  shows "\<exists>m' l'. dn_updateCosts junk8 junk x0 y0 xn yn m l = Some (m', l') \<and> map_ok m' \<and> alike m m' \<and>
    agree_outside x0 y0 xn yn m m'"
proof -
  have ok: "map_ok m" by (rule grid_okD(1) [OF assms(1)])
  have same: "agree_outside x0 y0 xn yn m m" by (simp add: agree_outside_def)
  show ?thesis
  proof (cases "dn_enabled l")
    case True
    have "agree_outside x0 y0 xn yn m m'" if "cells_denoised conn mgs x0 y0 xn yn m m'" for m' conn mgs
      using that by (auto simp: cells_denoised_def agree_outside_def window_obstacles_def inside_def Let_def)
    then show ?thesis using dn_updateCosts_cells [OF assms True, of junk8 junk] ok same by (metis alike_refl)
  next
    case False
    then show ?thesis using ok same by (simp add: dn_updateCosts_def)
  qed
qed

lemma dn_window_layer:
  assumes "i < n"
  shows "window_layer (dn_layer_at junk8 junk i) (denoisable n)"
proof
  fix m m' w
  assume "denoisable n m w" "alike m m'"
  then show "denoisable n m' w" by (simp add: denoisable_def alike_def small_grid_def)
next
  fix mw :: "DenoiseLayer list lc_maps" and x y yaw b
  assume "denoisable n (combined mw) (layers_state mw)"
  then show "\<exists>b' w'. updateBounds (dn_layer_at junk8 junk i) x y yaw b mw = Some (b', mw\<lparr>layers_state := w'\<rparr>) \<and>
      covers b b' \<and> denoisable n (combined mw) w'"
    by (intro exI [of _ b] exI [of _ "layers_state mw"]) (simp add: dn_layer_at_def)
next
  fix m w x0 y0 xn yn
  assume a: "grid_ok m" "denoisable n m w" "window_in m x0 y0 xn yn"
  obtain m' l' where "dn_updateCosts junk8 junk x0 y0 xn yn m (w ! i) = Some (m', l')" "map_ok m'" "alike m m'"
    "agree_outside x0 y0 xn yn m m'"
    using dn_updateCosts_contract [OF a(1) _ a(3), of junk8 junk "w ! i"] a(2) unfolding denoisable_def by blast
  then show "\<exists>m' w'. updateCosts (dn_layer_at junk8 junk i) x0 y0 xn yn m w = Some (m', w') \<and> map_ok m' \<and>
      alike m m' \<and> denoisable n m w' \<and> agree_outside x0 y0 xn yn m m'"
    using a(2) assms by (auto simp: dn_layer_at_def denoisable_def)
next
  fix m w c
  assume "denoisable n m w"
  then show "denoisable n m (layer_setCurrent (dn_layer_at junk8 junk i) c w)"
    by (simp add: dn_layer_at_def denoisable_def)
qed

interpretation dn: window_layer "dn_layer_at junk8 junk i" "denoisable (Suc (i + k))" for junk8 junk i k
  by (rule dn_window_layer) simp

section \<open>A window of one row\<close>

text \<open>
  In a window of one row every second cell may be an obstacle of its own, which needs more labels than the third of
  the cells \<open>maxLabels\<close> counts. Neither label type helps; the error is logged and the noise stays.
\<close>

definition line_map :: costmap2d where
  "line_map = \<lparr>size_x = 5, size_y = 1, resolution = 1, origin_x = 0, origin_y = 0,
     costmap = Some [254, 0, 254, 0, 254], default_value = 0\<rparr>"

lemma one_row_scan:
  "scan_first_row Way8 (isBackground l) [254, 0, 254, 0, 254]
    \<lparr>data_start = 0, img_rows = 1, img_columns = 5, img_step = 5\<rparr>
    \<lparr>data_start = 0, img_rows = 1, img_columns = 5, img_step = 5\<rparr>
    ([a, b, c, d, e], \<lparr>labels_vec = [0], labels_size = 3, next_free = 1\<rparr>) = Inl LabelOverflow"
proof -
  have cols: "[0..<img_columns \<lparr>data_start = 0, img_rows = 1, img_columns = 5, img_step = 5\<rparr>] = [0, 1, 2, 3, 4]"
    by (simp add: eval_nat_numeral)
  note eval = pass_way8_def set_label_def copy_label_def new_label_def win_a_def win_b_def win_c_def win_d_def win_e_def
    border_up_def border_down_def in_row_def img_row_def read_at_def write_at_def makeLabel_def makeSafeWindow_def
    isBackground_def
  show ?thesis unfolding scan_first_row_def cols by (simp add: eval)
qed

lemma one_row_overflow:
  "removeGroups junk Way8 mgs (isBackground l) \<lparr>data_start = 0, img_rows = 1, img_columns = 5, img_step = 5\<rparr>
    [254, 0, 254, 0, 254] lt = (Inl LabelOverflow, Uint32)"
proof -
  have "removeGroupsImpl (label_max ty) (junk ty) Way8 mgs (isBackground l)
    \<lparr>data_start = 0, img_rows = 1, img_columns = 5, img_step = 5\<rparr> [254, 0, 254, 0, 254] = Inl LabelOverflow" for ty
  proof -
    have "reset_trees (label_max ty) 1 5 Way8 = \<lparr>labels_vec = [0], labels_size = 3, next_free = 1\<rparr>"
      by (cases ty) (simp_all add: reset_trees_def maxLabels_def)
    moreover have "map (junk ty) [0..<5] = [junk ty 0, junk ty 1, junk ty 2, junk ty 3, junk ty 4]"
      by (simp add: eval_nat_numeral)
    ultimately show ?thesis
      using one_row_scan [of l]
      by (simp add: removeGroupsImpl_def connectedComponents_def connectedComponentsImpl_def Let_def)
  qed
  then show ?thesis by (simp add: removeGroups_def Let_def)
qed

lemma line_map_ok: "grid_ok line_map" "small_grid line_map" "window_in line_map 0 0 5 1"
  by (simp_all add: grid_ok_def map_ok_def small_grid_def window_in_def line_map_def)

lemma line_map_keeps_noise:
  "\<exists>l'. dn_updateCosts junk8 junk 0 0 5 1 line_map (dots_layer\<lparr>minimal_group_size := 3\<rparr>) = Some (line_map, l')"
proof -
  have "denoise junk8 junk (dots_layer\<lparr>minimal_group_size := 3, no_information_is_obstacle := True\<rparr>)
    \<lparr>data_start = 0, img_rows = 1, img_columns = 5, img_step = 5\<rparr> [254, 0, 254, 0, 254] = (Inl LabelOverflow, Uint32)"
    using one_row_overflow by (simp add: denoise_def img_empty_def dots_layer_def dn_onInitialize_def)
  then show ?thesis
    by (simp add: dn_updateCosts_def line_map_def getDefaultValue_def i32_def fits_i32_def dots_layer_def dn_onInitialize_def)
qed


text \<open>
  After two labels were united the vector of final labels is shorter than the labels in the image: label 2 is looked up
  in a vector of size 2.
\<close>

lemma label_behind_the_end:
  "snd (unionTrees 2 1 \<lparr>labels_vec = [0, 1, 2], labels_size = 4, next_free = 3\<rparr>) =
    \<lparr>labels_vec = [0, 1, 1], labels_size = 4, next_free = 3\<rparr>"
  "getLabels \<lparr>labels_vec = [0, 1, 1], labels_size = 4, next_free = 3\<rparr> = ([0, 1, 1], 2)"
  by (simp_all add: unionTrees_def findRoot.simps setRoot.simps getLabels_def flatten_step_def Let_def eval_nat_numeral)

end
