(* ===== verification/Inflation_Wave.thy ===== *)
theory Inflation_Wave
  imports Nav2_Prelude
begin

text \<open>
  The wave of the inflation layer, apart from its arrays: cells are reached one after the other, each with the obstacle
  (its source) it was reached from, in the order of their distances. A cell hands its source on to its four neighbours.
  The result is that a neighbour that lies closer to the source than the cell itself was always reached before, so that the
  wave never has to go back to a smaller distance.
\<close>

type_synonym place = "int \<times> int"

definition dist2 :: "place \<Rightarrow> place \<Rightarrow> int" where
  "dist2 p s = (fst p - fst s)\<^sup>2 + (snd p - snd s)\<^sup>2"

definition beside :: "place \<Rightarrow> place \<Rightarrow> bool" where
  "beside p q \<longleftrightarrow> \<bar>fst p - fst q\<bar> + \<bar>snd p - snd q\<bar> = 1"

lemma beside_sym: "beside p q \<Longrightarrow> beside q p"
  by (simp add: beside_def abs_minus_commute)

lemma beside_cases:
  assumes "beside p q"
  obtains "q = (fst p - 1, snd p)" | "q = (fst p + 1, snd p)" | "q = (fst p, snd p - 1)" | "q = (fst p, snd p + 1)"
  using assms unfolding beside_def by (cases q) (simp, linarith)

lemma dist2_nonneg [simp]: "0 \<le> dist2 p s"
  by (simp add: dist2_def)

lemma dist2_self [simp]: "dist2 p p = 0"
  by (simp add: dist2_def)

lemma dist2_eq_0: "dist2 p s = 0 \<longleftrightarrow> p = s"
  by (auto simp: dist2_def prod_eq_iff sum_power2_eq_zero_iff)

text \<open>A step changes the squared distance by an odd number.\<close>

lemma dist2_beside_neq: "beside p q \<Longrightarrow> dist2 q s \<noteq> dist2 p s"
proof -
  have odd: "x\<^sup>2 \<noteq> (x + 1)\<^sup>2" for x :: int
  proof
    assume "x\<^sup>2 = (x + 1)\<^sup>2"
    then have "2 * x + 1 = 0" by (simp add: power2_eq_square algebra_simps)
    then show False by presburger
  qed
  assume "beside p q"
  then show ?thesis
  proof (cases rule: beside_cases)
    case 1
    then show ?thesis using odd [of "fst q - fst s"] by (simp add: dist2_def algebra_simps)
  next
    case 2
    then show ?thesis using odd [of "fst p - fst s"] by (simp add: dist2_def algebra_simps)
  next
    case 3
    then show ?thesis using odd [of "snd q - snd s"] by (simp add: dist2_def algebra_simps)
  next
    case 4
    then show ?thesis using odd [of "snd p - snd s"] by (simp add: dist2_def algebra_simps)
  qed
qed

section \<open>The history of a wave\<close>

text \<open>The latest cell comes first. \<open>Obs\<close> are the obstacles, \<open>r2\<close> is the squared radius.\<close>

definition reached :: "(place \<times> place) list \<Rightarrow> place \<Rightarrow> bool" where
  "reached H p \<longleftrightarrow> p \<in> fst ` set H"

lemma reached_iff: "reached H p \<longleftrightarrow> (\<exists>s. (p, s) \<in> set H)"
  by (force simp: reached_def)

fun wave :: "place set \<Rightarrow> int \<Rightarrow> (place \<times> place) list \<Rightarrow> bool" where
  "wave Obs r2 [] \<longleftrightarrow> True"
| "wave Obs r2 ((p, s) # H) \<longleftrightarrow> wave Obs r2 H \<and> \<not> reached H p \<and> s \<in> Obs \<and> dist2 p s \<le> r2 \<and>
    (\<forall>(x, t)\<in>set H. dist2 x t \<le> dist2 p s) \<and>
    (\<forall>(x, t)\<in>set H. beside x p \<longrightarrow> dist2 p s \<le> dist2 p t) \<and>
    (\<forall>q. beside q p \<and> dist2 q s < dist2 p s \<longrightarrow> (\<exists>t. (q, t) \<in> set H \<and> dist2 q t \<le> dist2 q s))"

lemma wave_sound: "wave Obs r2 H \<Longrightarrow> (p, s) \<in> set H \<Longrightarrow> s \<in> Obs \<and> dist2 p s \<le> r2"
  by (induction Obs r2 H rule: wave.induct) auto

lemma wave_source_unique: "wave Obs r2 H \<Longrightarrow> (p, s) \<in> set H \<Longrightarrow> (p, t) \<in> set H \<Longrightarrow> s = t"
proof (induction Obs r2 H rule: wave.induct)
  case (2 Obs r2 x y H)
  have "(x, t) \<notin> set H" for t using "2.prems"(1) unfolding wave.simps reached_iff by blast
  then show ?case using "2.IH" "2.prems" unfolding wave.simps by (metis prod.inject set_ConsD)
qed simp

text \<open>What was known when a cell was reached.\<close>

lemma wave_closer:
  assumes "wave Obs r2 H" "(p, s) \<in> set H" "beside q p" "dist2 q s < dist2 p s"
  shows "\<exists>t. (q, t) \<in> set H \<and> dist2 q t \<le> dist2 q s \<and> dist2 p s \<le> dist2 p t"
  using assms
proof (induction Obs r2 H rule: wave.induct)
  case (2 Obs r2 p' s' H)
  show ?case
  proof (cases "(p, s) = (p', s')")
    case True
    then have "\<exists>t. (q, t) \<in> set H \<and> dist2 q t \<le> dist2 q s" using "2.prems" unfolding wave.simps prod.inject by blast
    then obtain t where t: "(q, t) \<in> set H" "dist2 q t \<le> dist2 q s" by (elim exE conjE)
    then have "dist2 p s \<le> dist2 p t" using "2.prems"(1,3) True by auto
    then show ?thesis using t by (intro exI [of _ t]) simp
  next
    case False
    then have "(p, s) \<in> set H" "wave Obs r2 H" using "2.prems" by auto
    from "2.IH" [OF this(2,1) "2.prems"(3,4)] show ?thesis by (metis list.set_intros(2))
  qed
qed simp

lemma wave_neighbour:
  assumes "wave Obs r2 H" "(p, s) \<in> set H" "(q, t) \<in> set H" "beside p q"
  shows "dist2 q t \<le> max (dist2 q s) (dist2 p s)"
  using assms
proof (induction Obs r2 H rule: wave.induct)
  case (2 Obs r2 p' s' H)
  have "\<not> beside p' p'" by (simp add: beside_def)
  then consider "(p, s) = (p', s')" "(q, t) \<in> set H" | "(q, t) = (p', s')" "(p, s) \<in> set H" | "(p, s) \<in> set H" "(q, t) \<in> set H"
    using 2 by auto
  then show ?case
  proof cases
    case 1
    then have "dist2 q t \<le> dist2 p s" using "2.prems"(1) by auto
    then show ?thesis by simp
  next
    case 2
    then have "dist2 q t \<le> dist2 q s" using "2.prems"(1,4) by auto
    then show ?thesis by simp
  next
    case 3
    then show ?thesis using "2.IH" "2.prems" by auto
  qed
qed simp

section \<open>The wave never turns back\<close>

lemma opposite_side:
  fixes U V A B :: int
  assumes "U\<^sup>2 + V\<^sup>2 \<le> A\<^sup>2 + B\<^sup>2" "V \<le> B" "B \<le> 0" "A \<le> 0"
  shows "A \<le> U"
proof -
  have "B\<^sup>2 \<le> V\<^sup>2" using assms(2,3) by (simp add: abs_le_square_iff [symmetric])
  then have "U\<^sup>2 \<le> A\<^sup>2" using assms(1) by simp
  then show ?thesis using assms(4) by (simp add: abs_le_square_iff [symmetric])
qed

text \<open>
  The four corners of a square: \<open>p\<close> was handed to by \<open>p'\<close> and \<open>q\<close> is the other neighbour closer to the source \<open>s\<close>; the
  fourth corner \<open>c\<close> was reached from \<open>t\<close>, at most as far away as \<open>s\<close>, while \<open>p'\<close> preferred \<open>s\<close>. Then \<open>q\<close> is at most as
  far from \<open>t\<close> as from \<open>s\<close>.
\<close>

lemma corner:
  assumes u: "beside p p'" "dist2 p' s < dist2 p s" and v: "beside p q" "dist2 q s < dist2 p s" and "p' \<noteq> q"
    and c: "c = (fst p' + fst q - fst p, snd p' + snd q - snd p)"
    and t: "dist2 c t \<le> dist2 c s" "dist2 p' s \<le> dist2 p' t"
  shows "dist2 q t \<le> dist2 q s"
proof -
  define X where "X = fst c - fst t"
  define Y where "Y = snd c - snd t"
  define a where "a = fst p - fst s"
  define b where "b = snd p - snd s"
  have goalX: ?thesis if p': "p' = (fst p + i, snd p)" and q: "q = (fst p, snd p + j)" and ij: "i = 1 \<or> i = - 1" "j = 1 \<or> j = - 1"
    for i j :: int
  proof -
    have i2: "i * i = 1" "j * j = 1" using ij by auto
    have c': "c = (fst p + i, snd p + j)" using c p' q by simp
    have 1: "2 * (i * a) + 1 < 0" using u(2) i2 by (simp add: dist2_def p' power2_eq_square a_def algebra_simps)
    have 2: "2 * (j * b) + 1 < 0" using v(2) i2 by (simp add: dist2_def q power2_eq_square b_def algebra_simps)
    have 3: "X\<^sup>2 + Y\<^sup>2 \<le> (a + i)\<^sup>2 + (b + j)\<^sup>2" using t(1) by (simp add: dist2_def c' X_def Y_def a_def b_def algebra_simps)
    have 4: "(a + i)\<^sup>2 + b\<^sup>2 \<le> X\<^sup>2 + (Y - j)\<^sup>2"
      using t(2) by (simp add: dist2_def p' c' X_def Y_def a_def b_def algebra_simps)
    have sq: "(i * x)\<^sup>2 = x\<^sup>2" "(j * x)\<^sup>2 = x\<^sup>2" for x using ij by auto
    have "j * Y \<le> j * b + 1"
      using 3 4 i2 by (simp add: power2_eq_square algebra_simps)
    moreover have "(i * X)\<^sup>2 + (j * Y)\<^sup>2 \<le> (i * a + 1)\<^sup>2 + (j * b + 1)\<^sup>2"
    proof -
      have "i * a + 1 = i * (a + i)" "j * b + 1 = j * (b + j)" using i2 by (simp_all add: algebra_simps)
      then show ?thesis using 3 by (simp only: sq)
    qed
    ultimately have "i * a + 1 \<le> i * X" using 1 2 by (intro opposite_side [of "i * X" "j * Y" "i * a + 1" "j * b + 1"]) auto
    then have "(X - i)\<^sup>2 + Y\<^sup>2 \<le> a\<^sup>2 + (b + j)\<^sup>2"
      using 3 i2 by (simp add: power2_eq_square algebra_simps)
    then show ?thesis by (simp add: dist2_def q c' X_def Y_def a_def b_def algebra_simps)
  qed
  have goalY: ?thesis if p': "p' = (fst p, snd p + j)" and q: "q = (fst p + i, snd p)" and ij: "i = 1 \<or> i = - 1" "j = 1 \<or> j = - 1"
    for i j :: int
  proof -
    have i2: "i * i = 1" "j * j = 1" using ij by auto
    have c': "c = (fst p + i, snd p + j)" using c p' q by simp
    have 1: "2 * (j * b) + 1 < 0" using u(2) i2 by (simp add: dist2_def p' power2_eq_square b_def algebra_simps)
    have 2: "2 * (i * a) + 1 < 0" using v(2) i2 by (simp add: dist2_def q power2_eq_square a_def algebra_simps)
    have 3: "Y\<^sup>2 + X\<^sup>2 \<le> (b + j)\<^sup>2 + (a + i)\<^sup>2" using t(1) by (simp add: dist2_def c' X_def Y_def a_def b_def algebra_simps)
    have 4: "a\<^sup>2 + (b + j)\<^sup>2 \<le> (X - i)\<^sup>2 + Y\<^sup>2"
      using t(2) by (simp add: dist2_def p' c' X_def Y_def a_def b_def algebra_simps)
    have sq: "(i * x)\<^sup>2 = x\<^sup>2" "(j * x)\<^sup>2 = x\<^sup>2" for x using ij by auto
    have "i * X \<le> i * a + 1"
      using 3 4 i2 by (simp add: power2_eq_square algebra_simps)
    moreover have "(j * Y)\<^sup>2 + (i * X)\<^sup>2 \<le> (j * b + 1)\<^sup>2 + (i * a + 1)\<^sup>2"
    proof -
      have "i * a + 1 = i * (a + i)" "j * b + 1 = j * (b + j)" using i2 by (simp_all add: algebra_simps)
      then show ?thesis using 3 by (simp only: sq)
    qed
    ultimately have "j * b + 1 \<le> j * Y" using 1 2 by (intro opposite_side [of "j * Y" "i * X" "j * b + 1" "i * a + 1"]) auto
    then have "X\<^sup>2 + (Y - j)\<^sup>2 \<le> (a + i)\<^sup>2 + b\<^sup>2"
      using 3 i2 by (simp add: power2_eq_square algebra_simps)
    then show ?thesis by (simp add: dist2_def q c' X_def Y_def a_def b_def algebra_simps)
  qed
  have not_both: "\<not> (dist2 (fst p + 1, snd p) s < dist2 p s \<and> dist2 (fst p - 1, snd p) s < dist2 p s)"
    "\<not> (dist2 (fst p, snd p + 1) s < dist2 p s \<and> dist2 (fst p, snd p - 1) s < dist2 p s)"
    by (auto simp: dist2_def power2_eq_square algebra_simps)
  from u(1) v(1) show ?thesis
    by (elim beside_cases)
      (use goalX [of "- 1" "- 1"] goalX [of "- 1" 1] goalX [of 1 "- 1"] goalX [of 1 1]
        goalY [of "- 1" "- 1"] goalY [of "- 1" 1] goalY [of 1 "- 1"] goalY [of 1 1] not_both u(2) v(2) assms(5) in auto)
qed

lemma corner_closer:
  assumes u: "beside p p'" "dist2 p' s < dist2 p s" and v: "beside p q" "dist2 q s < dist2 p s" and "p' \<noteq> q"
    and c: "c = (fst p' + fst q - fst p, snd p' + snd q - snd p)"
  shows "beside c p'" "beside c q" "dist2 c s = dist2 p' s + dist2 q s - dist2 p s"
proof -
  have not_both: "\<not> (dist2 (fst p + 1, snd p) s < dist2 p s \<and> dist2 (fst p - 1, snd p) s < dist2 p s)"
    "\<not> (dist2 (fst p, snd p + 1) s < dist2 p s \<and> dist2 (fst p, snd p - 1) s < dist2 p s)"
    by (auto simp: dist2_def power2_eq_square algebra_simps)
  have split: "fst p' = fst p \<and> snd q = snd p \<or> snd p' = snd p \<and> fst q = fst p"
    using u(1) v(1) by (elim beside_cases) (use not_both u(2) v(2) assms(5) in auto)
  show "beside c p'" using v(1) by (simp add: c beside_def abs_minus_commute)
  show "beside c q" using u(1) by (simp add: c beside_def abs_minus_commute)
  from split show "dist2 c s = dist2 p' s + dist2 q s - dist2 p s" by (auto simp: c dist2_def)
qed

definition on_grid :: "nat \<Rightarrow> nat \<Rightarrow> place \<Rightarrow> bool" where
  "on_grid w h p \<longleftrightarrow> 0 \<le> fst p \<and> fst p < int w \<and> 0 \<le> snd p \<and> snd p < int h"

lemma closer_on_grid:
  assumes "on_grid w h p" "on_grid w h s" "beside q p" "dist2 q s < dist2 p s"
  shows "on_grid w h q"
proof -
  have "beside p q" using assms(3) by (rule beside_sym)
  then show ?thesis
    by (cases rule: beside_cases) (use assms in \<open>auto simp: on_grid_def dist2_def power2_eq_square algebra_simps\<close>)
qed

lemma wave_step:
  assumes W: "wave Obs r2 H" "\<not> reached H p" "s \<in> Obs" "dist2 p s \<le> r2"
    and entry: "p = s \<or> (\<exists>x. (x, s) \<in> set H \<and> beside x p)"
    and mono: "\<And>x t. (x, t) \<in> set H \<Longrightarrow> dist2 x t \<le> dist2 p s"
    and frontier: "\<And>x t y. (x, t) \<in> set H \<Longrightarrow> beside x y \<Longrightarrow> on_grid w h y \<Longrightarrow> dist2 y t < dist2 p s \<Longrightarrow> reached H y"
    and map: "on_grid w h p" "on_grid w h s"
  shows "wave Obs r2 ((p, s) # H)"
proof -
  have closer: "\<exists>t. (q, t) \<in> set H \<and> dist2 q t \<le> dist2 q s" if q: "beside q p" "dist2 q s < dist2 p s" for q
  proof -
    have "p \<noteq> s" using q(2) dist2_nonneg [of q s] by (metis dist2_self not_less)
    then obtain p' where p': "(p', s) \<in> set H" "beside p' p" using entry by blast
    have lt: "dist2 p' s < dist2 p s" using mono [OF p'(1)] dist2_beside_neq [OF p'(2), of s] by simp
    show ?thesis
    proof (cases "p' = q")
      case True
      then show ?thesis using p' by blast
    next
      case False
      define c where "c = (fst p' + fst q - fst p, snd p' + snd q - snd p)"
      note cc = corner_closer [OF beside_sym [OF p'(2)] lt beside_sym [OF q(1)] q(2) False c_def]
      have "dist2 c s < dist2 p' s" using cc(3) q(2) by simp
      from wave_closer [OF W(1) p'(1) cc(1) this] obtain t where
        t: "(c, t) \<in> set H" "dist2 c t \<le> dist2 c s" "dist2 p' s \<le> dist2 p' t" by blast
      have qt: "dist2 q t \<le> dist2 q s"
        by (rule corner [OF beside_sym [OF p'(2)] lt beside_sym [OF q(1)] q(2) False c_def t(2,3)])
      have "reached H q"
        by (rule frontier [OF t(1) cc(2)]) (use closer_on_grid [OF map q] qt q(2) in auto)
      then obtain t' where t': "(q, t') \<in> set H" unfolding reached_iff by blast
      have "dist2 q t' \<le> max (dist2 q t) (dist2 c t)" by (rule wave_neighbour [OF W(1) t(1) t' cc(2)])
      also have "\<dots> \<le> dist2 q s" using qt t(2) cc(3) lt by simp
      finally show ?thesis using t' by blast
    qed
  qed
  have least: "dist2 p s \<le> dist2 p t" if "(x, t) \<in> set H" "beside x p" for x t
    using frontier [OF that map(1)] W(2) by (meson not_less)
  show ?thesis unfolding wave.simps using W mono least closer by blast
qed

section \<open>What the complete wave covers\<close>

definition closed_wave :: "nat \<Rightarrow> nat \<Rightarrow> int \<Rightarrow> (place \<times> place) list \<Rightarrow> bool" where
  "closed_wave w h r2 H \<longleftrightarrow>
    (\<forall>x t y. (x, t) \<in> set H \<longrightarrow> beside x y \<longrightarrow> on_grid w h y \<longrightarrow> dist2 y t \<le> r2 \<longrightarrow> reached H y)"

definition steps :: "place \<Rightarrow> place \<Rightarrow> int" where
  "steps p s = \<bar>fst p - fst s\<bar> + \<bar>snd p - snd s\<bar>"

lemma dist2_le_steps: "dist2 p s \<le> (steps p s)\<^sup>2"
proof -
  have "0 \<le> 2 * (\<bar>fst p - fst s\<bar> * \<bar>snd p - snd s\<bar>)" by simp
  then show ?thesis by (simp add: dist2_def steps_def power2_sum)
qed

text \<open>Every place is at most as far from its source as the steps from an obstacle.\<close>

lemma dist2_beside:
  assumes "beside p q" "dist2 p t \<le> n\<^sup>2" "0 \<le> n"
  shows "dist2 q t \<le> (n + 1)\<^sup>2"
proof -
  have "(fst p - fst t)\<^sup>2 \<le> n\<^sup>2" "(snd p - snd t)\<^sup>2 \<le> n\<^sup>2"
    using assms(2) zero_le_power2 [of "fst p - fst t"] zero_le_power2 [of "snd p - snd t"]
    unfolding dist2_def by linarith+
  then have le: "\<bar>fst p - fst t\<bar> \<le> n" "\<bar>snd p - snd t\<bar> \<le> n" using assms(3) by (simp_all add: abs_le_square_iff [symmetric])
  have "dist2 q t \<le> dist2 p t + 2 * n + 1"
    using assms(1) le by (elim beside_cases) (auto simp: dist2_def power2_eq_square algebra_simps)
  then show ?thesis using assms(2) by (simp add: power2_eq_square algebra_simps)
qed

lemma wave_within_steps:
  assumes "wave Obs (R\<^sup>2) H" "closed_wave w h (R\<^sup>2) H" "(ob, ob) \<in> set H" "on_grid w h ob"
    and "on_grid w h p" "steps p ob = int n" "int n \<le> R"
  shows "\<exists>t. (p, t) \<in> set H \<and> dist2 p t \<le> (int n)\<^sup>2"
  using assms(5-7)
proof (induction n arbitrary: p)
  case 0
  then have "p = ob" by (auto simp: steps_def prod_eq_iff)
  then show ?case using assms(3) by (intro exI [of _ ob]) simp
next
  case (Suc n)
  define p' where "p' = (if fst p < fst ob then (fst p + 1, snd p) else if fst ob < fst p then (fst p - 1, snd p)
    else if snd p < snd ob then (fst p, snd p + 1) else (fst p, snd p - 1))"
  have "fst p \<noteq> fst ob \<or> snd p \<noteq> snd ob" using Suc.prems(2) by (auto simp: steps_def)
  then have p': "beside p' p" "steps p' ob = int n" "on_grid w h p'"
    using Suc.prems(1,2) assms(4) by (auto simp: p'_def beside_def steps_def on_grid_def split: if_splits)
  then obtain t where t: "(p', t) \<in> set H" "dist2 p' t \<le> (int n)\<^sup>2" using Suc.IH [of p'] Suc.prems(3) by auto
  have le: "dist2 p t \<le> (int (Suc n))\<^sup>2" using dist2_beside [OF p'(1) t(2)] by (simp add: add.commute)
  also have "\<dots> \<le> R\<^sup>2" using Suc.prems(3) by (intro power_mono) auto
  finally have "reached H p" using assms(2) t(1) p'(1) Suc.prems(1) unfolding closed_wave_def by blast
  then obtain t' where t': "(p, t') \<in> set H" unfolding reached_iff by blast
  have "dist2 p t' \<le> max (dist2 p t) (dist2 p' t)" by (rule wave_neighbour [OF assms(1) t(1) t' p'(1)])
  also have "\<dots> \<le> (int (Suc n))\<^sup>2"
  proof -
    have "(int n)\<^sup>2 \<le> (int (Suc n))\<^sup>2" by (rule power_mono) simp_all
    then show ?thesis using le t(2) by (meson max.boundedI order_trans)
  qed
  finally show ?case using t' by blast
qed

text \<open>A single obstacle is spread exactly.\<close>

lemma wave_single:
  assumes "wave {ob} r2 H" "closed_wave w h r2 H" "(ob, ob) \<in> set H" "on_grid w h ob"
    and "on_grid w h p" "dist2 p ob \<le> r2" "steps p ob = int n"
  shows "(p, ob) \<in> set H"
  using assms(5-7)
proof (induction n arbitrary: p)
  case 0
  then have "p = ob" by (auto simp: steps_def prod_eq_iff)
  then show ?case using assms(3) by auto
next
  case (Suc n)
  define p' where "p' = (if fst p < fst ob then (fst p + 1, snd p) else if fst ob < fst p then (fst p - 1, snd p)
    else if snd p < snd ob then (fst p, snd p + 1) else (fst p, snd p - 1))"
  have "fst p \<noteq> fst ob \<or> snd p \<noteq> snd ob" using Suc.prems(3) by (auto simp: steps_def)
  then have p': "beside p' p" "steps p' ob = int n" "on_grid w h p'"
    using Suc.prems(1,3) assms(4) by (auto simp: p'_def beside_def steps_def on_grid_def split: if_splits)
  have "dist2 p' ob \<le> dist2 p ob"
    using \<open>fst p \<noteq> fst ob \<or> snd p \<noteq> snd ob\<close> by (auto simp: p'_def dist2_def power2_eq_square algebra_simps)
  then have "(p', ob) \<in> set H" using Suc.IH [OF p'(3) _ p'(2)] Suc.prems(2) by simp
  then have "reached H p" using assms(2) p'(1) Suc.prems(1,2) unfolding closed_wave_def by blast
  then show ?case using wave_sound [OF assms(1)] unfolding reached_iff by (metis singletonD)
qed

end
