(* ===== verification/Inflation_Layer.thy ===== *)
theory Inflation_Layer
  imports Inflation_Wave Layered_Costmap
begin

text \<open>
  nav2_costmap_2d/plugins/inflation_layer.cpp: the layer that surrounds every obstacle with costs that fall with the
  distance. Cells wait in bins, one for each distance that occurs within the radius; the bins are processed in order and
  a visited cell hands its obstacle on to its neighbours. \<open>None\<close> has no defined outcome: an access outside a vector, a
  conversion out of range or an overflow of \<open>int\<close>. Coordinates of cells are natural numbers, since unsigned arithmetic on
  them wraps only where it is written below.
\<close>

section \<open>State\<close>

record CellData =
  cell_x :: nat
  cell_y :: nat
  src_x :: nat
  src_y :: nat

record InflationLayer =
  inf_enabled :: bool
  inf_current :: bool
  inflation_radius :: real
  inf_inscribed_radius :: real
  cost_scaling_factor :: real
  inflate_unknown :: bool
  inflate_around_unknown :: bool
  cell_inflation_radius :: u32
  cached_cell_inflation_radius :: u32
  inflation_cells :: "CellData list list"
  inf_resolution :: real
  seen :: "bool list"
  cached_costs :: "u8 list"
  cached_distances :: "real list"
  distance_matrix :: "nat list list"
  cache_length :: u32
  inf_last :: bounds
  need_reinflation :: bool

text \<open>The constructor leaves \<open>need_reinflation_\<close> to \<open>onInitialize\<close>, which is called before anything reads it.\<close>

definition new_inflation :: InflationLayer where
  "new_inflation = \<lparr>inf_enabled = False, inf_current = False, inflation_radius = 0, inf_inscribed_radius = 0,
     cost_scaling_factor = 0, inflate_unknown = False, inflate_around_unknown = False, cell_inflation_radius = 0,
     cached_cell_inflation_radius = 0, inflation_cells = [], inf_resolution = 0, seen = [], cached_costs = [],
     cached_distances = [], distance_matrix = [], cache_length = 0,
     inf_last = \<lparr>min_bx = - DBL_MAX, min_by = - DBL_MAX, max_bx = DBL_MAX, max_by = DBL_MAX\<rparr>,
     need_reinflation = False\<rparr>"

definition vec_at :: "nat \<Rightarrow> 'a list \<Rightarrow> 'a option" where
  "vec_at i xs = (if i < length xs then Some (xs ! i) else None)"

section \<open>Caches\<close>

definition cast_u8 :: "real \<Rightarrow> u8 option" where
  "cast_u8 r = (let i = trunc_real r in if 0 \<le> i \<and> i < 256 then Some (word_of_int i) else None)"

definition computeCost :: "InflationLayer \<Rightarrow> real \<Rightarrow> u8 option" where
  "computeCost l d =
    (if d = 0 then Some LETHAL_OBSTACLE
     else if d * inf_resolution l \<le> inf_inscribed_radius l then Some INSCRIBED_INFLATED_OBSTACLE
     else
       (let factor = exp (- 1 * cost_scaling_factor l * (d * inf_resolution l - inf_inscribed_radius l))
        in cast_u8 (252 * factor)))"

text \<open>
  The levels of the distances. \<open>std::sort\<close> leaves the order of points at the same distance open; they get the same
  level in any order.
\<close>

definition norm2 :: "int \<times> int \<Rightarrow> int" where
  "norm2 p = fst p * fst p + snd p * snd p"

definition disc_points :: "int \<Rightarrow> (int \<times> int) list" where
  "disc_points r = concat (map (\<lambda>y. filter (\<lambda>p. norm2 p \<le> r * r) (map (\<lambda>x. (x, y)) [- r..r])) [- r..r])"

definition set_matrix :: "nat \<Rightarrow> nat \<Rightarrow> 'a \<Rightarrow> 'a list list \<Rightarrow> 'a list list" where
  "set_matrix i j v m = m[i := (m ! i)[j := v]]"

fun level_points :: "int \<Rightarrow> (int \<times> int) list \<Rightarrow> int \<times> int \<Rightarrow> nat \<Rightarrow> nat list list \<Rightarrow> nat \<times> nat list list" where
  "level_points r [] prev level m = (level, m)"
| "level_points r (p # ps) prev level m =
    (let level' = (if norm2 p \<noteq> norm2 prev then level + 1 else level)
     in level_points r ps p level' (set_matrix (nat (fst p + r)) (nat (snd p + r)) level' m))"

definition generateIntegerDistances :: "int \<Rightarrow> (nat \<times> nat list list) option" where
  "generateIntegerDistances r =
    do { diameter \<leftarrow> i32 (r * 2 + 1);
         square \<leftarrow> i32 (r * r + r * r);
         Some (level_points r (sort_key norm2 (disc_points r)) (0, 0) 0
           (replicate (nat diameter) (replicate (nat diameter) 0))) }"

definition hypot :: "nat \<Rightarrow> nat \<Rightarrow> real" where
  "hypot i j = sqrt ((real i)\<^sup>2 + (real j)\<^sup>2)"

text \<open>
  A length whose square does not fit is refused before the tables are filled: the code would write outside of them, or
  overflow \<open>int\<close> in \<open>generateIntegerDistances\<close>.
\<close>

definition computeCaches :: "InflationLayer \<Rightarrow> InflationLayer option" where
  "computeCaches l =
    (if cell_inflation_radius l = 0 then Some l
     else
       (let cl = cell_inflation_radius l + 2; n = unat cl; r = sint cl
        in do {
          square \<leftarrow> (if r < 0 then None else i32 (r * r + r * r));
          let l1 = l\<lparr>cache_length := cl\<rparr>;
          let l2 = (if cell_inflation_radius l \<noteq> cached_cell_inflation_radius l
            then l1\<lparr>cached_costs := take (n * n) (cached_costs l) @ replicate (n * n - length (cached_costs l)) 0,
                    cached_distances := concat (map (\<lambda>i. map (hypot i) [0..<n]) [0..<n]),
                    cached_cell_inflation_radius := cell_inflation_radius l\<rparr>
            else l1);
          costs \<leftarrow> (if n * n \<le> length (cached_distances l2) \<and> n * n \<le> length (cached_costs l2)
            then map_cells (computeCost l2) (take (n * n) (cached_distances l2)) else None);
          dm \<leftarrow> generateIntegerDistances r;
          Some (l2\<lparr>cached_costs := costs @ drop (n * n) (cached_costs l2), distance_matrix := snd dm,
                   inflation_cells := replicate (fst dm + 1) []\<rparr>) }))"

section \<open>Parameters and bounds\<close>

text \<open>\<open>m\<close> is the map of the layered costmap.\<close>

definition inf_matchSize :: "costmap2d \<Rightarrow> InflationLayer \<Rightarrow> InflationLayer option" where
  "inf_matchSize m l =
    do { r \<leftarrow> cellDistance m (inflation_radius l);
         l1 \<leftarrow> computeCaches (l\<lparr>inf_resolution := resolution m, cell_inflation_radius := r\<rparr>);
         Some (l1\<lparr>seen := replicate (unat (size_x m * size_y m)) False\<rparr>) }"

definition inf_onInitialize ::
  "bool \<Rightarrow> real \<Rightarrow> real \<Rightarrow> bool \<Rightarrow> bool \<Rightarrow> costmap2d \<Rightarrow> InflationLayer \<Rightarrow> InflationLayer option" where
  "inf_onInitialize enabled_param inflation_radius_param cost_scaling_param inflate_unknown_param around_param m l =
    do { let l1 = l\<lparr>inf_enabled := enabled_param, inflation_radius := inflation_radius_param,
           cost_scaling_factor := cost_scaling_param, inflate_unknown := inflate_unknown_param,
           inflate_around_unknown := around_param, inf_current := True, seen := [], cached_distances := [],
           cached_costs := [], need_reinflation := False\<rparr>;
         r \<leftarrow> cellDistance m (inflation_radius l1);
         inf_matchSize m (l1\<lparr>cell_inflation_radius := r\<rparr>) }"

definition inf_reset :: "costmap2d \<Rightarrow> InflationLayer \<Rightarrow> InflationLayer option" where
  "inf_reset m l = map_option (\<lambda>l1. l1\<lparr>inf_current := False\<rparr>) (inf_matchSize m l)"

definition inf_updateBounds :: "bounds \<Rightarrow> InflationLayer \<Rightarrow> bounds \<times> InflationLayer" where
  "inf_updateBounds b l =
    (let l1 = l\<lparr>inf_last := b\<rparr>; tmp = inf_last l
     in if need_reinflation l
        then (\<lparr>min_bx = - DBL_MAX, min_by = - DBL_MAX, max_bx = DBL_MAX, max_by = DBL_MAX\<rparr>,
              l1\<lparr>need_reinflation := False\<rparr>)
        else (\<lparr>min_bx = min (min_bx tmp) (min_bx b) - inflation_radius l,
               min_by = min (min_by tmp) (min_by b) - inflation_radius l,
               max_bx = max (max_bx tmp) (max_bx b) + inflation_radius l,
               max_by = max (max_by tmp) (max_by b) + inflation_radius l\<rparr>, l1))"

definition inf_onFootprintChanged :: "fpoint list \<Rightarrow> costmap2d \<Rightarrow> InflationLayer \<Rightarrow> InflationLayer option" where
  "inf_onFootprintChanged footprint m l =
    do { r \<leftarrow> cellDistance m (inflation_radius l);
         l1 \<leftarrow> computeCaches (l\<lparr>inf_inscribed_radius := fst (calculateMinAndMaxDistances footprint),
                cell_inflation_radius := r\<rparr>);
         Some (l1\<lparr>need_reinflation := True\<rparr>) }"

text \<open>Parameters of this layer; those of other nodes and of other types are skipped.\<close>

datatype inf_parameter =
    InflationRadius real
  | CostScalingFactor real
  | Enabled bool
  | InflateUnknown bool
  | InflateAroundUnknown bool
  | OtherParameter

fun inf_set_parameter :: "inf_parameter \<Rightarrow> InflationLayer \<times> bool \<Rightarrow> InflationLayer \<times> bool" where
  "inf_set_parameter (InflationRadius v) (l, recompute) =
    (if inflation_radius l \<noteq> v then (l\<lparr>inflation_radius := v, need_reinflation := True\<rparr>, True) else (l, recompute))"
| "inf_set_parameter (CostScalingFactor v) (l, recompute) =
    (if cost_scaling_factor l \<noteq> v then (l\<lparr>cost_scaling_factor := v, need_reinflation := True\<rparr>, True) else (l, recompute))"
| "inf_set_parameter (Enabled v) (l, recompute) =
    (if inf_enabled l \<noteq> v then (l\<lparr>inf_enabled := v, need_reinflation := True, inf_current := False\<rparr>, recompute) else (l, recompute))"
| "inf_set_parameter (InflateUnknown v) (l, recompute) =
    (if inflate_unknown l \<noteq> v then (l\<lparr>inflate_unknown := v, need_reinflation := True\<rparr>, recompute) else (l, recompute))"
| "inf_set_parameter (InflateAroundUnknown v) (l, recompute) =
    (if inflate_around_unknown l \<noteq> v then (l\<lparr>inflate_around_unknown := v, need_reinflation := True\<rparr>, recompute) else (l, recompute))"
| "inf_set_parameter OtherParameter (l, recompute) = (l, recompute)"

definition inf_dynamicParametersCallback ::
  "inf_parameter list \<Rightarrow> costmap2d \<Rightarrow> InflationLayer \<Rightarrow> InflationLayer option" where
  "inf_dynamicParametersCallback parameters m l =
    (let (l1, need_cache_recompute) = fold inf_set_parameter parameters (l, False)
     in if need_cache_recompute then inf_matchSize m l1 else Some l1)"

section \<open>The wave\<close>

definition udiff :: "nat \<Rightarrow> nat \<Rightarrow> nat" where
  "udiff a b = (if b < a then a - b else b - a)"

definition cache_index :: "nat \<Rightarrow> nat \<Rightarrow> nat \<Rightarrow> nat \<Rightarrow> InflationLayer \<Rightarrow> nat" where
  "cache_index mx my sx sy l = (udiff mx sx * unat (cache_length l) + udiff my sy) mod 2 ^ 32"

definition distanceLookup :: "nat \<Rightarrow> nat \<Rightarrow> nat \<Rightarrow> nat \<Rightarrow> InflationLayer \<Rightarrow> real option" where
  "distanceLookup mx my sx sy l = vec_at (cache_index mx my sx sy l) (cached_distances l)"

definition costLookup :: "nat \<Rightarrow> nat \<Rightarrow> nat \<Rightarrow> nat \<Rightarrow> InflationLayer \<Rightarrow> u8 option" where
  "costLookup mx my sx sy l = vec_at (cache_index mx my sx sy l) (cached_costs l)"

definition level_at :: "nat \<Rightarrow> nat \<Rightarrow> nat \<Rightarrow> nat \<Rightarrow> InflationLayer \<Rightarrow> nat option" where
  "level_at mx my sx sy l =
    (let r = int (unat (cell_inflation_radius l + 2))
     in Option.bind (vec_at (nat ((int mx - int sx + r) mod 2 ^ 32)) (distance_matrix l))
          (vec_at (nat ((int my - int sy + r) mod 2 ^ 32))))"

definition enqueue :: "nat \<Rightarrow> nat \<Rightarrow> nat \<Rightarrow> nat \<Rightarrow> nat \<Rightarrow> InflationLayer \<Rightarrow> InflationLayer option" where
  "enqueue index mx my sx sy l =
    do { visited \<leftarrow> vec_at index (seen l);
         if visited then Some l
         else do {
           distance \<leftarrow> distanceLookup mx my sx sy l;
           if real (unat (cell_inflation_radius l)) < distance then Some l
           else do {
             dist \<leftarrow> level_at mx my sx sy l;
             bin \<leftarrow> vec_at dist (inflation_cells l);
             Some (l\<lparr>inflation_cells := (inflation_cells l)[dist :=
               bin @ [\<lparr>cell_x = mx, cell_y = my, src_x = sx, src_y = sy\<rparr>]]\<rparr>) } } }"

definition inflated :: "InflationLayer \<Rightarrow> u8 \<Rightarrow> u8 \<Rightarrow> u8" where
  "inflated l old_cost cost =
    (if old_cost = NO_INFORMATION \<and>
        (if inflate_unknown l then cost > FREE_SPACE else cost \<ge> INSCRIBED_INFLATED_OBSTACLE)
     then cost else max old_cost cost)"

definition enqueue_neighbours :: "costmap2d \<Rightarrow> nat \<Rightarrow> CellData \<Rightarrow> InflationLayer \<Rightarrow> InflationLayer option" where
  "enqueue_neighbours m index c l =
    (let mx = cell_x c; my = cell_y c; sx = src_x c; sy = src_y c; w = unat (size_x m)
     in do { l1 \<leftarrow> (if mx > 0 then enqueue (index - 1) (mx - 1) my sx sy l else Some l);
             l2 \<leftarrow> (if my > 0 then enqueue (index - w) mx (my - 1) sx sy l1 else Some l1);
             l3 \<leftarrow> (if mx < unat (size_x m - 1) then enqueue (index + 1) (mx + 1) my sx sy l2 else Some l2);
             if my < unat (size_y m - 1) then enqueue (index + w) mx (my + 1) sx sy l3 else Some l3 })"

definition visit ::
  "int \<Rightarrow> int \<Rightarrow> int \<Rightarrow> int \<Rightarrow> CellData \<Rightarrow> costmap2d \<times> InflationLayer \<Rightarrow> (costmap2d \<times> InflationLayer) option" where
  "visit min_i min_j max_i max_j c ml =
    (let (m, l) = ml; mx = cell_x c; my = cell_y c; index = getIndex m (of_nat mx) (of_nat my)
     in do {
       visited \<leftarrow> vec_at (unat index) (seen l);
       if visited then Some (m, l)
       else do {
         let l1 = l\<lparr>seen := (seen l)[unat index := True]\<rparr>;
         cost \<leftarrow> costLookup mx my (src_x c) (src_y c) l1;
         old_cost \<leftarrow> getCost_at m index;
         let m1 = (if int mx \<ge> min_i \<and> int my \<ge> min_j \<and> int mx < max_i \<and> int my < max_j
           then m\<lparr>costmap := map_option (\<lambda>cells. cells[unat index := inflated l1 old_cost cost]) (costmap m)\<rparr> else m);
         l2 \<leftarrow> enqueue_neighbours m1 (unat index) c l1;
         Some (m1, l2) } })"

text \<open>One bin, which may grow while it is processed; every visit marks a cell.\<close>

definition unseen :: "InflationLayer \<Rightarrow> nat" where
  "unseen l = length (filter Not (seen l))"

lemma enqueue_seen: "enqueue index mx my sx sy l = Some l' \<Longrightarrow> seen l' = seen l"
  by (auto simp: enqueue_def split: Option.bind_splits if_splits)

lemma enqueue_neighbours_seen: "enqueue_neighbours m index c l = Some l' \<Longrightarrow> seen l' = seen l"
  by (auto simp: enqueue_neighbours_def Let_def split: Option.bind_splits if_splits dest!: enqueue_seen)

lemma unseen_mark: "i < length xs \<Longrightarrow> \<not> xs ! i \<Longrightarrow> length (filter Not (xs[i := True])) < length (filter Not xs)"
proof (induction xs arbitrary: i)
  case (Cons x xs)
  then show ?case by (cases i) auto
qed simp

lemma visit_seen:
  assumes "visit x0 y0 xn yn c (m, l) = Some (m', l')"
  shows "unseen l' < unseen l \<or> l' = l"
  using assms
  by (auto simp: visit_def Let_def vec_at_def unseen_def unseen_mark split: Option.bind_splits if_splits dest!: enqueue_neighbours_seen)

function spread_bin ::
  "int \<Rightarrow> int \<Rightarrow> int \<Rightarrow> int \<Rightarrow> nat \<Rightarrow> nat \<Rightarrow> costmap2d \<Rightarrow> InflationLayer \<Rightarrow> (costmap2d \<times> InflationLayer) option" where
  "spread_bin min_i min_j max_i max_j k i m l =
    (if k < length (inflation_cells l) \<and> i < length (inflation_cells l ! k)
     then (case visit min_i min_j max_i max_j (inflation_cells l ! k ! i) (m, l) of
         None \<Rightarrow> None
       | Some (m', l') \<Rightarrow> spread_bin min_i min_j max_i max_j k (Suc i) m' l')
     else Some (m, l))"
  by pat_completeness auto

termination
proof (relation "measures [\<lambda>(_, _, _, _, k, i, m, l). unseen l, \<lambda>(_, _, _, _, k, i, m, l). length (inflation_cells l ! k) - i]",
    goal_cases)
  case (2 min_i min_j max_i max_j k i m l a m' l')
  then show ?case using visit_seen [of min_i min_j max_i max_j "inflation_cells l ! k ! i" m l m' l'] by auto
qed simp

declare spread_bin.simps [simp del]

fun spread_bins ::
  "int \<Rightarrow> int \<Rightarrow> int \<Rightarrow> int \<Rightarrow> nat list \<Rightarrow> costmap2d \<times> InflationLayer \<Rightarrow> (costmap2d \<times> InflationLayer) option" where
  "spread_bins min_i min_j max_i max_j [] ml = Some ml"
| "spread_bins min_i min_j max_i max_j (k # ks) ml =
    do { (m', l') \<leftarrow> spread_bin min_i min_j max_i max_j k 0 (fst ml) (snd ml);
         spread_bins min_i min_j max_i max_j ks (m', l'\<lparr>inflation_cells := (inflation_cells l')[k := []]\<rparr>) }"

text \<open>The first cells: the obstacles of the window, enlarged by the radius. The index is converted to \<open>int\<close>.\<close>

definition is_source :: "InflationLayer \<Rightarrow> u8 \<Rightarrow> bool" where
  "is_source l cost \<longleftrightarrow> cost = LETHAL_OBSTACLE \<or> inflate_around_unknown l \<and> cost = NO_INFORMATION"

fun scan_cells :: "costmap2d \<Rightarrow> InflationLayer \<Rightarrow> (int \<times> int) list \<Rightarrow> CellData list option" where
  "scan_cells m l [] = Some []"
| "scan_cells m l ((i, j) # ps) =
    do { let index = getIndex m (word_of_int i) (word_of_int j);
         cost \<leftarrow> (if sint index < 0 then None else getCost_at m index);
         cs \<leftarrow> scan_cells m l ps;
         Some (if is_source l cost
           then \<lparr>cell_x = nat i, cell_y = nat j, src_x = nat i, src_y = nat j\<rparr> # cs else cs) }"

definition inf_updateCosts ::
  "int \<Rightarrow> int \<Rightarrow> int \<Rightarrow> int \<Rightarrow> costmap2d \<Rightarrow> InflationLayer \<Rightarrow> (costmap2d \<times> InflationLayer) option" where
  "inf_updateCosts min_i min_j max_i max_j master l =
    (if \<not> inf_enabled l \<or> cell_inflation_radius l = 0 then Some (master, l)
     else
       (let r = sint (cell_inflation_radius l);
            l1 = l\<lparr>seen := replicate (unat (size_x master * size_y master)) False\<rparr>
        in do {
          lo_i \<leftarrow> i32 (min_i - r);
          lo_j \<leftarrow> i32 (min_j - r);
          hi_i \<leftarrow> i32 (max_i + r);
          hi_j \<leftarrow> i32 (max_j + r);
          obs_bin \<leftarrow> vec_at 0 (inflation_cells l1);
          let is = [max 0 lo_i..min (sint (size_x master)) hi_i - 1];
          let js = [max 0 lo_j..min (sint (size_y master)) hi_j - 1];
          found \<leftarrow> scan_cells master l1 (concat (map (\<lambda>j. map (\<lambda>i. (i, j)) is) js));
          (m', l') \<leftarrow> spread_bins min_i min_j max_i max_j [0..<length (inflation_cells l1)]
            (master, l1\<lparr>inflation_cells := (inflation_cells l1)[0 := obs_bin @ found]\<rparr>);
          Some (m', l'\<lparr>inf_current := True\<rparr>) }))"

section \<open>Levels\<close>

definition matrix_at :: "int \<Rightarrow> nat list list \<Rightarrow> int \<times> int \<Rightarrow> nat" where
  "matrix_at r m p = m ! nat (fst p + r) ! nat (snd p + r)"

definition in_square :: "int \<Rightarrow> int \<times> int \<Rightarrow> bool" where
  "in_square r p \<longleftrightarrow> \<bar>fst p\<bar> \<le> r \<and> \<bar>snd p\<bar> \<le> r"

definition square_matrix :: "int \<Rightarrow> nat list list \<Rightarrow> bool" where
  "square_matrix r m \<longleftrightarrow> length m = nat (r * 2 + 1) \<and> (\<forall>row\<in>set m. length row = nat (r * 2 + 1))"

lemma set_matrix_square:
  assumes "square_matrix r m" "in_square r p"
  shows "square_matrix r (set_matrix (nat (fst p + r)) (nat (snd p + r)) v m)"
    and "in_square r q \<Longrightarrow> matrix_at r (set_matrix (nat (fst p + r)) (nat (snd p + r)) v m) q = (if q = p then v else matrix_at r m q)"
proof -
  have p: "nat (fst p + r) < length m" "nat (snd p + r) < nat (r * 2 + 1)"
    using assms by (auto simp: square_matrix_def in_square_def)
  then have row: "length (m ! nat (fst p + r)) = nat (r * 2 + 1)" using assms(1) by (simp add: square_matrix_def)
  show "square_matrix r (set_matrix (nat (fst p + r)) (nat (snd p + r)) v m)"
    unfolding square_matrix_def set_matrix_def
  proof (intro conjI ballI)
    fix xs assume "xs \<in> set (m[nat (fst p + r) := (m ! nat (fst p + r))[nat (snd p + r) := v]])"
    then have "xs = (m ! nat (fst p + r))[nat (snd p + r) := v] \<or> xs \<in> set m"
      using set_update_subset_insert by fast
    then show "length xs = nat (r * 2 + 1)" using assms(1) row by (auto simp: square_matrix_def)
  qed (use assms(1) in \<open>simp add: square_matrix_def\<close>)
  have upd: "set_matrix i j v m ! i' ! j' = (if i' = i \<and> j' = j then v else m ! i' ! j')"
    if "i < length m" "j < length (m ! i)" for i j i' j'
    using that by (simp add: set_matrix_def nth_list_update)
  assume "in_square r q"
  then have "nat (fst q + r) = nat (fst p + r) \<and> nat (snd q + r) = nat (snd p + r) \<longleftrightarrow> q = p"
    using assms(2) by (cases p; cases q) (simp add: in_square_def eq_nat_nat_iff abs_le_iff)
  then show "matrix_at r (set_matrix (nat (fst p + r)) (nat (snd p + r)) v m) q = (if q = p then v else matrix_at r m q)"
    unfolding matrix_at_def using upd [OF p(1)] p(2) row by (simp only:)
qed

text \<open>The level of a squared distance is the number of smaller ones that occur.\<close>

definition below :: "int set \<Rightarrow> int \<Rightarrow> nat" where
  "below V d = card {e \<in> V. e < d}"

lemma below_insert:
  assumes "finite V" "\<forall>e\<in>V. a < e" "a < d"
  shows "below (insert a V) d = Suc (below V d)"
proof -
  have "{e \<in> insert a V. e < d} = insert a {e \<in> V. e < d}" using assms(3) by auto
  moreover have "a \<notin> {e \<in> V. e < d}" using assms(2) by auto
  ultimately show ?thesis using assms(1) by (simp add: below_def)
qed

lemma below_least: "\<forall>e\<in>V. d \<le> e \<Longrightarrow> below V d = 0"
  by (auto simp: below_def card_eq_0_iff)

lemma below_strict:
  assumes "finite V" "d \<in> V" "d < e"
  shows "below V d < below V e"
  unfolding below_def using assms by (intro psubset_card_mono) auto

lemma level_points_spec:
  assumes "sorted (map norm2 (prev # ps))" "distinct ps" "\<forall>p\<in>set ps. in_square r p" "square_matrix r m"
    and "level_points r ps prev level m = (level', m')"
  shows "square_matrix r m' \<and> Suc level' = level + card (norm2 ` set (prev # ps)) \<and>
    (\<forall>q. in_square r q \<longrightarrow> matrix_at r m' q =
      (if q \<in> set ps then level + below (norm2 ` set (prev # ps)) (norm2 q) else matrix_at r m q))"
  using assms
proof (induction ps arbitrary: prev level m)
  case (Cons p ps)
  define l1 where "l1 = (if norm2 p \<noteq> norm2 prev then level + 1 else level)"
  define m1 where "m1 = set_matrix (nat (fst p + r)) (nat (snd p + r)) l1 m"
  define V where "V = norm2 ` set (p # ps)"
  define V0 where "V0 = norm2 ` set (prev # p # ps)"
  have p: "in_square r p" using Cons.prems(3) by simp
  note m1 = set_matrix_square [OF Cons.prems(4) p, where v = l1, folded m1_def]
  have IH: "square_matrix r m' \<and> Suc level' = l1 + card V \<and>
    (\<forall>q. in_square r q \<longrightarrow> matrix_at r m' q = (if q \<in> set ps then l1 + below V (norm2 q) else matrix_at r m1 q))"
    unfolding V_def
    by (rule Cons.IH) (use Cons.prems m1(1) in \<open>auto simp: l1_def m1_def Let_def\<close>)
  then have at: "matrix_at r m' q = (if q \<in> set ps then l1 + below V (norm2 q) else matrix_at r m1 q)"
    if "in_square r q" for q using that by blast
  have fin: "finite V" by (simp add: V_def)
  have least: "\<forall>e\<in>V. norm2 p \<le> e" using Cons.prems(1) by (auto simp: V_def)
  have V0: "V0 = insert (norm2 prev) V" by (simp add: V0_def V_def)
  have rank: "l1 + below V d = level + below V0 d" if "d \<in> V" for d
  proof (cases "norm2 p = norm2 prev")
    case True
    then have "V0 = V" by (simp add: V0 V_def insert_absorb)
    then show ?thesis using True by (simp add: l1_def)
  next
    case False
    then have lt: "norm2 prev < norm2 p" using Cons.prems(1) by simp
    then have "\<forall>e\<in>V. norm2 prev < e" using least by force
    moreover from this have "norm2 prev < d" using that by blast
    ultimately show ?thesis using below_insert [OF fin] False by (simp add: V0 l1_def)
  qed
  have card: "l1 + card V = level + card V0"
  proof (cases "norm2 p = norm2 prev")
    case True
    then have "V0 = V" by (simp add: V0 V_def insert_absorb)
    then show ?thesis using True by (simp add: l1_def)
  next
    case False
    then have lt: "norm2 prev < norm2 p" using Cons.prems(1) by simp
    then have "norm2 prev \<notin> V" using least by force
    then show ?thesis using fin False by (simp add: V0 l1_def)
  qed
  have own: "below V (norm2 p) = 0" using least by (rule below_least)
  have "matrix_at r m' q = (if q \<in> set (p # ps) then level + below V0 (norm2 q) else matrix_at r m q)"
    if q: "in_square r q" for q
  proof (cases "q \<in> set ps")
    case True
    then have "norm2 q \<in> V" by (simp add: V_def)
    then show ?thesis using at [OF q] True rank [of "norm2 q"] by simp
  next
    case False
    have "norm2 p \<in> V" by (simp add: V_def)
    then show ?thesis using at [OF q] False m1(2) [OF q] rank [of "norm2 p"] own by auto
  qed
  then show ?case using IH card unfolding V0_def by simp
qed simp

lemma norm2_nonneg [simp]: "0 \<le> norm2 p"
  by (simp add: norm2_def)

lemma norm2_bound:
  assumes "norm2 p \<le> r * r" "0 \<le> r"
  shows "in_square r p"
proof -
  have "fst p * fst p \<le> r * r" "snd p * snd p \<le> r * r"
    using assms(1) zero_le_square [of "fst p"] zero_le_square [of "snd p"] unfolding norm2_def by linarith+
  then have "(fst p)\<^sup>2 \<le> r\<^sup>2" "(snd p)\<^sup>2 \<le> r\<^sup>2" by (simp_all add: power2_eq_square)
  then show ?thesis using assms(2) by (simp add: in_square_def abs_le_square_iff [symmetric])
qed

lemma disc_points_set:
  assumes "0 \<le> r"
  shows "set (disc_points r) = {p. norm2 p \<le> r * r}" "distinct (disc_points r)"
proof -
  have "p \<in> set (disc_points r)" if "norm2 p \<le> r * r" for p
    using norm2_bound [OF that assms] that
    by (cases p) (force simp: disc_points_def in_square_def abs_le_iff)
  then show "set (disc_points r) = {p. norm2 p \<le> r * r}" by (auto simp: disc_points_def)
  have "distinct (concat (map (\<lambda>y. filter (\<lambda>p. norm2 p \<le> r * r) (map (\<lambda>x. (x, y)) xs)) ys))"
    if "distinct xs" "distinct ys" for xs ys
    using that(2)
  proof (induction ys)
    case (Cons y ys)
    have "distinct (map (\<lambda>x. (x, y)) xs)" using that(1) by (simp add: distinct_map inj_on_def)
    then show ?case using Cons by auto
  qed simp
  then show "distinct (disc_points r)" unfolding disc_points_def by simp
qed

definition squares_within :: "int \<Rightarrow> int set" where
  "squares_within r = norm2 ` {p. norm2 p \<le> r * r}"

lemma generateIntegerDistances_spec:
  assumes "0 \<le> r" "r * r + r * r < 2 ^ 31"
  obtains n m where "generateIntegerDistances r = Some (n, m)" "square_matrix r m"
    "\<And>p. norm2 p \<le> r * r \<Longrightarrow> matrix_at r m p = below (squares_within r) (norm2 p)"
    "\<And>p. norm2 p \<le> r * r \<Longrightarrow> below (squares_within r) (norm2 p) < n + 1"
proof -
  define ps where "ps = sort_key norm2 (disc_points r)"
  define z where "z = replicate (nat (r * 2 + 1)) (replicate (nat (r * 2 + 1)) (0 :: nat))"
  obtain n m where nm: "level_points r ps (0, 0) 0 z = (n, m)" by (rule prod.exhaust)
  have set: "set ps = {p. norm2 p \<le> r * r}" using disc_points_set(1) [OF assms(1)] by (simp add: ps_def)
  have zero: "(0, 0) \<in> set ps" using assms(1) by (simp add: set norm2_def)
  then have V: "norm2 ` set ((0, 0) # ps) = squares_within r" by (simp add: squares_within_def set insert_absorb)
  have "square_matrix r m \<and> Suc n = 0 + card (norm2 ` set ((0, 0) # ps)) \<and>
    (\<forall>q. in_square r q \<longrightarrow> matrix_at r m q =
      (if q \<in> set ps then 0 + below (norm2 ` set ((0, 0) # ps)) (norm2 q) else matrix_at r z q))"
  proof (rule level_points_spec [OF _ _ _ _ nm])
    show "sorted (map norm2 ((0, 0) # ps))" by (simp add: ps_def) (simp add: norm2_def)
    show "distinct ps" using disc_points_set(2) [OF assms(1)] by (simp add: ps_def)
    show "\<forall>p\<in>set ps. in_square r p" using norm2_bound [OF _ assms(1)] by (simp add: set)
    show "square_matrix r z" by (simp add: square_matrix_def z_def)
  qed
  then have spec: "square_matrix r m" "Suc n = card (squares_within r)"
    "\<And>q. norm2 q \<le> r * r \<Longrightarrow> matrix_at r m q = below (squares_within r) (norm2 q)"
    unfolding V using norm2_bound [OF _ assms(1)] set by auto
  have fin: "finite (squares_within r)" unfolding squares_within_def using set by (metis List.finite_set finite_imageI)
  have "below (squares_within r) (norm2 p) < n + 1" if "norm2 p \<le> r * r" for p
  proof -
    have "{e \<in> squares_within r. e < norm2 p} \<subset> squares_within r"
      using that by (auto simp: squares_within_def)
    then have "below (squares_within r) (norm2 p) < card (squares_within r)"
      unfolding below_def by (rule psubset_card_mono [OF fin])
    then show ?thesis using spec(2) by simp
  qed
  moreover have "generateIntegerDistances r = Some (n, m)"
  proof -
    have "r * 2 + 1 < 2 ^ 31"
    proof (cases "r \<le> 2")
      case False
      then have "3 * r \<le> r * r" by (intro mult_right_mono) auto
      then have "r * 2 + 1 < r * r + r * r" using False by linarith
      then show ?thesis using assms(2) by (rule order.strict_trans)
    qed simp
    then have "i32 (r * 2 + 1) = Some (r * 2 + 1)" "i32 (r * r + r * r) = Some (r * r + r * r)"
      using assms order_trans [OF _ sum_squares_ge_zero, of "- (2 ^ 31)" r r] by (simp_all add: i32_def fits_i32_def)
    then show ?thesis using nm by (simp add: generateIntegerDistances_def ps_def z_def)
  qed
  ultimately show thesis using that spec by blast
qed

lemma squares_within_finite: "0 \<le> r \<Longrightarrow> finite (squares_within r)"
  unfolding squares_within_def by (metis List.finite_set disc_points_set(1) finite_imageI)

end
