(* ===== verification/Inflation_Spread.thy ===== *)
theory Inflation_Spread
  imports Inflation_Layer
begin

text \<open>
  The bins of the inflation layer follow the wave of Inflation_Wave: the invariant of the loop, and the state it ends in.
\<close>

section \<open>Lookups\<close>

definition side :: "InflationLayer \<Rightarrow> nat" where
  "side l = unat (cell_inflation_radius l) + 2"

definition radius2 :: "InflationLayer \<Rightarrow> int" where
  "radius2 l = (int (unat (cell_inflation_radius l)))\<^sup>2"

definition tables_ok :: "InflationLayer \<Rightarrow> bool" where
  "tables_ok l \<longleftrightarrow> cache_length l = cell_inflation_radius l + 2 \<and> unat (cache_length l) = side l \<and>
    int (side l) * int (side l) + int (side l) * int (side l) < 2 ^ 31 \<and>
    length (cached_distances l) = side l * side l \<and> length (cached_costs l) = side l * side l \<and>
    (\<forall>i < side l. \<forall>j < side l. cached_distances l ! (i * side l + j) = hypot i j \<and>
      computeCost l (hypot i j) = Some (cached_costs l ! (i * side l + j))) \<and>
    (\<exists>k. generateIntegerDistances (int (side l)) = Some (k, distance_matrix l) \<and> length (inflation_cells l) = k + 1)"

definition lev :: "InflationLayer \<Rightarrow> int \<Rightarrow> nat" where
  "lev l d = below (squares_within (int (side l))) d"

definition spread_cost :: "InflationLayer \<Rightarrow> place \<Rightarrow> place \<Rightarrow> u8" where
  "spread_cost l p s = the (computeCost l (sqrt (real_of_int (dist2 p s))))"

definition pt :: "nat \<Rightarrow> nat \<Rightarrow> place" where
  "pt x y = (int x, int y)"

lemma pt_simps [simp]: "fst (pt x y) = int x" "snd (pt x y) = int y" "pt x y = pt x' y' \<longleftrightarrow> x = x' \<and> y = y'"
  by (simp_all add: pt_def)

lemma udiff_square: "(int (udiff a b))\<^sup>2 = (int a - int b)\<^sup>2"
  by (cases "b < a") (simp_all add: udiff_def of_nat_diff power2_commute)

lemma hypot_dist2: "hypot (udiff mx sx) (udiff my sy) = sqrt (real_of_int (dist2 (pt mx my) (pt sx sy)))"
proof -
  have "(real (udiff a b))\<^sup>2 = real_of_int ((int a - int b)\<^sup>2)" for a b
    by (metis udiff_square of_int_of_nat_eq of_int_power)
  then show ?thesis by (simp add: hypot_def dist2_def)
qed

lemma udiff_bound:
  assumes "dist2 (pt mx my) (pt sx sy) \<le> (int k)\<^sup>2"
  shows "udiff mx sx \<le> k" "udiff my sy \<le> k"
proof -
  have "(int (udiff mx sx))\<^sup>2 + (int (udiff my sy))\<^sup>2 \<le> (int k)\<^sup>2" using assms by (simp add: dist2_def udiff_square)
  then have "(int (udiff mx sx))\<^sup>2 \<le> (int k)\<^sup>2" "(int (udiff my sy))\<^sup>2 \<le> (int k)\<^sup>2"
    using zero_le_power2 [of "int (udiff mx sx)"] zero_le_power2 [of "int (udiff my sy)"] by linarith+
  then show "udiff mx sx \<le> k" "udiff my sy \<le> k" by (simp_all add: abs_le_square_iff [symmetric])
qed

lemma tables_okD:
  assumes "tables_ok l"
  shows "unat (cache_length l) = side l" "side l * side l < 2 ^ 32" "side l < 2 ^ 32"
    "unat (cell_inflation_radius l + 2) = side l"
proof -
  show "unat (cache_length l) = side l" "unat (cell_inflation_radius l + 2) = side l"
    using assms unfolding tables_ok_def by metis+
  have "int (side l * side l + side l * side l) < int (2 ^ 31)" using assms by (simp add: tables_ok_def)
  then have lt: "side l * side l + side l * side l < 2 ^ 31" by (simp only: of_nat_less_iff)
  have "side l * side l \<le> side l * side l + side l * side l" by simp
  also have "\<dots> < 2 ^ 31" by (rule lt)
  finally show *: "side l * side l < 2 ^ 32" by simp
  have "side l * 1 \<le> side l * side l" by (rule mult_le_mono2) (simp add: side_def)
  then show "side l < 2 ^ 32" using * by linarith
qed

lemma cache_index_less:
  assumes "tables_ok l" "udiff mx sx < side l" "udiff my sy < side l"
  shows "cache_index mx my sx sy l = udiff mx sx * side l + udiff my sy"
    "udiff mx sx * side l + udiff my sy < side l * side l"
proof -
  show "udiff mx sx * side l + udiff my sy < side l * side l" using row_index_less [OF assms(3,2)] .
  then show "cache_index mx my sx sy l = udiff mx sx * side l + udiff my sy"
    using tables_okD(1,2) [OF assms(1)] by (simp add: cache_index_def)
qed

lemma distanceLookup_eq:
  assumes "tables_ok l" "udiff mx sx < side l" "udiff my sy < side l"
  shows "distanceLookup mx my sx sy l = Some (sqrt (real_of_int (dist2 (pt mx my) (pt sx sy))))"
  using assms cache_index_less [OF assms] hypot_dist2 [of mx sx my sy]
  by (simp add: distanceLookup_def vec_at_def tables_ok_def)

lemma costLookup_eq:
  assumes "tables_ok l" "udiff mx sx < side l" "udiff my sy < side l"
  shows "costLookup mx my sx sy l = Some (spread_cost l (pt mx my) (pt sx sy))"
proof -
  have "computeCost l (hypot (udiff mx sx) (udiff my sy)) = Some (cached_costs l ! (udiff mx sx * side l + udiff my sy))"
    "length (cached_costs l) = side l * side l"
    using assms by (simp_all add: tables_ok_def)
  then show ?thesis
    using cache_index_less [OF assms] hypot_dist2 [of mx sx my sy]
    by (simp add: costLookup_def vec_at_def spread_cost_def)
qed

lemma tables_matrix:
  assumes "tables_ok l"
  shows "square_matrix (int (side l)) (distance_matrix l)"
    and "norm2 p \<le> int (side l) * int (side l) \<Longrightarrow>
      matrix_at (int (side l)) (distance_matrix l) p = below (squares_within (int (side l))) (norm2 p)"
    and "norm2 p \<le> int (side l) * int (side l) \<Longrightarrow>
      below (squares_within (int (side l))) (norm2 p) < length (inflation_cells l)"
proof -
  have r: "0 \<le> int (side l)" "int (side l) * int (side l) + int (side l) * int (side l) < 2 ^ 31"
    using assms by (simp_all add: tables_ok_def)
  obtain n m where g: "generateIntegerDistances (int (side l)) = Some (n, m)" "square_matrix (int (side l)) m"
    "\<And>p. norm2 p \<le> int (side l) * int (side l) \<Longrightarrow>
      matrix_at (int (side l)) m p = below (squares_within (int (side l))) (norm2 p)"
    "\<And>p. norm2 p \<le> int (side l) * int (side l) \<Longrightarrow> below (squares_within (int (side l))) (norm2 p) < n + 1"
    by (rule generateIntegerDistances_spec [OF r]) metis
  have "m = distance_matrix l" "length (inflation_cells l) = n + 1"
    using assms g(1) by (auto simp: tables_ok_def)
  then show "square_matrix (int (side l)) (distance_matrix l)"
    "norm2 p \<le> int (side l) * int (side l) \<Longrightarrow>
      matrix_at (int (side l)) (distance_matrix l) p = below (squares_within (int (side l))) (norm2 p)"
    "norm2 p \<le> int (side l) * int (side l) \<Longrightarrow>
      below (squares_within (int (side l))) (norm2 p) < length (inflation_cells l)"
    using g by simp_all
qed

lemma norm2_dist2: "norm2 (fst p - fst s, snd p - snd s) = dist2 p s"
  by (simp add: norm2_def dist2_def power2_eq_square)

lemma radius2_le: "radius2 l \<le> int (side l) * int (side l)"
  unfolding radius2_def side_def power2_eq_square by (intro mult_mono) auto

lemma lev_bound:
  assumes "tables_ok l" "dist2 p s \<le> radius2 l"
  shows "lev l (dist2 p s) < length (inflation_cells l)"
  using tables_matrix(3) [OF assms(1), of "(fst p - fst s, snd p - snd s)"] assms(2) radius2_le [of l]
  by (simp add: norm2_dist2 lev_def)

lemma level_at_eq:
  assumes "tables_ok l" "dist2 (pt mx my) (pt sx sy) \<le> radius2 l"
  shows "level_at mx my sx sy l = Some (lev l (dist2 (pt mx my) (pt sx sy)))"
proof -
  define r where "r = int (side l)"
  define p where "p = (int mx - int sx, int my - int sy)"
  have r: "0 \<le> r" "r * r + r * r < 2 ^ 31" using assms(1) by (simp_all add: r_def tables_ok_def)
  have norm: "norm2 p = dist2 (pt mx my) (pt sx sy)" using norm2_dist2 [of "pt mx my" "pt sx sy"] by (simp add: p_def)
  have le: "norm2 p \<le> r * r" using assms(2) norm radius2_le [of l] by (simp add: r_def)
  have sq: "in_square r p" by (rule norm2_bound [OF le r(1)])
  then have i: "0 \<le> fst p + r" "0 \<le> snd p + r" "nat (fst p + r) < nat (r * 2 + 1)" "nat (snd p + r) < nat (r * 2 + 1)"
    by (auto simp: in_square_def)
  have lt: "fst p + r < 2 ^ 32" "snd p + r < 2 ^ 32"
  proof -
    have "side l * 1 \<le> side l * side l" by (rule mult_le_mono2) (simp add: side_def)
    then have "r \<le> r * r" unfolding r_def by (simp only: of_nat_mult [symmetric] of_nat_le_iff mult_1_right)
    then have "2 * r < 2 ^ 31" using r(2) by linarith
    then show "fst p + r < 2 ^ 32" "snd p + r < 2 ^ 32" using sq by (auto simp: in_square_def)
  qed
  have "level_at mx my sx sy l = Some (matrix_at r (distance_matrix l) p)"
    using i lt tables_matrix(1) [OF assms(1)] tables_okD(4) [OF assms(1)]
    by (simp add: level_at_def Let_def vec_at_def matrix_at_def square_matrix_def p_def r_def)
  then show "level_at mx my sx sy l = Some (lev l (dist2 (pt mx my) (pt sx sy)))"
    using tables_matrix(2) [OF assms(1), of p] le norm by (simp add: r_def lev_def)
qed

section \<open>Levels and distances\<close>

lemma dist2_in_squares: "dist2 p s \<le> radius2 l \<Longrightarrow> dist2 p s \<in> squares_within (int (side l))"
  using radius2_le [of l] unfolding squares_within_def
  by (intro image_eqI [of _ _ "(fst p - fst s, snd p - snd s)"]) (simp_all add: norm2_dist2)

lemma lev_less:
  assumes "dist2 p s \<le> radius2 l" "dist2 p s < d"
  shows "lev l (dist2 p s) < lev l d"
  unfolding lev_def using below_strict [OF squares_within_finite dist2_in_squares [OF assms(1)] assms(2)] by simp

lemma lev_le:
  assumes "dist2 p s \<le> radius2 l" "lev l d \<le> lev l (dist2 p s)"
  shows "d \<le> dist2 p s"
  using lev_less [OF assms(1), of d] assms(2) by linarith

lemma lev_0 [simp]: "lev l 0 = 0"
  unfolding lev_def by (rule below_least) (auto simp: squares_within_def)

lemma lev_eq_0: "lev l (dist2 p s) \<le> 0 \<Longrightarrow> p = s"
  using lev_le [of s s l "dist2 p s"] dist2_nonneg [of p s] by (simp add: radius2_def dist2_eq_0)

section \<open>Handing on\<close>

definition waiting :: "nat \<Rightarrow> nat \<Rightarrow> nat \<Rightarrow> nat \<Rightarrow> CellData" where
  "waiting x y sx sy = \<lparr>cell_x = x, cell_y = y, src_x = sx, src_y = sy\<rparr>"

definition here :: "CellData \<Rightarrow> place" where
  "here c = pt (cell_x c) (cell_y c)"

definition source :: "CellData \<Rightarrow> place" where
  "source c = pt (src_x c) (src_y c)"

lemma waiting_eq: "c = waiting x y sx sy \<longleftrightarrow> here c = pt x y \<and> source c = pt sx sy"
  by (cases c) (simp add: waiting_def here_def source_def)

lemma waiting_simps [simp]: "here (waiting x y sx sy) = pt x y" "source (waiting x y sx sy) = pt sx sy"
  by (simp_all add: waiting_def here_def source_def)

definition handed :: "nat \<Rightarrow> nat \<times> nat \<Rightarrow> nat \<Rightarrow> nat \<Rightarrow> InflationLayer \<Rightarrow> bool" where
  "handed w q sx sy l \<longleftrightarrow> \<not> seen l ! (snd q * w + fst q) \<and> dist2 (pt (fst q) (snd q)) (pt sx sy) \<le> radius2 l"

lemma tables_ok_bins:
  "tables_ok (l\<lparr>inflation_cells := bs\<rparr>) \<longleftrightarrow> tables_ok l" if "length bs = length (inflation_cells l)"
  using that by (simp add: tables_ok_def side_def computeCost_def)

lemma radius_sqrt: "real (unat (cell_inflation_radius l)) < sqrt (real_of_int (dist2 p s)) \<longleftrightarrow> radius2 l < dist2 p s"
proof -
  have "real (unat (cell_inflation_radius l)) = sqrt (real_of_int (radius2 l))" by (simp add: radius2_def del: of_nat_unat)
  then show ?thesis by simp
qed

lemma enqueue_eq:
  assumes "tables_ok l" "y * w + x < length (seen l)" "udiff x sx < side l" "udiff y sy < side l"
  shows "enqueue (y * w + x) x y sx sy l =
    Some (if handed w (x, y) sx sy l
      then l\<lparr>inflation_cells := (inflation_cells l)[lev l (dist2 (pt x y) (pt sx sy)) :=
        inflation_cells l ! lev l (dist2 (pt x y) (pt sx sy)) @ [waiting x y sx sy]]\<rparr> else l)"
proof (cases "handed w (x, y) sx sy l")
  case True
  then have h: "\<not> seen l ! (y * w + x)" "dist2 (pt x y) (pt sx sy) \<le> radius2 l" by (simp_all add: handed_def)
  note level_at_eq [OF assms(1) h(2)] lev_bound [OF assms(1) h(2)]
  then show ?thesis
    using assms h True distanceLookup_eq [OF assms(1,3,4)]
    by (simp add: enqueue_def vec_at_def radius_sqrt waiting_def del: of_nat_unat)
next
  case False
  then show ?thesis
    using assms distanceLookup_eq [OF assms(1,3,4)] by (auto simp: enqueue_def vec_at_def radius_sqrt handed_def simp del: of_nat_unat)
qed

text \<open>Handing on to several cells, one after the other.\<close>

fun hand_on :: "nat \<Rightarrow> (nat \<times> nat) list \<Rightarrow> nat \<Rightarrow> nat \<Rightarrow> InflationLayer \<Rightarrow> InflationLayer option" where
  "hand_on w [] sx sy l = Some l"
| "hand_on w (q # qs) sx sy l =
    Option.bind (enqueue (snd q * w + fst q) (fst q) (snd q) sx sy l) (hand_on w qs sx sy)"

lemma hand_on_spec:
  assumes "tables_ok l" "\<forall>q\<in>set qs. snd q * w + fst q < length (seen l) \<and> udiff (fst q) sx < side l \<and> udiff (snd q) sy < side l"
  shows "\<exists>bs. hand_on w qs sx sy l = Some (l\<lparr>inflation_cells := bs\<rparr>) \<and> length bs = length (inflation_cells l) \<and>
    (\<forall>k < length bs. bs ! k = inflation_cells l ! k @
      map (\<lambda>q. waiting (fst q) (snd q) sx sy)
        (filter (\<lambda>q. handed w q sx sy l \<and> lev l (dist2 (pt (fst q) (snd q)) (pt sx sy)) = k) qs))"
  using assms
proof (induction qs arbitrary: l)
  case Nil
  then show ?case by (intro exI [of _ "inflation_cells l"]) simp
next
  case (Cons q qs)
  define k0 where "k0 = lev l (dist2 (pt (fst q) (snd q)) (pt sx sy))"
  define b1 where "b1 = (if handed w q sx sy l
    then (inflation_cells l)[k0 := inflation_cells l ! k0 @ [waiting (fst q) (snd q) sx sy]] else inflation_cells l)"
  define l1 where "l1 = l\<lparr>inflation_cells := b1\<rparr>"
  have e: "enqueue (snd q * w + fst q) (fst q) (snd q) sx sy l = Some l1"
    using enqueue_eq [OF Cons.prems(1), of "snd q" w "fst q" sx sy] Cons.prems(2) by (simp add: l1_def b1_def k0_def)
  have len: "length b1 = length (inflation_cells l)" by (simp add: b1_def)
  have same: "seen l1 = seen l" "side l1 = side l" "handed w p sx sy l1 = handed w p sx sy l" "lev l1 d = lev l d" for p d
    by (simp_all add: l1_def side_def handed_def radius2_def lev_def)
  have ok: "tables_ok l1" using tables_ok_bins [OF len] Cons.prems(1) by (simp add: l1_def)
  have "\<forall>q\<in>set qs. snd q * w + fst q < length (seen l1) \<and> udiff (fst q) sx < side l1 \<and> udiff (snd q) sy < side l1"
    using Cons.prems(2) same by simp
  from Cons.IH [OF ok this] obtain bs where
    bs: "hand_on w qs sx sy l1 = Some (l1\<lparr>inflation_cells := bs\<rparr>)" "length bs = length (inflation_cells l1)"
    "\<forall>k < length bs. bs ! k = inflation_cells l1 ! k @ map (\<lambda>q. waiting (fst q) (snd q) sx sy)
        (filter (\<lambda>q. handed w q sx sy l1 \<and> lev l1 (dist2 (pt (fst q) (snd q)) (pt sx sy)) = k) qs)" by blast
  have lt: "k0 < length (inflation_cells l)" if "handed w q sx sy l"
    using lev_bound [OF Cons.prems(1), of "pt (fst q) (snd q)" "pt sx sy"] that by (simp add: handed_def k0_def)
  show ?case
  proof (intro exI [of _ bs] conjI)
    show "hand_on w (q # qs) sx sy l = Some (l\<lparr>inflation_cells := bs\<rparr>)" using e bs(1) by (simp add: l1_def)
    show "length bs = length (inflation_cells l)" using bs(2) len by (simp add: l1_def)
    show "\<forall>k < length bs. bs ! k = inflation_cells l ! k @ map (\<lambda>q. waiting (fst q) (snd q) sx sy)
        (filter (\<lambda>q. handed w q sx sy l \<and> lev l (dist2 (pt (fst q) (snd q)) (pt sx sy)) = k) (q # qs))"
      using bs(2,3) lt len by (auto simp: same k0_def [symmetric]) (simp_all add: l1_def b1_def nth_list_update)
  qed
qed

definition neighbours :: "nat \<Rightarrow> nat \<Rightarrow> nat \<Rightarrow> nat \<Rightarrow> (nat \<times> nat) list" where
  "neighbours w h x y = (if 0 < x then [(x - 1, y)] else []) @ (if 0 < y then [(x, y - 1)] else []) @
     (if x < w - 1 then [(x + 1, y)] else []) @ (if y < h - 1 then [(x, y + 1)] else [])"

lemma beside_pt:
  "beside (pt x y) (pt a b) \<longleftrightarrow> (a = x \<and> (b = Suc y \<or> y = Suc b)) \<or> (b = y \<and> (a = Suc x \<or> x = Suc a))"
  unfolding beside_def pt_simps by presburger

lemma neighbours_set:
  assumes "x < w" "y < h"
  shows "(a, b) \<in> set (neighbours w h x y) \<longleftrightarrow> beside (pt x y) (pt a b) \<and> a < w \<and> b < h"
  using assms unfolding beside_pt by (auto simp: neighbours_def)

lemma on_grid_pt: "on_grid w h p \<longleftrightarrow> (\<exists>x y. p = pt x y \<and> x < w \<and> y < h)"
proof
  assume "on_grid w h p"
  then show "\<exists>x y. p = pt x y \<and> x < w \<and> y < h"
    by (rule_tac exI [of _ "nat (fst p)"], rule_tac exI [of _ "nat (snd p)"]) (auto simp: on_grid_def pt_def prod_eq_iff nat_less_iff)
qed (auto simp: on_grid_def)

lemma hand_on_append: "hand_on w (ps @ qs) sx sy l = Option.bind (hand_on w ps sx sy l) (hand_on w qs sx sy)"
proof (induction ps arbitrary: l)
  case (Cons p ps)
  then show ?case by (cases "enqueue (snd p * w + fst p) (fst p) (snd p) sx sy l") simp_all
qed simp

lemma hand_on_nil: "hand_on w [] sx sy = Some"
  by (simp add: fun_eq_iff)

lemma hand_on_one: "hand_on w [q] sx sy = enqueue (snd q * w + fst q) (fst q) (snd q) sx sy"
  by (simp add: fun_eq_iff hand_on_nil)

lemma enqueue_neighbours_hand_on:
  assumes "0 < unat (size_x m)" "0 < unat (size_y m)" "cell_x c < unat (size_x m)"
  shows "enqueue_neighbours m (cell_y c * unat (size_x m) + cell_x c) c l =
    hand_on (unat (size_x m)) (neighbours (unat (size_x m)) (unat (size_y m)) (cell_x c) (cell_y c)) (src_x c) (src_y c) l"
proof -
  define w where "w = unat (size_x m)"
  define x where "x = cell_x c"
  define y where "y = cell_y c"
  have last: "unat (size_x m - 1) = w - 1" "unat (size_y m - 1) = unat (size_y m) - 1"
    using assms(1,2) unfolding w_def by (simp_all add: unat_sub word_le_nat_alt)
  have idx: "0 < x \<Longrightarrow> y * w + x - 1 = y * w + (x - 1)" "0 < y \<Longrightarrow> y * w + x - w = (y - 1) * w + x"
    "y * w + x + w = (y + 1) * w + x"
    by (simp_all add: diff_mult_distrib)
  show ?thesis
    unfolding w_def [symmetric] x_def [symmetric] y_def [symmetric] neighbours_def hand_on_append
      enqueue_neighbours_def Let_def last
    using idx by (cases "0 < x"; cases "0 < y") (simp_all add: ac_simps hand_on_nil hand_on_one)
qed

section \<open>The invariant of the bins\<close>

definition side_by_side :: "costmap2d \<Rightarrow> InflationLayer \<Rightarrow> costmap2d \<Rightarrow> InflationLayer \<Rightarrow> bool" where
  "side_by_side m0 l0 m l \<longleftrightarrow> same_frame m0 m \<and> map_ok m \<and>
    (\<exists>S B. l = l0\<lparr>seen := S, inflation_cells := B\<rparr> \<and> length S = unat (size_x m0) * unat (size_y m0) \<and>
      length B = length (inflation_cells l0))"

definition entry_ok :: "nat \<Rightarrow> nat \<Rightarrow> InflationLayer \<Rightarrow> place set \<Rightarrow> (place \<times> place) list \<Rightarrow> nat \<Rightarrow> CellData \<Rightarrow> bool" where
  "entry_ok w h l0 Obs H k c \<longleftrightarrow> on_grid w h (here c) \<and> source c \<in> Obs \<and>
    dist2 (here c) (source c) \<le> radius2 l0 \<and> lev l0 (dist2 (here c) (source c)) = k \<and>
    (here c = source c \<or> (\<exists>x. (x, source c) \<in> set H \<and> beside x (here c)))"

definition pending :: "nat \<Rightarrow> nat \<Rightarrow> CellData list list \<Rightarrow> nat \<Rightarrow> CellData list" where
  "pending b i bs k = (if k = b then drop i (bs ! k) else bs ! k)"

definition awaits :: "nat \<Rightarrow> nat \<Rightarrow> CellData list list \<Rightarrow> InflationLayer \<Rightarrow> place \<Rightarrow> place \<Rightarrow> bool" where
  "awaits b i bs l0 p s \<longleftrightarrow> lev l0 (dist2 p s) < length bs \<and>
    (\<exists>c\<in>set (pending b i bs (lev l0 (dist2 p s))). here c = p \<and> source c = s)"

definition bins_inv :: "nat \<Rightarrow> nat \<Rightarrow> InflationLayer \<Rightarrow> place set \<Rightarrow> nat \<Rightarrow> nat \<Rightarrow> bool list \<Rightarrow> CellData list list \<Rightarrow>
    (place \<times> place) list \<Rightarrow> bool" where
  "bins_inv w h l0 Obs b i S bs H \<longleftrightarrow> wave Obs (radius2 l0) H \<and>
    (\<forall>p. reached H p \<longrightarrow> on_grid w h p) \<and>
    (\<forall>x < w. \<forall>y < h. S ! (y * w + x) \<longleftrightarrow> reached H (pt x y)) \<and>
    (\<forall>k < b. k < length bs \<longrightarrow> bs ! k = []) \<and>
    (\<forall>k < length bs. \<forall>c\<in>set (bs ! k). entry_ok w h l0 Obs H k c) \<and>
    (\<forall>x t. (x, t) \<in> set H \<longrightarrow> lev l0 (dist2 x t) \<le> b) \<and>
    (\<forall>x t y. (x, t) \<in> set H \<longrightarrow> beside x y \<longrightarrow> on_grid w h y \<longrightarrow> dist2 y t \<le> radius2 l0 \<longrightarrow>
      reached H y \<or> awaits b i bs l0 y t) \<and>
    (\<forall>ob\<in>Obs. (ob, ob) \<in> set H \<or> awaits b i bs l0 ob ob)"

lemma bins_invD:
  assumes "bins_inv w h l0 Obs b i S bs H"
  shows "wave Obs (radius2 l0) H" "\<And>p. reached H p \<Longrightarrow> on_grid w h p"
    "\<And>x y. x < w \<Longrightarrow> y < h \<Longrightarrow> S ! (y * w + x) \<longleftrightarrow> reached H (pt x y)"
    "\<And>k. k < b \<Longrightarrow> k < length bs \<Longrightarrow> bs ! k = []"
    "\<And>k c. k < length bs \<Longrightarrow> c \<in> set (bs ! k) \<Longrightarrow> entry_ok w h l0 Obs H k c"
    "\<And>x t. (x, t) \<in> set H \<Longrightarrow> lev l0 (dist2 x t) \<le> b"
    "\<And>x t y. (x, t) \<in> set H \<Longrightarrow> beside x y \<Longrightarrow> on_grid w h y \<Longrightarrow> dist2 y t \<le> radius2 l0 \<Longrightarrow>
      reached H y \<or> awaits b i bs l0 y t"
    "\<And>ob. ob \<in> Obs \<Longrightarrow> (ob, ob) \<in> set H \<or> awaits b i bs l0 ob ob"
  using assms unfolding bins_inv_def by blast+

lemma awaits_next:
  assumes "awaits b i bs l0 p s" "i < length (bs ! b)"
  shows "here (bs ! b ! i) = p \<and> source (bs ! b ! i) = s \<and> lev l0 (dist2 p s) = b \<or> awaits b (Suc i) bs l0 p s"
proof -
  define k where "k = lev l0 (dist2 p s)"
  obtain c where c: "k < length bs" "c \<in> set (pending b i bs k)" "here c = p" "source c = s"
    using assms(1) unfolding awaits_def k_def by blast
  show ?thesis
  proof (cases "k = b")
    case True
    have "set (drop i (bs ! b)) = insert (bs ! b ! i) (set (drop (Suc i) (bs ! b)))"
      by (subst Cons_nth_drop_Suc [OF assms(2), symmetric]) simp
    then have "c = bs ! b ! i \<or> c \<in> set (pending b (Suc i) bs k)" using c(2) True by (simp add: pending_def)
    then show ?thesis using c True unfolding awaits_def k_def by blast
  next
    case False
    then have "c \<in> set (pending b (Suc i) bs k)" using c(2) by (simp add: pending_def)
    then show ?thesis using c unfolding awaits_def k_def by blast
  qed
qed

text \<open>A cell that was reached meanwhile is skipped.\<close>

lemma bins_inv_skip:
  assumes inv: "bins_inv w h l0 Obs b i S bs H" and i: "b < length bs" "i < length (bs ! b)"
    and old: "reached H (here (bs ! b ! i))"
  shows "bins_inv w h l0 Obs b (Suc i) S bs H"
proof -
  note D = bins_invD [OF inv]
  have front: "reached H y \<or> awaits b (Suc i) bs l0 y t"
    if "(x, t) \<in> set H" "beside x y" "on_grid w h y" "dist2 y t \<le> radius2 l0" for x t y
    using D(7) [OF that] awaits_next [OF _ i(2), of l0 y t] old by auto
  have obs: "(ob, ob) \<in> set H \<or> awaits b (Suc i) bs l0 ob ob" if ob: "ob \<in> Obs" for ob
  proof -
    consider "(ob, ob) \<in> set H" | "here (bs ! b ! i) = ob" "lev l0 (dist2 ob ob) = b" | "awaits b (Suc i) bs l0 ob ob"
      using D(8) [OF ob] awaits_next [OF _ i(2), of l0 ob ob] by blast
    then show ?thesis
    proof cases
      case 2
      then obtain t where t: "(ob, t) \<in> set H" using old unfolding reached_iff by blast
      have "lev l0 (dist2 ob t) \<le> 0" using D(6) [OF t] 2(2) by simp
      then have "ob = t" by (rule lev_eq_0)
      then show ?thesis using t by simp
    qed blast+
  qed
  show ?thesis unfolding bins_inv_def
  proof (intro conjI)
    show "\<forall>x t y. (x, t) \<in> set H \<longrightarrow> beside x y \<longrightarrow> on_grid w h y \<longrightarrow> dist2 y t \<le> radius2 l0 \<longrightarrow>
      reached H y \<or> awaits b (Suc i) bs l0 y t" using front by blast
    show "\<forall>ob\<in>Obs. (ob, ob) \<in> set H \<or> awaits b (Suc i) bs l0 ob ob" using obs by blast
  qed (use inv in \<open>simp_all add: bins_inv_def\<close>)
qed

text \<open>A new cell joins the wave and hands its obstacle on; nothing of it falls into an earlier bin.\<close>

lemma wave_cons_known: "wave Obs r2 ((p, s) # H) \<Longrightarrow> beside q p \<Longrightarrow> dist2 q s < dist2 p s \<Longrightarrow> reached H q"
  unfolding wave.simps reached_iff by blast

definition hands :: "nat \<Rightarrow> nat \<Rightarrow> InflationLayer \<Rightarrow> bool list \<Rightarrow> CellData \<Rightarrow> CellData list list \<Rightarrow> CellData list list \<Rightarrow> bool" where
  "hands w h l0 S c bs bs' \<longleftrightarrow> length bs' = length bs \<and>
    (\<forall>k < length bs. \<exists>new. bs' ! k = bs ! k @ new \<and>
      (\<forall>d. d \<in> set new \<longleftrightarrow> beside (here c) (here d) \<and> cell_x d < w \<and> cell_y d < h \<and> source d = source c \<and>
        \<not> S ! (cell_y d * w + cell_x d) \<and> dist2 (here d) (source c) \<le> radius2 l0 \<and>
        lev l0 (dist2 (here d) (source c)) = k))"

lemma bins_inv_visit:
  assumes inv: "bins_inv w h l0 Obs b i S bs H" and i: "b < length bs" "i < length (bs ! b)"
    and c: "c = bs ! b ! i" "\<not> reached H (here c)" and obs: "\<And>ob. ob \<in> Obs \<Longrightarrow> on_grid w h ob"
    and len: "length S = w * h"
    and S': "S' = S[cell_y c * w + cell_x c := True]"
    and bs': "hands w h l0 S' c bs bs'"
    and lt: "\<And>p s. dist2 p s \<le> radius2 l0 \<Longrightarrow> lev l0 (dist2 p s) < length bs"
  shows "bins_inv w h l0 Obs b (Suc i) S' bs' ((here c, source c) # H) \<and> bs' ! b = bs ! b"
proof -
  note D = bins_invD [OF inv]
  define p where "p = here c"
  define s where "s = source c"
  define H' where "H' = (p, s) # H"
  have e: "entry_ok w h l0 Obs H b c" by (rule D(5) [OF i(1)]) (use i c(1) in simp)
  then have p: "on_grid w h p" "s \<in> Obs" "dist2 p s \<le> radius2 l0" "lev l0 (dist2 p s) = b"
    "p = s \<or> (\<exists>x. (x, s) \<in> set H \<and> beside x p)"
    unfolding entry_ok_def p_def s_def by blast+
  have early: "\<not> awaits b i bs l0 y t" if "dist2 y t \<le> radius2 l0" "dist2 y t < dist2 p s" for y t
  proof -
    have "lev l0 (dist2 y t) < b" using lev_less [OF that] p(4) by simp
    then show ?thesis using D(4) [of "lev l0 (dist2 y t)"] by (auto simp: awaits_def pending_def)
  qed
  have wave: "wave Obs (radius2 l0) H'"
    unfolding H'_def
  proof (rule wave_step [where w = w and h = h])
    show "wave Obs (radius2 l0) H" by (rule D(1))
    show "\<not> reached H p" using c(2) by (simp add: p_def)
    show "s \<in> Obs" "dist2 p s \<le> radius2 l0" "p = s \<or> (\<exists>x. (x, s) \<in> set H \<and> beside x p)" "on_grid w h p" "on_grid w h s"
      using p obs by blast+
    show "dist2 x t \<le> dist2 p s" if "(x, t) \<in> set H" for x t
      using lev_le [OF p(3)] D(6) [OF that] p(4) by simp
    show "reached H y" if "(x, t) \<in> set H" "beside x y" "on_grid w h y" "dist2 y t < dist2 p s" for x t y
      using D(7) [OF that(1-3)] early [of y t] that(4) p(3) by simp
  qed
  have reached': "reached H' q \<longleftrightarrow> q = p \<or> reached H q" for q by (auto simp: H'_def reached_def)
  have own: "cell_x c < w" "cell_y c < h" "p = pt (cell_x c) (cell_y c)"
    using p(1) by (auto simp: on_grid_pt p_def here_def)
  have seen': "S' ! (y * w + x) \<longleftrightarrow> reached H' (pt x y)" if "x < w" "y < h" for x y
  proof -
    have "cell_y c * w + cell_x c < length S" using own len row_index_less by simp
    moreover have "cell_y c * w + cell_x c = y * w + x \<longleftrightarrow> cell_y c = y \<and> cell_x c = x"
      by (rule row_index_eq) (use own that in auto)
    ultimately show ?thesis using D(3) [OF that] own(3) by (auto simp: S' reached' nth_list_update)
  qed
  have step: "\<exists>new. bs' ! k = bs ! k @ new \<and> (\<forall>d. d \<in> set new \<longleftrightarrow> beside p (here d) \<and> on_grid w h (here d) \<and>
      source d = s \<and> \<not> reached H' (here d) \<and> dist2 (here d) s \<le> radius2 l0 \<and> lev l0 (dist2 (here d) s) = k)"
    if k: "k < length bs" for k
  proof -
    obtain new where new: "bs' ! k = bs ! k @ new" "\<And>d. d \<in> set new \<longleftrightarrow> beside (here c) (here d) \<and> cell_x d < w \<and>
        cell_y d < h \<and> source d = source c \<and> \<not> S' ! (cell_y d * w + cell_x d) \<and>
        dist2 (here d) (source c) \<le> radius2 l0 \<and> lev l0 (dist2 (here d) (source c)) = k"
      using bs' k unfolding hands_def by blast
    have "cell_x d < w \<and> cell_y d < h \<and> \<not> S' ! (cell_y d * w + cell_x d) \<longleftrightarrow> on_grid w h (here d) \<and> \<not> reached H' (here d)" for d
      using seen' [of "cell_x d" "cell_y d"] by (auto simp: on_grid_pt here_def)
    then show ?thesis using new unfolding p_def s_def by blast
  qed
  have later: "b < lev l0 (dist2 y s)" if "beside p y" "\<not> reached H' y" "dist2 y s \<le> radius2 l0" for y
  proof -
    have "dist2 y s \<noteq> dist2 p s" using dist2_beside_neq [OF that(1)] .
    moreover have "\<not> dist2 y s < dist2 p s"
      using wave_cons_known [OF wave [unfolded H'_def] beside_sym [OF that(1)]] that(2) reached' by blast
    ultimately have "dist2 p s < dist2 y s" by linarith
    from lev_less [OF p(3) this] show ?thesis using p(4) by simp
  qed
  have keep: "bs' ! k = bs ! k" if le: "k \<le> b" "k < length bs" for k
  proof -
    obtain new where "bs' ! k = bs ! k @ new" "\<forall>d. d \<in> set new \<longleftrightarrow> beside p (here d) \<and> on_grid w h (here d) \<and>
      source d = s \<and> \<not> reached H' (here d) \<and> dist2 (here d) s \<le> radius2 l0 \<and> lev l0 (dist2 (here d) s) = k"
      using step [OF le(2)] by blast
    moreover have "new = []"
    proof (rule ccontr)
      assume "new \<noteq> []"
      then obtain d where "d \<in> set new" by (cases new) auto
      then have "beside p (here d)" "\<not> reached H' (here d)" "dist2 (here d) s \<le> radius2 l0" "lev l0 (dist2 (here d) s) = k"
        using calculation(2) by blast+
      then show False using later [of "here d"] le(1) by simp
    qed
    ultimately show ?thesis by simp
  qed
  have len': "length bs' = length bs" using bs' by (simp add: hands_def)
  have still: "awaits b j bs' l0 y t" if aw: "awaits b j bs l0 y t" for j y t
  proof -
    define k where "k = lev l0 (dist2 y t)"
    obtain d where d: "k < length bs" "d \<in> set (pending b j bs k)" "here d = y" "source d = t"
      using aw unfolding awaits_def k_def by blast
    have "d \<in> set (pending b j bs' k)"
    proof (cases "k = b")
      case True
      then show ?thesis using d keep [of b] by (simp add: pending_def)
    next
      case False
      then show ?thesis using d step [OF d(1)] by (auto simp: pending_def)
    qed
    then show ?thesis using d len' unfolding awaits_def k_def by auto
  qed
  have moved: "y = p \<or> awaits b (Suc i) bs' l0 y t" if "awaits b i bs l0 y t" for y t
    using awaits_next [OF that i(2)] still c(1) p_def by blast
  show ?thesis
  proof
    show "bs' ! b = bs ! b" using keep i(1) by simp
    have "bins_inv w h l0 Obs b (Suc i) S' bs' H'"
      unfolding bins_inv_def
    proof (intro conjI allI impI ballI)
      show "wave Obs (radius2 l0) H'" by (rule wave)
      show "on_grid w h q" if "reached H' q" for q using that D(2) [of q] p(1) reached' [of q] by auto
      show "S' ! (y * w + x) \<longleftrightarrow> reached H' (pt x y)" if "x < w" "y < h" for x y by (rule seen' [OF that])
      show "bs' ! k = []" if "k < b" "k < length bs'" for k using keep D(4) that len' by simp
      show "entry_ok w h l0 Obs H' k d" if "k < length bs'" "d \<in> set (bs' ! k)" for k d
      proof -
        have k: "k < length bs" using that(1) len' by simp
        obtain new where new: "bs' ! k = bs ! k @ new" "\<forall>d. d \<in> set new \<longleftrightarrow> beside p (here d) \<and> on_grid w h (here d) \<and>
          source d = s \<and> \<not> reached H' (here d) \<and> dist2 (here d) s \<le> radius2 l0 \<and> lev l0 (dist2 (here d) s) = k"
          using step [OF k] by blast
        show ?thesis
        proof (cases "d \<in> set new")
          case True
          then have "beside p (here d)" "on_grid w h (here d)" "source d = s" "dist2 (here d) s \<le> radius2 l0"
            "lev l0 (dist2 (here d) s) = k" using new(2) by blast+
          moreover have "(p, s) \<in> set H'" by (simp add: H'_def)
          ultimately show ?thesis using p(2) unfolding entry_ok_def by blast
        next
          case False
          then have "d \<in> set (bs ! k)" using that(2) new(1) by simp
          from D(5) [OF k this] show ?thesis unfolding entry_ok_def H'_def by auto
        qed
      qed
      show "lev l0 (dist2 x t) \<le> b" if "(x, t) \<in> set H'" for x t using that D(6) [of x t] p(4) by (auto simp: H'_def)
      show "reached H' y \<or> awaits b (Suc i) bs' l0 y t"
        if xt: "(x, t) \<in> set H'" "beside x y" "on_grid w h y" "dist2 y t \<le> radius2 l0" for x t y
      proof (cases "(x, t) = (p, s)")
        case True
        show ?thesis
        proof (cases "reached H' y")
          case False
          define k where "k = lev l0 (dist2 y s)"
          have k: "k < length bs" "b < k" using lt xt(4) later [of y] True xt(2) False by (auto simp: k_def)
          obtain a a' where y: "y = pt a a'" using xt(3) by (auto simp: on_grid_pt)
          define d where "d = waiting a a' (src_x c) (src_y c)"
          have d: "here d = y" "source d = s" by (simp_all add: d_def y s_def source_def here_def waiting_def)
          obtain new where "bs' ! k = bs ! k @ new" "\<forall>d. d \<in> set new \<longleftrightarrow> beside p (here d) \<and> on_grid w h (here d) \<and>
            source d = s \<and> \<not> reached H' (here d) \<and> dist2 (here d) s \<le> radius2 l0 \<and> lev l0 (dist2 (here d) s) = k"
            using step [OF k(1)] by blast
          then have "d \<in> set (bs' ! k)" using d xt True False k_def by simp
          then show ?thesis
            using d k len' True unfolding awaits_def pending_def k_def by auto
        qed simp
      next
        case False
        then have "(x, t) \<in> set H" using xt(1) by (auto simp: H'_def)
        from D(7) [OF this xt(2-4)] show ?thesis using moved reached' by blast
      qed
      show "(ob, ob) \<in> set H' \<or> awaits b (Suc i) bs' l0 ob ob" if ob: "ob \<in> Obs" for ob
      proof -
        consider "(ob, ob) \<in> set H" | "c = bs ! b ! i" "here c = ob" "source c = ob" | "awaits b (Suc i) bs l0 ob ob"
          using D(8) [OF ob] awaits_next [OF _ i(2), of l0 ob ob] c(1) by blast
        then show ?thesis
        proof cases
          case 2
          then show ?thesis by (simp add: H'_def p_def s_def)
        qed (use still in \<open>auto simp: H'_def\<close>)
      qed
    qed
    then show "bins_inv w h l0 Obs b (Suc i) S' bs' ((here c, source c) # H)" by (simp add: H'_def p_def s_def)
  qed
qed

section \<open>The program follows the invariant\<close>

lemma fields_kept [simp]:
  "side (l\<lparr>seen := S, inflation_cells := B\<rparr>) = side l" "radius2 (l\<lparr>seen := S, inflation_cells := B\<rparr>) = radius2 l"
  "lev (l\<lparr>seen := S, inflation_cells := B\<rparr>) d = lev l d"
  "spread_cost (l\<lparr>seen := S, inflation_cells := B\<rparr>) p s = spread_cost l p s"
  "inflated (l\<lparr>seen := S, inflation_cells := B\<rparr>) old c = inflated l old c"
  by (simp_all add: side_def radius2_def lev_def spread_cost_def computeCost_def inflated_def)

lemma fields_seen [simp]:
  "side (l\<lparr>seen := S\<rparr>) = side l" "radius2 (l\<lparr>seen := S\<rparr>) = radius2 l" "lev (l\<lparr>seen := S\<rparr>) d = lev l d"
  "spread_cost (l\<lparr>seen := S\<rparr>) p s = spread_cost l p s" "inflated (l\<lparr>seen := S\<rparr>) old c = inflated l old c"
  by (simp_all add: side_def radius2_def lev_def spread_cost_def computeCost_def inflated_def)

lemma tables_ok_kept:
  "length B = length (inflation_cells l) \<Longrightarrow> tables_ok (l\<lparr>seen := S, inflation_cells := B\<rparr>) \<longleftrightarrow> tables_ok l"
  by (simp add: tables_ok_def side_def computeCost_def)

lemma nat_index:
  assumes "map_ok m" "x < unat (size_x m)" "y < unat (size_y m)"
  shows "unat (getIndex m (of_nat x) (of_nat y)) = y * unat (size_x m) + x"
    "y * unat (size_x m) + x < unat (size_x m) * unat (size_y m)"
    "getCost_at m (getIndex m (of_nat x) (of_nat y)) = Some (cell m x y)"
proof -
  have "x < 2 ^ 32" "y < 2 ^ 32"
    using assms(2,3) unat_less_u32 [of "size_x m"] unat_less_u32 [of "size_y m"] by linarith+
  then have un: "unat (of_nat x :: u32) = x" "unat (of_nat y :: u32) = y" by (simp_all add: unsigned_of_nat take_bit_nat_eq_self)
  have lt: "of_nat x < size_x m" "of_nat y < size_y m" using assms(2,3) by (simp_all add: word_less_nat_alt un)
  show "unat (getIndex m (of_nat x) (of_nat y)) = y * unat (size_x m) + x"
    "y * unat (size_x m) + x < unat (size_x m) * unat (size_y m)"
    using index_less [OF assms(1) lt] by (simp_all add: un)
  show "getCost_at m (getIndex m (of_nat x) (of_nat y)) = Some (cell m x y)"
    using getCost_cell [OF assms(1) lt] by (simp add: un getCost_def)
qed

definition written :: "nat \<Rightarrow> nat \<Rightarrow> u8 \<Rightarrow> costmap2d \<Rightarrow> costmap2d" where
  "written x y v m = m\<lparr>costmap := map_option (\<lambda>cells. cells[y * unat (size_x m) + x := v]) (costmap m)\<rparr>"

lemma written_spec:
  assumes "map_ok m" "x < unat (size_x m)" "y < unat (size_y m)"
  shows "map_ok (written x y v m)" "same_frame m (written x y v m)"
    and "a < unat (size_x m) \<Longrightarrow> b < unat (size_y m) \<Longrightarrow>
      cell (written x y v m) a b = (if a = x \<and> b = y then v else cell m a b)"
proof -
  obtain cells where cells: "costmap m = Some cells" "length cells = unat (size_x m) * unat (size_y m)"
    using assms(1) by (rule map_okE)
  show "map_ok (written x y v m)" using assms(1) cells by (simp add: written_def map_ok_def)
  show "same_frame m (written x y v m)" unfolding same_frame_def written_def by blast
  assume ab: "a < unat (size_x m)" "b < unat (size_y m)"
  have "y * unat (size_x m) + x < length cells" using row_index_less [OF assms(2,3)] cells(2) by simp
  moreover have "b * unat (size_x m) + a = y * unat (size_x m) + x \<longleftrightarrow> b = y \<and> a = x"
    by (rule row_index_eq [OF ab(1) assms(2)])
  ultimately show "cell (written x y v m) a b = (if a = x \<and> b = y then v else cell m a b)"
    using cells by (auto simp: cell_def written_def nth_list_update)
qed

lemma visit_old:
  assumes "map_ok m" "cell_x c < unat (size_x m)" "cell_y c < unat (size_y m)"
    and "length (seen l) = unat (size_x m) * unat (size_y m)" "seen l ! (cell_y c * unat (size_x m) + cell_x c)"
  shows "visit x0 y0 xn yn c (m, l) = Some (m, l)"
  using nat_index [OF assms(1-3)] assms(4,5) by (simp add: visit_def Let_def vec_at_def)

lemma visit_new:
  assumes ok: "map_ok m" and own: "cell_x c < unat (size_x m)" "cell_y c < unat (size_y m)"
    and len: "length (seen l) = unat (size_x m) * unat (size_y m)" and new: "\<not> seen l ! (cell_y c * unat (size_x m) + cell_x c)"
    and tab: "tables_ok l" and le: "dist2 (here c) (source c) \<le> radius2 l"
  shows "\<exists>bs'. visit x0 y0 xn yn c (m, l) =
      Some (if inside x0 y0 xn yn (cell_x c) (cell_y c)
          then written (cell_x c) (cell_y c) (inflated l (cell m (cell_x c) (cell_y c)) (spread_cost l (here c) (source c))) m
          else m,
        l\<lparr>seen := (seen l)[cell_y c * unat (size_x m) + cell_x c := True], inflation_cells := bs'\<rparr>) \<and>
    hands (unat (size_x m)) (unat (size_y m)) l ((seen l)[cell_y c * unat (size_x m) + cell_x c := True]) c
      (inflation_cells l) bs'"
proof -
  define w where "w = unat (size_x m)"
  define h where "h = unat (size_y m)"
  define x where "x = cell_x c"
  define y where "y = cell_y c"
  define sx where "sx = src_x c"
  define sy where "sy = src_y c"
  note idx = nat_index [OF ok own]
  define S where "S = (seen l)[y * w + x := True]"
  define l1 where "l1 = l\<lparr>seen := S, inflation_cells := inflation_cells l\<rparr>"
  have l1: "l\<lparr>seen := S\<rparr> = l1" by (simp add: l1_def)
  have tab1: "tables_ok l1" unfolding l1_def by (subst tables_ok_kept) (use tab in simp_all)
  have near: "udiff x sx \<le> unat (cell_inflation_radius l)" "udiff y sy \<le> unat (cell_inflation_radius l)"
    using udiff_bound [of x y sx sy "unat (cell_inflation_radius l)"] le
    by (simp_all add: radius2_def here_def source_def x_def y_def sx_def sy_def)
  have side1: "side l1 = side l" by (simp add: l1_def)
  have cost: "costLookup x y sx sy l1 = Some (spread_cost l (here c) (source c))"
    using costLookup_eq [OF tab1, of x sx y sy] near
    by (simp add: side1 side_def l1_def here_def source_def x_def y_def sx_def sy_def)
  define m1 where "m1 = (if inside x0 y0 xn yn x y then written x y (inflated l (cell m x y) (spread_cost l (here c) (source c))) m else m)"
  have size1: "size_x m1 = size_x m" "size_y m1 = size_y m" by (simp_all add: m1_def written_def)
  define qs where "qs = neighbours w h x y"
  have own': "x < w" "y < h" using own by (simp_all add: w_def h_def x_def y_def)
  note nb = neighbours_set [OF own', folded qs_def]
  have "\<forall>q\<in>set qs. snd q * w + fst q < length (seen l1) \<and> udiff (fst q) sx < side l1 \<and> udiff (snd q) sy < side l1"
  proof (intro ballI)
    fix q assume "q \<in> set qs"
    then have q: "beside (pt x y) (pt (fst q) (snd q))" "fst q < w" "snd q < h" using nb [of "fst q" "snd q"] by auto
    have "snd q * w + fst q < length (seen l1)"
      using row_index_less [OF q(2,3)] len by (simp add: l1_def S_def w_def h_def)
    moreover have "udiff (fst q) sx \<le> udiff x sx + 1" "udiff (snd q) sy \<le> udiff y sy + 1"
      using q(1) by (auto simp: beside_pt udiff_def)
    ultimately show "snd q * w + fst q < length (seen l1) \<and> udiff (fst q) sx < side l1 \<and> udiff (snd q) sy < side l1"
      using near unfolding side1 side_def [of l] by auto
  qed
  from hand_on_spec [OF tab1 this] obtain bs where
    bs: "hand_on w qs sx sy l1 = Some (l1\<lparr>inflation_cells := bs\<rparr>)" "length bs = length (inflation_cells l)"
    "\<forall>k < length bs. bs ! k = inflation_cells l ! k @ map (\<lambda>q. waiting (fst q) (snd q) sx sy)
        (filter (\<lambda>q. handed w q sx sy l1 \<and> lev l1 (dist2 (pt (fst q) (snd q)) (pt sx sy)) = k) qs)"
    by (auto simp: l1_def)
  have "enqueue_neighbours m1 (y * w + x) c l1 = hand_on w qs sx sy l1"
    using enqueue_neighbours_hand_on [of m1 c l1] own
    by (simp add: size1 w_def h_def x_def y_def sx_def sy_def qs_def)
  then have v: "visit x0 y0 xn yn c (m, l) = Some (m1, l\<lparr>seen := S, inflation_cells := bs\<rparr>)"
    using idx cost len new bs(1)
    by (simp add: visit_def Let_def vec_at_def l1 x_def [symmetric] y_def [symmetric] sx_def [symmetric] sy_def [symmetric]
        w_def [symmetric] h_def [symmetric] S_def [symmetric])
      (auto simp: l1_def m1_def inside_def written_def w_def)
  have "hands w h l S c (inflation_cells l) bs"
    unfolding hands_def
  proof (intro conjI allI impI)
    show "length bs = length (inflation_cells l)" by (rule bs(2))
    fix k assume k: "k < length (inflation_cells l)"
    define new where "new = map (\<lambda>q. waiting (fst q) (snd q) sx sy)
        (filter (\<lambda>q. handed w q sx sy l1 \<and> lev l1 (dist2 (pt (fst q) (snd q)) (pt sx sy)) = k) qs)"
    have "d \<in> set new \<longleftrightarrow> beside (here c) (here d) \<and> cell_x d < w \<and> cell_y d < h \<and> source d = source c \<and>
        \<not> S ! (cell_y d * w + cell_x d) \<and> dist2 (here d) (source c) \<le> radius2 l \<and> lev l (dist2 (here d) (source c)) = k" for d
    proof -
      have "d \<in> set new \<longleftrightarrow> (\<exists>a b. (a, b) \<in> set qs \<and> d = waiting a b sx sy \<and> handed w (a, b) sx sy l1 \<and>
          lev l1 (dist2 (pt a b) (pt sx sy)) = k)"
        unfolding new_def by (force simp: image_iff simp del: waiting_eq)
      also have "\<dots> \<longleftrightarrow> beside (here c) (here d) \<and> cell_x d < w \<and> cell_y d < h \<and> source d = source c \<and>
        \<not> S ! (cell_y d * w + cell_x d) \<and> dist2 (here d) (source c) \<le> radius2 l \<and> lev l (dist2 (here d) (source c)) = k"
        unfolding nb waiting_eq
        by (auto simp: handed_def l1_def here_def source_def x_def y_def sx_def sy_def)
      finally show ?thesis .
    qed
    then show "\<exists>new. bs ! k = inflation_cells l ! k @ new \<and>
      (\<forall>d. d \<in> set new \<longleftrightarrow> beside (here c) (here d) \<and> cell_x d < w \<and> cell_y d < h \<and> source d = source c \<and>
        \<not> S ! (cell_y d * w + cell_x d) \<and> dist2 (here d) (source c) \<le> radius2 l \<and>
        lev l (dist2 (here d) (source c)) = k)"
      using bs(2,3) k new_def by (intro exI [of _ new]) simp
  qed
  then show ?thesis using v unfolding m1_def S_def w_def h_def x_def y_def by blast
qed

text \<open>The costs of the cells that were reached.\<close>

definition costs_inv :: "int \<Rightarrow> int \<Rightarrow> int \<Rightarrow> int \<Rightarrow> costmap2d \<Rightarrow> InflationLayer \<Rightarrow> costmap2d \<Rightarrow> (place \<times> place) list \<Rightarrow> bool" where
  "costs_inv x0 y0 xn yn m0 l0 m H \<longleftrightarrow> (\<forall>x < unat (size_x m0). \<forall>y < unat (size_y m0).
    (\<not> reached H (pt x y) \<longrightarrow> cell m x y = cell m0 x y) \<and>
    (\<forall>s. (pt x y, s) \<in> set H \<longrightarrow> cell m x y =
      (if inside x0 y0 xn yn x y then inflated l0 (cell m0 x y) (spread_cost l0 (pt x y) s) else cell m0 x y)))"

definition spread_inv ::
  "int \<Rightarrow> int \<Rightarrow> int \<Rightarrow> int \<Rightarrow> costmap2d \<Rightarrow> InflationLayer \<Rightarrow> place set \<Rightarrow> nat \<Rightarrow> nat \<Rightarrow> costmap2d \<Rightarrow> InflationLayer \<Rightarrow>
    (place \<times> place) list \<Rightarrow> bool" where
  "spread_inv x0 y0 xn yn m0 l0 Obs b i m l H \<longleftrightarrow> side_by_side m0 l0 m l \<and>
    bins_inv (unat (size_x m0)) (unat (size_y m0)) l0 Obs b i (seen l) (inflation_cells l) H \<and>
    costs_inv x0 y0 xn yn m0 l0 m H"

definition sources_on :: "costmap2d \<Rightarrow> place set \<Rightarrow> bool" where
  "sources_on m Obs \<longleftrightarrow> (\<forall>ob\<in>Obs. on_grid (unat (size_x m)) (unat (size_y m)) ob)"

lemma same_frame_refl: "same_frame m m"
  unfolding same_frame_def by (rule exI [of _ "costmap m"]) simp

lemma spread_visit:
  assumes inv: "spread_inv x0 y0 xn yn m0 l0 Obs b i m l H" and tab: "tables_ok l0" and obs: "sources_on m0 Obs"
    and i: "b < length (inflation_cells l)" "i < length (inflation_cells l ! b)"
  shows "\<exists>m' l' H'. visit x0 y0 xn yn (inflation_cells l ! b ! i) (m, l) = Some (m', l') \<and>
    spread_inv x0 y0 xn yn m0 l0 Obs b (Suc i) m' l' H' \<and> inflation_cells l' ! b = inflation_cells l ! b"
proof -
  define w where "w = unat (size_x m0)"
  define h where "h = unat (size_y m0)"
  define c where "c = inflation_cells l ! b ! i"
  obtain S B where l: "l = l0\<lparr>seen := S, inflation_cells := B\<rparr>" "length S = w * h" "length B = length (inflation_cells l0)"
    and fr: "same_frame m0 m" "map_ok m"
    using inv unfolding spread_inv_def side_by_side_def w_def h_def by blast
  have lB: "seen l = S" "inflation_cells l = B" by (simp_all add: l(1))
  have bins: "bins_inv w h l0 Obs b i S B H" and costs: "costs_inv x0 y0 xn yn m0 l0 m H"
    using inv unfolding spread_inv_def w_def h_def lB by blast+
  note iB = i [unfolded lB]
  have cB: "c = B ! b ! i" by (simp add: c_def lB)
  have size: "size_x m = size_x m0" "size_y m = size_y m0" using same_frame_fields [OF fr(1)] by simp_all
  have tabl: "tables_ok l" unfolding l(1) by (subst tables_ok_kept) (use tab l(3) in simp_all)
  have e: "entry_ok w h l0 Obs H b c"
    by (rule bins_invD(5) [OF bins iB(1)]) (use iB(2) in \<open>simp add: cB\<close>)
  then have own: "cell_x c < w" "cell_y c < h" and le: "dist2 (here c) (source c) \<le> radius2 l0"
    by (auto simp: entry_ok_def on_grid_pt here_def)
  have seen: "S ! (cell_y c * w + cell_x c) \<longleftrightarrow> reached H (here c)"
    using bins_invD(3) [OF bins own] by (simp add: here_def)
  show ?thesis
  proof (cases "reached H (here c)")
    case True
    have "visit x0 y0 xn yn c (m, l) = Some (m, l)"
      by (rule visit_old) (use own fr(2) l(2) seen True in \<open>simp_all add: size w_def h_def lB\<close>)
    moreover have "bins_inv w h l0 Obs b (Suc i) S B H"
      by (rule bins_inv_skip [OF bins iB]) (use True in \<open>simp add: cB\<close>)
    then have "spread_inv x0 y0 xn yn m0 l0 Obs b (Suc i) m l H"
      using inv unfolding spread_inv_def w_def h_def lB by blast
    ultimately show ?thesis unfolding c_def by blast
  next
    case False
    define S' where "S' = S[cell_y c * w + cell_x c := True]"
    define v where "v = inflated l0 (cell m (cell_x c) (cell_y c)) (spread_cost l0 (here c) (source c))"
    define m' where "m' = (if inside x0 y0 xn yn (cell_x c) (cell_y c) then written (cell_x c) (cell_y c) v m else m)"
    have "\<not> seen l ! (cell_y c * unat (size_x m) + cell_x c)" using False seen by (simp add: lB size w_def)
    note fresh = this
    have same: "inflated l old new = inflated l0 old new" "spread_cost l p s = spread_cost l0 p s" "radius2 l = radius2 l0"
      "lev l d = lev l0 d" for old new p s d by (simp_all add: l(1))
    have prem: "cell_x c < unat (size_x m)" "cell_y c < unat (size_y m)"
      "length (seen l) = unat (size_x m) * unat (size_y m)" "dist2 (here c) (source c) \<le> radius2 l"
      using own l(2) le by (simp_all add: size w_def h_def lB same)
    from visit_new [OF fr(2) prem(1-3) fresh tabl prem(4), of x0 y0 xn yn]
    obtain B' where B': "visit x0 y0 xn yn c (m, l) = Some (m', l\<lparr>seen := S', inflation_cells := B'\<rparr>)"
      "hands w h l S' c B B'"
      unfolding same size w_def [symmetric] h_def [symmetric] lB S'_def [symmetric] v_def [symmetric] m'_def [symmetric]
      by blast
    have hB: "hands w h l0 S' c B B'" using B'(2) unfolding hands_def same .
    have lt: "lev l0 (dist2 p s) < length B" if "dist2 p s \<le> radius2 l0" for p s
      using lev_bound [OF tab that] by (simp add: l(3))
    have on: "on_grid w h ob" if "ob \<in> Obs" for ob using obs that by (simp add: sources_on_def w_def h_def)
    note vis = bins_inv_visit [OF bins iB cB False on l(2) S'_def hB lt]
    define H' where "H' = (here c, source c) # H"
    define l' where "l' = l\<lparr>seen := S', inflation_cells := B'\<rparr>"
    have ms: "size_x m' = size_x m" "size_y m' = size_y m" by (simp_all add: m'_def written_def)
    have "map_ok m'" "same_frame m m'"
      using written_spec(1,2) [OF fr(2) prem(1,2), of v] fr(2) same_frame_refl [of m] unfolding m'_def by auto
    moreover have "same_frame m0 m'" using fr(1) \<open>same_frame m m'\<close> by (auto simp: same_frame_def)
    moreover have "l' = l0\<lparr>seen := S', inflation_cells := B'\<rparr>" "length S' = w * h" "length B' = length (inflation_cells l0)"
      using l hB by (simp_all add: l'_def S'_def hands_def)
    ultimately have side: "side_by_side m0 l0 m' l'" unfolding side_by_side_def w_def h_def by blast
    have cells: "cell m' x y = (if pt x y = here c \<and> inside x0 y0 xn yn x y then v else cell m x y)" if "x < w" "y < h" for x y
      using written_spec(3) [OF fr(2) prem(1,2), of x y v] that
      by (auto simp: m'_def here_def size w_def h_def)
    have old: "cell m (cell_x c) (cell_y c) = cell m0 (cell_x c) (cell_y c)"
      using costs own False by (simp add: costs_inv_def w_def h_def here_def)
    have "costs_inv x0 y0 xn yn m0 l0 m' H'"
      unfolding costs_inv_def w_def [symmetric] h_def [symmetric]
    proof (intro allI impI conjI)
      fix x y assume xy: "x < w" "y < h"
      have was: "\<not> reached H (pt x y) \<Longrightarrow> cell m x y = cell m0 x y"
        "(pt x y, s) \<in> set H \<Longrightarrow> cell m x y =
          (if inside x0 y0 xn yn x y then inflated l0 (cell m0 x y) (spread_cost l0 (pt x y) s) else cell m0 x y)" for s
        using costs xy unfolding costs_inv_def w_def h_def by blast+
      show "cell m' x y = cell m0 x y" if "\<not> reached H' (pt x y)"
        using that was(1) cells [OF xy] by (auto simp: H'_def reached_def)
      show "cell m' x y =
          (if inside x0 y0 xn yn x y then inflated l0 (cell m0 x y) (spread_cost l0 (pt x y) s) else cell m0 x y)"
        if "(pt x y, s) \<in> set H'" for s
      proof (cases "pt x y = here c")
        case True
        then have "s = source c" using that False unfolding H'_def reached_iff by (metis prod.inject set_ConsD)
        moreover have "x = cell_x c" "y = cell_y c" using True by (simp_all add: here_def)
        ultimately show ?thesis using cells [OF xy] old True by (auto simp: v_def)
      next
        case False
        then have "(pt x y, s) \<in> set H" using that by (auto simp: H'_def)
        then show ?thesis using was(2) cells [OF xy] False by simp
      qed
    qed
    then have "spread_inv x0 y0 xn yn m0 l0 Obs b (Suc i) m' l' H'"
      using vis side unfolding spread_inv_def w_def [symmetric] h_def [symmetric] H'_def l'_def by simp
    moreover have "inflation_cells l' ! b = inflation_cells l ! b" using vis by (simp add: l'_def lB)
    ultimately show ?thesis using B'(1) unfolding l'_def c_def by blast
  qed
qed

lemma spread_bin_follows:
  assumes "spread_inv x0 y0 xn yn m0 l0 Obs b i m l H" "tables_ok l0" "sources_on m0 Obs" "b < length (inflation_cells l)"
    and "i \<le> length (inflation_cells l ! b)"
  shows "\<exists>m' l' H'. spread_bin x0 y0 xn yn b i m l = Some (m', l') \<and>
    spread_inv x0 y0 xn yn m0 l0 Obs b (length (inflation_cells l' ! b)) m' l' H'"
  using assms
proof (induction "length (inflation_cells l ! b) - i" arbitrary: i m l H)
  case 0
  then have "i = length (inflation_cells l ! b)" by simp
  then show ?case using 0 by (subst spread_bin.simps) auto
next
  case (Suc n)
  then have i: "i < length (inflation_cells l ! b)" by simp
  obtain m1 l1 H1 where v: "visit x0 y0 xn yn (inflation_cells l ! b ! i) (m, l) = Some (m1, l1)"
    "spread_inv x0 y0 xn yn m0 l0 Obs b (Suc i) m1 l1 H1" "inflation_cells l1 ! b = inflation_cells l ! b"
    using spread_visit [OF Suc.prems(1-4) i] by blast
  have "length (inflation_cells l1) = length (inflation_cells l)"
    using v(2) Suc.prems(1) unfolding spread_inv_def side_by_side_def by auto
  then have "\<exists>m' l' H'. spread_bin x0 y0 xn yn b (Suc i) m1 l1 = Some (m', l') \<and>
    spread_inv x0 y0 xn yn m0 l0 Obs b (length (inflation_cells l' ! b)) m' l' H'"
    using Suc.hyps(1) [OF _ v(2) Suc.prems(2,3)] Suc.hyps(2) Suc.prems(4) v(3) i by simp
  then show ?case using v(1) i Suc.prems(4) by (subst spread_bin.simps) simp
qed

text \<open>The bin is dropped and the next one begins.\<close>

lemma spread_inv_drop:
  assumes inv: "spread_inv x0 y0 xn yn m0 l0 Obs b (length (inflation_cells l ! b)) m l H"
    and b: "b < length (inflation_cells l)"
  shows "spread_inv x0 y0 xn yn m0 l0 Obs (Suc b) 0 m (l\<lparr>inflation_cells := (inflation_cells l)[b := []]\<rparr>) H"
proof -
  define B where "B = inflation_cells l"
  define B' where "B' = B[b := []]"
  define w where "w = unat (size_x m0)"
  define h where "h = unat (size_y m0)"
  have parts: "side_by_side m0 l0 m l" "costs_inv x0 y0 xn yn m0 l0 m H"
    and bins: "bins_inv w h l0 Obs b (length (B ! b)) (seen l) B H"
    using inv unfolding spread_inv_def B_def w_def h_def by blast+
  note D = bins_invD [OF bins]
  have aw: "awaits (Suc b) 0 B' l0 p s" if a: "awaits b (length (B ! b)) B l0 p s" for p s
  proof -
    define k where "k = lev l0 (dist2 p s)"
    obtain c where c: "k < length B" "c \<in> set (pending b (length (B ! b)) B k)" "here c = p" "source c = s"
      using a unfolding awaits_def k_def by blast
    then have "k \<noteq> b" by (auto simp: pending_def)
    then have "c \<in> set (pending (Suc b) 0 B' k)" using c(2) by (auto simp: pending_def B'_def)
    then show ?thesis using c unfolding awaits_def k_def B'_def by auto
  qed
  have "bins_inv w h l0 Obs (Suc b) 0 (seen l) B' H"
    unfolding bins_inv_def
  proof (intro conjI allI impI ballI)
    show "wave Obs (radius2 l0) H" by (rule D(1))
    show "on_grid w h p" if "reached H p" for p by (rule D(2) [OF that])
    show "seen l ! (y * w + x) \<longleftrightarrow> reached H (pt x y)" if "x < w" "y < h" for x y by (rule D(3) [OF that])
    show "B' ! k = []" if "k < Suc b" "k < length B'" for k
      using that D(4) [of k] b by (cases "k = b") (simp_all add: B'_def B_def)
    show "entry_ok w h l0 Obs H k c" if k: "k < length B'" "c \<in> set (B' ! k)" for k c
    proof -
      have "k \<noteq> b" using k by (auto simp: B'_def)
      then show ?thesis using D(5) [of k c] k by (simp add: B'_def)
    qed
    show "lev l0 (dist2 x t) \<le> Suc b" if "(x, t) \<in> set H" for x t using D(6) [OF that] by simp
    show "reached H y \<or> awaits (Suc b) 0 B' l0 y t"
      if "(x, t) \<in> set H" "beside x y" "on_grid w h y" "dist2 y t \<le> radius2 l0" for x t y
      using D(7) [OF that] aw by blast
    show "(ob, ob) \<in> set H \<or> awaits (Suc b) 0 B' l0 ob ob" if "ob \<in> Obs" for ob
      using D(8) [OF that] aw by blast
  qed
  moreover have "side_by_side m0 l0 m (l\<lparr>inflation_cells := B'\<rparr>)"
  proof -
    obtain S B0 where "l = l0\<lparr>seen := S, inflation_cells := B0\<rparr>" "length S = unat (size_x m0) * unat (size_y m0)"
      "length B0 = length (inflation_cells l0)" "same_frame m0 m" "map_ok m"
      using parts(1) unfolding side_by_side_def by blast
    then show ?thesis unfolding side_by_side_def
      by (intro conjI exI [of _ S] exI [of _ B']) (simp_all add: B'_def B_def)
  qed
  ultimately show ?thesis using parts(2) by (simp add: spread_inv_def w_def h_def B_def B'_def)
qed

lemma spread_bins_follow:
  assumes "spread_inv x0 y0 xn yn m0 l0 Obs b 0 m l H" "tables_ok l0" "sources_on m0 Obs"
    and "b + k = length (inflation_cells l)"
  shows "\<exists>m' l' H'. spread_bins x0 y0 xn yn [b..<b + k] (m, l) = Some (m', l') \<and>
    spread_inv x0 y0 xn yn m0 l0 Obs (b + k) 0 m' l' H' \<and> length (inflation_cells l') = b + k"
  using assms
proof (induction k arbitrary: b m l H)
  case (Suc k)
  have b: "b < length (inflation_cells l)" using Suc.prems(4) by simp
  obtain m1 l1 H1 where s: "spread_bin x0 y0 xn yn b 0 m l = Some (m1, l1)"
    "spread_inv x0 y0 xn yn m0 l0 Obs b (length (inflation_cells l1 ! b)) m1 l1 H1"
    using spread_bin_follows [OF Suc.prems(1-3) b] by auto
  define l2 where "l2 = l1\<lparr>inflation_cells := (inflation_cells l1)[b := []]\<rparr>"
  have len: "length (inflation_cells l1) = length (inflation_cells l)"
    using s(2) Suc.prems(1) unfolding spread_inv_def side_by_side_def by auto
  have "spread_inv x0 y0 xn yn m0 l0 Obs (Suc b) 0 m1 l2 H1"
    unfolding l2_def by (rule spread_inv_drop [OF s(2)]) (use b len in simp)
  from Suc.IH [OF this Suc.prems(2,3)] obtain m' l' H' where
    "spread_bins x0 y0 xn yn [Suc b..<Suc b + k] (m1, l2) = Some (m', l')"
    "spread_inv x0 y0 xn yn m0 l0 Obs (Suc b + k) 0 m' l' H'" "length (inflation_cells l') = Suc b + k"
    using Suc.prems(4) len by (auto simp: l2_def)
  moreover have "[b..<b + Suc k] = b # [Suc b..<Suc b + k]" by (subst upt_conv_Cons) simp_all
  ultimately have "spread_bins x0 y0 xn yn [b..<b + Suc k] (m, l) = Some (m', l') \<and>
    spread_inv x0 y0 xn yn m0 l0 Obs (b + Suc k) 0 m' l' H' \<and> length (inflation_cells l') = b + Suc k"
    using s(1) by (simp add: l2_def del: upt_Suc)
  then show ?case by blast
qed auto

end
