(* ===== verification/Inflation_State.thy ===== *)
theory Inflation_State
  imports Inflation_Spread
begin

text \<open>
  The operations of the inflation layer besides the update keep its tables in order: every lookup of the next update
  finds what it expects. They have an outcome when the cost does not grow with the distance.
\<close>

definition no_waiting :: "InflationLayer \<Rightarrow> bool" where
  "no_waiting l \<longleftrightarrow> (\<forall>bin\<in>set (inflation_cells l). bin = [])"

section \<open>Costs and distances\<close>

lemma cast_u8_floor: "0 \<le> r \<Longrightarrow> cast_u8 r = (if \<lfloor>r\<rfloor> < 256 then Some (word_of_int \<lfloor>r\<rfloor>) else None)"
  by (simp add: cast_u8_def trunc_real_def)

lemma unat_u8: "0 \<le> i \<Longrightarrow> i < 256 \<Longrightarrow> unat (word_of_int i :: u8) = nat i"
  by (simp add: unsigned_of_int take_bit_int_eq_self)

lemma faded_cost:
  assumes "0 \<le> cost_scaling_factor l" "inf_inscribed_radius l < d * inf_resolution l" "d \<noteq> 0"
  shows "\<exists>i. computeCost l d = Some (word_of_int i) \<and> 0 \<le> i \<and> i \<le> 252 \<and>
    i = \<lfloor>252 * exp (- cost_scaling_factor l * (d * inf_resolution l - inf_inscribed_radius l))\<rfloor>"
proof -
  define e where "e = exp (- cost_scaling_factor l * (d * inf_resolution l - inf_inscribed_radius l))"
  have "0 \<le> cost_scaling_factor l * (d * inf_resolution l - inf_inscribed_radius l)" using assms by simp
  then have e: "0 < e" "e \<le> 1" by (simp_all add: e_def)
  then have i: "0 \<le> \<lfloor>252 * e\<rfloor>" "\<lfloor>252 * e\<rfloor> \<le> 252" by (simp, linarith)
  have "computeCost l d = cast_u8 (252 * e)" using assms(2,3) by (simp add: computeCost_def e_def)
  also have "\<dots> = Some (word_of_int \<lfloor>252 * e\<rfloor>)" using e i by (simp add: cast_u8_floor)
  finally show ?thesis using i e_def by blast
qed

lemma computeCost_total: "0 \<le> cost_scaling_factor l \<Longrightarrow> computeCost l d \<noteq> None"
  using faded_cost [of l d] by (cases "d = 0"; cases "d * inf_resolution l \<le> inf_inscribed_radius l")
    (auto simp: computeCost_def)

section \<open>The state of the layer\<close>

definition caches_kept :: "InflationLayer \<Rightarrow> bool" where
  "caches_kept l \<longleftrightarrow> cached_cell_inflation_radius l = 0 \<or>
    (let n = unat (cached_cell_inflation_radius l) + 2
     in length (cached_distances l) = n * n \<and> length (cached_costs l) = n * n \<and>
        (\<forall>i < n. \<forall>j < n. cached_distances l ! (i * n + j) = hypot i j))"

definition inflation_ok :: "InflationLayer \<Rightarrow> bool" where
  "inflation_ok l \<longleftrightarrow> 0 \<le> inflation_radius l \<and> caches_kept l \<and>
    (cell_inflation_radius l \<noteq> 0 \<longrightarrow> tables_ok l \<and> no_waiting l)"

lemma nth_table:
  assumes "i < n" "j < k"
  shows "concat (map (\<lambda>i. map (f i) [0..<k]) [0..<n]) ! (i * k + j) = f i j"
  using assms
proof (induction n)
  case (Suc n)
  have len: "length (concat (map (\<lambda>i. map (f i) [0..<k]) [0..<n])) = n * k"
    by (induction n) simp_all
  show ?case
  proof (cases "i < n")
    case True
    then have "i * k + j < n * k" using row_index_less [OF Suc.prems(2) True] by (simp add: mult.commute)
    then show ?thesis using Suc True len by (simp add: nth_append)
  next
    case False
    then show ?thesis using Suc.prems len by (simp add: nth_append less_Suc_eq)
  qed
qed simp

lemma length_table: "length (concat (map (\<lambda>i. map (f i) [0..<k]) [0..<n])) = n * k"
  by (induction n) simp_all

lemma map_cells_nth: "map_cells f xs = Some ys \<Longrightarrow> length ys = length xs \<and> (\<forall>i < length xs. f (xs ! i) = Some (ys ! i))"
proof (induction xs arbitrary: ys)
  case (Cons x xs)
  then show ?case by (auto split: Option.bind_splits simp: nth_Cons split: nat.splits)
qed simp

lemma computeCaches_ok:
  assumes "computeCaches l = Some l'" "caches_kept l" "unat (cell_inflation_radius l) + 2 < 2 ^ 32"
  shows "caches_kept l' \<and> (cell_inflation_radius l \<noteq> 0 \<longrightarrow> tables_ok l' \<and> no_waiting l' \<and>
      cached_cell_inflation_radius l' = cell_inflation_radius l) \<and> inflation_radius l' = inflation_radius l \<and> cell_inflation_radius l' = cell_inflation_radius l \<and>
    inf_enabled l' = inf_enabled l \<and> cost_scaling_factor l' = cost_scaling_factor l \<and> inf_resolution l' = inf_resolution l \<and>
    inflate_around_unknown l' = inflate_around_unknown l"
proof (cases "cell_inflation_radius l = 0")
  case True
  then show ?thesis using assms by (simp add: computeCaches_def)
next
  case False
  define R where "R = cell_inflation_radius l"
  define n where "n = side l"
  have cl: "unat (R + 2) = n"
    using assms(3) by (simp add: n_def side_def R_def unat_word_ariths)
  define l2 where "l2 = (if R \<noteq> cached_cell_inflation_radius l
      then l\<lparr>cache_length := R + 2, cached_costs := take (n * n) (cached_costs l) @ replicate (n * n - length (cached_costs l)) 0,
             cached_distances := concat (map (\<lambda>i. map (hypot i) [0..<n]) [0..<n]), cached_cell_inflation_radius := R\<rparr>
      else l\<lparr>cache_length := R + 2\<rparr>)"
  obtain sq costs k dm where step: "0 \<le> sint (R + 2)" "i32 (sint (R + 2) * sint (R + 2) + sint (R + 2) * sint (R + 2)) = Some sq"
    "n * n \<le> length (cached_distances l2)" "n * n \<le> length (cached_costs l2)"
    "map_cells (computeCost l2) (take (n * n) (cached_distances l2)) = Some costs"
    "generateIntegerDistances (sint (R + 2)) = Some (k, dm)"
    "l' = l2\<lparr>cached_costs := costs @ drop (n * n) (cached_costs l2), distance_matrix := dm,
             inflation_cells := replicate (k + 1) []\<rparr>"
    using assms(1) False unfolding computeCaches_def Let_def R_def [symmetric] cl l2_def
    by (auto split: Option.bind_splits if_splits)
  define s where "s = sint (R + 2)"
  have sq: "s * s + s * s < 2 ^ 31" using step(2) by (simp add: s_def i32_def fits_i32_def split: if_splits)
  have "s * 1 \<le> s * s"
    using step(1) by (cases "s = 0") (auto simp: s_def intro!: mult_left_mono)
  moreover have "s * s \<le> s * s + s * s" by simp
  ultimately have "s < 2 ^ 31" using sq by (metis le_less_trans mult_1_right)
  then have "s < 2 ^ 32" by simp
  then have "uint (R + 2) = s" using step(1) uint_sint [of "R + 2"] by (simp add: s_def take_bit_int_eq_self)
  then have sint: "sint (R + 2) = int n" using cl s_def by (metis uint_nat)
  have small: "int n * int n + int n * int n < 2 ^ 31" using sq by (simp only: s_def sint)
  have R: "R \<noteq> 0" "n = unat R + 2" using False by (simp_all add: R_def n_def side_def)
  have "length (cached_distances l2) = n * n \<and> length (cached_costs l2) = n * n \<and>
      (\<forall>i < n. \<forall>j < n. cached_distances l2 ! (i * n + j) = hypot i j) \<and> cached_cell_inflation_radius l2 = R"
  proof (cases "R = cached_cell_inflation_radius l")
    case True
    then have l2: "l2 = l\<lparr>cache_length := R + 2\<rparr>" by (simp add: l2_def)
    show "length (cached_distances l2) = n * n \<and> length (cached_costs l2) = n * n \<and>
      (\<forall>i < n. \<forall>j < n. cached_distances l2 ! (i * n + j) = hypot i j) \<and> cached_cell_inflation_radius l2 = R"
      using assms(2) R(1) unfolding caches_kept_def True [symmetric] Let_def R(2) [symmetric] l2 by (simp add: True)
  next
    case False
    show "length (cached_distances l2) = n * n \<and> length (cached_costs l2) = n * n \<and>
      (\<forall>i < n. \<forall>j < n. cached_distances l2 ! (i * n + j) = hypot i j) \<and> cached_cell_inflation_radius l2 = R"
      unfolding l2_def if_P [OF False] by (simp add: length_table nth_table)
  qed
  then have dist: "length (cached_distances l2) = n * n" "length (cached_costs l2) = n * n"
    "\<forall>i < n. \<forall>j < n. cached_distances l2 ! (i * n + j) = hypot i j" "cached_cell_inflation_radius l2 = R" by blast+
  have l': "l' = l2\<lparr>cached_costs := costs, distance_matrix := dm, inflation_cells := replicate (k + 1) []\<rparr>"
    using step(7) dist(2) by simp
  have costs: "length costs = n * n" "\<forall>i < n * n. computeCost l2 (cached_distances l2 ! i) = Some (costs ! i)"
    using map_cells_nth [OF step(5)] dist(1) by simp_all
  have keep: "cell_inflation_radius l2 = R" "cache_length l2 = R + 2" "inflation_radius l2 = inflation_radius l"
    "inf_enabled l2 = inf_enabled l" "cost_scaling_factor l2 = cost_scaling_factor l" "inf_resolution l2 = inf_resolution l"
    "inflate_around_unknown l2 = inflate_around_unknown l"
    by (simp_all add: l2_def R_def)
  have same: "side l' = n" "computeCost l' = computeCost l2"
    by (simp_all add: l' side_def keep R(2) computeCost_def fun_eq_iff)
  have "tables_ok l'"
    unfolding tables_ok_def same
  proof (intro conjI allI impI)
    show "cached_distances l' ! (i * n + j) = hypot i j" if "i < n" "j < n" for i j using dist(3) that by (simp add: l')
    show "computeCost l2 (hypot i j) = Some (cached_costs l' ! (i * n + j))" if ij: "i < n" "j < n" for i j
    proof -
      have "computeCost l2 (cached_distances l2 ! (i * n + j)) = Some (costs ! (i * n + j))"
        using costs(2) row_index_less [OF ij(2,1)] by blast
      then show ?thesis using dist(3) ij by (simp add: l')
    qed
  qed (use small dist costs cl step(6) sint in \<open>simp_all add: l' keep\<close>)
  moreover have "caches_kept l'"
    using dist costs R(2) by (simp add: caches_kept_def l' Let_def)
  moreover have "cached_cell_inflation_radius l' = R" by (simp add: l' dist(4))
  ultimately show ?thesis by (simp add: no_waiting_def l' keep R_def)
qed

lemma inflation_ok_updates [simp]:
  "inflation_ok (l\<lparr>inf_last := b\<rparr>) = inflation_ok l" "inflation_ok (l\<lparr>need_reinflation := v\<rparr>) = inflation_ok l"
  "inflation_ok (l\<lparr>inf_current := v\<rparr>) = inflation_ok l" "inflation_ok (l\<lparr>inf_enabled := v\<rparr>) = inflation_ok l"
  "inflation_ok (l\<lparr>inflate_unknown := v\<rparr>) = inflation_ok l" "inflation_ok (l\<lparr>inflate_around_unknown := v\<rparr>) = inflation_ok l"
  "inflation_ok (l\<lparr>seen := S\<rparr>) = inflation_ok l"
  by (simp_all add: inflation_ok_def tables_ok_def side_def computeCost_def caches_kept_def no_waiting_def)

definition radius_fits :: "costmap2d \<Rightarrow> real \<Rightarrow> bool" where
  "radius_fits m radius \<longleftrightarrow> 0 \<le> radius \<and> (\<forall>r. cellDistance m radius = Some r \<longrightarrow> unat r + 2 < 2 ^ 32)"

lemma caches_kept_updates:
  "caches_kept (l\<lparr>inf_resolution := res, cell_inflation_radius := r\<rparr>) = caches_kept l"
  "caches_kept (l\<lparr>inf_inscribed_radius := d, cell_inflation_radius := r\<rparr>) = caches_kept l"
  by (simp_all add: caches_kept_def)

lemma computeCaches_inflation_ok:
  assumes "computeCaches l = Some l'" "caches_kept l" "unat (cell_inflation_radius l) + 2 < 2 ^ 32" "0 \<le> inflation_radius l"
  shows "inflation_ok l'"
  using computeCaches_ok [OF assms(1-3)] assms(4) by (auto simp: inflation_ok_def)

lemma inf_matchSize_ok:
  assumes "inf_matchSize m l = Some l'" "caches_kept l" "radius_fits m (inflation_radius l)"
  shows "inflation_ok l'"
proof -
  obtain r l1 where "cellDistance m (inflation_radius l) = Some r"
    "computeCaches (l\<lparr>inf_resolution := resolution m, cell_inflation_radius := r\<rparr>) = Some l1"
    "l' = l1\<lparr>seen := replicate (unat (size_x m * size_y m)) False\<rparr>"
    using assms(1) by (auto simp: inf_matchSize_def split: Option.bind_splits)
  then show ?thesis
    using computeCaches_inflation_ok [of "l\<lparr>inf_resolution := resolution m, cell_inflation_radius := r\<rparr>" l1] assms(2,3)
    by (simp add: caches_kept_updates radius_fits_def)
qed

lemma inf_onFootprintChanged_ok:
  assumes "inf_onFootprintChanged fp m l = Some l'" "caches_kept l" "radius_fits m (inflation_radius l)"
  shows "inflation_ok l'"
proof -
  define d where "d = fst (calculateMinAndMaxDistances fp)"
  obtain r l1 where "cellDistance m (inflation_radius l) = Some r"
    "computeCaches (l\<lparr>inf_inscribed_radius := d, cell_inflation_radius := r\<rparr>) = Some l1"
    "l' = l1\<lparr>need_reinflation := True\<rparr>"
    using assms(1) by (auto simp: inf_onFootprintChanged_def d_def split: Option.bind_splits)
  then show ?thesis
    using computeCaches_inflation_ok [of "l\<lparr>inf_inscribed_radius := d, cell_inflation_radius := r\<rparr>" l1] assms(2,3)
    by (simp add: caches_kept_updates radius_fits_def)
qed

definition radii_fit :: "costmap2d \<Rightarrow> inf_parameter list \<Rightarrow> bool" where
  "radii_fit m ps \<longleftrightarrow> list_all (\<lambda>p. case p of InflationRadius v \<Rightarrow> radius_fits m v | _ \<Rightarrow> True) ps"

lemma inf_set_parameters_ok:
  assumes "radii_fit m ps" "caches_kept l" "radius_fits m (inflation_radius l)" "recompute \<or> inflation_ok l"
    and "fold inf_set_parameter ps (l, recompute) = (l', recompute')"
  shows "caches_kept l' \<and> radius_fits m (inflation_radius l') \<and> (recompute' \<or> inflation_ok l')"
  using assms
proof (induction ps arbitrary: l recompute)
  case (Cons p ps)
  obtain l1 r1 where 1: "inf_set_parameter p (l, recompute) = (l1, r1)" by (rule prod.exhaust)
  have "caches_kept l1 \<and> radius_fits m (inflation_radius l1) \<and> (r1 \<or> inflation_ok l1)"
    using 1 Cons.prems(1-4) by (cases p) (auto simp: caches_kept_def radii_fit_def split: if_splits)
  then show ?case using Cons.IH [of l1 r1] Cons.prems(1,5) 1 by (simp add: radii_fit_def)
qed simp

lemma inf_dynamicParametersCallback_ok:
  assumes "inf_dynamicParametersCallback ps m l = Some l'" "inflation_ok l" "radii_fit m ps" "radius_fits m (inflation_radius l)"
  shows "inflation_ok l'"
proof -
  obtain l1 recompute where f: "fold inf_set_parameter ps (l, False) = (l1, recompute)" by (rule prod.exhaust)
  have l1: "caches_kept l1 \<and> radius_fits m (inflation_radius l1) \<and> (recompute \<or> inflation_ok l1)"
    by (rule inf_set_parameters_ok [OF assms(3) _ assms(4) _ f]) (use assms(2) in \<open>auto simp: inflation_ok_def\<close>)
  show ?thesis
  proof (cases recompute)
    case True
    then show ?thesis using assms(1) f inf_matchSize_ok [of m l1 l'] l1 by (simp add: inf_dynamicParametersCallback_def)
  next
    case False
    then show ?thesis using assms(1) f l1 by (simp add: inf_dynamicParametersCallback_def)
  qed
qed

section \<open>When the tables can be computed\<close>

lemma map_cells_defined: "\<forall>x\<in>set xs. f x \<noteq> None \<Longrightarrow> \<exists>ys. map_cells f xs = Some ys"
  by (induction xs) auto

lemma computeCaches_total:
  assumes "caches_kept l" "0 \<le> cost_scaling_factor l" "unat (cell_inflation_radius l) + 2 < 2 ^ 15"
  shows "\<exists>l'. computeCaches l = Some l'"
proof (cases "cell_inflation_radius l = 0")
  case True
  then show ?thesis by (simp add: computeCaches_def)
next
  case False
  define R where "R = cell_inflation_radius l"
  define n where "n = unat R + 2"
  have cl: "unat (R + 2) = n" using assms(3) by (simp add: n_def R_def unat_word_ariths)
  have sint: "sint (R + 2) = int n" using sint_small [of "R + 2"] cl assms(3) by (simp add: n_def R_def del: of_nat_unat)
  have "int n \<le> 32767" using assms(3) by (simp add: n_def R_def del: of_nat_unat)
  then have "int n * int n \<le> 32767 * 32767" by (intro mult_mono) simp_all
  then have small: "int n * int n + int n * int n < 2 ^ 31" by simp
  then have fits: "i32 (int n * int n + int n * int n) = Some (int n * int n + int n * int n)"
    using order_trans [OF _ sum_squares_ge_zero, of "- (2 ^ 31)" "int n" "int n"] by (simp add: i32_def fits_i32_def)
  define l2 where "l2 = (if R \<noteq> cached_cell_inflation_radius l
      then l\<lparr>cache_length := R + 2, cached_costs := take (n * n) (cached_costs l) @ replicate (n * n - length (cached_costs l)) 0,
             cached_distances := concat (map (\<lambda>i. map (hypot i) [0..<n]) [0..<n]), cached_cell_inflation_radius := R\<rparr>
      else l\<lparr>cache_length := R + 2\<rparr>)"
  have len: "n * n \<le> length (cached_distances l2)" "n * n \<le> length (cached_costs l2)"
  proof (atomize (full), cases "R = cached_cell_inflation_radius l")
    case True
    then have "length (cached_distances l) = n * n" "length (cached_costs l) = n * n"
      using assms(1) False unfolding caches_kept_def R_def [symmetric] True [symmetric] Let_def n_def [symmetric] by auto
    then show "n * n \<le> length (cached_distances l2) \<and> n * n \<le> length (cached_costs l2)" using True by (simp add: l2_def)
  next
    case False
    then show "n * n \<le> length (cached_distances l2) \<and> n * n \<le> length (cached_costs l2)"
      by (simp add: l2_def length_table)
  qed
  have "cost_scaling_factor l2 = cost_scaling_factor l" by (simp add: l2_def)
  then obtain costs where costs: "map_cells (computeCost l2) (take (n * n) (cached_distances l2)) = Some costs"
    using map_cells_defined computeCost_total assms(2) by metis
  obtain k dm where "generateIntegerDistances (int n) = Some (k, dm)"
    by (rule generateIntegerDistances_spec [OF _ small]) simp_all
  then show ?thesis
    using False fits len costs
    unfolding computeCaches_def Let_def R_def [symmetric] cl sint l2_def [symmetric] by simp
qed

lemma inf_onInitialize_total:
  assumes "0 < resolution m" "0 \<le> rad" "\<lceil>rad / resolution m\<rceil> + 2 < 2 ^ 15" "0 \<le> scale"
  shows "\<exists>l. inf_onInitialize en rad scale unk around m new_inflation = Some l \<and> inflation_ok l \<and>
    unat (cell_inflation_radius l) = nat \<lceil>rad / resolution m\<rceil> \<and> inf_enabled l = en \<and> cost_scaling_factor l = scale \<and>
    inf_resolution l = resolution m \<and> inflate_around_unknown l = around \<and> radius_fits m rad"
proof -
  define k where "k = \<lceil>rad / resolution m\<rceil>"
  have "0 \<le> rad / resolution m" using assms(1,2) by simp
  then have k: "0 \<le> k" "k + 2 < 2 ^ 15" using assms(3) ceiling_mono [of 0 "rad / resolution m"] by (simp_all add: k_def)
  have R: "cellDistance m rad = Some (word_of_int k)"
    using k by (simp add: cellDistance_def cast_u32_def trunc_real_def k_def [symmetric] max_def)
  have un: "unat (word_of_int k :: u32) = nat k" by (rule unat_word_of_int) (use k in auto)
  define l0 where "l0 = new_inflation\<lparr>inf_enabled := en, inflation_radius := rad, cost_scaling_factor := scale,
    inflate_unknown := unk, inflate_around_unknown := around, inf_current := True, seen := [], cached_distances := [],
    cached_costs := [], need_reinflation := False, cell_inflation_radius := word_of_int k\<rparr>"
  define l1 where "l1 = l0\<lparr>inf_resolution := resolution m, cell_inflation_radius := word_of_int k\<rparr>"
  have l1: "caches_kept l1" "cost_scaling_factor l1 = scale" "cell_inflation_radius l1 = word_of_int k" "inflation_radius l1 = rad"
    "inf_enabled l1 = en" "inf_resolution l1 = resolution m" "inflate_around_unknown l1 = around"
    by (simp_all add: l1_def l0_def new_inflation_def caches_kept_def)
  have small: "unat (cell_inflation_radius l1) + 2 < 2 ^ 15" "unat (cell_inflation_radius l1) + 2 < 2 ^ 32"
    using k unfolding l1(3) un by auto
  obtain l2 where l2: "computeCaches l1 = Some l2" using computeCaches_total [OF l1(1) _ small(1)] l1(2) assms(4) by auto
  have ok: "inflation_ok l2" by (rule computeCaches_inflation_ok [OF l2 l1(1) small(2)]) (simp add: l1(4) assms(2))
  note kept = computeCaches_ok [OF l2 l1(1) small(2), unfolded l1]
  have "inf_onInitialize en rad scale unk around m new_inflation =
      Some (l2\<lparr>seen := replicate (unat (size_x m * size_y m)) False\<rparr>)"
    using l2 R by (simp add: inf_onInitialize_def inf_matchSize_def Let_def l1_def l0_def)
  moreover have "radius_fits m rad" using assms(2) R un k by (simp add: radius_fits_def)
  ultimately show ?thesis using ok kept un k_def by simp
qed

text \<open>
  \<open>onInitialize\<close> empties the tables but keeps the radius they were made for: called again with the same radius,
  \<open>computeCaches\<close> does not make them anew and writes outside.
\<close>

lemma second_initialize_undefined:
  assumes "inf_onInitialize en rad scale unk around m new_inflation = Some l" "cell_inflation_radius l \<noteq> 0"
    and "radius_fits m rad"
  shows "inf_onInitialize en' rad scale' unk' around' m l = None"
proof -
  define l0 where "l0 = new_inflation\<lparr>inf_enabled := en, inflation_radius := rad, cost_scaling_factor := scale,
    inflate_unknown := unk, inflate_around_unknown := around, inf_current := True, seen := [], cached_distances := [],
    cached_costs := [], need_reinflation := False\<rparr>"
  obtain R where R: "cellDistance m rad = Some R"
    using assms(1) by (auto simp: inf_onInitialize_def Let_def split: Option.bind_splits)
  define l1 where "l1 = l0\<lparr>inf_resolution := resolution m, cell_inflation_radius := R\<rparr>"
  obtain l2 where l2: "computeCaches l1 = Some l2" "l = l2\<lparr>seen := replicate (unat (size_x m * size_y m)) False\<rparr>"
    using assms(1) R
    by (auto simp: inf_onInitialize_def inf_matchSize_def Let_def l1_def l0_def split: Option.bind_splits)
  have fits: "unat R + 2 < 2 ^ 32" using assms(3) R by (simp add: radius_fits_def)
  have "caches_kept l1" "unat (cell_inflation_radius l1) + 2 < 2 ^ 32"
    using fits by (simp_all add: l1_def l0_def caches_kept_def new_inflation_def)
  from computeCaches_ok [OF l2(1) this] have l: "cell_inflation_radius l = R" "cached_cell_inflation_radius l = R"
    using assms(2) l2(2) by (auto simp: l1_def)
  have "unat (R + 2) = unat R + 2" using fits by (simp add: unat_word_ariths)
  then have "computeCaches l3 = None" if "cell_inflation_radius l3 = R" "cached_cell_inflation_radius l3 = R" "cached_distances l3 = []"
    for l3 using that assms(2) l(1) by (auto simp: computeCaches_def Let_def split: Option.bind_splits)
  then show ?thesis
    using R l by (simp add: inf_onInitialize_def inf_matchSize_def Let_def)
qed

text \<open>A small map with an obstacle and an unknown cell, and a layer on it, for the examples.\<close>

definition lethal_map :: costmap2d where
  "lethal_map = small_map\<lparr>costmap := Some [254, 0, 0, 0, 0, 255]\<rparr>"

lemma demo_inflation:
  obtains l where "inf_onInitialize True 1 1 False False lethal_map new_inflation = Some l" "tables_ok l" "no_waiting l"
    "unat (cell_inflation_radius l) = 1" "cell_inflation_radius l \<noteq> 0" "inf_enabled l" "0 \<le> cost_scaling_factor l" "0 \<le> inf_resolution l"
    "inflate_around_unknown l = False" "radius_fits lethal_map 1"
proof -
  have res: "resolution lethal_map = 1" by (simp add: lethal_map_def small_map_def)
  obtain l where l: "inf_onInitialize True 1 1 False False lethal_map new_inflation = Some l" "inflation_ok l"
    "unat (cell_inflation_radius l) = 1" "inf_enabled l" "cost_scaling_factor l = 1" "inf_resolution l = 1"
    "inflate_around_unknown l = False" "radius_fits lethal_map 1"
    using inf_onInitialize_total [of lethal_map 1 1 True False False] by (auto simp: res)
  have nz: "cell_inflation_radius l \<noteq> 0" using l(3) by auto
  show thesis by (rule that [OF l(1) _ _ l(3) nz l(4)]) (use l nz in \<open>auto simp: inflation_ok_def\<close>)
qed

end
