(* ===== verification/Inflation_Update.thy ===== *)
theory Inflation_Update
  imports Inflation_State
begin

text \<open>
  What an update of the inflation layer does to the costs, that the layer keeps its own state in order, and the layer in
  the stack of the layered costmap.
\<close>

section \<open>The obstacles of an update\<close>

definition roomy :: "costmap2d \<Rightarrow> bool" where
  "roomy m \<longleftrightarrow> unat (size_x m) * unat (size_y m) < 2 ^ 31 \<and>
    unat (size_x m) + 2 ^ 15 < 2 ^ 31 \<and> unat (size_y m) + 2 ^ 15 < 2 ^ 31"

definition source_cell :: "costmap2d \<Rightarrow> InflationLayer \<Rightarrow> nat \<Rightarrow> nat \<Rightarrow> bool" where
  "source_cell m l x y \<longleftrightarrow> x < unat (size_x m) \<and> y < unat (size_y m) \<and> is_source l (cell m x y)"

definition sources_near :: "int \<Rightarrow> int \<Rightarrow> int \<Rightarrow> int \<Rightarrow> costmap2d \<Rightarrow> InflationLayer \<Rightarrow> place set" where
  "sources_near x0 y0 xn yn m l =
    (let r = int (unat (cell_inflation_radius l))
     in {p. \<exists>x y. p = pt x y \<and> source_cell m l x y \<and> inside (x0 - r) (y0 - r) (xn + r) (yn + r) x y})"

lemma scan_cells_spec:
  assumes "map_ok m" "unat (size_x m) * unat (size_y m) < 2 ^ 31"
    and "\<forall>(i, j)\<in>set ps. 0 \<le> i \<and> i < int (unat (size_x m)) \<and> 0 \<le> j \<and> j < int (unat (size_y m))"
  shows "scan_cells m l ps = Some (map (\<lambda>p. waiting (nat (fst p)) (nat (snd p)) (nat (fst p)) (nat (snd p)))
    (filter (\<lambda>p. is_source l (cell m (nat (fst p)) (nat (snd p)))) ps))"
  using assms(3)
proof (induction ps)
  case (Cons p ps)
  obtain i j where p: "p = (i, j)" by (rule prod.exhaust)
  then have ij: "0 \<le> i" "0 \<le> j" "nat i < unat (size_x m)" "nat j < unat (size_y m)" using Cons.prems by (auto simp: nat_less_iff simp del: of_nat_unat)
  have w: "word_of_int i = (of_nat (nat i) :: u32)" "word_of_int j = (of_nat (nat j) :: u32)" using ij by simp_all
  note idx = nat_index [OF assms(1) ij(3,4)]
  have "unat (getIndex m (of_nat (nat i)) (of_nat (nat j))) < 2 ^ 31" using idx(1,2) assms(2) by linarith
  then have "sint (getIndex m (of_nat (nat i)) (of_nat (nat j))) = int (nat j * unat (size_x m) + nat i)"
    using sint_small idx(1) by metis
  then have nonneg: "\<not> sint (getIndex m (of_nat (nat i)) (of_nat (nat j))) < 0" by (simp only: of_nat_less_0_iff not_False_eq_True)
  show ?case
    unfolding p scan_cells.simps w Let_def using idx(3) nonneg Cons by (simp add: waiting_def)
qed simp

lemma tables_radius_small:
  assumes "tables_ok l"
  shows "unat (cell_inflation_radius l) < 2 ^ 15" "sint (cell_inflation_radius l) = int (unat (cell_inflation_radius l))"
proof -
  have lt: "int (side l) * int (side l) + int (side l) * int (side l) < 2 ^ 31" using assms by (simp add: tables_ok_def)
  show small: "unat (cell_inflation_radius l) < 2 ^ 15"
  proof (rule ccontr)
    assume "\<not> ?thesis"
    then have "2 ^ 15 \<le> side l" by (simp add: side_def)
    then have "int (2 ^ 15) \<le> int (side l)" by (simp only: of_nat_le_iff)
    then have "2 ^ 15 \<le> int (side l)" by simp
    then have "2 ^ 15 * 2 ^ 15 \<le> int (side l) * int (side l)" by (intro mult_mono) auto
    then show False using lt by simp
  qed
  then show "sint (cell_inflation_radius l) = int (unat (cell_inflation_radius l))" by (intro sint_small) simp
qed

section \<open>One update\<close>

lemma inf_updateCosts_wave:
  assumes grid: "grid_ok m" "roomy m" and tab: "tables_ok l" and empty: "no_waiting l"
    and win: "window_in m x0 y0 xn yn" and on: "inf_enabled l" "cell_inflation_radius l \<noteq> 0"
  shows "\<exists>m' S H. inf_updateCosts x0 y0 xn yn m l =
      Some (m', l\<lparr>seen := S, inflation_cells := replicate (length (inflation_cells l)) [], inf_current := True\<rparr>) \<and>
    same_frame m m' \<and> map_ok m' \<and> wave (sources_near x0 y0 xn yn m l) (radius2 l) H \<and>
    closed_wave (unat (size_x m)) (unat (size_y m)) (radius2 l) H \<and>
    (\<forall>ob\<in>sources_near x0 y0 xn yn m l. (ob, ob) \<in> set H) \<and> costs_inv x0 y0 xn yn m l m' H"
proof -
  define w where "w = unat (size_x m)"
  define h where "h = unat (size_y m)"
  define r where "r = int (unat (cell_inflation_radius l))"
  define Obs where "Obs = sources_near x0 y0 xn yn m l"
  have ok: "map_ok m" by (rule grid_okD(1) [OF grid(1)])
  have sizes: "sint (size_x m) = int w" "sint (size_y m) = int h"
    using sint_small grid_okD(4,6) [OF grid(1)] by (simp_all add: w_def h_def)
  have r: "sint (cell_inflation_radius l) = r" "0 \<le> r" "r < 2 ^ 15"
    using tables_radius_small [OF tab] by (simp_all add: r_def del: of_nat_unat)
  have win': "0 \<le> x0" "x0 \<le> xn" "xn \<le> int w" "0 \<le> y0" "y0 \<le> yn" "yn \<le> int h"
    using win by (simp_all add: window_in_def w_def h_def)
  have room: "int w + 2 ^ 15 < 2 ^ 31" "int h + 2 ^ 15 < 2 ^ 31"
  proof -
    have "int k + 2 ^ 15 < 2 ^ 31" if "k + 2 ^ 15 < 2 ^ 31" for k using that by simp
    then show "int w + 2 ^ 15 < 2 ^ 31" "int h + 2 ^ 15 < 2 ^ 31" using grid(2) unfolding roomy_def w_def h_def by blast+
  qed
  have fits: "i32 (x0 - r) = Some (x0 - r)" "i32 (y0 - r) = Some (y0 - r)" "i32 (xn + r) = Some (xn + r)"
    "i32 (yn + r) = Some (yn + r)"
    using r win' room by (simp_all add: i32_def fits_i32_def)
  define cols where "cols = [max 0 (x0 - r)..min (int w) (xn + r) - 1]"
  define rows where "rows = [max 0 (y0 - r)..min (int h) (yn + r) - 1]"
  define ps where "ps = concat (map (\<lambda>j. map (\<lambda>i. (i, j)) cols) rows)"
  have ps: "(i, j) \<in> set ps \<longleftrightarrow> 0 \<le> i \<and> i < int w \<and> 0 \<le> j \<and> j < int h \<and> x0 - r \<le> i \<and> i < xn + r \<and>
      y0 - r \<le> j \<and> j < yn + r" for i j
    by (auto simp: ps_def cols_def rows_def image_iff Bex_def)
  define S where "S = replicate (unat (size_x m * size_y m)) False"
  have area: "unat (size_x m * size_y m) = w * h" using map_ok_area [OF ok] by (simp add: w_def h_def)
  define found where "found = map (\<lambda>p. waiting (nat (fst p)) (nat (snd p)) (nat (fst p)) (nat (snd p)))
    (filter (\<lambda>p. is_source l (cell m (nat (fst p)) (nat (snd p)))) ps)"
  have scan: "scan_cells m (l\<lparr>seen := S\<rparr>) ps = Some found"
  proof -
    have "is_source (l\<lparr>seen := S\<rparr>) = is_source l" by (simp add: fun_eq_iff is_source_def)
    then show ?thesis
      using scan_cells_spec [OF ok, of ps "l\<lparr>seen := S\<rparr>"] grid(2) ps
      by (auto simp: roomy_def found_def w_def h_def)
  qed
  have found: "c \<in> set found \<longleftrightarrow> here c = source c \<and> here c \<in> Obs" for c
  proof
    assume "c \<in> set found"
    then obtain i j where ij: "(i, j) \<in> set ps" "is_source l (cell m (nat i) (nat j))" "c = waiting (nat i) (nat j) (nat i) (nat j)"
      by (auto simp: found_def)
    have "source_cell m l (nat i) (nat j)" "inside (x0 - r) (y0 - r) (xn + r) (yn + r) (nat i) (nat j)"
      using ij(1,2) by (auto simp: ps source_cell_def inside_def w_def h_def nat_less_iff simp del: of_nat_unat)
    then show "here c = source c \<and> here c \<in> Obs"
      unfolding Obs_def sources_near_def Let_def r_def [symmetric] using ij(3) by auto
  next
    assume c: "here c = source c \<and> here c \<in> Obs"
    then obtain x y where xy: "here c = pt x y" "source_cell m l x y" "inside (x0 - r) (y0 - r) (xn + r) (yn + r) x y"
      unfolding Obs_def sources_near_def Let_def r_def [symmetric] by blast
    have "(int x, int y) \<in> set ps" using xy(2,3) by (auto simp: ps source_cell_def inside_def w_def h_def simp del: of_nat_unat)
    moreover have "c = waiting x y x y" using c xy(1) by (simp add: waiting_eq)
    ultimately show "c \<in> set found" using xy(2) unfolding found_def
      by (auto simp: source_cell_def intro!: image_eqI [of _ _ "(int x, int y)"])
  qed
  define n where "n = length (inflation_cells l)"
  have n: "0 < n" using tab by (auto simp: tables_ok_def n_def)
  have nil: "inflation_cells l ! k = []" if "k < n" for k
    using empty that by (simp add: no_waiting_def n_def)
  define B where "B = (inflation_cells l)[0 := found]"
  have B: "length B = n" "B ! k = (if k = 0 then found else [])" if "k < n" for k
    using nil n that by (simp_all add: B_def n_def)
  define l1 where "l1 = l\<lparr>seen := S, inflation_cells := B\<rparr>"
  have on_obs: "sources_on m Obs"
    by (auto simp: sources_on_def Obs_def sources_near_def Let_def source_cell_def on_grid_pt)
  have "bins_inv w h l Obs 0 0 S B []"
    unfolding bins_inv_def
  proof (intro conjI allI impI ballI)
    show "S ! (y * w + x) \<longleftrightarrow> reached [] (pt x y)" if "x < w" "y < h" for x y
      using row_index_less [OF that] by (simp add: S_def area reached_def)
    show "entry_ok w h l Obs [] k c" if k: "k < length B" "c \<in> set (B ! k)" for k c
    proof -
      have "k = 0" "c \<in> set found" using B k n by (auto split: if_splits)
      then have "here c = source c" "here c \<in> Obs" "on_grid w h (here c)" "k = 0"
        using found on_obs by (auto simp: sources_on_def w_def h_def)
      then show ?thesis by (simp add: entry_ok_def radius2_def)
    qed
    show "(ob, ob) \<in> set [] \<or> awaits 0 0 B l ob ob" if ob: "ob \<in> Obs" for ob
    proof -
      obtain x y where xy: "ob = pt x y" using ob unfolding Obs_def sources_near_def Let_def by blast
      then have "waiting x y x y \<in> set found" using found ob by simp
      then show ?thesis using B n xy unfolding awaits_def pending_def
        by (auto intro!: bexI [of _ "waiting x y x y"])
    qed
  qed (simp_all add: reached_def)
  moreover have "side_by_side m l m l1"
    unfolding side_by_side_def l1_def using ok same_frame_refl [of m] B(1) [OF n]
    by (intro conjI exI [of _ S] exI [of _ B]) (simp_all add: S_def area w_def h_def n_def)
  moreover have "costs_inv x0 y0 xn yn m l m []" by (simp add: costs_inv_def)
  ultimately have "spread_inv x0 y0 xn yn m l Obs 0 0 m l1 []"
    by (simp add: spread_inv_def w_def h_def l1_def)
  from spread_bins_follow [OF this tab on_obs, of n] obtain m' l' H where
    run: "spread_bins x0 y0 xn yn [0..<n] (m, l1) = Some (m', l')" and inv: "spread_inv x0 y0 xn yn m l Obs n 0 m' l' H"
    and len: "length (inflation_cells l') = n"
    using B n by (auto simp: l1_def)
  obtain S' B' where l': "l' = l\<lparr>seen := S', inflation_cells := B'\<rparr>" "same_frame m m'" "map_ok m'"
    using inv unfolding spread_inv_def side_by_side_def by blast
  have D: "bins_inv w h l Obs n 0 (seen l') B' H" and costs: "costs_inv x0 y0 xn yn m l m' H"
    using inv l'(1) unfolding spread_inv_def w_def h_def by simp_all
  have lenB: "length B' = n" using len l'(1) by simp
  then have none: "B' = replicate n []" using bins_invD(4) [OF D] by (intro nth_equalityI) simp_all
  have gone: "\<not> awaits n 0 B' l p s" for p s
    by (auto simp: awaits_def pending_def none)
  have "closed_wave w h (radius2 l) H"
    unfolding closed_wave_def using bins_invD(7) [OF D] gone by blast
  moreover have "\<forall>ob\<in>Obs. (ob, ob) \<in> set H" using bins_invD(8) [OF D] gone by blast
  moreover have "inf_updateCosts x0 y0 xn yn m l =
      Some (m', l\<lparr>seen := S', inflation_cells := replicate n [], inf_current := True\<rparr>)"
    using on run n nil [of 0] fits scan l'(1) none
    by (simp add: inf_updateCosts_def Let_def r sizes vec_at_def S_def [symmetric] cols_def [symmetric] rows_def [symmetric]
        ps_def [symmetric] B_def [symmetric] l1_def n_def)
  ultimately show ?thesis
    using l'(2,3) bins_invD(1) [OF D] costs unfolding w_def h_def Obs_def n_def by blast
qed

section \<open>The costs\<close>

text \<open>The cost falls with the distance.\<close>

lemma computeCost_antitone:
  assumes "0 \<le> cost_scaling_factor l" "0 \<le> inf_resolution l" "0 \<le> d" "d \<le> d'"
    and "computeCost l d = Some c" "computeCost l d' = Some c'"
  shows "c' \<le> c"
proof -
  have faded: "unat v \<le> 252" if v: "computeCost l a = Some v" "inf_inscribed_radius l < a * inf_resolution l" "a \<noteq> 0" for a v
  proof -
    obtain i where i: "v = word_of_int i" "0 \<le> i" "i \<le> 252" using faded_cost [OF assms(1) v(2,3)] v(1) by auto
    then have "unat v = nat i" by (simp add: unat_u8)
    then show ?thesis using i by simp
  qed
  consider "d = 0" | "d \<noteq> 0" "d * inf_resolution l \<le> inf_inscribed_radius l" | "d \<noteq> 0" "inf_inscribed_radius l < d * inf_resolution l"
    by linarith
  then show ?thesis
  proof cases
    case 1
    then have "c = 254" using assms(5) by (simp add: computeCost_def)
    moreover have "unat c' \<le> 254"
    proof (cases "d' = 0 \<or> d' * inf_resolution l \<le> inf_inscribed_radius l")
      case True
      then show ?thesis using assms(6) by (auto simp: computeCost_def split: if_splits)
    next
      case False
      then show ?thesis using faded [OF assms(6)] by simp
    qed
    ultimately show ?thesis by (simp add: word_le_nat_alt)
  next
    case 2
    then have "c = 253" using assms(5) by (simp add: computeCost_def)
    moreover have "unat c' \<le> 253"
    proof (cases "d' * inf_resolution l \<le> inf_inscribed_radius l")
      case True
      then show ?thesis using assms(3,4,6) 2 by (auto simp: computeCost_def split: if_splits)
    next
      case False
      then show ?thesis using faded [OF assms(6)] assms(3,4) 2 by simp
    qed
    ultimately show ?thesis by (simp add: word_le_nat_alt)
  next
    case 3
    have le: "d * inf_resolution l \<le> d' * inf_resolution l" using assms(2,4) by (rule mult_right_mono [rotated])
    define i where "i a = \<lfloor>252 * exp (- cost_scaling_factor l * (a * inf_resolution l - inf_inscribed_radius l))\<rfloor>" for a
    have c: "c = word_of_int (i d)" "0 \<le> i d" "i d \<le> 252" "c' = word_of_int (i d')" "0 \<le> i d'" "i d' \<le> 252"
      using faded_cost [OF assms(1) 3(2,1)] faded_cost [OF assms(1), of d'] 3 le assms(3-6) by (auto simp: i_def)
    have "cost_scaling_factor l * (d * inf_resolution l - inf_inscribed_radius l) \<le>
        cost_scaling_factor l * (d' * inf_resolution l - inf_inscribed_radius l)"
      using assms(1) le by (intro mult_left_mono) auto
    then have "i d' \<le> i d" unfolding i_def by (intro floor_mono) simp
    then show ?thesis using c unat_u8 by (simp add: word_le_nat_alt)
  qed
qed

lemma costs_invD:
  assumes "costs_inv x0 y0 xn yn m l m' H" "x < unat (size_x m)" "y < unat (size_y m)"
  shows "\<not> reached H (pt x y) \<Longrightarrow> cell m' x y = cell m x y"
    and "(pt x y, s) \<in> set H \<Longrightarrow> cell m' x y =
      (if inside x0 y0 xn yn x y then inflated l (cell m x y) (spread_cost l (pt x y) s) else cell m x y)"
  using assms unfolding costs_inv_def by blast+

lemma inflated_ge: "c \<le> inflated l old c"
  by (simp add: inflated_def)

lemma spread_cost_eq:
  assumes "tables_ok l" "dist2 (pt x y) (pt sx sy) \<le> radius2 l"
  shows "computeCost l (sqrt (real_of_int (dist2 (pt x y) (pt sx sy)))) = Some (spread_cost l (pt x y) (pt sx sy))"
proof -
  have "udiff x sx < side l" "udiff y sy < side l"
    using udiff_bound [of x y sx sy "unat (cell_inflation_radius l)"] assms(2) by (simp_all add: radius2_def side_def)
  then have "computeCost l (hypot (udiff x sx) (udiff y sy)) \<noteq> None"
    using assms(1) by (auto simp: tables_ok_def)
  then show ?thesis unfolding hypot_dist2 spread_cost_def by simp
qed

lemma inf_updateCosts_covers:
  assumes "grid_ok m" "roomy m" "tables_ok l" "no_waiting l" "window_in m x0 y0 xn yn"
    and "inf_enabled l" "cell_inflation_radius l \<noteq> 0" "0 \<le> cost_scaling_factor l" "0 \<le> inf_resolution l"
    and up: "inf_updateCosts x0 y0 xn yn m l = Some (m', l')" and xy: "inside x0 y0 xn yn x y" and ob: "source_cell m l ox oy"
    and n: "steps (pt x y) (pt ox oy) = int n" "n \<le> unat (cell_inflation_radius l)" and c: "computeCost l (real n) = Some c"
  shows "c \<le> cell m' x y"
proof -
  define r where "r = unat (cell_inflation_radius l)"
  obtain H where H: "wave (sources_near x0 y0 xn yn m l) (radius2 l) H"
      "closed_wave (unat (size_x m)) (unat (size_y m)) (radius2 l) H"
      "\<forall>ob\<in>sources_near x0 y0 xn yn m l. (ob, ob) \<in> set H" "costs_inv x0 y0 xn yn m l m' H"
    using inf_updateCosts_wave [OF assms(1-7)] up by auto
  have size: "x < unat (size_x m)" "y < unat (size_y m)"
    using xy assms(5) by (auto simp: inside_def window_in_def simp del: of_nat_unat)
  have "\<bar>int x - int ox\<bar> \<le> int r" "\<bar>int y - int oy\<bar> \<le> int r" using n by (auto simp: steps_def r_def simp del: of_nat_unat)
  then have near: "pt ox oy \<in> sources_near x0 y0 xn yn m l"
    using xy ob unfolding sources_near_def Let_def r_def [symmetric]
    by (auto simp: inside_def intro!: exI [of _ ox] exI [of _ oy])
  have r2: "radius2 l = (int r)\<^sup>2" by (simp add: radius2_def r_def)
  have "on_grid (unat (size_x m)) (unat (size_y m)) (pt ox oy)" "on_grid (unat (size_x m)) (unat (size_y m)) (pt x y)"
    "(pt ox oy, pt ox oy) \<in> set H" "int n \<le> int r"
    using size ob H(3) near n(2) by (auto simp: on_grid_pt source_cell_def r_def simp del: of_nat_unat)
  from wave_within_steps [OF H(1,2) [unfolded r2] this(3,1,2) n(1) this(4)]
  obtain t where t: "(pt x y, t) \<in> set H" "dist2 (pt x y) t \<le> (int n)\<^sup>2" by blast
  obtain sx sy where st: "t = pt sx sy" and d: "dist2 (pt x y) t \<le> radius2 l"
    using wave_sound [OF H(1) t(1)] by (auto simp: sources_near_def Let_def)
  have "real_of_int (dist2 (pt x y) t) \<le> (real n)\<^sup>2" using t(2) by (metis of_int_le_iff of_int_of_nat_eq of_int_power)
  then have "sqrt (real_of_int (dist2 (pt x y) t)) \<le> real n" by (simp add: real_le_lsqrt)
  then have "c \<le> spread_cost l (pt x y) t"
    using computeCost_antitone [OF assms(8,9) _ _ _ c] spread_cost_eq [OF assms(3), of x y sx sy] d st
    by (metis dist2_nonneg of_int_0_le_iff real_sqrt_ge_zero)
  also have "\<dots> \<le> cell m' x y"
    using costs_invD(2) [OF H(4) size t(1)] xy inflated_ge by simp
  finally show ?thesis .
qed

lemma lethal_map_ok:
  "grid_ok lethal_map" "roomy lethal_map" "window_in lethal_map 0 0 3 2"
  by (simp_all add: lethal_map_def small_map_def grid_ok_def map_ok_def roomy_def window_in_def)

lemma lethal_map_sources:
  assumes "inflate_around_unknown l = False"
  shows "source_cell lethal_map l x y \<longleftrightarrow> x = 0 \<and> y = 0"
proof -
  have "x < 3 \<and> y < 2 \<longleftrightarrow> (x = 0 \<or> x = 1 \<or> x = 2) \<and> (y = 0 \<or> y = 1)" by auto
  then show ?thesis using assms
    by (auto simp: source_cell_def is_source_def lethal_map_def small_map_def cell_def)
qed

lemma inf_updateCosts_near:
  assumes "grid_ok m" "roomy m" "tables_ok l" "no_waiting l" "window_in m x0 y0 xn yn"
    and "inf_enabled l" "cell_inflation_radius l \<noteq> 0"
  shows "\<exists>m' l'. inf_updateCosts x0 y0 xn yn m l = Some (m', l') \<and> alike m m' \<and> map_ok m' \<and>
    (\<forall>x < unat (size_x m). \<forall>y < unat (size_y m). cell m' x y = cell m x y \<or> inside x0 y0 xn yn x y \<and>
      (\<exists>ox oy c. source_cell m l ox oy \<and> dist2 (pt x y) (pt ox oy) \<le> radius2 l \<and>
        computeCost l (sqrt (real_of_int (dist2 (pt x y) (pt ox oy)))) = Some c \<and>
        cell m' x y = inflated l (cell m x y) c))"
proof -
  obtain m' S H where up: "inf_updateCosts x0 y0 xn yn m l =
      Some (m', l\<lparr>seen := S, inflation_cells := replicate (length (inflation_cells l)) [], inf_current := True\<rparr>)"
      "same_frame m m'" "map_ok m'"
    and H: "wave (sources_near x0 y0 xn yn m l) (radius2 l) H" "costs_inv x0 y0 xn yn m l m' H"
    using inf_updateCosts_wave [OF assms] by blast
  have "cell m' x y = cell m x y \<or> inside x0 y0 xn yn x y \<and>
      (\<exists>ox oy c. source_cell m l ox oy \<and> dist2 (pt x y) (pt ox oy) \<le> radius2 l \<and>
        computeCost l (sqrt (real_of_int (dist2 (pt x y) (pt ox oy)))) = Some c \<and>
        cell m' x y = inflated l (cell m x y) c)"
    if xy: "x < unat (size_x m)" "y < unat (size_y m)" for x y
  proof (cases "reached H (pt x y) \<and> inside x0 y0 xn yn x y")
    case True
    then obtain s where s: "(pt x y, s) \<in> set H" unfolding reached_iff by blast
    then obtain ox oy where o: "s = pt ox oy" "source_cell m l ox oy" "dist2 (pt x y) s \<le> radius2 l"
      using wave_sound [OF H(1) s] by (auto simp: sources_near_def Let_def)
    moreover have "cell m' x y = inflated l (cell m x y) (spread_cost l (pt x y) s)"
      using costs_invD(2) [OF H(2) xy s] True by simp
    ultimately show ?thesis using spread_cost_eq [OF assms(3), of x y ox oy] True by blast
  next
    case False
    then show ?thesis using costs_invD [OF H(2) xy] unfolding reached_iff by meson
  qed
  then show ?thesis
    using up same_frame_alike [OF up(2)] by blast
qed

text \<open>
  Property C17 (safety): an update changes no other cell: a changed cell lies in the window and within the inflation
  radius of an obstacle of the map, and it has got the cost of its distance to such an obstacle.
\<close>

theorem inflation_stays_within_radius:
  assumes "grid_ok m" "roomy m" "tables_ok l" "no_waiting l" "window_in m x0 y0 xn yn"
    and "inf_enabled l" "cell_inflation_radius l \<noteq> 0"
  shows "\<exists>m' l'. inf_updateCosts x0 y0 xn yn m l = Some (m', l') \<and> alike m m' \<and> map_ok m' \<and>
    (\<forall>x < unat (size_x m). \<forall>y < unat (size_y m). cell m' x y = cell m x y \<or> inside x0 y0 xn yn x y \<and>
      (\<exists>ox oy c. source_cell m l ox oy \<and>
        (int x - int ox)\<^sup>2 + (int y - int oy)\<^sup>2 \<le> (int (unat (cell_inflation_radius l)))\<^sup>2 \<and>
        computeCost l (sqrt (real_of_int ((int x - int ox)\<^sup>2 + (int y - int oy)\<^sup>2))) = Some c \<and>
        cell m' x y = inflated l (cell m x y) c))"
  using inf_updateCosts_near [OF assms] unfolding dist2_def radius2_def pt_simps .

theorem inflation_stays_within_radius_witness:
  "\<exists>l m' l'. inf_onInitialize True 1 1 False False lethal_map new_inflation = Some l \<and>
    inf_updateCosts 0 0 3 2 lethal_map l = Some (m', l') \<and> cell m' 2 0 = 0"
proof -
  obtain l where l: "inf_onInitialize True 1 1 False False lethal_map new_inflation = Some l" "tables_ok l" "no_waiting l"
    "unat (cell_inflation_radius l) = 1" "cell_inflation_radius l \<noteq> 0" "inf_enabled l" "0 \<le> cost_scaling_factor l"
    "0 \<le> inf_resolution l" "inflate_around_unknown l = False" by (rule demo_inflation)
  obtain m' l' where up: "inf_updateCosts 0 0 3 2 lethal_map l = Some (m', l')"
    and c: "\<forall>x < unat (size_x lethal_map). \<forall>y < unat (size_y lethal_map). cell m' x y = cell lethal_map x y \<or>
      inside 0 0 3 2 x y \<and> (\<exists>ox oy c. source_cell lethal_map l ox oy \<and>
        (int x - int ox)\<^sup>2 + (int y - int oy)\<^sup>2 \<le> (int (unat (cell_inflation_radius l)))\<^sup>2 \<and>
        computeCost l (sqrt (real_of_int ((int x - int ox)\<^sup>2 + (int y - int oy)\<^sup>2))) = Some c \<and>
        cell m' x y = inflated l (cell lethal_map x y) c)"
    using inflation_stays_within_radius [OF lethal_map_ok(1,2) l(2,3) lethal_map_ok(3) l(6,5)] by blast
  have "2 < unat (size_x lethal_map)" "0 < unat (size_y lethal_map)" "cell lethal_map 2 0 = 0"
    by (simp_all add: lethal_map_def small_map_def cell_def)
  then have "cell m' 2 0 = 0"
    using c [rule_format, of 2 0] l(4) lethal_map_sources [OF l(9)] by (auto simp del: of_nat_unat)
  then show ?thesis using l(1) up by blast
qed

text \<open>
  Property C16 (equivalence): with one obstacle the wave over the bins computes what a direct calculation gives: every
  cell of the window whose Euclidean distance is at most the radius gets the cost of this distance, all others keep
  their cost.
\<close>

theorem inflation_exact_for_one_obstacle:
  assumes "grid_ok m" "roomy m" "tables_ok l" "no_waiting l" "window_in m x0 y0 xn yn"
    and "inf_enabled l" "cell_inflation_radius l \<noteq> 0" "\<forall>x y. source_cell m l x y \<longleftrightarrow> x = ox \<and> y = oy"
  shows "\<exists>m' l'. inf_updateCosts x0 y0 xn yn m l = Some (m', l') \<and>
    (\<forall>x < unat (size_x m). \<forall>y < unat (size_y m). cell m' x y =
      (let d2 = (int x - int ox)\<^sup>2 + (int y - int oy)\<^sup>2
       in if inside x0 y0 xn yn x y \<and> d2 \<le> (int (unat (cell_inflation_radius l)))\<^sup>2
          then inflated l (cell m x y) (the (computeCost l (sqrt (real_of_int d2)))) else cell m x y))"
proof -
  define Obs where "Obs = sources_near x0 y0 xn yn m l"
  define r where "r = unat (cell_inflation_radius l)"
  obtain m' S H where up: "inf_updateCosts x0 y0 xn yn m l =
      Some (m', l\<lparr>seen := S, inflation_cells := replicate (length (inflation_cells l)) [], inf_current := True\<rparr>)"
    and H: "wave Obs (radius2 l) H" "closed_wave (unat (size_x m)) (unat (size_y m)) (radius2 l) H"
      "\<forall>ob\<in>Obs. (ob, ob) \<in> set H" "costs_inv x0 y0 xn yn m l m' H"
    using inf_updateCosts_wave [OF assms(1-7)] unfolding Obs_def by blast
  have Obs: "Obs \<subseteq> {pt ox oy}" unfolding Obs_def sources_near_def Let_def using assms(8) by auto
  have ob: "source_cell m l ox oy" using assms(8) by blast
  have "cell m' x y = (if inside x0 y0 xn yn x y \<and> dist2 (pt x y) (pt ox oy) \<le> radius2 l
      then inflated l (cell m x y) (spread_cost l (pt x y) (pt ox oy)) else cell m x y)"
    if xy: "x < unat (size_x m)" "y < unat (size_y m)" for x y
  proof (cases "reached H (pt x y)")
    case True
    then obtain s where s: "(pt x y, s) \<in> set H" unfolding reached_iff by blast
    then have "s = pt ox oy" "dist2 (pt x y) s \<le> radius2 l" using wave_sound [OF H(1) s] Obs by auto
    then show ?thesis using costs_invD(2) [OF H(4) xy s] by simp
  next
    case False
    have none: "\<not> (inside x0 y0 xn yn x y \<and> dist2 (pt x y) (pt ox oy) \<le> radius2 l)"
    proof
      assume in_disc: "inside x0 y0 xn yn x y \<and> dist2 (pt x y) (pt ox oy) \<le> radius2 l"
      then have "udiff x ox \<le> r" "udiff y oy \<le> r" using udiff_bound [of x y ox oy r] by (simp_all add: radius2_def r_def)
      then have "pt ox oy \<in> Obs"
        using in_disc ob unfolding Obs_def sources_near_def Let_def r_def [symmetric]
        by (auto simp: inside_def udiff_def split: if_splits intro!: exI [of _ ox] exI [of _ oy])
      then have O: "Obs = {pt ox oy}" "(pt ox oy, pt ox oy) \<in> set H" using Obs H(3) by auto
      have "on_grid (unat (size_x m)) (unat (size_y m)) (pt ox oy)" "on_grid (unat (size_x m)) (unat (size_y m)) (pt x y)"
        using ob xy by (auto simp: on_grid_pt source_cell_def)
      then have "(pt x y, pt ox oy) \<in> set H"
        using wave_single [OF H(1) [unfolded O(1)] H(2) O(2), of "pt x y" "nat (steps (pt x y) (pt ox oy))"] in_disc
        by (simp add: steps_def)
      then show False using False unfolding reached_iff by blast
    qed
    show ?thesis unfolding if_not_P [OF none] by (rule costs_invD(1) [OF H(4) xy False])
  qed
  then show ?thesis using up unfolding dist2_def radius2_def spread_cost_def pt_simps Let_def by blast
qed

theorem inflation_exact_for_one_obstacle_witness:
  "\<exists>l m' l'. inf_onInitialize True 1 1 False False lethal_map new_inflation = Some l \<and>
    inf_updateCosts 0 0 3 2 lethal_map l = Some (m', l') \<and> cell m' 0 0 = 254 \<and> cell m' 1 1 = 0"
proof -
  obtain l where l: "inf_onInitialize True 1 1 False False lethal_map new_inflation = Some l" "tables_ok l" "no_waiting l"
    "unat (cell_inflation_radius l) = 1" "cell_inflation_radius l \<noteq> 0" "inf_enabled l" "0 \<le> cost_scaling_factor l"
    "0 \<le> inf_resolution l" "inflate_around_unknown l = False" by (rule demo_inflation)
  have src: "\<forall>x y. source_cell lethal_map l x y \<longleftrightarrow> x = 0 \<and> y = 0" using lethal_map_sources [OF l(9)] by simp
  obtain m' l' where up: "inf_updateCosts 0 0 3 2 lethal_map l = Some (m', l')"
    and c: "\<forall>x < unat (size_x lethal_map). \<forall>y < unat (size_y lethal_map). cell m' x y =
      (let d2 = (int x - int 0)\<^sup>2 + (int y - int 0)\<^sup>2
       in if inside 0 0 3 2 x y \<and> d2 \<le> (int (unat (cell_inflation_radius l)))\<^sup>2
          then inflated l (cell lethal_map x y) (the (computeCost l (sqrt (real_of_int d2)))) else cell lethal_map x y)"
    using inflation_exact_for_one_obstacle [OF lethal_map_ok(1,2) l(2,3) lethal_map_ok(3) l(6,5) src] by blast
  have "cell m' 0 0 = 254" "cell m' 1 1 = 0"
    using c [rule_format, of 0 0] c [rule_format, of 1 1] unfolding l(4)
    by (simp_all add: lethal_map_def small_map_def cell_def inside_def inflated_def computeCost_def)
  then show ?thesis using l(1) up by blast
qed

section \<open>The state across operations\<close>

definition inf_params :: "InflationLayer \<Rightarrow> bool \<times> u32 \<times> (real \<Rightarrow> u8 option) \<times> real \<times> real" where
  "inf_params l = (inf_enabled l, cell_inflation_radius l, computeCost l, cost_scaling_factor l, inf_resolution l)"

lemma inf_params_updates [simp]:
  "inf_params (l\<lparr>inf_last := b\<rparr>) = inf_params l" "inf_params (l\<lparr>need_reinflation := v\<rparr>) = inf_params l"
  "inf_params (l\<lparr>inf_current := v\<rparr>) = inf_params l"
  "inf_params (l\<lparr>seen := S, inflation_cells := B\<rparr>) = inf_params l"
  by (simp_all add: inf_params_def computeCost_def fun_eq_iff)

lemma inf_updateCosts_ok:
  assumes "grid_ok m" "roomy m" "inflation_ok l" "window_in m x0 y0 xn yn"
  shows "\<exists>m' l'. inf_updateCosts x0 y0 xn yn m l = Some (m', l') \<and> map_ok m' \<and> alike m m' \<and>
    inflation_ok l' \<and> agree_outside x0 y0 xn yn m m' \<and> inf_params l' = inf_params l"
proof (cases "inf_enabled l \<and> cell_inflation_radius l \<noteq> 0")
  case True
  then have t: "tables_ok l" "no_waiting l" using assms(3) by (simp_all add: inflation_ok_def)
  obtain m' S H where up: "inf_updateCosts x0 y0 xn yn m l =
      Some (m', l\<lparr>seen := S, inflation_cells := replicate (length (inflation_cells l)) [], inf_current := True\<rparr>)"
      "same_frame m m'" "map_ok m'" "costs_inv x0 y0 xn yn m l m' H"
    using inf_updateCosts_wave [OF assms(1,2) t assms(4)] True by blast
  have "agree_outside x0 y0 xn yn m m'"
    unfolding agree_outside_def
  proof (intro allI impI)
    fix x y assume xy: "x < unat (size_x m)" "y < unat (size_y m)" "\<not> inside x0 y0 xn yn x y"
    show "cell m' x y = cell m x y"
      using costs_invD [OF up(4) xy(1,2)] xy(3) unfolding reached_iff by metis
  qed
  moreover have "replicate (length (inflation_cells l)) [] = inflation_cells l"
    using t(2) by (intro nth_equalityI) (auto simp: no_waiting_def)
  then have "inflation_ok (l\<lparr>seen := S, inflation_cells := replicate (length (inflation_cells l)) [], inf_current := True\<rparr>)"
    using assms(3) by simp
  moreover have "inf_params (l\<lparr>seen := S, inflation_cells := replicate (length (inflation_cells l)) [], inf_current := True\<rparr>) =
    inf_params l" by simp
  ultimately show ?thesis using up same_frame_alike by blast
next
  case False
  then show ?thesis using assms grid_okD(1) by (auto simp: inf_updateCosts_def agree_outside_def)
qed

section \<open>Every state the layer can reach\<close>

datatype inf_event =
    MapMatched
  | LayerReset
  | FootprintChanged
  | ParametersSet "inf_parameter list"
  | BoundsUpdated
  | CostsUpdated int int int int
  | OthersWrote

text \<open>The state is the map of the layered costmap, which other layers write, together with the layer.\<close>

inductive inf_init :: "costmap2d \<times> InflationLayer \<Rightarrow> bool" where
  "inf_onInitialize en rad scale unk around m new_inflation = Some l \<Longrightarrow> radius_fits m rad \<Longrightarrow> inf_init (m, l)"

inductive inf_step :: "costmap2d \<times> InflationLayer \<Rightarrow> inf_event \<Rightarrow> costmap2d \<times> InflationLayer \<Rightarrow> bool" where
  step_match: "inf_matchSize m' l = Some l' \<Longrightarrow> radius_fits m' (inflation_radius l) \<Longrightarrow> inf_step (m, l) MapMatched (m', l')"
| step_reset: "inf_reset m l = Some l' \<Longrightarrow> radius_fits m (inflation_radius l) \<Longrightarrow> inf_step (m, l) LayerReset (m, l')"
| step_footprint: "inf_onFootprintChanged fp m l = Some l' \<Longrightarrow> radius_fits m (inflation_radius l) \<Longrightarrow>
    inf_step (m, l) FootprintChanged (m, l')"
| step_parameters: "inf_dynamicParametersCallback ps m l = Some l' \<Longrightarrow> radii_fit m ps \<Longrightarrow>
    radius_fits m (inflation_radius l) \<Longrightarrow> inf_step (m, l) (ParametersSet ps) (m, l')"
| step_bounds: "inf_updateBounds b l = (b', l') \<Longrightarrow> inf_step (m, l) BoundsUpdated (m, l')"
| step_costs: "inf_updateCosts x0 y0 xn yn m l = Some (m', l') \<Longrightarrow> grid_ok m \<Longrightarrow> roomy m \<Longrightarrow> window_in m x0 y0 xn yn \<Longrightarrow>
    inf_step (m, l) (CostsUpdated x0 y0 xn yn) (m', l')"
| step_others: "inf_step (m, l) OthersWrote (m', l)"

lemma inf_init_ok: "inf_init s \<Longrightarrow> inflation_ok (snd s)"
proof (induction rule: inf_init.induct)
  case (1 en rad scale unk around m l)
  then show ?case
    by (auto simp: inf_onInitialize_def Let_def caches_kept_def new_inflation_def split: Option.bind_splits
        intro!: inf_matchSize_ok)
qed

lemma inf_step_ok:
  assumes "inflation_ok (snd s)" "inf_step s e t"
  shows "inflation_ok (snd t)"
  using assms(2)
proof (cases rule: inf_step.cases)
  case (step_match m' l l' m)
  then show ?thesis using assms(1) inf_matchSize_ok by (auto simp: inflation_ok_def)
next
  case (step_reset m l l')
  then show ?thesis using assms(1) inf_matchSize_ok by (auto simp: inf_reset_def inflation_ok_def [of l])
next
  case (step_footprint fp m l l')
  then show ?thesis using assms(1) inf_onFootprintChanged_ok by (auto simp: inflation_ok_def [of l])
next
  case (step_parameters ps m l l')
  then show ?thesis using assms(1) inf_dynamicParametersCallback_ok by simp
next
  case (step_bounds b l b' l' m)
  then show ?thesis using assms(1) by (auto simp: inf_updateBounds_def Let_def split: if_splits)
next
  case (step_costs x0 y0 xn yn m l m' l')
  then show ?thesis using assms(1) inf_updateCosts_ok [of m l x0 y0 xn yn] by auto
next
  case (step_others m l m')
  then show ?thesis using assms(1) by simp
qed

interpretation inf_sys: safe_system inf_init inf_step "\<lambda>s. inflation_ok (snd s)"
  by unfold_locales (auto intro: inf_init_ok inf_step_ok)

text \<open>
  Property C18 (type): whatever happens to an initialised layer (new sizes, resets, footprints, parameters, updates, other
  layers writing), its tables keep the sizes and contents the lookups rely on and no cell is left waiting, so that the
  next update is defined and begins with empty bins, as the comment in the code claims.
\<close>

theorem inflation_layer_well_formed:
  assumes "reach inf_init inf_step (m, l)"
  shows "inflation_ok l \<and>
    (\<forall>x0 y0 xn yn. grid_ok m \<longrightarrow> roomy m \<longrightarrow> window_in m x0 y0 xn yn \<longrightarrow>
      (\<exists>m' l'. inf_updateCosts x0 y0 xn yn m l = Some (m', l') \<and> map_ok m' \<and> inflation_ok l'))"
proof -
  have "inflation_ok l" using inf_sys.inv_reach [OF assms] by simp
  then show ?thesis using inf_updateCosts_ok by blast
qed

theorem inflation_layer_well_formed_witness:
  "\<exists>l m' l'. reach inf_init inf_step (lethal_map, l) \<and> inf_updateCosts 0 0 3 2 lethal_map l = Some (m', l')"
proof -
  obtain l where l: "inf_onInitialize True 1 1 False False lethal_map new_inflation = Some l" "radius_fits lethal_map 1"
    by (rule demo_inflation)
  then have r: "reach inf_init inf_step (lethal_map, l)" by (intro reach_init inf_init.intros)
  then show ?thesis
    using inflation_layer_well_formed [OF r] lethal_map_ok by blast
qed

section \<open>The layer in the stack\<close>

text \<open>The state of all layers contains the state of this one: \<open>get\<close> reads it, \<open>put\<close> replaces it.\<close>

definition inflation_layer ::
  "('w \<Rightarrow> InflationLayer) \<Rightarrow> (InflationLayer \<Rightarrow> 'w \<Rightarrow> 'w) \<Rightarrow> 'w Layer" where
  "inflation_layer get put =
    \<lparr>updateBounds = (\<lambda>_ _ _ b m. let (b', l') = inf_updateBounds b (get (layers_state m))
       in Some (b', m\<lparr>layers_state := put l' (layers_state m)\<rparr>)),
     updateCosts = (\<lambda>x0 y0 xn yn m w. map_option (\<lambda>(m', l'). (m', put l' w)) (inf_updateCosts x0 y0 xn yn m (get w))),
     layer_matchSize = (\<lambda>m w. map_option (\<lambda>l'. put l' w) (inf_matchSize m (get w))),
     layer_isCurrent = (\<lambda>w. inf_current (get w)),
     layer_isEnabled = (\<lambda>w. inf_enabled (get w)),
     layer_setCurrent = (\<lambda>c w. put ((get w)\<lparr>inf_current := c\<rparr>) w),
     onFootprintChanged = (\<lambda>fp m w. map_option (\<lambda>l'. put l' w) (inf_onFootprintChanged fp m (get w)))\<rparr>"

text \<open>
  The layer is in order and its parameters are \<open>P\<close>; \<open>other\<close> is what the remaining layers ask of their part of the state.
\<close>

definition inflatable ::
  "('w \<Rightarrow> InflationLayer) \<Rightarrow> bool \<times> u32 \<times> (real \<Rightarrow> u8 option) \<times> real \<times> real \<Rightarrow> (costmap2d \<Rightarrow> 'w \<Rightarrow> bool) \<Rightarrow>
    costmap2d \<Rightarrow> 'w \<Rightarrow> bool" where
  "inflatable get P other m w \<longleftrightarrow> roomy m \<and> inflation_ok (get w) \<and> inf_params (get w) = P \<and> other m w"

lemma inf_updateBounds_covers:
  assumes "0 \<le> inflation_radius l"
  shows "covers b (fst (inf_updateBounds b l))"
  using assms by (auto simp: inf_updateBounds_def Let_def covers_def)

lemma inflation_window_layer:
  assumes get_put: "\<And>l w. get (put l w) = l" "\<And>m l w. other m (put l w) = other m w"
    and alike: "\<And>m m' w. other m w \<Longrightarrow> alike m m' \<Longrightarrow> other m' w"
  shows "window_layer (inflation_layer get put) (inflatable get P other)"
proof
  fix m m' w
  assume "inflatable get P other m w" "alike m m'"
  then show "inflatable get P other m' w" using alike [of m w m'] by (simp add: inflatable_def alike_def roomy_def)
next
  fix mw :: "'a lc_maps" and x y yaw b
  assume g: "inflatable get P other (combined mw) (layers_state mw)"
  define l where "l = get (layers_state mw)"
  obtain b' l' where u: "inf_updateBounds b l = (b', l')" by (rule prod.exhaust)
  have ok: "inflation_ok l" using g by (simp add: inflatable_def l_def)
  then have "covers b b'" using inf_updateBounds_covers [of l b] u by (simp add: inflation_ok_def)
  moreover have "inflation_ok l' \<and> inf_params l' = inf_params l"
    using u ok by (auto simp: inf_updateBounds_def Let_def split: if_splits)
  ultimately show "\<exists>b' w'. updateBounds (inflation_layer get put) x y yaw b mw = Some (b', mw\<lparr>layers_state := w'\<rparr>) \<and>
      covers b b' \<and> inflatable get P other (combined mw) w'"
    using u g by (intro exI [of _ b'] exI [of _ "put l' (layers_state mw)"])
      (simp add: inflation_layer_def inflatable_def l_def get_put)
next
  fix m w x0 y0 xn yn
  assume a: "grid_ok m" "inflatable get P other m w" "window_in m x0 y0 xn yn"
  obtain m' l' where "inf_updateCosts x0 y0 xn yn m (get w) = Some (m', l')" "map_ok m'" "alike m m'" "inflation_ok l'"
    "agree_outside x0 y0 xn yn m m'" "inf_params l' = inf_params (get w)"
    using inf_updateCosts_ok [OF a(1) _ _ a(3), of "get w"] a(2) unfolding inflatable_def by blast
  then show "\<exists>m' w'. updateCosts (inflation_layer get put) x0 y0 xn yn m w = Some (m', w') \<and> map_ok m' \<and> alike m m' \<and>
      inflatable get P other m w' \<and> agree_outside x0 y0 xn yn m m'"
    using a(2) by (intro exI [of _ m'] exI [of _ "put l' w"]) (simp add: inflation_layer_def inflatable_def get_put)
next
  fix m w c
  assume "inflatable get P other m w"
  then show "inflatable get P other m (layer_setCurrent (inflation_layer get put) c w)"
    by (simp add: inflation_layer_def inflatable_def get_put)
qed

text \<open>A layer that knows only the first part of the state, such as those of Layered_Costmap.\<close>

definition in_first :: "'a Layer \<Rightarrow> ('a \<times> 'b) Layer" where
  "in_first l =
    \<lparr>updateBounds = (\<lambda>x y yaw b m. map_option (\<lambda>(b', m'). (b', \<lparr>primary = primary m', combined = combined m',
         layers_state = (layers_state m', snd (layers_state m))\<rparr>))
       (updateBounds l x y yaw b \<lparr>primary = primary m, combined = combined m, layers_state = fst (layers_state m)\<rparr>)),
     updateCosts = (\<lambda>x0 y0 xn yn m w. map_option (\<lambda>(m', w'). (m', (w', snd w))) (updateCosts l x0 y0 xn yn m (fst w))),
     layer_matchSize = (\<lambda>m w. map_option (\<lambda>w'. (w', snd w)) (layer_matchSize l m (fst w))),
     layer_isCurrent = (\<lambda>w. layer_isCurrent l (fst w)),
     layer_isEnabled = (\<lambda>w. layer_isEnabled l (fst w)),
     layer_setCurrent = (\<lambda>c w. (layer_setCurrent l c (fst w), snd w)),
     onFootprintChanged = (\<lambda>fp m w. map_option (\<lambda>w'. (w', snd w)) (onFootprintChanged l fp m (fst w)))\<rparr>"

lemma in_first_window_layer:
  assumes wl: "window_layer l good" and alike: "\<And>m m' v. other m v \<Longrightarrow> alike m m' \<Longrightarrow> other m' v"
  shows "window_layer (in_first l) (\<lambda>m w. good m (fst w) \<and> other m (snd w))"
proof
  fix m m' :: costmap2d and w :: "'a \<times> 'b"
  assume "good m (fst w) \<and> other m (snd w)" "alike m m'"
  then show "good m' (fst w) \<and> other m' (snd w)" using window_layer.good_alike [OF wl] alike by blast
next
  fix mw :: "('a \<times> 'b) lc_maps" and x y yaw b
  assume ok: "lc_ok mw" and g: "good (combined mw) (fst (layers_state mw)) \<and> other (combined mw) (snd (layers_state mw))"
  let ?m = "\<lparr>primary = primary mw, combined = combined mw, layers_state = fst (layers_state mw)\<rparr>"
  have "lc_ok ?m" "good (combined ?m) (layers_state ?m)" using ok g by (simp_all add: lc_ok_def)
  from window_layer.bounds_law [OF wl this, where x = x and y = y and yaw = yaw and b = b] obtain b' w' where
    "updateBounds l x y yaw b ?m = Some (b', ?m\<lparr>layers_state := w'\<rparr>)" "covers b b'" "good (combined mw) w'" by auto
  then show "\<exists>b' w'. updateBounds (in_first l) x y yaw b mw = Some (b', mw\<lparr>layers_state := w'\<rparr>) \<and> covers b b' \<and>
      good (combined mw) (fst w') \<and> other (combined mw) (snd w')"
    using g by (intro exI [of _ b'] exI [of _ "(w', snd (layers_state mw))"]) (simp add: in_first_def)
next
  fix m :: costmap2d and w :: "'a \<times> 'b" and x0 y0 xn yn
  assume a: "grid_ok m" "good m (fst w) \<and> other m (snd w)" "window_in m x0 y0 xn yn"
  then obtain m' w' where "updateCosts l x0 y0 xn yn m (fst w) = Some (m', w')" "map_ok m'" "alike m m'" "good m w'"
    "agree_outside x0 y0 xn yn m m'" using window_layer.costs_law [OF wl a(1) _ a(3)] by blast
  then show "\<exists>m' w'. updateCosts (in_first l) x0 y0 xn yn m w = Some (m', w') \<and> map_ok m' \<and> alike m m' \<and>
      (good m (fst w') \<and> other m (snd w')) \<and> agree_outside x0 y0 xn yn m m'"
    using a(2) by (intro exI [of _ m'] exI [of _ "(w', snd w)"]) (simp add: in_first_def)
next
  fix m :: costmap2d and w :: "'a \<times> 'b" and c
  assume "good m (fst w) \<and> other m (snd w)"
  then show "good m (fst (layer_setCurrent (in_first l) c w)) \<and> other m (snd (layer_setCurrent (in_first l) c w))"
    using window_layer.current_law [OF wl] by (simp add: in_first_def)
qed

lemma inflatable_pair:
  "inflatable snd P (\<lambda>m w. good m (fst w)) = (\<lambda>m w. good m (fst w) \<and> inflatable id P (\<lambda>m w. True) m (snd w))"
  by (auto simp: fun_eq_iff inflatable_def)

interpretation inf: window_layer "inflation_layer snd (\<lambda>l w. (fst w, l))" "inflatable snd P (\<lambda>m w. fit_layers n m (fst w))"
  for P n
  by (rule inflation_window_layer) (simp_all add: fit_layers_def alike_def)

interpretation mxf: window_layer "in_first (costmap_layer_at updateWithMax junk i)"
  "inflatable snd P (\<lambda>m w. fit_layers (Suc (i + k)) m (fst w))" for junk i k P
  unfolding inflatable_pair
  by (rule in_first_window_layer [OF mx.window_layer_axioms]) (simp add: inflatable_def alike_def roomy_def)

end
