(* ===== verification/Inflation_Stack.thy ===== *)
theory Inflation_Stack
  imports Inflation_Update
begin

text \<open>
  The inflation layer on top of other layers in the layered costmap. What a planner relies on: after an update no cell near
  an obstacle of the combined map is cheaper than its distance allows.
\<close>

section \<open>The last layer of a stack\<close>

lemma update_costs_append:
  "update_costs (ls @ ls') x0 y0 xn yn mw = Option.bind (update_costs ls x0 y0 xn yn mw) (update_costs ls' x0 y0 xn yn)"
proof (induction ls arbitrary: mw)
  case (Cons l ls)
  then show ?case by (cases "updateCosts l x0 y0 xn yn (fst mw) (snd mw)") simp_all
qed simp

lemma computeCost_lethal: "0 \<le> cost_scaling_factor l \<Longrightarrow> computeCost l d = Some 254 \<Longrightarrow> d = 0"
proof (rule ccontr)
  assume a: "0 \<le> cost_scaling_factor l" "computeCost l d = Some 254" "d \<noteq> 0"
  show False
  proof (cases "d * inf_resolution l \<le> inf_inscribed_radius l")
    case True
    then show False using a by (simp add: computeCost_def)
  next
    case False
    then obtain i where "254 = (word_of_int i :: u8)" "0 \<le> i" "i \<le> 252" using faded_cost [of l d] a by auto
    then have "unat (254 :: u8) = nat i" using unat_u8 [of i] by simp
    then show False using \<open>i \<le> 252\<close> by simp
  qed
qed

text \<open>An obstacle of the result was an obstacle before the inflation.\<close>

lemma lethal_was_source:
  assumes "grid_ok m" "roomy m" "tables_ok l" "no_waiting l" "window_in m x0 y0 xn yn"
    and "inf_enabled l" "cell_inflation_radius l \<noteq> 0" "0 \<le> cost_scaling_factor l"
    and "inf_updateCosts x0 y0 xn yn m l = Some (m', l')"
    and "x < unat (size_x m)" "y < unat (size_y m)" "cell m' x y = LETHAL_OBSTACLE"
  shows "source_cell m l x y"
proof -
  have "\<exists>m' l'. inf_updateCosts x0 y0 xn yn m l = Some (m', l') \<and>
    (\<forall>x < unat (size_x m). \<forall>y < unat (size_y m). cell m' x y = cell m x y \<or> inside x0 y0 xn yn x y \<and>
      (\<exists>ox oy c. source_cell m l ox oy \<and> dist2 (pt x y) (pt ox oy) \<le> radius2 l \<and>
        computeCost l (sqrt (real_of_int (dist2 (pt x y) (pt ox oy)))) = Some c \<and>
        cell m' x y = inflated l (cell m x y) c))"
    using inf_updateCosts_near [OF assms(1-7)] by blast
  then consider "cell m x y = LETHAL_OBSTACLE" |
    (inflated) ox oy c where "source_cell m l ox oy" "cell m' x y = inflated l (cell m x y) c"
      "computeCost l (sqrt (real_of_int (dist2 (pt x y) (pt ox oy)))) = Some c"
    using assms(9-12) by fastforce
  then show ?thesis
  proof cases
    case 1
    then show ?thesis using assms(10,11) by (simp add: source_cell_def is_source_def)
  next
    case inflated
    then have "c = 254 \<or> cell m x y = 254" using assms(12) by (auto simp: inflated_def max_def split: if_splits)
    then show ?thesis
    proof
      assume "c = 254"
      then have "sqrt (real_of_int (dist2 (pt x y) (pt ox oy))) = 0"
        using computeCost_lethal [OF assms(8)] inflated(3) by blast
      then have "pt x y = pt ox oy" by (simp add: dist2_eq_0)
      then show ?thesis using inflated(1) by simp
    next
      assume "cell m x y = 254"
      then show ?thesis using assms(10,11) by (simp add: source_cell_def is_source_def)
    qed
  qed
qed

section \<open>The layer after an update of the whole costmap\<close>

text \<open>All states of the layers hold an inflation layer that is switched on, with the same radius and costs.\<close>

definition inflating :: "('w \<Rightarrow> InflationLayer) \<Rightarrow> (costmap2d \<Rightarrow> 'w \<Rightarrow> bool) \<Rightarrow> u32 \<Rightarrow> (real \<Rightarrow> u8 option) \<Rightarrow> bool" where
  "inflating get good R costs \<longleftrightarrow> (\<forall>m w. good m w \<longrightarrow> roomy m \<and> inflation_ok (get w) \<and>
    (\<exists>s r. inf_params (get w) = (True, R, costs, s, r) \<and> R \<noteq> 0 \<and> 0 \<le> s \<and> 0 \<le> r))"

definition costs_at_least :: "int \<Rightarrow> int \<Rightarrow> int \<Rightarrow> int \<Rightarrow> u32 \<Rightarrow> (real \<Rightarrow> u8 option) \<Rightarrow> costmap2d \<Rightarrow> bool" where
  "costs_at_least x0 y0 xn yn R costs m \<longleftrightarrow> (\<forall>x y ox oy n c. inside x0 y0 xn yn x y \<longrightarrow>
    ox < unat (size_x m) \<longrightarrow> oy < unat (size_y m) \<longrightarrow> cell m ox oy = LETHAL_OBSTACLE \<longrightarrow>
    steps (pt x y) (pt ox oy) = int n \<longrightarrow> n \<le> unat R \<longrightarrow> costs (real n) = Some c \<longrightarrow> c \<le> cell m x y)"

lemma inflation_on_top:
  assumes "inflating get good R costs" "\<forall>l\<in>set ls. window_layer l good" "\<And>l w. get (put l w) = l"
    and "grid_ok m" "good m w" "window_in m x0 y0 xn yn"
    and "update_costs (ls @ [inflation_layer get put]) x0 y0 xn yn (m, w) = Some (m', w')"
  shows "costs_at_least x0 y0 xn yn R costs m'"
proof -
  obtain m1 w1 where 1: "update_costs ls x0 y0 xn yn (m, w) = Some (m1, w1)" "map_ok m1" "alike m m1" "good m w1"
    using update_costs_law [OF assms(2,4-6)] by blast
  define l where "l = get w1"
  have l: "inf_enabled l" "cell_inflation_radius l = R" "R \<noteq> 0" "computeCost l = costs"
    "0 \<le> cost_scaling_factor l" "0 \<le> inf_resolution l" "roomy m" "tables_ok l" "no_waiting l"
    using assms(1) [unfolded inflating_def, rule_format, OF 1(4)] assms(1) [unfolded inflating_def, rule_format, OF assms(5)]
    by (auto simp: l_def inf_params_def inflation_ok_def)
  have m1: "grid_ok m1" "roomy m1" "window_in m1 x0 y0 xn yn" "size_x m1 = size_x m" "size_y m1 = size_y m"
    using alike_grid_ok [OF 1(3) assms(4) 1(2)] l(7) window_in_alike [OF 1(3)] assms(6) 1(3) by (auto simp: roomy_def alike_def)
  note R = l(2,3)
  have nz: "cell_inflation_radius l \<noteq> 0" using R by simp
  obtain l' where up: "inf_updateCosts x0 y0 xn yn m1 l = Some (m', l')"
    using assms(7) 1(1) by (auto simp: update_costs_append inflation_layer_def l_def split: Option.bind_splits)
  have m': "size_x m' = size_x m1" "size_y m' = size_y m1"
    using inf_updateCosts_ok [OF m1(1,2) _ m1(3), of l] assms(1) [unfolded inflating_def, rule_format, OF 1(4)] up
    by (auto simp: l_def alike_def)
  show ?thesis
    unfolding costs_at_least_def
  proof (intro allI impI)
    fix x y ox oy n c
    assume a: "inside x0 y0 xn yn x y" "ox < unat (size_x m')" "oy < unat (size_y m')" "cell m' ox oy = LETHAL_OBSTACLE"
      "steps (pt x y) (pt ox oy) = int n" "n \<le> unat R" "costs (real n) = Some c"
    have "source_cell m1 l ox oy"
      by (rule lethal_was_source [OF m1(1,2) l(8,9) m1(3) l(1) nz l(5) up]) (use a m' in auto)
    then show "c \<le> cell m' x y"
      using inf_updateCosts_covers [OF m1(1,2) l(8,9) m1(3) l(1) nz l(5,6)] up a R l(4) by auto
  qed
qed


definition stack_of :: "InflationLayer \<Rightarrow> (costmap_layer list \<times> InflationLayer) LayeredCostmap" where
  "stack_of l = addPlugin (inflation_layer snd (\<lambda>l w. (fst w, l)))
     (addPlugin (in_first (costmap_layer_at updateWithMax (\<lambda>_. 0) 0))
       ((new_layered lethal_map False True ([small_layer], l))
         \<lparr>lc_maps := \<lparr>primary = lethal_map, combined = lethal_map, layers_state = ([small_layer], l)\<rparr>\<rparr>))"


end
