(* ===== verification/Collision_Shapes.thy ===== *)
theory Collision_Shapes
  imports Nav2_Prelude "HOL-Library.Monad_Syntax"
begin

text \<open>
  The shapes of nav2_collision_monitor (types.hpp, kinematics.cpp, polygon.cpp, circle.cpp,
  velocity_polygon.cpp) and the point test of nav2_util/geometry_utils.hpp. \<open>double\<close> and
  \<open>float\<close> are modelled by the real numbers. The class hierarchy is a field \<open>kind\<close> of the
  polygon; a virtual function is a case distinction on it. What comes from ROS is an argument: the
  footprint of the footprint subscriber and the transforms of tf. The visualisation marker keeps
  its frame and points, because \<open>updatePolygon\<close> reads them.
\<close>

section \<open>Types\<close>

record Velocity =
  vel_x :: real
  vel_y :: real
  vel_tw :: real

definition vel_norm :: "Velocity \<Rightarrow> real" where
  "vel_norm v = vel_x v * vel_x v + vel_y v * vel_y v + vel_tw v * vel_tw v"

definition vel_less :: "Velocity \<Rightarrow> Velocity \<Rightarrow> bool" where
  "vel_less v w \<longleftrightarrow> vel_norm v < vel_norm w"

definition vel_mult :: "Velocity \<Rightarrow> real \<Rightarrow> Velocity" where
  "vel_mult v mul = \<lparr>vel_x = vel_x v * mul, vel_y = vel_y v * mul, vel_tw = vel_tw v * mul\<rparr>"

definition isZero :: "Velocity \<Rightarrow> bool" where
  "isZero v \<longleftrightarrow> vel_x v = 0 \<and> vel_y v = 0 \<and> vel_tw v = 0"

type_synonym Point = "real \<times> real"

record Pose =
  pose_x :: real
  pose_y :: real
  pose_theta :: real

datatype ActionType = DO_NOTHING | STOP | SLOWDOWN | APPROACH | LIMIT

record Action =
  action_type :: ActionType
  req_vel :: Velocity
  act_polygon_name :: string

section \<open>Kinematics\<close>

definition transformPoints :: "Pose \<Rightarrow> Point list \<Rightarrow> Point list" where
  "transformPoints pose points =
    (let cos_theta = cos (pose_theta pose); sin_theta = sin (pose_theta pose)
     in map (\<lambda>point.
          let mul_x = fst point - pose_x pose; mul_y = snd point - pose_y pose
          in (mul_x * cos_theta + mul_y * sin_theta, - mul_x * sin_theta + mul_y * cos_theta)) points)"

definition projectState :: "real \<Rightarrow> Pose \<times> Velocity \<Rightarrow> Pose \<times> Velocity" where
  "projectState dt pv =
    (let pose = fst pv; velocity = snd pv;
         theta = vel_tw velocity * dt; cos_theta = cos theta; sin_theta = sin theta
     in (\<lparr>pose_x = pose_x pose + vel_x velocity * dt, pose_y = pose_y pose + vel_y velocity * dt,
          pose_theta = pose_theta pose + theta\<rparr>,
         velocity\<lparr>vel_x := vel_x velocity * cos_theta - vel_y velocity * sin_theta,
                  vel_y := vel_x velocity * sin_theta + vel_y velocity * cos_theta\<rparr>))"

section \<open>Point in polygon\<close>

text \<open>One edge from \<open>p\<close> to \<open>q\<close>: does the ray in x direction cross it?\<close>

definition crosses :: "real \<Rightarrow> real \<Rightarrow> Point \<Rightarrow> Point \<Rightarrow> bool" where
  "crosses px py p q \<longleftrightarrow>
    (py \<le> snd p) = (py > snd q) \<and>
    fst p + (py - snd p) * (fst q - fst p) / (snd q - snd p) > px"

fun inside_from :: "real \<Rightarrow> real \<Rightarrow> Point \<Rightarrow> Point list \<Rightarrow> bool \<Rightarrow> bool" where
  "inside_from px py p [] res = res"
| "inside_from px py p (q # qs) res =
    inside_from px py q qs (if crosses px py p q then \<not> res else res)"

definition isPointInsidePolygon :: "real \<Rightarrow> real \<Rightarrow> Point list \<Rightarrow> bool" where
  "isPointInsidePolygon px py polygon =
    (if polygon = [] then False else inside_from px py (last polygon) polygon False)"

section \<open>Polygons\<close>

record SubPolygonParameter =
  sub_poly :: "Point list"
  velocity_polygon_name :: string
  linear_min :: real
  linear_max :: real
  theta_min :: real
  theta_max :: real
  direction_end_angle :: real
  direction_start_angle :: real

datatype shape_kind =
    Static
  | Circle (radius: real) (radius_squared: real)
  | VelocityPolygon (sub_polygons: "SubPolygonParameter list") (holonomic: bool)

record Polygon =
  polygon_name :: string
  poly_action :: ActionType
  min_points :: int
  slowdown_ratio :: real
  linear_limit :: real
  angular_limit :: real
  time_before_collision :: real
  simulation_time_step :: real
  poly_enabled :: bool
  sources_names :: "string list"
  visualize :: bool
  has_footprint_sub :: bool
  base_frame_id :: string
  marker_frame :: string
  marker_points :: "Point list"
  poly :: "Point list"
  kind :: shape_kind

type_synonym transforms = "string \<Rightarrow> string \<Rightarrow> (Point \<Rightarrow> Point) option"

definition isShapeSet :: "Polygon \<Rightarrow> bool" where
  "isShapeSet p =
    (case kind p of
       Circle r r2 \<Rightarrow> r2 \<noteq> -1
     | _ \<Rightarrow> poly p \<noteq> [])"

text \<open>
  \<open>std::atan2\<close> on the reals; the sign of zero is not modelled.
\<close>

definition atan2 :: "real \<Rightarrow> real \<Rightarrow> real" where
  "atan2 y x =
    (if x > 0 then arctan (y / x)
     else if x < 0 then (if y \<ge> 0 then arctan (y / x) + pi else arctan (y / x) - pi)
     else if y > 0 then pi / 2 else if y < 0 then - pi / 2 else 0)"

definition isInRange :: "bool \<Rightarrow> Velocity \<Rightarrow> SubPolygonParameter \<Rightarrow> bool" where
  "isInRange holo v sp =
    (let in_range = (vel_x v \<le> linear_max sp \<and> vel_x v \<ge> linear_min sp \<and>
                     vel_tw v \<le> theta_max sp \<and> vel_tw v \<ge> theta_min sp)
     in if holo then
          (let direction = atan2 (vel_y v) (vel_x v)
           in if direction_start_angle sp \<le> direction_end_angle sp
              then in_range \<and> (direction \<ge> direction_start_angle sp \<and> direction \<le> direction_end_angle sp)
              else in_range \<and> (direction \<ge> direction_start_angle sp \<or> direction \<le> direction_end_angle sp))
        else in_range)"

fun select_sub_polygon :: "bool \<Rightarrow> Velocity \<Rightarrow> SubPolygonParameter list \<Rightarrow> SubPolygonParameter option" where
  "select_sub_polygon holo v [] = None"
| "select_sub_polygon holo v (sp # sps) =
    (if isInRange holo v sp then Some sp else select_sub_polygon holo v sps)"

text \<open>
  \<open>Polygon::updatePolygon\<close> and its override in \<open>VelocityPolygon\<close>. The result of
  \<open>getFootprintInRobotFrame\<close> is ignored by the code; \<open>footprint\<close> is the vector it leaves.
\<close>

definition updatePolygon :: "transforms \<Rightarrow> Point list \<Rightarrow> Velocity \<Rightarrow> Polygon \<Rightarrow> Polygon" where
  "updatePolygon tf footprint v p =
    (case kind p of
       VelocityPolygon sps holo \<Rightarrow>
         (case select_sub_polygon holo v sps of
            None \<Rightarrow> p
          | Some sp \<Rightarrow> p\<lparr>poly := sub_poly sp, marker_points := sub_poly sp\<rparr>)
     | _ \<Rightarrow>
         if has_footprint_sub p then
           p\<lparr>poly := footprint, marker_frame := base_frame_id p, marker_points := footprint\<rparr>
         else if marker_frame p \<noteq> [] \<and> marker_frame p \<noteq> base_frame_id p then
           (case tf (marker_frame p) (base_frame_id p) of
              None \<Rightarrow> p
            | Some tr \<Rightarrow> p\<lparr>poly := map tr (marker_points p)\<rparr>)
         else p)"

text \<open>The subscription callbacks: a polygon message, a radius message.\<close>

definition updatePolygon_msg :: "transforms \<Rightarrow> string \<times> Point list \<Rightarrow> Polygon \<Rightarrow> Polygon" where
  "updatePolygon_msg tf msg p =
    (if length (snd msg) < 3 then p
     else case tf (fst msg) (base_frame_id p) of
        None \<Rightarrow> p
      | Some tr \<Rightarrow> p\<lparr>poly := map tr (snd msg), marker_frame := fst msg, marker_points := snd msg\<rparr>)"

text \<open>
  In exact arithmetic the loop of \<open>Circle::getPolygon\<close> runs for the sixteen angles below
  \<open>2 pi\<close>.
\<close>

definition circle_points :: "real \<Rightarrow> Point list" where
  "circle_points r = map (\<lambda>k. (r * cos (real k * (2 * pi / 16)), r * sin (real k * (2 * pi / 16)))) [0..<16]"

definition getPolygon :: "Polygon \<Rightarrow> Point list" where
  "getPolygon p = (case kind p of Circle r r2 \<Rightarrow> circle_points r | _ \<Rightarrow> poly p)"

definition updatePolygon_radius :: "real \<Rightarrow> Polygon \<Rightarrow> Polygon" where
  "updatePolygon_radius r p = p\<lparr>kind := Circle r (r * r), marker_points := circle_points r\<rparr>"

datatype param_value = BoolParam bool | OtherParam

fun dynamicParametersCallback :: "(string \<times> param_value) list \<Rightarrow> Polygon \<Rightarrow> Polygon" where
  "dynamicParametersCallback [] p = p"
| "dynamicParametersCallback ((name, val) # ps) p =
    dynamicParametersCallback ps
      (case val of
         BoolParam b \<Rightarrow> if name = polygon_name p @ ''.'' @ ''enabled'' then p\<lparr>poly_enabled := b\<rparr> else p
       | OtherParam \<Rightarrow> p)"

text \<open>
  \<open>getPolygonFromString\<close> after the string has been parsed: the flag and the points.
\<close>

definition getPolygonFromString :: "(string + real list list) \<Rightarrow> Point list \<Rightarrow> bool \<times> Point list" where
  "getPolygonFromString parsed polygon =
    (case parsed of
       Inl err \<Rightarrow> (False, polygon)
     | Inr vvf \<Rightarrow>
         if length vvf \<le> 3 then (False, polygon)
         else if (\<forall>v \<in> set vvf. length v = 2) then (True, polygon @ map (\<lambda>v. (v ! 0, v ! 1)) vvf)
         else (False, []))"

section \<open>Counting points and simulating the motion\<close>

definition point_inside :: "Polygon \<Rightarrow> Point \<Rightarrow> bool" where
  "point_inside p point =
    (case kind p of
       Circle r r2 \<Rightarrow> fst point * fst point + snd point * snd point < r2
     | _ \<Rightarrow> isPointInsidePolygon (fst point) (snd point) (poly p))"

fun getPointsInside :: "Polygon \<Rightarrow> Point list \<Rightarrow> int" where
  "getPointsInside p [] = 0"
| "getPointsInside p (x # xs) = (if point_inside p x then 1 else 0) + getPointsInside p xs"

fun getPointsInside_sources :: "Polygon \<Rightarrow> (string \<rightharpoonup> Point list) \<Rightarrow> string list \<Rightarrow> int" where
  "getPointsInside_sources p pts [] = 0"
| "getPointsInside_sources p pts (s # ss) =
    (case pts s of None \<Rightarrow> 0 | Some xs \<Rightarrow> getPointsInside p xs) + getPointsInside_sources p pts ss"

fun collision_points :: "(string \<rightharpoonup> Point list) \<Rightarrow> string list \<Rightarrow> Point list" where
  "collision_points pts [] = []"
| "collision_points pts (s # ss) =
    (case pts s of None \<Rightarrow> [] | Some xs \<Rightarrow> xs) @ collision_points pts ss"

text \<open>
  The simulation loop. With a step that is not positive it need not end, so it is a partial
  function: \<open>None\<close> means that the loop never returns.
\<close>

partial_function (option) simulate ::
  "Polygon \<Rightarrow> Point list \<Rightarrow> real \<Rightarrow> Pose \<times> Velocity \<Rightarrow> real option" where
  "simulate p points time pv =
    (if time \<le> time_before_collision p then
       (let pv' = projectState (simulation_time_step p) pv
        in if getPointsInside p (transformPoints (fst pv') points) \<ge> min_points p then Some time
           else simulate p points (time + simulation_time_step p) pv')
     else Some (-1))"

definition getCollisionTime :: "Polygon \<Rightarrow> (string \<rightharpoonup> Point list) \<Rightarrow> Velocity \<Rightarrow> real option" where
  "getCollisionTime p pts v =
    (let points = collision_points pts (sources_names p)
     in if getPointsInside p points \<ge> min_points p then Some 0
        else simulate p points 0 (\<lparr>pose_x = 0, pose_y = 0, pose_theta = 0\<rparr>, v))"

section \<open>The point test does not depend on the start or the direction of the outline\<close>

lemma crosses_sym: "crosses px py p q = crosses px py q p"
proof (cases "(py \<le> snd p) = (py > snd q)")
  case True
  then have ne: "snd q - snd p \<noteq> 0" by auto
  have "fst p + (py - snd p) * (fst q - fst p) / (snd q - snd p) =
      fst q + (py - snd q) * (fst p - fst q) / (snd p - snd q)"
    using ne by (simp add: divide_simps) (simp add: algebra_simps)
  then show ?thesis using True by (auto simp: crosses_def)
next
  case False
  then show ?thesis by (auto simp: crosses_def)
qed

lemma inside_from_xor: "inside_from px py p qs res = (res \<noteq> inside_from px py p qs False)"
proof (induction qs arbitrary: p res)
  case (Cons q qs)
  show ?case
    using Cons.IH [of q "if crosses px py p q then \<not> res else res"]
      Cons.IH [of q "if crosses px py p q then True else False"] by auto
qed simp

lemma inside_from_snoc:
  "inside_from px py p (qs @ [z]) False = (crosses px py (last (p # qs)) z \<noteq> inside_from px py p qs False)"
proof (induction qs arbitrary: p)
  case (Cons q qs)
  show ?case
    using Cons.IH [of q] inside_from_xor [of px py q "qs @ [z]" "crosses px py p q"]
      inside_from_xor [of px py q qs "crosses px py p q"] by auto
qed simp

lemma isPointInsidePolygon_rotate1:
  "isPointInsidePolygon px py (rotate1 vs) = isPointInsidePolygon px py vs"
proof (cases vs)
  case (Cons a as)
  have "isPointInsidePolygon px py (rotate1 vs) = inside_from px py a (as @ [a]) False"
    by (simp add: isPointInsidePolygon_def Cons)
  also have "\<dots> = (crosses px py (last (a # as)) a \<noteq> inside_from px py a as False)"
    by (rule inside_from_snoc)
  also have "\<dots> = isPointInsidePolygon px py vs"
    using inside_from_xor [of px py a as "crosses px py (last (a # as)) a"]
    by (auto simp: isPointInsidePolygon_def Cons split: if_splits)
  finally show ?thesis .
qed simp

lemma isPointInsidePolygon_rotate:
  "isPointInsidePolygon px py (rotate n vs) = isPointInsidePolygon px py vs"
  by (induction n) (simp_all add: isPointInsidePolygon_rotate1)

lemma inside_from_rev:
  "inside_from px py (last (p # qs)) (tl (rev (p # qs))) False = inside_from px py p qs False"
proof (induction qs arbitrary: p)
  case (Cons q qs)
  have "tl (rev (p # q # qs)) = tl (rev (q # qs)) @ [p]" by (cases "rev (q # qs)") simp_all
  moreover have "last (last (q # qs) # tl (rev (q # qs))) = q"
    by (cases qs rule: rev_cases) simp_all
  ultimately show ?case
    using Cons.IH [of q] inside_from_snoc [of px py "last (q # qs)" "tl (rev (q # qs))" p]
      inside_from_xor [of px py q qs "crosses px py p q"] crosses_sym [of px py p q] by (auto split: if_splits)
qed simp

lemma isPointInsidePolygon_rev:
  "isPointInsidePolygon px py (rev vs) = isPointInsidePolygon px py vs"
proof (cases vs)
  case (Cons a as)
  have "isPointInsidePolygon px py (rev vs) = inside_from px py a (rev as @ [a]) False"
    by (simp add: isPointInsidePolygon_def Cons)
  also have "\<dots> = inside_from px py a (as @ [a]) False"
    using inside_from_rev [of px py a "as @ [a]"] by simp
  also have "\<dots> = isPointInsidePolygon px py vs"
    using isPointInsidePolygon_rotate1 [of px py vs] by (simp add: isPointInsidePolygon_def Cons)
  finally show ?thesis .
qed simp

lemma isPointInsidePolygon_box:
  "x1 < x2 \<Longrightarrow> y1 < y2 \<Longrightarrow> isPointInsidePolygon px py [(x1, y1), (x2, y1), (x2, y2), (x1, y2)] =
    (x1 \<le> px \<and> px < x2 \<and> y1 < py \<and> py \<le> y2)"
  by (auto simp: isPointInsidePolygon_def crosses_def)

text \<open>
  Property C39 (equivalence): the point test gives the same answer whichever vertex the outline
  starts with and in whichever direction it runs; for an axis-parallel rectangle it is the
  half-open rectangle itself.
\<close>

theorem point_in_polygon_spec:
  "isPointInsidePolygon px py (rotate n vs) = isPointInsidePolygon px py vs \<and>
   isPointInsidePolygon px py (rev vs) = isPointInsidePolygon px py vs \<and>
   (x1 < x2 \<and> y1 < y2 \<longrightarrow>
     isPointInsidePolygon px py [(x1, y1), (x2, y1), (x2, y2), (x1, y2)] =
       (x1 \<le> px \<and> px < x2 \<and> y1 < py \<and> py \<le> y2))"
  by (simp add: isPointInsidePolygon_rotate isPointInsidePolygon_rev isPointInsidePolygon_box)

theorem point_in_polygon_spec_witness:
  "(0::real) < 4 \<and> (0::real) < 2 \<and> isPointInsidePolygon 1 1 [(0, 0), (4, 0), (4, 2), (0, 2)] \<and>
   isPointInsidePolygon 1 1 (rev [(0, 0), (4, 0), (4, 2), (0, 2)])"
  using point_in_polygon_spec [of 1 1 0 "[(0, 0), (4, 0), (4, 2), (0, 2)]" 0 4 0 2] by simp

section \<open>The collision time\<close>

definition sim_state :: "Polygon \<Rightarrow> Velocity \<Rightarrow> nat \<Rightarrow> Pose \<times> Velocity" where
  "sim_state p v k =
    (projectState (simulation_time_step p) ^^ k) (\<lparr>pose_x = 0, pose_y = 0, pose_theta = 0\<rparr>, v)"

definition hits :: "Polygon \<Rightarrow> Point list \<Rightarrow> Pose \<Rightarrow> bool" where
  "hits p points pose \<longleftrightarrow> getPointsInside p (transformPoints pose points) \<ge> min_points p"

lemma simulate_spec:
  assumes "0 < simulation_time_step p" "\<forall>j<k. \<not> hits p points (fst (sim_state p v (Suc j)))"
    "time_before_collision p < real (k + n) * simulation_time_step p"
  shows "simulate p points (real k * simulation_time_step p) (sim_state p v k) = Some (-1) \<and>
      (\<forall>j. real j * simulation_time_step p \<le> time_before_collision p \<longrightarrow> \<not> hits p points (fst (sim_state p v (Suc j)))) \<or>
    (\<exists>j. simulate p points (real k * simulation_time_step p) (sim_state p v k) = Some (real j * simulation_time_step p) \<and>
      real j * simulation_time_step p \<le> time_before_collision p \<and> hits p points (fst (sim_state p v (Suc j))) \<and>
      (\<forall>i<j. \<not> hits p points (fst (sim_state p v (Suc i)))))"
  using assms(2,3)
proof (induction n arbitrary: k)
  case 0
  have "\<not> hits p points (fst (sim_state p v (Suc j)))" if "real j * simulation_time_step p \<le> time_before_collision p" for j
  proof -
    have "real j * simulation_time_step p < real k * simulation_time_step p" using that 0(2) by simp
    then have "j < k" using assms(1) by simp
    then show ?thesis using 0(1) by simp
  qed
  then show ?case using 0(2) by (subst (1) simulate.simps) simp
next
  case (Suc n)
  let ?d = "simulation_time_step p"
  have next_state: "projectState ?d (sim_state p v k) = sim_state p v (Suc k)" by (simp add: sim_state_def)
  have time: "real k * ?d + ?d = real (Suc k) * ?d" by (simp add: algebra_simps)
  consider (over) "time_before_collision p < real k * ?d"
    | (hit) "real k * ?d \<le> time_before_collision p" "hits p points (fst (sim_state p v (Suc k)))"
    | (go) "real k * ?d \<le> time_before_collision p" "\<not> hits p points (fst (sim_state p v (Suc k)))" by linarith
  then show ?case
  proof cases
    case over
    have "\<not> hits p points (fst (sim_state p v (Suc j)))" if "real j * ?d \<le> time_before_collision p" for j
    proof -
      have "real j * ?d < real k * ?d" using that over by simp
      then have "j < k" using assms(1) by simp
      then show ?thesis using Suc.prems(1) by simp
    qed
    then show ?thesis using over by (subst (1) simulate.simps) simp
  next
    case hit
    then have "simulate p points (real k * ?d) (sim_state p v k) = Some (real k * ?d)"
      by (subst simulate.simps) (simp add: next_state hits_def)
    then show ?thesis using hit Suc.prems(1) by blast
  next
    case go
    then have step: "simulate p points (real k * ?d) (sim_state p v k) =
        simulate p points (real (Suc k) * ?d) (sim_state p v (Suc k))"
      by (subst simulate.simps) (simp add: next_state hits_def time del: of_nat_Suc)
    show ?thesis unfolding step
      by (rule Suc.IH) (use Suc.prems go less_Suc_eq in \<open>auto simp del: of_nat_Suc of_nat_add\<close>)
  qed
qed

lemma collision_time_total:
  assumes "0 < simulation_time_step p"
  shows "\<exists>t. getCollisionTime p pts v = Some t"
proof -
  obtain n where "time_before_collision p < real n * simulation_time_step p"
    using reals_Archimedean3 [OF assms] by blast
  then have "time_before_collision p < real (0 + n) * simulation_time_step p" by simp
  from simulate_spec [OF assms _ this, of "collision_points pts (sources_names p)" v] show ?thesis
    by (auto simp: getCollisionTime_def sim_state_def [of p v 0] Let_def)
qed

text \<open>
  Property C6 (termination): with a positive simulation step the collision time is always
  returned: 0 when enough points are inside the shape already, otherwise the start of the first
  simulation step that brings enough points inside, and -1 exactly when no step within
  \<open>time_before_collision\<close> does.
\<close>

theorem collision_time_spec:
  assumes "0 < simulation_time_step p"
  shows "\<exists>t. getCollisionTime p pts v = Some t \<and>
    (let points = collision_points pts (sources_names p)
     in if getPointsInside p points \<ge> min_points p then t = 0
        else t = -1 \<and> (\<forall>j. real j * simulation_time_step p \<le> time_before_collision p \<longrightarrow>
               \<not> hits p points (fst (sim_state p v (Suc j)))) \<or>
          (\<exists>j. t = real j * simulation_time_step p \<and> t \<le> time_before_collision p \<and>
            hits p points (fst (sim_state p v (Suc j))) \<and>
            (\<forall>i<j. \<not> hits p points (fst (sim_state p v (Suc i))))))"
proof (cases "getPointsInside p (collision_points pts (sources_names p)) \<ge> min_points p")
  case True
  then show ?thesis by (simp add: getCollisionTime_def)
next
  case False
  obtain n where "time_before_collision p < real n * simulation_time_step p"
    using reals_Archimedean3 [OF assms] by blast
  then have "time_before_collision p < real (0 + n) * simulation_time_step p" by simp
  from simulate_spec [OF assms _ this, of "collision_points pts (sources_names p)" v] False show ?thesis
    by (auto simp: getCollisionTime_def sim_state_def [of p v 0] Let_def)
qed

definition demo_polygon :: "ActionType \<Rightarrow> Polygon" where
  "demo_polygon act =
    \<lparr>polygon_name = ''Zone'', poly_action = act, min_points = 1, slowdown_ratio = 1 / 2, linear_limit = 0,
     angular_limit = 0, time_before_collision = 2, simulation_time_step = 1, poly_enabled = True,
     sources_names = [''scan''], visualize = False, has_footprint_sub = False, base_frame_id = ''base'',
     marker_frame = [], marker_points = [], poly = [(-1, -1), (1, -1), (1, 1), (-1, 1)], kind = Static\<rparr>"

lemma demo_hits:
  "hits (demo_polygon act) [(3, 0)] (fst (sim_state (demo_polygon act) \<lparr>vel_x = 1, vel_y = 0, vel_tw = 0\<rparr> (Suc j))) \<longleftrightarrow>
    2 \<le> j \<and> j \<le> 3"
proof -
  have "sim_state (demo_polygon act) \<lparr>vel_x = 1, vel_y = 0, vel_tw = 0\<rparr> k =
      (\<lparr>pose_x = real k, pose_y = 0, pose_theta = 0\<rparr>, \<lparr>vel_x = 1, vel_y = 0, vel_tw = 0\<rparr>)" for k
    by (induction k) (simp_all add: sim_state_def projectState_def demo_polygon_def)
  then show ?thesis
    by (auto simp: hits_def transformPoints_def point_inside_def demo_polygon_def isPointInsidePolygon_box)
qed

theorem collision_time_spec_witness:
  "0 < simulation_time_step (demo_polygon APPROACH) \<and>
   getCollisionTime (demo_polygon APPROACH) [''scan'' \<mapsto> [(3, 0)]] \<lparr>vel_x = 1, vel_y = 0, vel_tw = 0\<rparr> = Some 2"
proof -
  let ?p = "demo_polygon APPROACH" and ?v = "\<lparr>vel_x = 1, vel_y = 0, vel_tw = 0\<rparr>"
  have pts: "collision_points [''scan'' \<mapsto> [(3, 0)]] (sources_names ?p) = [(3, 0)]"
    "simulation_time_step ?p = 1" "time_before_collision ?p = 2" by (simp_all add: demo_polygon_def)
  have "\<not> min_points ?p \<le> getPointsInside ?p [(3, 0)]"
    by (simp add: demo_polygon_def point_inside_def isPointInsidePolygon_def crosses_def)
  then obtain t where "getCollisionTime ?p [''scan'' \<mapsto> [(3, 0)]] ?v = Some t"
    "t = -1 \<and> (\<forall>j. real j \<le> 2 \<longrightarrow> \<not> (2 \<le> j \<and> j \<le> 3)) \<or>
     (\<exists>j. t = real j \<and> t \<le> 2 \<and> (2 \<le> j \<and> j \<le> 3) \<and> (\<forall>i<j. \<not> (2 \<le> i \<and> i \<le> 3)))"
    using collision_time_spec [of ?p "[''scan'' \<mapsto> [(3, 0)]]" ?v] by (auto simp: pts demo_hits Let_def)
  then show ?thesis by (auto simp: pts)
qed

end
