(* ===== verification/Collision_Monitor.thy ===== *)
theory Collision_Monitor
  imports Collision_Shapes
begin

text \<open>
  nav2_collision_monitor/collision_monitor_node.cpp. One call of \<open>process\<close> handles one velocity
  command: it collects the points of the sources, lets every enabled zone lower the
  velocity and publishes the result. The data the sources return is the argument \<open>read\<close> (success
  flag and points by source name), the footprints and transforms are arguments as in
  \<open>Collision_Shapes\<close>, \<open>now\<close> is the clock. The result \<open>None\<close> means that the call does not
  return (a simulation loop that never ends) or dereferences a null polygon. Markers and the
  published outlines are visualisation only and left out.
\<close>

section \<open>State\<close>

record Source =
  source_name :: string
  src_enabled :: bool
  source_timeout :: real

record monitor =
  polygons :: "Polygon list"
  sources :: "Source list"
  cm_enabled :: bool
  process_active :: bool
  robot_action_prev :: Action
  stop_stamp :: real
  stop_pub_timeout :: real
  has_state_pub :: bool
  out_vels :: "(string \<times> Velocity) list"
  out_states :: "(string \<times> ActionType) list"

definition zero_vel :: Velocity where
  "zero_vel = \<lparr>vel_x = 0, vel_y = 0, vel_tw = 0\<rparr>"

definition no_action :: Action where
  "no_action = \<lparr>action_type = DO_NOTHING, req_vel = \<lparr>vel_x = -1, vel_y = -1, vel_tw = -1\<rparr>, act_polygon_name = []\<rparr>"

definition new_monitor :: monitor where
  "new_monitor =
    \<lparr>polygons = [], sources = [], cm_enabled = True, process_active = False, robot_action_prev = no_action,
     stop_stamp = 0, stop_pub_timeout = 1, has_state_pub = False, out_vels = [], out_states = []\<rparr>"

definition on_activate :: "monitor \<Rightarrow> monitor" where
  "on_activate m = m\<lparr>process_active := True\<rparr>"

definition on_deactivate :: "monitor \<Rightarrow> monitor" where
  "on_deactivate m = m\<lparr>process_active := False, robot_action_prev := no_action\<rparr>"

definition on_cleanup :: "monitor \<Rightarrow> monitor" where
  "on_cleanup m = m\<lparr>has_state_pub := False, polygons := [], sources := []\<rparr>"

definition toggleCMServiceCallback :: "bool \<Rightarrow> monitor \<Rightarrow> monitor" where
  "toggleCMServiceCallback enable m = m\<lparr>cm_enabled := enable\<rparr>"

section \<open>Zones\<close>

definition set_action :: "Polygon \<Rightarrow> ActionType \<Rightarrow> Velocity \<Rightarrow> Action \<Rightarrow> Action" where
  "set_action p act v a = a\<lparr>act_polygon_name := polygon_name p, action_type := act, req_vel := v\<rparr>"

text \<open>The ratio of a LIMIT zone.\<close>

definition limit_ratio :: "Polygon \<Rightarrow> Velocity \<Rightarrow> real" where
  "limit_ratio p v =
    (let linear_vel = sqrt ((vel_x v)\<^sup>2 + (vel_y v)\<^sup>2);
         r1 = (if linear_vel \<noteq> 0 then min 1 (linear_limit p / linear_vel) else 1);
         r2 = (if vel_tw v \<noteq> 0 then min r1 (angular_limit p / \<bar>vel_tw v\<bar>) else r1)
     in max 0 (min 1 r2))"

definition processStopSlowdownLimit ::
  "Polygon \<Rightarrow> (string \<rightharpoonup> Point list) \<Rightarrow> Velocity \<Rightarrow> Action \<Rightarrow> bool \<times> Action" where
  "processStopSlowdownLimit p pts v act =
    (if \<not> isShapeSet p then (False, act)
     else if getPointsInside_sources p pts (sources_names p) \<ge> min_points p then
       (if poly_action p = STOP then (True, set_action p STOP zero_vel act)
        else if poly_action p = SLOWDOWN then
          (let safe_vel = vel_mult v (slowdown_ratio p)
           in if vel_less safe_vel (req_vel act) then (True, set_action p SLOWDOWN safe_vel act)
              else (False, act))
        else
          (let safe_vel = vel_mult v (limit_ratio p v)
           in if vel_less safe_vel (req_vel act) then (True, set_action p LIMIT safe_vel act)
              else (False, act)))
     else (False, act))"

definition processApproach ::
  "Polygon \<Rightarrow> (string \<rightharpoonup> Point list) \<Rightarrow> Velocity \<Rightarrow> Action \<Rightarrow> (bool \<times> Action) option" where
  "processApproach p pts v act =
    (if \<not> isShapeSet p then Some (False, act)
     else do {
       collision_time \<leftarrow> getCollisionTime p pts v;
       Some (if collision_time \<ge> 0 then
               (let change_ratio = collision_time / time_before_collision p;
                    safe_vel = vel_mult v change_ratio
                in if vel_less safe_vel (req_vel act) then (True, set_action p APPROACH safe_vel act)
                   else (False, act))
             else (False, act)) })"

fun process_polygons ::
  "transforms \<Rightarrow> (string \<Rightarrow> Point list) \<Rightarrow> bool \<Rightarrow> (string \<rightharpoonup> Point list) \<Rightarrow> Velocity \<Rightarrow> Polygon list \<Rightarrow>
    Action \<Rightarrow> Polygon option \<Rightarrow> (Polygon list \<times> Action \<times> Polygon option) option" where
  "process_polygons tf fp en pts v [] act ap = Some ([], act, ap)"
| "process_polygons tf fp en pts v (p # ps) act ap =
    (if \<not> poly_enabled p \<or> \<not> en then
       do { r \<leftarrow> process_polygons tf fp en pts v ps act ap; Some (p # fst r, snd r) }
     else if action_type act = STOP then Some (p # ps, act, ap)
     else
       (let p' = updatePolygon tf (fp (polygon_name p)) v p; typ = poly_action p'
        in do {
          r \<leftarrow> (if typ = STOP \<or> typ = SLOWDOWN \<or> typ = LIMIT
                 then Some (processStopSlowdownLimit p' pts v act)
                 else if typ = APPROACH then processApproach p' pts v act
                 else Some (False, act));
          rest \<leftarrow> process_polygons tf fp en pts v ps (snd r) (if fst r then Some p' else ap);
          Some (p' # fst rest, snd rest) }))"

section \<open>One velocity command\<close>

fun collect ::
  "(string \<Rightarrow> bool \<times> Point list) \<Rightarrow> Source list \<Rightarrow> (string \<rightharpoonup> Point list) \<Rightarrow> Action \<Rightarrow> (string \<rightharpoonup> Point list) \<times> Action" where
  "collect read [] pts act = (pts, act)"
| "collect read (s # ss) pts act =
    (let old = (case pts (source_name s) of None \<Rightarrow> [] | Some xs \<Rightarrow> xs)
     in if src_enabled s then
          (let pts' = pts(source_name s \<mapsto> old @ snd (read (source_name s)))
           in if \<not> fst (read (source_name s)) \<and> source_timeout s \<noteq> 0
              then (pts', act\<lparr>act_polygon_name := ''invalid source'', action_type := STOP, req_vel := zero_vel\<rparr>)
              else collect read ss pts' act)
        else collect read ss (pts(source_name s \<mapsto> old)) act)"

text \<open>The log message reads the polygon that caused the action.\<close>

definition notifyActionState :: "Action \<Rightarrow> Polygon option \<Rightarrow> monitor \<Rightarrow> monitor option" where
  "notifyActionState act ap m =
    (if (action_type act = STOP \<and> act_polygon_name act \<noteq> ''invalid source'' \<or> action_type act = SLOWDOWN \<or>
         action_type act = LIMIT \<or> action_type act = APPROACH) \<and> ap = None then None
     else if has_state_pub m
     then Some (m\<lparr>out_states := out_states m @ [(act_polygon_name act, action_type act)]\<rparr>)
     else Some m)"

definition publishVelocity :: "real \<Rightarrow> Action \<Rightarrow> string \<Rightarrow> monitor \<Rightarrow> monitor" where
  "publishVelocity now act header m =
    (let publish = (\<lambda>m. m\<lparr>out_vels := out_vels m @ [(header, req_vel act)]\<rparr>)
     in if isZero (req_vel act) then
          (if \<not> isZero (req_vel (robot_action_prev m)) then publish (m\<lparr>stop_stamp := now\<rparr>)
           else if now - stop_stamp m > stop_pub_timeout m then m
           else publish m)
        else publish m)"

definition process ::
  "transforms \<Rightarrow> (string \<Rightarrow> Point list) \<Rightarrow> (string \<Rightarrow> bool \<times> Point list) \<Rightarrow> real \<Rightarrow>
    Velocity \<Rightarrow> string \<Rightarrow> monitor \<Rightarrow> monitor option" where
  "process tf fp read now v header m =
    (if \<not> process_active m then Some m
     else
       (let c = collect read (sources m) Map.empty
                  \<lparr>action_type = DO_NOTHING, req_vel = v, act_polygon_name = []\<rparr>
        in do {
          r \<leftarrow> process_polygons tf fp (cm_enabled m) (fst c) v (polygons m) (snd c) None;
          let act = fst (snd r);
          let m1 = m\<lparr>polygons := fst r\<rparr>;
          m2 \<leftarrow> (if act_polygon_name act \<noteq> act_polygon_name (robot_action_prev m1) \<and> cm_enabled m1
                  then notifyActionState act (snd (snd r)) m1 else Some m1);
          Some ((publishVelocity now act header m2)\<lparr>robot_action_prev := act\<rparr>) }))"

text \<open>
  The subscription callback. A component of the message is \<open>None\<close> when it is NaN or infinite.
\<close>

record twist =
  lin_x :: "real option"
  lin_y :: "real option"
  lin_z :: "real option"
  ang_x :: "real option"
  ang_y :: "real option"
  ang_z :: "real option"

definition validateTwist :: "twist \<Rightarrow> bool" where
  "validateTwist t \<longleftrightarrow> lin_x t \<noteq> None \<and> lin_y t \<noteq> None \<and> lin_z t \<noteq> None \<and>
     ang_x t \<noteq> None \<and> ang_y t \<noteq> None \<and> ang_z t \<noteq> None"

definition cmdVelInCallbackStamped ::
  "transforms \<Rightarrow> (string \<Rightarrow> Point list) \<Rightarrow> (string \<Rightarrow> bool \<times> Point list) \<Rightarrow> real \<Rightarrow>
    twist \<Rightarrow> string \<Rightarrow> monitor \<Rightarrow> monitor option" where
  "cmdVelInCallbackStamped tf fp read now msg header m =
    (if \<not> validateTwist msg then Some m
     else process tf fp read now
       \<lparr>vel_x = the (lin_x msg), vel_y = the (lin_y msg), vel_tw = the (ang_z msg)\<rparr> header m)"

section \<open>What a zone asks for\<close>

text \<open>
  The velocity a zone demands, independent of the other zones, and the conditions under which the
  collision time is defined.
\<close>

definition zone_velocity ::
  "transforms \<Rightarrow> (string \<Rightarrow> Point list) \<Rightarrow> (string \<rightharpoonup> Point list) \<Rightarrow> Velocity \<Rightarrow> Polygon \<Rightarrow> Velocity option" where
  "zone_velocity tf fp pts v p =
    (let p' = updatePolygon tf (fp (polygon_name p)) v p;
         triggered = getPointsInside_sources p' pts (sources_names p') \<ge> min_points p'
     in if \<not> isShapeSet p' then None
        else case poly_action p' of
          STOP \<Rightarrow> if triggered then Some zero_vel else None
        | SLOWDOWN \<Rightarrow> if triggered then Some (vel_mult v (slowdown_ratio p')) else None
        | LIMIT \<Rightarrow> if triggered then Some (vel_mult v (limit_ratio p' v)) else None
        | APPROACH \<Rightarrow>
            (case getCollisionTime p' pts v of
               None \<Rightarrow> None
             | Some t \<Rightarrow> if t \<ge> 0 then Some (vel_mult v (t / time_before_collision p')) else None)
        | DO_NOTHING \<Rightarrow> None)"

lemma updatePolygon_fields [simp]:
  "poly_action (updatePolygon tf fp v p) = poly_action p"
  "simulation_time_step (updatePolygon tf fp v p) = simulation_time_step p"
  "polygon_name (updatePolygon tf fp v p) = polygon_name p"
  "poly_enabled (updatePolygon tf fp v p) = poly_enabled p"
  by (auto simp: updatePolygon_def split: shape_kind.splits option.splits)

lemma vel_norm_nonneg: "0 \<le> vel_norm v"
  by (simp add: vel_norm_def)

lemma vel_norm_zero [simp]: "vel_norm zero_vel = 0"
  by (simp add: vel_norm_def zero_vel_def)

lemma isZero_zero_vel [simp]: "isZero zero_vel"
  by (simp add: isZero_def zero_vel_def)

text \<open>One zone: the action is replaced exactly when the zone asks for a lower velocity or for a stop.\<close>

definition zone_step ::
  "transforms \<Rightarrow> (string \<Rightarrow> Point list) \<Rightarrow> (string \<rightharpoonup> Point list) \<Rightarrow> Velocity \<Rightarrow> Polygon \<Rightarrow> Action \<Rightarrow> (bool \<times> Action) option" where
  "zone_step tf fp pts v p act =
    (let p' = updatePolygon tf (fp (polygon_name p)) v p; typ = poly_action p'
     in if typ = STOP \<or> typ = SLOWDOWN \<or> typ = LIMIT then Some (processStopSlowdownLimit p' pts v act)
        else if typ = APPROACH then processApproach p' pts v act
        else Some (False, act))"

lemma zone_step_cases:
  assumes "poly_action p = APPROACH \<Longrightarrow> 0 < simulation_time_step p"
  shows "zone_step tf fp pts v p act =
    Some (case zone_velocity tf fp pts v p of
       None \<Rightarrow> (False, act)
     | Some c \<Rightarrow> if poly_action p = STOP \<or> vel_less c (req_vel act)
                  then (True, set_action p (poly_action p) c act) else (False, act))"
proof -
  let ?p = "updatePolygon tf (fp (polygon_name p)) v p"
  have ap: "\<exists>t. getCollisionTime ?p pts v = Some t" if "poly_action p = APPROACH"
    using collision_time_total [of ?p pts v] assms that by simp
  show ?thesis
  proof (cases "poly_action p")
    case APPROACH
    then obtain t where "getCollisionTime ?p pts v = Some t" using ap by blast
    then show ?thesis using APPROACH
      by (auto simp: zone_step_def zone_velocity_def processApproach_def set_action_def Let_def)
  qed (auto simp: zone_step_def zone_velocity_def processStopSlowdownLimit_def set_action_def Let_def)
qed

lemma process_polygons_step:
  "process_polygons tf fp True pts v (p # ps) act ap =
    (if \<not> poly_enabled p then
       do { r \<leftarrow> process_polygons tf fp True pts v ps act ap; Some (p # fst r, snd r) }
     else if action_type act = STOP then Some (p # ps, act, ap)
     else do { r \<leftarrow> zone_step tf fp pts v p act;
               let p' = updatePolygon tf (fp (polygon_name p)) v p;
               rest \<leftarrow> process_polygons tf fp True pts v ps (snd r) (if fst r then Some p' else ap);
               Some (p' # fst rest, snd rest) })"
  by (simp add: zone_step_def Let_def)

lemma process_polygons_disabled: "process_polygons tf fp False pts v ps act ap = Some (ps, act, ap)"
  by (induction ps arbitrary: act ap) simp_all

text \<open>
  The result of the zones: a velocity some zone asks for (or the one before), no zone asks
  for a lower one, and a triggered STOP zone means STOP.
\<close>

definition lowest ::
  "transforms \<Rightarrow> (string \<Rightarrow> Point list) \<Rightarrow> (string \<rightharpoonup> Point list) \<Rightarrow> Velocity \<Rightarrow> Polygon list \<Rightarrow> Action \<Rightarrow> Action \<Rightarrow> bool" where
  "lowest tf fp pts v ps act act' \<longleftrightarrow>
    vel_norm (req_vel act') \<le> vel_norm (req_vel act) \<and>
    (req_vel act' = req_vel act \<or>
      (\<exists>p \<in> set ps. poly_enabled p \<and> zone_velocity tf fp pts v p = Some (req_vel act'))) \<and>
    (\<forall>p \<in> set ps. \<forall>c. poly_enabled p \<longrightarrow> zone_velocity tf fp pts v p = Some c \<longrightarrow>
      vel_norm (req_vel act') \<le> vel_norm c \<and> (poly_action p = STOP \<longrightarrow> action_type act' = STOP))"

definition stop_is_zero :: "Action \<Rightarrow> bool" where
  "stop_is_zero act \<longleftrightarrow> (action_type act = STOP \<longrightarrow> req_vel act = zero_vel)"

lemma lowest_zero: "action_type act = STOP \<Longrightarrow> req_vel act = zero_vel \<Longrightarrow> lowest tf fp pts v ps act act"
  by (auto simp: lowest_def vel_norm_nonneg)

lemma lowest_skip:
  "lowest tf fp pts v ps act act' \<Longrightarrow> \<not> poly_enabled p \<Longrightarrow> lowest tf fp pts v (p # ps) act act'"
  by (auto simp: lowest_def)

lemma zone_velocity_stop:
  "zone_velocity tf fp pts v p = Some c \<Longrightarrow> poly_action p = STOP \<Longrightarrow> c = zero_vel"
  by (auto simp: zone_velocity_def Let_def split: if_splits)

lemma lowest_take:
  assumes "lowest tf fp pts v ps (set_action p (poly_action p) c act) act'"
    "zone_velocity tf fp pts v p = Some c" "poly_enabled p" "poly_action p = STOP \<or> vel_less c (req_vel act)"
    "action_type act' = STOP \<or> poly_action p \<noteq> STOP"
  shows "lowest tf fp pts v (p # ps) act act'"
proof -
  have "vel_norm c \<le> vel_norm (req_vel act)"
    using assms(4) zone_velocity_stop [OF assms(2)] vel_norm_nonneg by (auto simp: vel_less_def)
  then show ?thesis using assms by (auto simp: lowest_def set_action_def)
qed

lemma lowest_keep:
  assumes "lowest tf fp pts v ps act act'"
    "\<And>c. zone_velocity tf fp pts v p = Some c \<Longrightarrow> poly_action p \<noteq> STOP \<and> vel_norm (req_vel act) \<le> vel_norm c"
  shows "lowest tf fp pts v (p # ps) act act'"
  using assms by (fastforce simp: lowest_def)

text \<open>One zone, and what it contributes to the result of the loop.\<close>

lemma zone_step_lowest:
  assumes "poly_action p = APPROACH \<longrightarrow> 0 < simulation_time_step p" "poly_enabled p" "stop_is_zero act"
  shows "\<exists>taken act1. zone_step tf fp pts v p act = Some (taken, act1) \<and> stop_is_zero act1 \<and> (taken \<or> act1 = act) \<and>
    (\<forall>ps act'. lowest tf fp pts v ps act1 act' \<longrightarrow> (action_type act1 = STOP \<longrightarrow> act' = act1) \<longrightarrow>
      lowest tf fp pts v (p # ps) act act')"
proof (cases "\<exists>c. zone_velocity tf fp pts v p = Some c \<and> (poly_action p = STOP \<or> vel_less c (req_vel act))")
  case True
  then obtain c where c: "zone_velocity tf fp pts v p = Some c" "poly_action p = STOP \<or> vel_less c (req_vel act)" by blast
  let ?act = "set_action p (poly_action p) c act"
  have "zone_step tf fp pts v p act = Some (True, ?act)" using zone_step_cases [of p] assms(1) c by simp
  moreover have "stop_is_zero ?act" using zone_velocity_stop [OF c(1)] by (simp add: stop_is_zero_def set_action_def)
  moreover have "lowest tf fp pts v (p # ps) act act'"
    if "lowest tf fp pts v ps ?act act'" "action_type ?act = STOP \<longrightarrow> act' = ?act" for ps act'
    by (rule lowest_take [OF that(1) c(1) assms(2) c(2)]) (use that(2) in \<open>auto simp: set_action_def\<close>)
  ultimately show ?thesis by blast
next
  case False
  then have "zone_step tf fp pts v p act = Some (False, act)"
    using zone_step_cases [of p] assms(1) by (auto split: option.splits)
  moreover have "lowest tf fp pts v (p # ps) act act'" if "lowest tf fp pts v ps act act'" for ps act'
    by (rule lowest_keep [OF that]) (use False in \<open>auto simp: vel_less_def not_less\<close>)
  ultimately show ?thesis using assms(3) by blast
qed

lemma process_polygons_lowest:
  assumes "\<forall>p \<in> set ps. poly_action p = APPROACH \<longrightarrow> 0 < simulation_time_step p" "stop_is_zero act"
  shows "\<exists>ps' act' ap'. process_polygons tf fp True pts v ps act ap = Some (ps', act', ap') \<and>
    stop_is_zero act' \<and> lowest tf fp pts v ps act act' \<and> (act' = act \<and> ap' = ap \<or> ap' \<noteq> None) \<and>
    (action_type act = STOP \<longrightarrow> act' = act)"
  using assms
proof (induction ps arbitrary: act ap)
  case Nil
  then show ?case by (simp add: lowest_def)
next
  case (Cons p ps)
  have pos: "\<forall>p \<in> set ps. poly_action p = APPROACH \<longrightarrow> 0 < simulation_time_step p" using Cons.prems(1) by simp
  note step = process_polygons_step [of tf fp pts v p ps act ap]
  consider (off) "\<not> poly_enabled p" | (stop) "poly_enabled p" "action_type act = STOP"
    | (on) "poly_enabled p" "action_type act \<noteq> STOP" by blast
  then show ?case
  proof cases
    case off
    then show ?thesis using Cons.IH [OF pos Cons.prems(2), of ap] lowest_skip step by fastforce
  next
    case stop
    then show ?thesis using Cons.prems(2) lowest_zero step by (auto simp: stop_is_zero_def)
  next
    case on
    obtain taken act1 where z: "zone_step tf fp pts v p act = Some (taken, act1)" "stop_is_zero act1" "taken \<or> act1 = act"
      "\<And>act'. lowest tf fp pts v ps act1 act' \<Longrightarrow> (action_type act1 = STOP \<longrightarrow> act' = act1) \<Longrightarrow>
        lowest tf fp pts v (p # ps) act act'"
      using zone_step_lowest [of p act tf fp pts v] on(1) Cons.prems by (metis list.set_intros(1))
    let ?ap = "if taken then Some (updatePolygon tf (fp (polygon_name p)) v p) else ap"
    obtain ps' act' ap' where r: "process_polygons tf fp True pts v ps act1 ?ap = Some (ps', act', ap')"
      "stop_is_zero act'" "lowest tf fp pts v ps act1 act'" "act' = act1 \<and> ap' = ?ap \<or> ap' \<noteq> None"
      "action_type act1 = STOP \<longrightarrow> act' = act1"
      using Cons.IH [OF pos z(2), of ?ap] by blast
    then show ?thesis using on z step by (auto split: if_splits)
  qed
qed

section \<open>The whole callback\<close>

definition collected :: "(string \<Rightarrow> bool \<times> Point list) \<Rightarrow> Velocity \<Rightarrow> monitor \<Rightarrow> (string \<rightharpoonup> Point list) \<times> Action" where
  "collected read v m =
    collect read (sources m) Map.empty \<lparr>action_type = DO_NOTHING, req_vel = v, act_polygon_name = []\<rparr>"

definition invalid_source :: "(string \<Rightarrow> bool \<times> Point list) \<Rightarrow> Source \<Rightarrow> bool" where
  "invalid_source read s \<longleftrightarrow> src_enabled s \<and> \<not> fst (read (source_name s)) \<and> source_timeout s \<noteq> 0"

lemma collect_action:
  "snd (collect read ss pts act) =
    (if \<exists>s \<in> set ss. invalid_source read s
     then act\<lparr>act_polygon_name := ''invalid source'', action_type := STOP, req_vel := zero_vel\<rparr> else act)"
proof (induction ss arbitrary: pts)
  case (Cons s ss)
  show ?case
  proof (cases "invalid_source read s")
    case True
    then show ?thesis by (simp add: invalid_source_def Let_def)
  next
    case False
    then obtain pts' where "collect read (s # ss) pts act = collect read ss pts' act"
      by (cases "src_enabled s") (auto simp: invalid_source_def Let_def)
    then show ?thesis using False Cons.IH [of pts'] by simp
  qed
qed simp

lemma collected_action:
  "snd (collected read v m) =
    (if \<exists>s \<in> set (sources m). invalid_source read s
     then \<lparr>action_type = STOP, req_vel = zero_vel, act_polygon_name = ''invalid source''\<rparr>
     else \<lparr>action_type = DO_NOTHING, req_vel = v, act_polygon_name = []\<rparr>)"
  by (simp add: collected_def collect_action)

lemma collected_stop_is_zero: "stop_is_zero (snd (collected read v m))"
  by (simp add: collected_action stop_is_zero_def)

lemma publishVelocity_out:
  "out_vels (publishVelocity now act header m) = out_vels m \<and> isZero (req_vel act) \<or>
   out_vels (publishVelocity now act header m) = out_vels m @ [(header, req_vel act)]"
  by (auto simp: publishVelocity_def Let_def)

lemma publishVelocity_states [simp]: "out_states (publishVelocity now act header m) = out_states m"
  by (simp add: publishVelocity_def Let_def)

definition simulation_ends :: "monitor \<Rightarrow> bool" where
  "simulation_ends m \<longleftrightarrow> (\<forall>p \<in> set (polygons m). poly_action p = APPROACH \<longrightarrow> 0 < simulation_time_step p)"

text \<open>The callback returns, and what it publishes is the velocity of its action.\<close>

lemma process_returns:
  assumes "process_active m" "process_polygons tf fp (cm_enabled m) (fst (collected read v m)) v (polygons m)
      (snd (collected read v m)) None = Some (ps', act', ap')"
    "act' = snd (collected read v m) \<or> ap' \<noteq> None"
  shows "\<exists>m'. process tf fp read now v header m = Some m' \<and> robot_action_prev m' = act' \<and>
    (out_vels m' = out_vels m \<and> isZero (req_vel act') \<or> out_vels m' = out_vels m @ [(header, req_vel act')]) \<and>
    (\<not> cm_enabled m \<longrightarrow> out_states m' = out_states m)"
proof -
  define m1 where "m1 = m\<lparr>polygons := ps'\<rparr>"
  define notify where "notify \<longleftrightarrow> act_polygon_name act' \<noteq> act_polygon_name (robot_action_prev m) \<and> cm_enabled m"
  have "\<exists>m2. (if notify then notifyActionState act' ap' m1 else Some m1) = Some m2 \<and>
      out_vels m2 = out_vels m \<and> (\<not> cm_enabled m \<longrightarrow> out_states m2 = out_states m)"
    using assms(3) by (auto simp: notifyActionState_def collected_action m1_def notify_def split: if_splits)
  then obtain m2 where m2: "(if notify then notifyActionState act' ap' m1 else Some m1) = Some m2"
    "out_vels m2 = out_vels m" "\<not> cm_enabled m \<longrightarrow> out_states m2 = out_states m" by blast
  have "process tf fp read now v header m = Some ((publishVelocity now act' header m2)\<lparr>robot_action_prev := act'\<rparr>)"
    unfolding process_def collected_def [symmetric] Let_def assms(2) bind.bind_lunit fst_conv snd_conv m1_def [symmetric]
    using assms(1) m2(1) by (simp add: notify_def m1_def)
  then show ?thesis using m2(2,3) publishVelocity_out [of now act' header m2] by auto
qed

lemma process_lowest:
  assumes "process_active m" "simulation_ends m"
  shows "\<exists>m'. process tf fp read now v header m = Some m' \<and>
    stop_is_zero (robot_action_prev m') \<and>
    (out_vels m' = out_vels m \<and> isZero (req_vel (robot_action_prev m')) \<or>
      out_vels m' = out_vels m @ [(header, req_vel (robot_action_prev m'))]) \<and>
    (action_type (snd (collected read v m)) = STOP \<longrightarrow> robot_action_prev m' = snd (collected read v m)) \<and>
    (cm_enabled m \<longrightarrow> lowest tf fp (fst (collected read v m)) v (polygons m) (snd (collected read v m))
      (robot_action_prev m')) \<and>
    (\<not> cm_enabled m \<longrightarrow> robot_action_prev m' = snd (collected read v m) \<and> out_states m' = out_states m)"
proof (cases "cm_enabled m")
  case True
  obtain ps' act' ap' where r: "process_polygons tf fp True (fst (collected read v m)) v (polygons m)
      (snd (collected read v m)) None = Some (ps', act', ap')"
    "stop_is_zero act'" "lowest tf fp (fst (collected read v m)) v (polygons m) (snd (collected read v m)) act'"
    "act' = snd (collected read v m) \<or> ap' \<noteq> None"
    "action_type (snd (collected read v m)) = STOP \<longrightarrow> act' = snd (collected read v m)"
    using process_polygons_lowest [of "polygons m" "snd (collected read v m)" tf fp "fst (collected read v m)" v None]
      assms(2) collected_stop_is_zero unfolding simulation_ends_def by blast
  then show ?thesis
    using process_returns [OF assms(1), of tf fp read v ps' act' ap' now header] True by auto
next
  case False
  then show ?thesis
    using process_returns [OF assms(1), of tf fp read v "polygons m" "snd (collected read v m)" None now header]
      collected_stop_is_zero by (auto simp: process_polygons_disabled)
qed

lemma vel_norm_mult: "vel_norm (vel_mult v r) = r\<^sup>2 * vel_norm v"
  by (simp add: vel_norm_def vel_mult_def power2_eq_square algebra_simps)

lemma zero_vel_mult: "zero_vel = vel_mult v 0"
  by (simp add: zero_vel_def vel_mult_def)

lemma vel_norm_0_iff: "vel_norm v = 0 \<longleftrightarrow> v = zero_vel"
  by (cases v) (auto simp: vel_norm_def zero_vel_def add_nonneg_eq_0_iff)

lemma zone_velocity_mult: "zone_velocity tf fp pts v p = Some c \<Longrightarrow> \<exists>r. c = vel_mult v r"
  using zero_vel_mult
  by (auto simp: zone_velocity_def Let_def split: if_splits ActionType.splits option.splits)

lemma slower_ratio:
  assumes "vel_norm (vel_mult v r) \<le> vel_norm v"
  shows "\<exists>r'. vel_mult v r = vel_mult v r' \<and> \<bar>r'\<bar> \<le> 1"
proof (cases "vel_norm v = 0")
  case True
  then have "vel_mult v r = vel_mult v 0" by (simp add: vel_norm_0_iff zero_vel_def vel_mult_def)
  then show ?thesis by (intro exI [of _ 0]) simp
next
  case False
  then have "0 < vel_norm v" using vel_norm_nonneg [of v] by simp
  then have "r\<^sup>2 \<le> 1" using assms by (simp add: vel_norm_mult)
  then show ?thesis using abs_square_le_1 by blast
qed

lemma vel_mult_1: "v = vel_mult v 1"
  by (simp add: vel_mult_def)


definition demo_monitor :: "bool \<Rightarrow> Polygon list \<Rightarrow> monitor" where
  "demo_monitor en ps =
    new_monitor\<lparr>polygons := ps, cm_enabled := en, process_active := True,
      sources := [\<lparr>source_name = ''scan'', src_enabled = True, source_timeout = 2\<rparr>]\<rparr>"


text \<open>
  Property C5 (safety): on an active and enabled monitor an enabled STOP zone whose shape is set and
  that contains at least \<open>min_points\<close> points stops the robot, whatever the other zones and sources do: the
  action is STOP with velocity zero, and no other velocity is published.
\<close>

theorem stop_zone_stops_robot:
  assumes "process_active m" "cm_enabled m"
    and "\<forall>p \<in> set (polygons m). poly_action p = APPROACH \<longrightarrow> 0 < simulation_time_step p"
    and "p \<in> set (polygons m)" "poly_enabled p" "poly_action p = STOP"
    and "p' = updatePolygon tf (fp (polygon_name p)) v p" "isShapeSet p'"
    and "getPointsInside_sources p' (fst (collected read v m)) (sources_names p') \<ge> min_points p'"
  shows "\<exists>m'. process tf fp read now v header m = Some m' \<and>
    action_type (robot_action_prev m') = STOP \<and> req_vel (robot_action_prev m') = zero_vel \<and>
    (out_vels m' = out_vels m \<or> out_vels m' = out_vels m @ [(header, zero_vel)])"
proof -
  have "zone_velocity tf fp (fst (collected read v m)) v p = Some zero_vel"
    using assms(6-9) by (simp add: zone_velocity_def Let_def)
  moreover obtain m' where "process tf fp read now v header m = Some m'" "stop_is_zero (robot_action_prev m')"
    "lowest tf fp (fst (collected read v m)) v (polygons m) (snd (collected read v m)) (robot_action_prev m')"
    "out_vels m' = out_vels m \<or> out_vels m' = out_vels m @ [(header, req_vel (robot_action_prev m'))]"
    using process_lowest [of m tf fp read now v header] assms(1-3) unfolding simulation_ends_def by blast
  ultimately show ?thesis
    using assms(4-6) by (auto simp: lowest_def stop_is_zero_def)
qed

theorem stop_zone_stops_robot_witness:
  "\<exists>m'. process (\<lambda>_ _. None) (\<lambda>_. []) (\<lambda>_. (True, [(0, 0)])) 0 \<lparr>vel_x = 1, vel_y = 0, vel_tw = 0\<rparr> ''h''
      (demo_monitor True [demo_polygon SLOWDOWN, demo_polygon STOP]) = Some m' \<and>
    req_vel (robot_action_prev m') = zero_vel"
proof -
  let ?m = "demo_monitor True [demo_polygon SLOWDOWN, demo_polygon STOP]"
  have m: "process_active ?m" "cm_enabled ?m" "polygons ?m = [demo_polygon SLOWDOWN, demo_polygon STOP]"
    "\<And>a. poly_action (demo_polygon a) = a" "poly_enabled (demo_polygon STOP)"
    by (simp_all add: demo_monitor_def demo_polygon_def)
  have "fst (collected (\<lambda>_::string. (True, [(0::real, 0::real)])) \<lparr>vel_x = 1, vel_y = 0, vel_tw = 0\<rparr> ?m) = [''scan'' \<mapsto> [(0, 0)]]"
    by (simp add: collected_def demo_monitor_def)
  then have "\<exists>m'. process (\<lambda>_ _. None) (\<lambda>_. []) (\<lambda>_. (True, [(0, 0)])) 0 \<lparr>vel_x = 1, vel_y = 0, vel_tw = 0\<rparr> ''h'' ?m = Some m' \<and>
    action_type (robot_action_prev m') = STOP \<and> req_vel (robot_action_prev m') = zero_vel \<and>
    (out_vels m' = out_vels ?m \<or> out_vels m' = out_vels ?m @ [(''h'', zero_vel)])"
    by (intro stop_zone_stops_robot [where p = "demo_polygon STOP" and p' = "demo_polygon STOP"])
      (simp_all add: m updatePolygon_def, simp_all add: demo_polygon_def isShapeSet_def point_inside_def
        isPointInsidePolygon_box)
  then show ?thesis by blast
qed

text \<open>
  Switching the monitor off does not release the robot: with the
  monitor disabled, a source that is enabled, has a timeout and delivers no valid data still replaces
  every command by a stop, and no state message reports it.
\<close>

theorem disabled_monitor_stops_on_invalid_source:
  assumes "process_active m" "\<not> cm_enabled m" "s \<in> set (sources m)" "src_enabled s"
    "\<not> fst (read (source_name s))" "source_timeout s \<noteq> 0"
  shows "\<exists>m'. process tf fp read now v header m = Some m' \<and> req_vel (robot_action_prev m') = zero_vel \<and>
    (out_vels m' = out_vels m \<or> out_vels m' = out_vels m @ [(header, zero_vel)]) \<and> out_states m' = out_states m"
proof -
  have "snd (collected read v m) = \<lparr>action_type = STOP, req_vel = zero_vel, act_polygon_name = ''invalid source''\<rparr>"
    using assms(3-6) by (auto simp: collected_action invalid_source_def)
  then show ?thesis
    using process_returns [OF assms(1), of tf fp read v "polygons m" "snd (collected read v m)" None now header] assms(2)
    by (auto simp: process_polygons_disabled)
qed

theorem disabled_monitor_stops_on_invalid_source_witness:
  "\<exists>m'. process (\<lambda>_ _. None) (\<lambda>_. []) (\<lambda>_. (False, [])) 0 \<lparr>vel_x = 1, vel_y = 0, vel_tw = 0\<rparr> ''h''
      (demo_monitor False [demo_polygon STOP]) = Some m' \<and> req_vel (robot_action_prev m') = zero_vel"
  using disabled_monitor_stops_on_invalid_source [of "demo_monitor False [demo_polygon STOP]"
      "\<lparr>source_name = ''scan'', src_enabled = True, source_timeout = 2\<rparr>" "\<lambda>_. (False, [])"
      "\<lambda>_ _. None" "\<lambda>_. []" 0 "\<lparr>vel_x = 1, vel_y = 0, vel_tw = 0\<rparr>" "''h''"]
  by (auto simp: demo_monitor_def)

end
