(* ===== verification/Velocity_Smoother.thy ===== *)
theory Velocity_Smoother
  imports Nav2_Prelude
begin

text \<open>
  nav2_velocity_smoother/velocity_smoother.cpp: the check of the limits at configuration, the command callbacks, the
  timer that limits velocity and acceleration, and the parameter callback. \<open>double\<close> and times are modelled by the
  real numbers (seconds). The code treats the three or six controlled axes of a twist one after the other; here they
  are the list \<open>axes\<close>, in the order of the parameter vectors. Time and, in closed loop, the odometry
  are arguments.
\<close>

section \<open>Data\<close>

record Twist =
  linear_x :: real
  linear_y :: real
  linear_z :: real
  angular_x :: real
  angular_y :: real
  angular_z :: real

definition zero_twist :: Twist where
  "zero_twist = \<lparr>linear_x = 0, linear_y = 0, linear_z = 0, angular_x = 0, angular_y = 0, angular_z = 0\<rparr>"

definition axes :: "bool \<Rightarrow> Twist \<Rightarrow> real list" where
  "axes is_6dof t =
    (if \<not> is_6dof then [linear_x t, linear_y t, angular_z t]
     else [linear_x t, linear_y t, linear_z t, angular_x t, angular_y t, angular_z t])"

definition with_axes :: "bool \<Rightarrow> real list \<Rightarrow> Twist \<Rightarrow> Twist" where
  "with_axes is_6dof vs t =
    (if \<not> is_6dof then t\<lparr>linear_x := vs ! 0, linear_y := vs ! 1, angular_z := vs ! 2\<rparr>
     else t\<lparr>linear_x := vs ! 0, linear_y := vs ! 1, linear_z := vs ! 2,
            angular_x := vs ! 3, angular_y := vs ! 4, angular_z := vs ! 5\<rparr>)"

record smoother_params =
  smoothing_frequency :: real
  open_loop :: bool
  scale_velocities :: bool
  is_6dof :: bool
  max_velocities :: "real list"
  min_velocities :: "real list"
  max_accels :: "real list"
  max_decels :: "real list"
  deadband_velocities :: "real list"
  velocity_timeout :: real

record smoother =
  last_cmd :: Twist
  command :: Twist
  command_stamp :: real
  stopped :: bool
  received_first_command :: bool
  last_command_time :: real

section \<open>Configuration\<close>

datatype feedback_type = OPEN_LOOP | CLOSED_LOOP | InvalidFeedback

text \<open>The checks of \<open>on_configure\<close>.\<close>

definition limits_valid :: "smoother_params \<Rightarrow> bool" where
  "limits_valid p =
    (let size = length (max_velocities p)
     in (size = 3 \<or> size = 6) \<and> length (min_velocities p) = size \<and> length (max_accels p) = size \<and>
        length (max_decels p) = size \<and> length (deadband_velocities p) = size \<and>
        list_all (\<lambda>i. \<not> max_decels p ! i > 0 \<and> \<not> max_accels p ! i < 0 \<and> \<not> min_velocities p ! i > 0 \<and>
          \<not> max_velocities p ! i < 0 \<and> \<not> min_velocities p ! i > max_velocities p ! i) [0..<size])"

definition smoother_configure :: "feedback_type \<Rightarrow> smoother_params \<Rightarrow> smoother_params option" where
  "smoother_configure fb p =
    (let p1 = p\<lparr>is_6dof := (length (max_velocities p) = 6)\<rparr>
     in if \<not> limits_valid p1 then None
        else case fb of
          OPEN_LOOP \<Rightarrow> Some (p1\<lparr>open_loop := True\<rparr>)
        | CLOSED_LOOP \<Rightarrow> Some (p1\<lparr>open_loop := False\<rparr>)
        | InvalidFeedback \<Rightarrow> None)"

section \<open>Commands\<close>

text \<open>
  A command whose twist holds a NaN or an infinity is \<open>None\<close>. A zero stamp means now.
\<close>

definition inputCommandStampedCallback :: "real \<Rightarrow> real \<Rightarrow> Twist option \<Rightarrow> smoother \<Rightarrow> smoother" where
  "inputCommandStampedCallback now stamp msg s =
    (case msg of
       None \<Rightarrow> s
     | Some t \<Rightarrow> s\<lparr>command := t, command_stamp := stamp,
                   last_command_time := (if stamp = 0 then now else stamp), received_first_command := True\<rparr>)"

definition inputCommandCallback :: "real \<Rightarrow> Twist option \<Rightarrow> smoother \<Rightarrow> smoother" where
  "inputCommandCallback now msg s = inputCommandStampedCallback now 0 msg s"

section \<open>The timer\<close>

definition std_clamp :: "real \<Rightarrow> real \<Rightarrow> real \<Rightarrow> real" where
  "std_clamp v lo hi = (if v < lo then lo else if hi < v then hi else v)"

definition speeding_up :: "real \<Rightarrow> real \<Rightarrow> bool" where
  "speeding_up v_curr v_cmd \<longleftrightarrow> \<bar>v_cmd\<bar> \<ge> \<bar>v_curr\<bar> \<and> v_curr * v_cmd \<ge> 0"

definition findEtaConstraint :: "real \<Rightarrow> real \<Rightarrow> real \<Rightarrow> real \<Rightarrow> real \<Rightarrow> real" where
  "findEtaConstraint freq v_curr v_cmd accel decel =
    (let dv = v_cmd - v_curr;
         v_component_max = (if speeding_up v_curr v_cmd then accel / freq else - decel / freq);
         v_component_min = (if speeding_up v_curr v_cmd then - accel / freq else decel / freq)
     in if dv > v_component_max then v_component_max / dv
        else if dv < v_component_min then v_component_min / dv
        else - 1)"

definition applyConstraints :: "real \<Rightarrow> real \<Rightarrow> real \<Rightarrow> real \<Rightarrow> real \<Rightarrow> real \<Rightarrow> real" where
  "applyConstraints freq v_curr v_cmd accel decel eta =
    (let dv = v_cmd - v_curr;
         v_component_max = (if speeding_up v_curr v_cmd then accel / freq else - decel / freq);
         v_component_min = (if speeding_up v_curr v_cmd then - accel / freq else decel / freq)
     in v_curr + std_clamp (eta * dv) v_component_min v_component_max)"

definition update_eta :: "real \<Rightarrow> real \<Rightarrow> real" where
  "update_eta curr_eta eta = (if curr_eta > 0 \<and> \<bar>1 - curr_eta\<bar> > \<bar>1 - eta\<bar> then curr_eta else eta)"

definition find_eta :: "smoother_params \<Rightarrow> real list \<Rightarrow> real list \<Rightarrow> real" where
  "find_eta p current cmd =
    (if scale_velocities p
     then fold (\<lambda>i. update_eta (findEtaConstraint (smoothing_frequency p) (current ! i) (cmd ! i)
                                   (max_accels p ! i) (max_decels p ! i))) [0..<length cmd] 1
     else 1)"

definition clamp_velocities :: "smoother_params \<Rightarrow> real list \<Rightarrow> real list" where
  "clamp_velocities p cmd =
    map (\<lambda>i. std_clamp (cmd ! i) (min_velocities p ! i) (max_velocities p ! i)) [0..<length cmd]"

definition constrain :: "smoother_params \<Rightarrow> real list \<Rightarrow> real list \<Rightarrow> real list" where
  "constrain p current cmd =
    map (\<lambda>i. applyConstraints (smoothing_frequency p) (current ! i) (cmd ! i) (max_accels p ! i) (max_decels p ! i)
               (find_eta p current cmd)) [0..<length cmd]"

text \<open>The published twist; in the three axis mode the other axes are taken from the command.\<close>

definition deadband :: "smoother_params \<Rightarrow> Twist \<Rightarrow> Twist \<Rightarrow> Twist" where
  "deadband p cmd vel =
    with_axes (is_6dof p)
      (map (\<lambda>i. if \<bar>axes (is_6dof p) vel ! i\<bar> < deadband_velocities p ! i then 0 else axes (is_6dof p) vel ! i)
         [0..<length (axes (is_6dof p) vel)])
      (if is_6dof p then vel
       else vel\<lparr>linear_z := linear_z cmd, angular_x := angular_x cmd, angular_y := angular_y cmd\<rparr>)"

text \<open>The result is the published message with its stamp, if any, and the new state.\<close>

definition smootherTimer ::
  "smoother_params \<Rightarrow> real \<Rightarrow> Twist \<Rightarrow> smoother \<Rightarrow> (Twist \<times> real) option \<times> smoother" where
  "smootherTimer p now odom s =
    (if \<not> received_first_command s then (None, s)
     else
       (let delta = now - last_command_time s; stamp = command_stamp s + delta;
            timed_out = (delta > velocity_timeout p)
        in if timed_out \<and> (last_cmd s = zero_twist \<or> stopped s) then (None, s\<lparr>stopped := True\<rparr>)
           else
             (let s1 = (if timed_out then s\<lparr>command := zero_twist, command_stamp := now\<rparr> else s);
                  current = (if open_loop p then last_cmd s1 else odom);
                  cmd = with_axes (is_6dof p) (clamp_velocities p (axes (is_6dof p) (command s1))) (command s1);
                  vel = with_axes (is_6dof p)
                          (constrain p (axes (is_6dof p) current) (axes (is_6dof p) cmd)) zero_twist
              in (Some (deadband p cmd vel, stamp),
                  s1\<lparr>stopped := False, command := cmd, last_cmd := vel\<rparr>))))"

section \<open>Parameter updates\<close>

datatype parameter =
    PDouble string real
  | PDoubleArray string "real list"
  | PString string string
  | POther string

text \<open>
  One parameter of \<open>dynamicParametersCallback\<close>: the new parameters, whether the update is still successful, and
  whether the loop goes on.
\<close>

definition set_array :: "bool \<Rightarrow> string \<Rightarrow> real list \<Rightarrow> smoother_params \<Rightarrow> smoother_params \<times> bool" where
  "set_array successful name vs p =
    (if name = ''max_velocity'' then
       (let ok = successful \<and> \<not> list_ex (\<lambda>v. v < 0) vs in (if ok then p\<lparr>max_velocities := vs\<rparr> else p, ok))
     else if name = ''min_velocity'' then
       (let ok = successful \<and> \<not> list_ex (\<lambda>v. v > 0) vs in (if ok then p\<lparr>min_velocities := vs\<rparr> else p, ok))
     else if name = ''max_accel'' then
       (let ok = successful \<and> \<not> list_ex (\<lambda>v. v < 0) vs in (if ok then p\<lparr>max_accels := vs\<rparr> else p, ok))
     else if name = ''max_decel'' then
       (let ok = successful \<and> \<not> list_ex (\<lambda>v. v > 0) vs in (if ok then p\<lparr>max_decels := vs\<rparr> else p, ok))
     else if name = ''deadband_velocity'' then (p\<lparr>deadband_velocities := vs\<rparr>, successful)
     else (p, successful))"

fun set_parameter :: "parameter \<Rightarrow> smoother_params \<Rightarrow> bool \<Rightarrow> smoother_params \<times> bool \<times> bool" where
  "set_parameter (PDouble name v) p ok =
    (if name = ''smoothing_frequency'' then
       (if v \<le> 0 then (p, False, False) else (p\<lparr>smoothing_frequency := v\<rparr>, ok, True))
     else if name = ''velocity_timeout'' then (p\<lparr>velocity_timeout := v\<rparr>, ok, True)
     else (p, ok, True))"
| "set_parameter (PDoubleArray name vs) p ok =
    (if length vs \<noteq> (if is_6dof p then 6 else 3) then (p, False, False)
     else let (p', ok') = set_array ok name vs p in (p', ok', True))"
| "set_parameter (PString name v) p ok =
    (if name = ''feedback'' then
       (if v = ''OPEN_LOOP'' then (p\<lparr>open_loop := True\<rparr>, ok, True)
        else if v = ''CLOSED_LOOP'' then (p\<lparr>open_loop := False\<rparr>, ok, True)
        else (p, False, False))
     else (p, ok, True))"
| "set_parameter (POther name) p ok = (p, ok, True)"

fun parameter_name :: "parameter \<Rightarrow> string" where
  "parameter_name (PDouble name v) = name"
| "parameter_name (PDoubleArray name vs) = name"
| "parameter_name (PString name v) = name"
| "parameter_name (POther name) = name"

fun set_parameters :: "parameter list \<Rightarrow> smoother_params \<Rightarrow> bool \<Rightarrow> smoother_params \<times> bool" where
  "set_parameters [] p ok = (p, ok)"
| "set_parameters (x # xs) p ok =
    (if CHR ''.'' \<in> set (parameter_name x) then set_parameters xs p ok
     else let (p', ok', go_on) = set_parameter x p ok
          in if go_on then set_parameters xs p' ok' else (p', ok'))"

definition dynamicParametersCallback :: "parameter list \<Rightarrow> smoother_params \<Rightarrow> smoother_params \<times> bool" where
  "dynamicParametersCallback ps p = set_parameters ps p True"

section \<open>Axes and limits\<close>

definition dims :: "smoother_params \<Rightarrow> nat" where
  "dims p = (if is_6dof p then 6 else 3)"

lemma axes_length [simp]: "length (axes (is_6dof p) t) = dims p"
  by (simp add: axes_def dims_def)

lemma length_6_conv: "length vs = 6 \<Longrightarrow> vs = [vs ! 0, vs ! 1, vs ! 2, vs ! 3, vs ! 4, vs ! 5]"
  by (rule nth_equalityI) (auto simp: less_Suc_eq numeral_eq_Suc)

lemma length_3_conv: "length vs = 3 \<Longrightarrow> vs = [vs ! 0, vs ! 1, vs ! 2]"
  by (rule nth_equalityI) (auto simp: less_Suc_eq numeral_eq_Suc)

lemma axes_with_axes [simp]: "length vs = dims p \<Longrightarrow> axes (is_6dof p) (with_axes (is_6dof p) vs t) = vs"
  using length_6_conv [of vs] length_3_conv [of vs]
  by (auto simp: dims_def axes_def with_axes_def split: if_splits)

lemma axes_zero [simp]: "i < dims p \<Longrightarrow> axes (is_6dof p) zero_twist ! i = 0"
  by (auto simp: axes_def zero_twist_def dims_def less_Suc_eq numeral_eq_Suc split: if_splits)

lemma with_axes_zero:
  assumes "length vs = dims p" "\<And>i. i < dims p \<Longrightarrow> vs ! i = 0"
  shows "with_axes (is_6dof p) vs zero_twist = zero_twist"
  using assms by (auto simp: with_axes_def zero_twist_def dims_def split: if_splits)

definition config_ok :: "smoother_params \<Rightarrow> bool" where
  "config_ok p \<longleftrightarrow> limits_valid p \<and> length (max_velocities p) = dims p \<and> 0 < smoothing_frequency p"

lemma config_okD:
  assumes "config_ok p" "i < dims p"
  shows "max_decels p ! i \<le> 0" "0 \<le> max_accels p ! i" "min_velocities p ! i \<le> 0" "0 \<le> max_velocities p ! i"
    "0 < smoothing_frequency p"
proof -
  have "\<forall>j<dims p. \<not> max_decels p ! j > 0 \<and> \<not> max_accels p ! j < 0 \<and> \<not> min_velocities p ! j > 0 \<and>
      \<not> max_velocities p ! j < 0"
    using assms(1) unfolding config_ok_def limits_valid_def Let_def list_all_iff by fastforce
  then show "max_decels p ! i \<le> 0" "0 \<le> max_accels p ! i" "min_velocities p ! i \<le> 0" "0 \<le> max_velocities p ! i"
    using assms(2) by (auto simp: not_less)
  show "0 < smoothing_frequency p" using assms(1) by (simp add: config_ok_def)
qed

lemma smoother_configure_ok:
  "smoother_configure fb p = Some p' \<Longrightarrow> 0 < smoothing_frequency p \<Longrightarrow> config_ok p'"
  by (auto simp: smoother_configure_def config_ok_def limits_valid_def dims_def Let_def
      split: if_splits feedback_type.splits)

section \<open>One axis\<close>

definition max_change :: "real \<Rightarrow> real \<Rightarrow> real \<Rightarrow> real \<Rightarrow> real \<Rightarrow> real" where
  "max_change freq v_curr v_cmd accel decel = (if speeding_up v_curr v_cmd then accel else - decel) / freq"

lemma max_change_nonneg: "0 < freq \<Longrightarrow> 0 \<le> accel \<Longrightarrow> decel \<le> 0 \<Longrightarrow> 0 \<le> max_change freq v_curr v_cmd accel decel"
  by (simp add: max_change_def)

lemma applyConstraints_eq:
  "applyConstraints freq v_curr v_cmd accel decel eta =
    v_curr + std_clamp (eta * (v_cmd - v_curr)) (- max_change freq v_curr v_cmd accel decel)
      (max_change freq v_curr v_cmd accel decel)"
  by (simp add: applyConstraints_def max_change_def Let_def)

lemma findEtaConstraint_eq:
  "findEtaConstraint freq v_curr v_cmd accel decel =
    (let m = max_change freq v_curr v_cmd accel decel; dv = v_cmd - v_curr
     in if dv > m then m / dv else if dv < - m then m / (- dv) else - 1)"
  unfolding findEtaConstraint_def max_change_def Let_def
  by (simp only: if_distrib [of uminus] minus_divide_left [symmetric] minus_divide_right [symmetric] minus_minus
      if_distrib [of "\<lambda>x. x / freq"] if_cancel split: if_split) simp

lemma findEta_range:
  assumes "0 < freq" "0 \<le> accel" "decel \<le> 0" "findEtaConstraint freq v_curr v_cmd accel decel > 0"
  shows "findEtaConstraint freq v_curr v_cmd accel decel \<le> 1"
proof -
  let ?m = "max_change freq v_curr v_cmd accel decel" and ?dv = "v_cmd - v_curr"
  note eq = findEtaConstraint_eq [of freq v_curr v_cmd accel decel]
  have m: "0 \<le> ?m" by (rule max_change_nonneg [OF assms(1-3)])
  have "?m / ?dv \<le> 1" if "?dv > ?m" using that m by (simp add: divide_le_eq)
  moreover have "?m / (- ?dv) \<le> 1" if "?dv < - ?m"
    using that m by (intro divide_le_eq [THEN iffD2]) auto
  ultimately show ?thesis unfolding eq Let_def by auto
qed

lemma find_eta_range:
  assumes "config_ok p" "length cmd = dims p"
  shows "0 < find_eta p current cmd" "find_eta p current cmd \<le> 1"
proof -
  have step: "0 < update_eta e eta \<and> update_eta e eta \<le> 1"
    if "0 < eta \<and> eta \<le> 1" "0 < e \<Longrightarrow> e \<le> 1" for e eta
    using that by (auto simp: update_eta_def)
  have "0 < fold (\<lambda>i. update_eta (findEtaConstraint (smoothing_frequency p) (current ! i) (cmd ! i)
        (max_accels p ! i) (max_decels p ! i))) is eta \<and>
      fold (\<lambda>i. update_eta (findEtaConstraint (smoothing_frequency p) (current ! i) (cmd ! i)
        (max_accels p ! i) (max_decels p ! i))) is eta \<le> 1"
    if "0 < eta \<and> eta \<le> 1" "set is \<subseteq> {..<dims p}" for "is" and eta
    using that
  proof (induction "is" arbitrary: eta)
    case (Cons i js)
    then have i: "i < dims p" by simp
    note d = config_okD [OF assms(1) i]
    show ?case using Cons.IH [OF step [OF Cons.prems(1)]] Cons.prems(2) findEta_range [OF d(5,2,1)] by simp
  qed simp
  from this [of 1 "[0..<length cmd]"] show "0 < find_eta p current cmd" "find_eta p current cmd \<le> 1"
    using assms(2) by (auto simp: find_eta_def atLeast0LessThan)
qed

text \<open>The new value lies between the current and the commanded one, and changes by at most the limit.\<close>

lemma applyConstraints_bounds:
  fixes v_curr v_cmd :: real
  assumes "0 < freq" "0 \<le> accel" "decel \<le> 0" "0 < eta" "eta \<le> 1"
  defines "r \<equiv> applyConstraints freq v_curr v_cmd accel decel eta"
  shows "\<bar>r - v_curr\<bar> \<le> max_change freq v_curr v_cmd accel decel"
    and "min v_curr v_cmd \<le> r" "r \<le> max v_curr v_cmd"
proof -
  let ?m = "max_change freq v_curr v_cmd accel decel"
  have m: "0 \<le> ?m" by (rule max_change_nonneg [OF assms(1-3)])
  show "\<bar>r - v_curr\<bar> \<le> ?m" using m by (auto simp: r_def applyConstraints_eq std_clamp_def)
  have "eta * (v_cmd - v_curr) \<le> max 0 (v_cmd - v_curr) \<and> min 0 (v_cmd - v_curr) \<le> eta * (v_cmd - v_curr)"
  proof (cases "0 \<le> v_cmd - v_curr")
    case True
    then show ?thesis
      using mult_right_mono [OF assms(5) True] mult_nonneg_nonneg [OF less_imp_le [OF assms(4)] True] by simp
  next
    case False
    then have "eta * (v_curr - v_cmd) \<le> 1 * (v_curr - v_cmd)" "0 \<le> eta * (v_curr - v_cmd)"
      using assms(4,5) by (auto intro: mult_right_mono)
    then show ?thesis using False by (auto simp: algebra_simps)
  qed
  moreover define d where "d = eta * (v_cmd - v_curr)"
  ultimately have d: "d \<le> max 0 (v_cmd - v_curr)" "min 0 (v_cmd - v_curr) \<le> d" by simp_all
  have r: "r = v_curr + std_clamp d (- ?m) ?m" by (simp add: r_def applyConstraints_eq d_def)
  show "min v_curr v_cmd \<le> r" "r \<le> max v_curr v_cmd"
    using m d by (auto simp: r std_clamp_def min_def max_def split: if_splits)
qed

section \<open>One tick\<close>

definition timed_out :: "smoother_params \<Rightarrow> real \<Rightarrow> smoother \<Rightarrow> bool" where
  "timed_out p now s \<longleftrightarrow> now - last_command_time s > velocity_timeout p"

definition target :: "smoother_params \<Rightarrow> real \<Rightarrow> smoother \<Rightarrow> real list" where
  "target p now s = clamp_velocities p (axes (is_6dof p) (if timed_out p now s then zero_twist else command s))"

lemma clamp_velocities_length [simp]: "length (clamp_velocities p vs) = length vs"
  by (simp add: clamp_velocities_def)

lemma constrain_length [simp]: "length (constrain p current vs) = length vs"
  by (simp add: constrain_def)

lemma target_length [simp]: "length (target p now s) = dims p"
  by (simp add: target_def)

lemma axes_deadband:
  "i < dims p \<Longrightarrow> axes (is_6dof p) (deadband p cmd vel) ! i =
    (if \<bar>axes (is_6dof p) vel ! i\<bar> < deadband_velocities p ! i then 0 else axes (is_6dof p) vel ! i)"
  by (simp add: deadband_def)

lemma smootherTimer_quiet:
  assumes "\<not> received_first_command s \<or> timed_out p now s \<and> (last_cmd s = zero_twist \<or> stopped s)"
  shows "smootherTimer p now odom s = (None, if received_first_command s then s\<lparr>stopped := True\<rparr> else s)"
  using assms by (auto simp: smootherTimer_def timed_out_def Let_def)

definition limited :: "smoother_params \<Rightarrow> real \<Rightarrow> smoother \<Rightarrow> Twist" where
  "limited p now s =
    with_axes (is_6dof p) (target p now s) (if timed_out p now s then zero_twist else command s)"

definition smoothed :: "smoother_params \<Rightarrow> real \<Rightarrow> Twist \<Rightarrow> smoother \<Rightarrow> Twist" where
  "smoothed p now odom s =
    with_axes (is_6dof p)
      (constrain p (axes (is_6dof p) (if open_loop p then last_cmd s else odom)) (target p now s)) zero_twist"

lemma smootherTimer_moves:
  assumes "received_first_command s" "\<not> (timed_out p now s \<and> (last_cmd s = zero_twist \<or> stopped s))"
  shows "smootherTimer p now odom s =
    (Some (deadband p (limited p now s) (smoothed p now odom s), command_stamp s + (now - last_command_time s)),
     s\<lparr>command := limited p now s, command_stamp := (if timed_out p now s then now else command_stamp s),
       stopped := False, last_cmd := smoothed p now odom s\<rparr>)"
  using assms
  by (cases "timed_out p now s"; cases s)
     (simp_all add: smootherTimer_def Let_def target_def timed_out_def limited_def smoothed_def)

lemma axes_smoothed [simp]:
  "axes (is_6dof p) (smoothed p now odom s) =
    constrain p (axes (is_6dof p) (if open_loop p then last_cmd s else odom)) (target p now s)"
  by (simp add: smoothed_def)

lemma target_in_limits:
  assumes "config_ok p" "i < dims p"
  shows "min_velocities p ! i \<le> target p now s ! i" "target p now s ! i \<le> max_velocities p ! i"
  using config_okD [OF assms] assms(2)
  by (auto simp: target_def clamp_velocities_def std_clamp_def)

lemma target_timed_out:
  assumes "config_ok p" "timed_out p now s" "i < dims p"
  shows "target p now s ! i = 0"
  using config_okD [OF assms(1,3)] assms(2,3)
  by (auto simp: target_def clamp_velocities_def std_clamp_def)

lemma constrain_bounds:
  assumes "config_ok p" "length cmd = dims p" "i < dims p"
  shows "\<bar>constrain p current cmd ! i - current ! i\<bar> \<le>
      max_change (smoothing_frequency p) (current ! i) (cmd ! i) (max_accels p ! i) (max_decels p ! i)"
    and "min (current ! i) (cmd ! i) \<le> constrain p current cmd ! i"
    and "constrain p current cmd ! i \<le> max (current ! i) (cmd ! i)"
  using applyConstraints_bounds [OF config_okD(5,2,1) [OF assms(1,3)] find_eta_range [OF assms(1,2)],
      of "current ! i" "cmd ! i" current]
    assms(2,3)
  by (simp_all add: constrain_def)

section \<open>The running smoother\<close>

datatype smoother_event = Command | Tick | Reconfigure

inductive smoother_step :: "smoother_params \<times> smoother \<Rightarrow> smoother_event \<Rightarrow> smoother_params \<times> smoother \<Rightarrow> bool" where
  "smoother_step (p, s) Command (p, inputCommandStampedCallback now stamp msg s)"
| "smoother_step (p, s) Command (p, inputCommandCallback now msg s)"
| "smoother_step (p, s) Tick (p, snd (smootherTimer p now odom s))"
| "smoother_step (p, s) Reconfigure (fst (dynamicParametersCallback ps p), s)"

inductive_cases smoother_stepE: "smoother_step (p, s) e t"

fun smoother_init :: "smoother_params \<times> smoother \<Rightarrow> bool" where
  "smoother_init (p, s) \<longleftrightarrow>
    (\<exists>fb p0. smoother_configure fb p0 = Some p \<and> 0 < smoothing_frequency p0) \<and>
    last_cmd s = zero_twist \<and> \<not> received_first_command s"

fun smoother_inv :: "smoother_params \<times> smoother \<Rightarrow> bool" where
  "smoother_inv (p, s) \<longleftrightarrow> config_ok p \<and> (stopped s \<longrightarrow> last_cmd s = zero_twist)"

lemma config_ok_iff:
  "config_ok p \<longleftrightarrow> length (max_velocities p) = dims p \<and> length (min_velocities p) = dims p \<and>
    length (max_accels p) = dims p \<and> length (max_decels p) = dims p \<and> length (deadband_velocities p) = dims p \<and>
    0 < smoothing_frequency p \<and>
    (\<forall>v\<in>set (max_velocities p). 0 \<le> v) \<and> (\<forall>v\<in>set (min_velocities p). v \<le> 0) \<and>
    (\<forall>v\<in>set (max_accels p). 0 \<le> v) \<and> (\<forall>v\<in>set (max_decels p). v \<le> 0)"
    (is "_ \<longleftrightarrow> ?R")
proof
  assume ok: "config_ok p"
  then have len: "length (max_velocities p) = dims p" "length (min_velocities p) = dims p"
    "length (max_accels p) = dims p" "length (max_decels p) = dims p" "length (deadband_velocities p) = dims p"
    by (auto simp: config_ok_def limits_valid_def Let_def)
  then show ?R using config_okD [OF ok] ok by (auto simp: in_set_conv_nth config_ok_def)
next
  assume R: ?R
  then have sign: "max_decels p ! i \<le> 0" "0 \<le> max_accels p ! i" "min_velocities p ! i \<le> 0"
    "0 \<le> max_velocities p ! i" if "i < dims p" for i
    using that by (metis nth_mem)+
  then have "min_velocities p ! i \<le> max_velocities p ! i" if "i < dims p" for i
    using that order_trans by blast
  note sign = sign this
  have "length (max_velocities p) = 3 \<or> length (max_velocities p) = 6" using R by (simp add: dims_def)
  then show "config_ok p" using R sign
    by (simp add: config_ok_def limits_valid_def Let_def list_all_iff not_less)
qed

lemma set_array_ok:
  assumes "config_ok p" "length vs = dims p"
  shows "config_ok (fst (set_array ok name vs p))"
  using assms by (auto simp: set_array_def config_ok_iff dims_def Let_def list_ex_iff not_less)

lemma config_ok_updates:
  assumes "config_ok p"
  shows "0 < v \<Longrightarrow> config_ok (p\<lparr>smoothing_frequency := v\<rparr>)" "config_ok (p\<lparr>velocity_timeout := v\<rparr>)"
    "config_ok (p\<lparr>open_loop := b\<rparr>)"
  using assms by (simp_all add: config_ok_iff dims_def)

lemma set_parameter_ok:
  assumes "config_ok p"
  shows "config_ok (fst (set_parameter x p ok))"
proof (cases x)
  case (PDouble name v)
  then show ?thesis using config_ok_updates [OF assms] assms by simp
next
  case (PDoubleArray name vs)
  then show ?thesis using assms set_array_ok [OF assms, of vs ok name] 
    by (cases "set_array ok name vs p") (simp add: dims_def)
next
  case (PString name v)
  then show ?thesis using config_ok_updates [OF assms] assms by simp
qed (simp add: assms)

lemma set_parameters_ok: "config_ok p \<Longrightarrow> config_ok (fst (set_parameters xs p ok))"
proof (induction xs p ok rule: set_parameters.induct)
  case (2 x xs p ok)
  then show ?case using set_parameter_ok [of p x ok] by (auto split: prod.split)
qed simp

lemma smoother_inv_init: "smoother_init z \<Longrightarrow> smoother_inv z"
  by (cases z) (auto dest: smoother_configure_ok)

lemma smootherTimer_cases:
  obtains "\<not> received_first_command s \<or> timed_out p now s \<and> (last_cmd s = zero_twist \<or> stopped s)"
  | "received_first_command s" "\<not> (timed_out p now s \<and> (last_cmd s = zero_twist \<or> stopped s))"
  by blast

lemma smoother_inv_step: "smoother_inv y \<Longrightarrow> smoother_step y e z \<Longrightarrow> smoother_inv z"
proof (erule smoother_step.cases)
  fix p s now odom
  assume "smoother_inv y" and yz: "y = (p, s)" "z = (p, snd (smootherTimer p now odom s))"
  then show "smoother_inv z"
    by (cases rule: smootherTimer_cases [of s p now])
       (auto simp: yz smootherTimer_quiet smootherTimer_moves)
qed (auto simp: inputCommandStampedCallback_def inputCommandCallback_def dynamicParametersCallback_def
      set_parameters_ok split: option.splits)

interpretation vs: safe_system smoother_init smoother_step smoother_inv
  by unfold_locales (erule smoother_inv_init, erule smoother_inv_step, assumption)

lemma smoother_reach_inv:
  "reach smoother_init smoother_step (p, s) \<Longrightarrow> config_ok p \<and> (stopped s \<longrightarrow> last_cmd s = zero_twist)"
  using vs.inv_reach [of "(p, s)"] by simp

section \<open>Braking\<close>

text \<open>\<open>brakeable p k t\<close>: every axis can be braked to zero in \<open>k\<close> ticks.\<close>

definition brakeable :: "smoother_params \<Rightarrow> nat \<Rightarrow> Twist \<Rightarrow> bool" where
  "brakeable p k t \<longleftrightarrow>
    (\<forall>i<dims p. \<bar>axes (is_6dof p) t ! i\<bar> \<le> real k * (- (max_decels p ! i) / smoothing_frequency p))"

lemma find_eta_ge:
  assumes "0 \<le> e" "e \<le> 1"
    and "\<And>i. i < length cmd \<Longrightarrow> 0 < findEtaConstraint (smoothing_frequency p) (current ! i) (cmd ! i)
        (max_accels p ! i) (max_decels p ! i) \<Longrightarrow>
      e \<le> findEtaConstraint (smoothing_frequency p) (current ! i) (cmd ! i) (max_accels p ! i) (max_decels p ! i)"
  shows "e \<le> find_eta p current cmd"
proof -
  have "e \<le> fold (\<lambda>i. update_eta (findEtaConstraint (smoothing_frequency p) (current ! i) (cmd ! i)
        (max_accels p ! i) (max_decels p ! i))) is eta"
    if "e \<le> eta" "set is \<subseteq> {..<length cmd}" for "is" eta
    using that
  proof (induction "is" arbitrary: eta)
    case (Cons i js)
    show ?case using Cons.IH Cons.prems assms(3) [of i] by (auto simp: update_eta_def)
  qed simp
  from this [of 1 "[0..<length cmd]"] assms(2) show ?thesis
    by (auto simp: find_eta_def atLeast0LessThan)
qed

text \<open>Braking one axis from \<open>v\<close> with \<open>m\<close> as the largest change.\<close>

lemma brake_axis:
  fixes v m eta :: real and k :: nat
  assumes "\<bar>v\<bar> \<le> real (Suc k) * m" "0 \<le> m" "eta \<le> 1" "1 \<le> eta * real (Suc k)"
  shows "\<bar>v + std_clamp (eta * (0 - v)) (- m) m\<bar> \<le> real k * m"
proof -
  have scaled: "\<bar>(1 - eta) * v\<bar> \<le> real k * m"
  proof -
    have "\<bar>(1 - eta) * v\<bar> \<le> (1 - eta) * (real (Suc k) * m)"
      using assms(1,3) by (simp add: abs_mult mult_left_mono)
    also have "\<dots> = (real (Suc k) - eta * real (Suc k)) * m" by (simp add: algebra_simps)
    also have "\<dots> \<le> real k * m" using assms(2,4) by (intro mult_right_mono) auto
    finally show ?thesis .
  qed
  have km: "real (Suc k) * m = real k * m + m" by (simp add: algebra_simps)
  consider "eta * (0 - v) < - m" | "m < eta * (0 - v)" | "- m \<le> eta * (0 - v)" "eta * (0 - v) \<le> m" by linarith
  then show ?thesis
  proof cases
    case 1
    then have "eta * v > m" by simp
    moreover have "0 < eta" using assms(4) by (metis less_eq_real_def linorder_not_less mult_nonpos_nonneg
          of_nat_0_le_iff order_trans zero_less_one)
    ultimately have pos: "v > 0" "eta * (v) > m"
      using assms(2) zero_less_mult_pos [of eta "v"] by auto
    then have "v \<ge> m" using mult_right_mono [OF assms(3) less_imp_le [OF pos(1)]] by linarith
    then show ?thesis using 1 pos assms(1) km by (simp add: std_clamp_def)
  next
    case 2
    then have "eta * (- v) > m" by simp
    moreover have "0 < eta" using assms(4) by (metis less_eq_real_def linorder_not_less mult_nonpos_nonneg
          of_nat_0_le_iff order_trans zero_less_one)
    ultimately have pos: "- v > 0" "eta * (- v) > m"
      using assms(2) zero_less_mult_pos [of eta "- v"] by auto
    then have "- v \<ge> m" using mult_right_mono [OF assms(3) less_imp_le [OF pos(1)]] by linarith
    then show ?thesis using 2 pos assms(1,2) km by (simp add: std_clamp_def)
  next
    case 3
    then show ?thesis using scaled by (simp add: std_clamp_def algebra_simps)
  qed
qed

lemma max_change_brake: "v \<noteq> 0 \<Longrightarrow> max_change freq v 0 accel decel = - decel / freq"
  by (simp add: max_change_def speeding_up_def)

lemma brake_eta:
  assumes "\<bar>v\<bar> \<le> real (Suc k) * (- decel / freq)" "0 < findEtaConstraint freq v 0 accel decel"
    "0 < freq" "0 \<le> accel" "decel \<le> 0"
  shows "1 / real (Suc k) \<le> findEtaConstraint freq v 0 accel decel"
proof (cases "v = 0")
  case True
  then have "findEtaConstraint freq v 0 accel decel = - 1"
    using max_change_nonneg [OF assms(3-5), of v 0] by (simp add: findEtaConstraint_eq Let_def)
  then show ?thesis using assms(2) by simp
next
  case False
  define m where "m = - decel / freq"
  have eta: "findEtaConstraint freq v 0 accel decel = (if - v > m then m / (- v) else if - v < - m then m / v else - 1)"
    using max_change_brake [OF False] by (simp add: findEtaConstraint_eq Let_def m_def)
  have m: "0 \<le> m" "\<bar>v\<bar> \<le> real (Suc k) * m" using assms by (simp_all add: m_def divide_nonpos_pos)
  have frac: "1 / real (Suc k) \<le> m / x" if "0 < x" "x \<le> real (Suc k) * m" for x
    using that by (simp add: pos_divide_le_eq pos_le_divide_eq mult.commute)
  show ?thesis unfolding eta using assms(2) [unfolded eta] m frac [of "- v"] frac [of v]
    by (auto split: if_splits)
qed

lemma brake_tick:
  assumes ok: "config_ok p" and brk: "brakeable p (Suc k) (last_cmd s)" and o: "open_loop p"
    and late: "timed_out p now s"
  shows "brakeable p k (smoothed p now odom s)"
  unfolding brakeable_def
proof (intro allI impI)
  fix i assume i: "i < dims p"
  define v where "v = axes (is_6dof p) (last_cmd s) ! i"
  define m where "m = - (max_decels p ! i) / smoothing_frequency p"
  define eta where "eta = find_eta p (axes (is_6dof p) (last_cmd s)) (target p now s)"
  note zero = target_timed_out [OF ok late]
  note d = config_okD [OF ok]
  have bound: "\<bar>axes (is_6dof p) (last_cmd s) ! j\<bar> \<le>
      real (Suc k) * (- (max_decels p ! j) / smoothing_frequency p)" if "j < dims p" for j
    using brk that unfolding brakeable_def by blast
  have eta1: "eta \<le> 1" unfolding eta_def by (rule find_eta_range(2) [OF ok]) simp
  have "1 / real (Suc k) \<le> eta"
    unfolding eta_def
  proof (rule find_eta_ge)
    fix j assume j: "j < length (target p now s)"
      and pos: "0 < findEtaConstraint (smoothing_frequency p) (axes (is_6dof p) (last_cmd s) ! j)
        (target p now s ! j) (max_accels p ! j) (max_decels p ! j)"
    then have j': "j < dims p" by simp
    show "1 / real (Suc k) \<le> findEtaConstraint (smoothing_frequency p) (axes (is_6dof p) (last_cmd s) ! j)
        (target p now s ! j) (max_accels p ! j) (max_decels p ! j)"
      using brake_eta [OF bound [OF j'] pos [unfolded zero [OF j']] d(5,2,1) [OF j' ]] zero [OF j'] by simp
  qed simp_all
  then have eta2: "1 \<le> eta * real (Suc k)" by (simp add: pos_divide_le_eq)
  have m0: "0 \<le> m" using d(1,5) [OF i] by (simp add: m_def divide_nonpos_pos)
  have "axes (is_6dof p) (smoothed p now odom s) ! i =
      v + std_clamp (eta * (0 - v)) (- max_change (smoothing_frequency p) v 0 (max_accels p ! i) (max_decels p ! i))
        (max_change (smoothing_frequency p) v 0 (max_accels p ! i) (max_decels p ! i))"
    using i o zero [OF i] by (simp add: constrain_def applyConstraints_eq v_def eta_def)
  also have "\<dots> = v + std_clamp (eta * (0 - v)) (- m) m"
  proof (cases "v = 0")
    case True
    then show ?thesis
      using m0 max_change_nonneg [OF d(5,2,1) [OF i], of 0 0] by (simp add: std_clamp_def)
  next
    case False
    then show ?thesis by (simp add: max_change_brake m_def)
  qed
  finally show "\<bar>axes (is_6dof p) (smoothed p now odom s) ! i\<bar> \<le>
      real k * (- (max_decels p ! i) / smoothing_frequency p)"
    using brake_axis [OF bound [OF i, folded v_def m_def] m0 eta1 eta2] by (simp add: m_def)
qed

definition tick :: "smoother_params \<Rightarrow> Twist \<Rightarrow> real \<Rightarrow> smoother \<Rightarrow> smoother" where
  "tick p odom now s = snd (smootherTimer p now odom s)"

lemma tick_keeps [simp]:
  "received_first_command (tick p odom now s) = received_first_command s"
  "last_command_time (tick p odom now s) = last_command_time s"
  by (cases rule: smootherTimer_cases [of s p now];
      simp add: tick_def smootherTimer_quiet smootherTimer_moves)+

lemma tick_timed_out [simp]: "timed_out p t (tick p odom now s) = timed_out p t s"
  by (simp add: timed_out_def)

lemma fold_tick_timed_out: "timed_out p t (fold (tick p odom) ts s) = timed_out p t s"
  by (induction ts arbitrary: s) simp_all

lemma brakeable_0:
  assumes "brakeable p 0 (smoothed p now odom s)"
  shows "smoothed p now odom s = zero_twist"
proof -
  have "smoothed p now odom s = with_axes (is_6dof p) (axes (is_6dof p) (smoothed p now odom s)) zero_twist"
    by (simp add: smoothed_def)
  also have "\<dots> = zero_twist"
    using assms unfolding brakeable_def by (intro with_axes_zero) auto
  finally show ?thesis .
qed

lemma tick_brakes:
  assumes "config_ok p" "open_loop p" "received_first_command s" "timed_out p now s"
    and "stopped s \<longrightarrow> last_cmd s = zero_twist"
    and "last_cmd s = zero_twist \<or> brakeable p (Suc k) (last_cmd s)"
  shows "last_cmd (tick p odom now s) = zero_twist \<or> 0 < k \<and> brakeable p k (last_cmd (tick p odom now s))"
    and "stopped (tick p odom now s) \<longrightarrow> last_cmd (tick p odom now s) = zero_twist"
    and "last_cmd s = zero_twist \<Longrightarrow> stopped (tick p odom now s) \<and> last_cmd (tick p odom now s) = zero_twist"
proof -
  consider "last_cmd s = zero_twist" | "last_cmd s \<noteq> zero_twist" "\<not> stopped s" using assms(5) by blast
  note cases = this
  show "last_cmd (tick p odom now s) = zero_twist \<or> 0 < k \<and> brakeable p k (last_cmd (tick p odom now s))"
  proof (cases rule: cases)
    case 2
    then have moved: "last_cmd (tick p odom now s) = smoothed p now odom s"
      using assms(3,4) by (simp add: tick_def smootherTimer_moves)
    have "brakeable p k (smoothed p now odom s)"
      using brake_tick [OF assms(1) _ assms(2,4)] assms(6) 2 by blast
    then show ?thesis unfolding moved using brakeable_0 [of p now odom s] by (cases k) auto
  qed (use assms(3,4) in \<open>simp add: tick_def smootherTimer_quiet\<close>)
  show "stopped (tick p odom now s) \<longrightarrow> last_cmd (tick p odom now s) = zero_twist"
    using assms(3-5) by (cases rule: cases) (auto simp: tick_def smootherTimer_quiet smootherTimer_moves)
  show "last_cmd s = zero_twist \<Longrightarrow> stopped (tick p odom now s) \<and> last_cmd (tick p odom now s) = zero_twist"
    using assms(3,4) by (simp add: tick_def smootherTimer_quiet)
qed

lemma ticks_brake:
  assumes "config_ok p" "open_loop p" "received_first_command s" "\<forall>t\<in>set ts. timed_out p t s"
    and "stopped s \<longrightarrow> last_cmd s = zero_twist"
    and "last_cmd s = zero_twist \<or> brakeable p k (last_cmd s)" "k < length ts"
    and "k = 0 \<Longrightarrow> last_cmd s = zero_twist"
  shows "last_cmd (fold (tick p odom) ts s) = zero_twist \<and> stopped (fold (tick p odom) ts s)"
  using assms(3-)
proof (induction ts arbitrary: s k)
  case (Cons t ts)
  have late: "timed_out p t s" using Cons.prems(2) by simp
  show ?case
  proof (cases "last_cmd s = zero_twist")
    case True
    note step = tick_brakes(3) [OF assms(1,2) Cons.prems(1) late Cons.prems(3), of 0 odom]
    show ?thesis
    proof (cases ts)
      case Nil
      then show ?thesis using step True by simp
    next
      case (Cons t' ts')
      then show ?thesis using Cons.IH [of "tick p odom t s" 0] step True Cons.prems by simp
    qed
  next
    case False
    then obtain j where k: "k = Suc j" using Cons.prems(6) by (cases k) auto
    note step = tick_brakes [OF assms(1,2) Cons.prems(1) late Cons.prems(3) Cons.prems(4) [unfolded k], of odom]
    show ?thesis using Cons.IH [of "tick p odom t s" j] step(1,2) Cons.prems(1,2,5) k by auto
  qed
qed simp

lemma brakeable_exists:
  assumes "config_ok p" "\<forall>i<dims p. max_decels p ! i < 0"
  shows "\<exists>k. brakeable p (Suc k) t"
proof -
  define f where "f i = nat \<lceil>\<bar>axes (is_6dof p) t ! i\<bar> / (- (max_decels p ! i) / smoothing_frequency p)\<rceil>" for i
  have "\<bar>axes (is_6dof p) t ! i\<bar> \<le> real (Suc (\<Sum>j<dims p. f j)) * (- (max_decels p ! i) / smoothing_frequency p)"
    if i: "i < dims p" for i
  proof -
    define m where "m = - (max_decels p ! i) / smoothing_frequency p"
    have m: "0 < m" using assms(2) config_okD(5) [OF assms(1) i] i by (simp add: m_def divide_neg_pos)
    have "f i \<le> (\<Sum>j<dims p. f j)" using i by (intro member_le_sum) auto
    moreover have "\<bar>axes (is_6dof p) t ! i\<bar> / m \<le> real (f i)" unfolding f_def m_def by linarith
    ultimately have "\<bar>axes (is_6dof p) t ! i\<bar> / m \<le> real (Suc (\<Sum>j<dims p. f j))" by linarith
    then show ?thesis unfolding m_def [symmetric] pos_divide_le_eq [OF m] .
  qed
  then show ?thesis unfolding brakeable_def by blast
qed

section \<open>Properties\<close>

definition demo_smoother_params :: smoother_params where
  "demo_smoother_params = \<lparr>smoothing_frequency = 1, open_loop = True, scale_velocities = False, is_6dof = False,
     max_velocities = [4, 1, 2], min_velocities = [-4, -1, -2], max_accels = [1, 1, 1],
     max_decels = [-1, -1, -1], deadband_velocities = [0, 0, 0], velocity_timeout = 1\<rparr>"

definition demo_smoother :: smoother where
  "demo_smoother = \<lparr>last_cmd = zero_twist, command = zero_twist, command_stamp = 0, stopped = True,
     received_first_command = False, last_command_time = 0\<rparr>"

definition demo_command :: smoother where
  "demo_command = inputCommandStampedCallback 1 0 (Some (zero_twist\<lparr>linear_x := 5\<rparr>)) demo_smoother"

lemma demo_reach: "reach smoother_init smoother_step (demo_smoother_params, demo_smoother)"
proof (rule reach_init)
  have "smoother_configure OPEN_LOOP demo_smoother_params = Some demo_smoother_params"
    by (simp add: smoother_configure_def limits_valid_def demo_smoother_params_def upt_rec)
  then show "smoother_init (demo_smoother_params, demo_smoother)"
    by (force simp: demo_smoother_def demo_smoother_params_def)
qed

lemma demo_command_reach: "reach smoother_init smoother_step (demo_smoother_params, demo_command)"
  unfolding demo_command_def by (rule reach_step [OF demo_reach smoother_step.intros(1)])


lemma demo_tick:
  "smootherTimer demo_smoother_params (3 / 2) zero_twist demo_command =
    (Some (zero_twist\<lparr>linear_x := 1\<rparr>, 1 / 2),
     demo_command\<lparr>command := zero_twist\<lparr>linear_x := 4\<rparr>, stopped := False, last_cmd := zero_twist\<lparr>linear_x := 1\<rparr>\<rparr>)"
  by (simp add: smootherTimer_def demo_smoother_params_def demo_command_def demo_smoother_def
      inputCommandStampedCallback_def clamp_velocities_def constrain_def find_eta_def applyConstraints_def
      speeding_up_def std_clamp_def deadband_def axes_def with_axes_def zero_twist_def Let_def upt_rec)


text \<open>
  Property C12 (liveness): in open loop, with every deceleration limit negative, the robot is brought to a stop once
  commands stay away: there is a number \<open>k\<close> of ticks, large enough when the limits can brake every axis within it,
  such that more than \<open>k\<close> ticks after the command timeout leave the velocity at zero, and the smoother silent at
  the next tick. This holds with and without proportional scaling of the axes.
\<close>

theorem command_timeout_stops_robot:
  assumes "reach smoother_init smoother_step (p, s)" "open_loop p" "received_first_command s"
    and "\<forall>i<dims p. max_decels p ! i < 0"
  shows "\<exists>k. brakeable p k (last_cmd s) \<and>
    (\<forall>ts t. k < length ts \<longrightarrow> (\<forall>t\<in>set (t # ts). timed_out p t s) \<longrightarrow>
      last_cmd (fold (tick p odom) ts s) = zero_twist \<and>
      fst (smootherTimer p t odom (fold (tick p odom) ts s)) = None)"
proof -
  have inv: "config_ok p" "stopped s \<longrightarrow> last_cmd s = zero_twist" using smoother_reach_inv [OF assms(1)] by blast+
  obtain k where k: "brakeable p (Suc k) (last_cmd s)" using brakeable_exists [OF inv(1) assms(4)] by blast
  have "last_cmd (fold (tick p odom) ts s) = zero_twist \<and>
      fst (smootherTimer p t odom (fold (tick p odom) ts s)) = None"
    if "Suc k < length ts" "\<forall>t\<in>set (t # ts). timed_out p t s" for ts t
  proof -
    have "last_cmd (fold (tick p odom) ts s) = zero_twist \<and> stopped (fold (tick p odom) ts s)"
      using that ticks_brake [OF inv(1) assms(2,3) _ inv(2) _ that(1)] k by simp
    moreover have "timed_out p t (fold (tick p odom) ts s)"
      using that(2) fold_tick_timed_out [of p t odom ts s] by simp
    ultimately show ?thesis by (simp add: smootherTimer_quiet)
  qed
  then show ?thesis using k by blast
qed

lemma demo_tick_reach:
  "reach smoother_init smoother_step (demo_smoother_params, snd (smootherTimer demo_smoother_params (3 / 2) zero_twist demo_command))"
  by (rule reach_step [OF demo_command_reach smoother_step.intros(3)])

theorem command_timeout_stops_robot_witness:
  "linear_x (last_cmd (snd (smootherTimer demo_smoother_params (3 / 2) zero_twist demo_command))) = 1 \<and>
    (\<exists>ts. last_cmd (fold (tick demo_smoother_params zero_twist) ts
       (snd (smootherTimer demo_smoother_params (3 / 2) zero_twist demo_command))) = zero_twist)"
proof -
  let ?s = "snd (smootherTimer demo_smoother_params (3 / 2) zero_twist demo_command)"
  have "open_loop demo_smoother_params" "received_first_command ?s"
    "\<forall>i<dims demo_smoother_params. max_decels demo_smoother_params ! i < 0"
    unfolding demo_tick
    by (auto simp: demo_smoother_params_def demo_command_def inputCommandStampedCallback_def dims_def
        less_Suc_eq numeral_eq_Suc)
  from command_timeout_stops_robot [OF demo_tick_reach this] obtain k where
    k: "\<And>ts t. k < length ts \<Longrightarrow> (\<forall>u\<in>set (t # ts). timed_out demo_smoother_params u ?s) \<Longrightarrow>
      last_cmd (fold (tick demo_smoother_params zero_twist) ts ?s) = zero_twist" by blast
  have "timed_out demo_smoother_params 3 ?s"
    unfolding demo_tick
    by (simp add: timed_out_def demo_command_def inputCommandStampedCallback_def demo_smoother_params_def)
  then have "last_cmd (fold (tick demo_smoother_params zero_twist) (replicate (Suc k) 3) ?s) = zero_twist"
    by (intro k [where t = 3]) auto
  moreover have "linear_x (last_cmd ?s) = 1" by (simp add: demo_tick)
  ultimately show ?thesis by blast
qed

text \<open>
  A reconfiguration at run time cannot break the limits the smoother relies on, whether it is reported as successful or
  not; but a call reported as failed has still stored the parameters before the bad one.
\<close>

lemma dynamicParametersCallback_ok: "config_ok p \<Longrightarrow> config_ok (fst (dynamicParametersCallback ps p))"
  by (simp add: dynamicParametersCallback_def set_parameters_ok)

lemma rejected_update_is_partly_applied:
  "dynamicParametersCallback [PDouble ''velocity_timeout'' 9, PDouble ''smoothing_frequency'' 0] p =
    (p\<lparr>velocity_timeout := 9\<rparr>, False)"
  by (simp add: dynamicParametersCallback_def)

end
