(* ===== verification/Route_Graph.thy ===== *)
theory Route_Graph
  imports Nav2_Prelude
begin

text \<open>
  The navigation graph of nav2_route (types.hpp) and the edge scoring of the route planner
  (edge_scorer.cpp and the scorers of plugins/edge_cost_functions that are functions of the graph:
  distance, dynamic edges, penalty, semantic and time). A \<open>Node *\<close> is the index of the node in the
  graph vector and an \<open>Edge *\<close> the pair of the node that owns the edge and the edge's position
  among its neighbors. \<open>float\<close> is modelled by the real numbers; a division by zero, which leaves
  the finite floats, is an error of its own. A scoring plugin is a record of its two virtual
  functions over the state \<open>'w\<close> of all plugins.
\<close>

section \<open>The graph\<close>

text \<open>
  The exceptions of nav2_core/route_exceptions.hpp, the two of the standard library that can occur,
  and the two ways to leave defined behaviour: a bad pointer and a division by zero.
\<close>

datatype route_error =
    OperationFailed | NoValidRouteCouldBeFound | TimedOut | RouteTFError | NoValidGraph
  | IndeterminantNodesOnGraph | InvalidEdgeScorerUse | RouteException
  | BadAnyCast | OutOfRange | BadPointer | DivisionByZero

text \<open>The content of a \<open>std::any\<close>, as far as the scorers cast it.\<close>

datatype any_value = AnyFloat real | AnyString string | AnyOther

type_synonym Metadata = "(string \<times> any_value) list"

definition getValue_float :: "string \<Rightarrow> real \<Rightarrow> Metadata \<Rightarrow> route_error + real" where
  "getValue_float key default_val data =
    (case map_of data key of
       None \<Rightarrow> Inr default_val
     | Some (AnyFloat v) \<Rightarrow> Inr v
     | Some _ \<Rightarrow> Inl BadAnyCast)"

definition getValue_string :: "string \<Rightarrow> string \<Rightarrow> Metadata \<Rightarrow> route_error + string" where
  "getValue_string key default_val data =
    (case map_of data key of
       None \<Rightarrow> Inr default_val
     | Some (AnyString v) \<Rightarrow> Inr v
     | Some _ \<Rightarrow> Inl BadAnyCast)"

definition setValue :: "string \<Rightarrow> any_value \<Rightarrow> Metadata \<Rightarrow> Metadata" where
  "setValue key v data = (key, v) # filter (\<lambda>kv. fst kv \<noteq> key) data"

record EdgeCost =
  cost :: real
  overridable :: bool

datatype OperationTrigger = NODE | ON_ENTER | ON_EXIT

record Operation =
  op_type :: string
  op_trigger :: OperationTrigger
  op_metadata :: Metadata

record DirectionalEdge =
  edgeid :: u32
  e_start :: nat
  e_end :: nat
  edge_cost :: EdgeCost
  edge_metadata :: Metadata
  edge_operations :: "Operation list"

type_synonym EdgePtr = "nat \<times> nat"

definition FLT_MAX :: real where
  "FLT_MAX = (2 - 1 / 2 ^ 23) * 2 ^ 127"

record SearchState =
  parent_edge :: "EdgePtr option"
  integrated_cost :: real
  traversal_cost :: real

definition reset_search_state :: "SearchState \<Rightarrow> SearchState" where
  "reset_search_state st =
    st\<lparr>integrated_cost := FLT_MAX, traversal_cost := FLT_MAX, parent_edge := None\<rparr>"

record Coordinates =
  frame_id :: string
  coord_x :: real
  coord_y :: real

record Node =
  nodeid :: u32
  coords :: Coordinates
  neighbors :: "DirectionalEdge list"
  node_metadata :: Metadata
  node_operations :: "Operation list"
  search_state :: SearchState

type_synonym Graph = "Node list"

definition addEdge ::
  "nat \<Rightarrow> EdgeCost \<Rightarrow> nat \<Rightarrow> u32 \<Rightarrow> Metadata \<Rightarrow> Operation list \<Rightarrow> Node \<Rightarrow> Node" where
  "addEdge this c node eid meta_data operations_data n =
    n\<lparr>neighbors := neighbors n @ [\<lparr>edgeid = eid, e_start = this, e_end = node, edge_cost = c,
       edge_metadata = meta_data, edge_operations = operations_data\<rparr>]\<rparr>"

definition getEdgeLength :: "Graph \<Rightarrow> DirectionalEdge \<Rightarrow> real" where
  "getEdgeLength g e =
    (let dx = coord_x (coords (g ! e_end e)) - coord_x (coords (g ! e_start e));
         dy = coord_y (coords (g ! e_end e)) - coord_y (coords (g ! e_start e))
     in sqrt (dx * dx + dy * dy))"

record Route =
  start_node :: nat
  route_edges :: "EdgePtr list"
  route_cost :: real

record 'p RouteRequest =
  start_nodeid :: u32
  goal_nodeid :: u32
  start_pose :: 'p
  goal_pose :: 'p
  use_poses :: bool

datatype EdgeType = EdgeNONE | EdgeSTART | EdgeEND

section \<open>Edge scoring\<close>

text \<open>
  The interface \<open>EdgeCostFunction\<close>: \<open>prepare\<close>, and \<open>score\<close>, which may leave its cost argument as it
  is, refuse the edge, or throw.
\<close>

record ('p, 'w) EdgeCostFunction =
  prepare :: "'w \<Rightarrow> 'w"
  plugin_score :: "Graph \<Rightarrow> DirectionalEdge \<Rightarrow> 'p RouteRequest \<Rightarrow> EdgeType \<Rightarrow> real \<Rightarrow> 'w
    \<Rightarrow> (route_error + bool \<times> real) \<times> 'w"

fun score_plugins ::
  "('p, 'w) EdgeCostFunction list \<Rightarrow> Graph \<Rightarrow> DirectionalEdge \<Rightarrow> 'p RouteRequest \<Rightarrow> EdgeType \<Rightarrow> real \<Rightarrow> 'w
    \<Rightarrow> (route_error + bool \<times> real) \<times> 'w" where
  "score_plugins [] g e req ty total_score w = (Inr (True, total_score), w)"
| "score_plugins (plugin # ps) g e req ty total_score w =
    (case plugin_score plugin g e req ty 0 w of
       (Inl err, w') \<Rightarrow> (Inl err, w')
     | (Inr (False, curr_score), w') \<Rightarrow> (Inr (False, total_score), w')
     | (Inr (True, curr_score), w') \<Rightarrow> score_plugins ps g e req ty (total_score + curr_score) w')"

definition edge_score ::
  "('p, 'w) EdgeCostFunction list \<Rightarrow> Graph \<Rightarrow> DirectionalEdge \<Rightarrow> 'p RouteRequest \<Rightarrow> EdgeType \<Rightarrow> 'w
    \<Rightarrow> (route_error + bool \<times> real) \<times> 'w" where
  "edge_score plugins g e req ty w =
    score_plugins plugins g e req ty 0 (fold prepare plugins w)"

subsection \<open>The scorers that read only the graph and their parameters\<close>

definition DistanceScorer_score ::
  "string \<Rightarrow> real \<Rightarrow> Graph \<Rightarrow> DirectionalEdge \<Rightarrow> real \<Rightarrow> route_error + bool \<times> real" where
  "DistanceScorer_score speed_tag weight g e c =
    (case getValue_float speed_tag 1 (edge_metadata e) of
       Inl err \<Rightarrow> Inl err
     | Inr speed_val \<Rightarrow>
         (if speed_val = 0 then Inl DivisionByZero
          else Inr (True, weight * getEdgeLength g e / speed_val)))"

definition PenaltyScorer_score ::
  "string \<Rightarrow> real \<Rightarrow> DirectionalEdge \<Rightarrow> real \<Rightarrow> route_error + bool \<times> real" where
  "PenaltyScorer_score penalty_tag weight e c =
    (case getValue_float penalty_tag 0 (edge_metadata e) of
       Inl err \<Rightarrow> Inl err
     | Inr penalty_val \<Rightarrow> Inr (True, weight * penalty_val))"

definition TimeScorer_score ::
  "string \<Rightarrow> string \<Rightarrow> real \<Rightarrow> real \<Rightarrow> Graph \<Rightarrow> DirectionalEdge \<Rightarrow> real \<Rightarrow> route_error + bool \<times> real" where
  "TimeScorer_score prev_time_tag speed_tag weight max_vel g e c =
    (case getValue_float prev_time_tag 0 (edge_metadata e) of
       Inl err \<Rightarrow> Inl err
     | Inr time \<Rightarrow>
         (if time > 0 then Inr (True, weight * time)
          else
            (case getValue_float speed_tag 0 (edge_metadata e) of
               Inl err \<Rightarrow> Inl err
             | Inr v \<Rightarrow>
                 (let velocity = (if v \<le> 0 then max_vel else v)
                  in if velocity = 0 then Inl DivisionByZero
                     else Inr (True, weight * getEdgeLength g e / velocity)))))"

definition metadataKeyScorer :: "(string \<rightharpoonup> real) \<Rightarrow> Metadata \<Rightarrow> real \<Rightarrow> real" where
  "metadataKeyScorer semantic_info mdata score =
    fold (\<lambda>kv s. case semantic_info (fst kv) of Some v \<Rightarrow> s + v | None \<Rightarrow> s) mdata score"

definition metadataValueScorer ::
  "(string \<rightharpoonup> real) \<Rightarrow> string \<Rightarrow> Metadata \<Rightarrow> real \<Rightarrow> route_error + real" where
  "metadataValueScorer semantic_info key mdata score =
    (case getValue_string key [] mdata of
       Inl err \<Rightarrow> Inl err
     | Inr cl \<Rightarrow> Inr (case semantic_info cl of Some v \<Rightarrow> score + v | None \<Rightarrow> score))"

definition SemanticScorer_score ::
  "(string \<rightharpoonup> real) \<Rightarrow> string \<Rightarrow> real \<Rightarrow> Graph \<Rightarrow> DirectionalEdge \<Rightarrow> real \<Rightarrow> route_error + bool \<times> real" where
  "SemanticScorer_score semantic_info key weight g e c =
    (let node_mdata = node_metadata (g ! e_end e); edge_mdata = edge_metadata e
     in if key = []
        then Inr (True, weight * metadataKeyScorer semantic_info edge_mdata
                                   (metadataKeyScorer semantic_info node_mdata 0))
        else
          (case metadataValueScorer semantic_info key node_mdata 0 of
             Inl err \<Rightarrow> Inl err
           | Inr s \<Rightarrow>
               (case metadataValueScorer semantic_info key edge_mdata s of
                  Inl err \<Rightarrow> Inl err
                | Inr score \<Rightarrow> Inr (True, weight * score))))"

record DynamicEdgesScorer =
  dynamic_penalties :: "u32 \<rightharpoonup> real"
  closed_edges :: "u32 set"

definition closedEdgesCb ::
  "u32 list \<Rightarrow> u32 list \<Rightarrow> (u32 \<times> real) list \<Rightarrow> DynamicEdgesScorer \<Rightarrow> bool \<times> DynamicEdgesScorer" where
  "closedEdgesCb closed_req opened_req adjust s =
    (let closed1 = fold insert closed_req (closed_edges s);
         closed2 = fold (\<lambda>e cs. if e \<in> cs then cs - {e} else cs) opened_req closed1;
         pens = fold (\<lambda>ec d. d(fst ec \<mapsto> snd ec)) adjust (dynamic_penalties s)
     in (True, s\<lparr>closed_edges := closed2, dynamic_penalties := pens\<rparr>))"

definition DynamicEdgesScorer_score ::
  "DynamicEdgesScorer \<Rightarrow> DirectionalEdge \<Rightarrow> real \<Rightarrow> bool \<times> real" where
  "DynamicEdgesScorer_score s e c =
    (if edgeid e \<in> closed_edges s then (False, c)
     else (True, case dynamic_penalties s (edgeid e) of Some v \<Rightarrow> v | None \<Rightarrow> c))"

section \<open>The service of the dynamic edges scorer\<close>

lemma fold_open: "fold (\<lambda>e cs. if e \<in> cs then cs - {e} else cs) es S = S - set es"
  by (induction es arbitrary: S) auto

lemma fold_adjust_ran:
  "fold (\<lambda>ec d. d(fst ec \<mapsto> snd ec)) adj d i = Some v \<Longrightarrow> d i = Some v \<or> (i, v) \<in> set adj"
  by (induction adj arbitrary: d) (fastforce split: if_splits)+

lemma fold_close: "fold insert es S = S \<union> set es"
  by (induction es arbitrary: S) auto

text \<open>An edge in both lists of a request ends up open.\<close>

lemma closedEdgesCb_closed:
  "closed_edges (snd (closedEdgesCb closed_req opened_req adj s))
    = (closed_edges s \<union> set closed_req) - set opened_req"
  by (simp add: closedEdgesCb_def Let_def fold_open fold_close)

lemma closedEdgesCb_penalty:
  "dynamic_penalties (snd (closedEdgesCb closed_req opened_req adj s)) i = Some v
    \<Longrightarrow> dynamic_penalties s i = Some v \<or> (i, v) \<in> set adj"
  using fold_adjust_ran by (force simp: closedEdgesCb_def Let_def)

end
