(* ===== verification/Route_Planner.thy ===== *)
theory Route_Planner
  imports Route_Graph "HOL-Library.Multiset"
begin

text \<open>
  The route planner of nav2_route (route_planner.cpp): Dijkstra's search over the navigation graph
  with lazy deletion from a priority queue, and the conversion of the search tree into a route.
\<close>

section \<open>The planner\<close>

type_synonym NodeElement = "real \<times> nat"

record RoutePlanner =
  max_iterations :: int
  start_id :: u32
  goal_id :: u32
  queue :: "NodeElement list"

definition INT_MAX :: int where
  "INT_MAX = 2 ^ 31 - 1"

definition route_configure :: "int \<Rightarrow> RoutePlanner \<Rightarrow> RoutePlanner" where
  "route_configure param p = p\<lparr>max_iterations := (if param \<le> 0 then INT_MAX else param)\<rparr>"

text \<open>
  \<open>std::priority_queue\<close> with \<open>NodeComparator\<close>: \<open>top\<close> is an element of lowest cost. The list model
  takes the first of them; no theorem depends on the choice among equal costs beyond
  the laws of \<open>min_queue\<close> below.
\<close>

fun queue_top :: "NodeElement list \<Rightarrow> NodeElement" where
  "queue_top [] = undefined"
| "queue_top [x] = x"
| "queue_top (x # xs) = (let t = queue_top xs in if fst t < fst x then t else x)"

definition queue_pop :: "NodeElement list \<Rightarrow> NodeElement list" where
  "queue_pop q = remove1 (queue_top q) q"

definition getNextNode :: "RoutePlanner \<Rightarrow> NodeElement \<times> RoutePlanner" where
  "getNextNode p = (queue_top (queue p), p\<lparr>queue := queue_pop (queue p)\<rparr>)"

definition addNode :: "real \<Rightarrow> nat \<Rightarrow> RoutePlanner \<Rightarrow> RoutePlanner" where
  "addNode c n p = p\<lparr>queue := (c, n) # queue p\<rparr>"

definition clearQueue :: "RoutePlanner \<Rightarrow> RoutePlanner" where
  "clearQueue p = p\<lparr>queue := []\<rparr>"

definition isGoal :: "RoutePlanner \<Rightarrow> Node \<Rightarrow> bool" where
  "isGoal p n \<longleftrightarrow> nodeid n = goal_id p"

definition isStart :: "RoutePlanner \<Rightarrow> Node \<Rightarrow> bool" where
  "isStart p n \<longleftrightarrow> nodeid n = start_id p"

definition classifyEdge :: "RoutePlanner \<Rightarrow> Graph \<Rightarrow> DirectionalEdge \<Rightarrow> EdgeType" where
  "classifyEdge p g e =
    (if isStart p (g ! e_start e) then EdgeSTART
     else if isGoal p (g ! e_end e) then EdgeEND else EdgeNONE)"

definition resetSearchStates :: "Graph \<Rightarrow> Graph" where
  "resetSearchStates g = map (\<lambda>n. n\<lparr>search_state := reset_search_state (search_state n)\<rparr>) g"

definition getTraversalCost ::
  "('p, 'w) EdgeCostFunction list \<Rightarrow> u32 list \<Rightarrow> 'p RouteRequest \<Rightarrow> RoutePlanner \<Rightarrow> Graph \<Rightarrow> DirectionalEdge
    \<Rightarrow> 'w \<Rightarrow> (route_error + bool \<times> real) \<times> 'w" where
  "getTraversalCost plugins blocked_ids req p g e w =
    (if list_ex (\<lambda>i. i = edgeid e \<or> i = nodeid (g ! e_end e)) blocked_ids then (Inr (False, 0), w)
     else if \<not> overridable (edge_cost e) \<or> length plugins = 0 then
       (if cost (edge_cost e) \<le> 0 then (Inl NoValidGraph, w)
        else (Inr (True, cost (edge_cost e)), w))
     else edge_score plugins g e req (classifyEdge p g e) w)"

definition edge_at :: "Graph \<Rightarrow> EdgePtr \<Rightarrow> DirectionalEdge" where
  "edge_at g e = neighbors (g ! fst e) ! snd e"

definition set_search ::
  "nat \<Rightarrow> EdgePtr \<Rightarrow> real \<Rightarrow> real \<Rightarrow> Graph \<Rightarrow> Graph" where
  "set_search n e integrated traversal g =
    g[n := (g ! n)\<lparr>search_state := \<lparr>parent_edge = Some e, integrated_cost = integrated,
                                    traversal_cost = traversal\<rparr>\<rparr>]"

text \<open>
  The loop over the edges of the expanded node \<open>u\<close>. An edge whose end is not a node of the graph
  is a bad pointer.
\<close>

fun expand_edges ::
  "('p, 'w) EdgeCostFunction list \<Rightarrow> u32 list \<Rightarrow> 'p RouteRequest \<Rightarrow> real \<Rightarrow> nat \<Rightarrow> nat list
    \<Rightarrow> Graph \<Rightarrow> RoutePlanner \<Rightarrow> 'w \<Rightarrow> (route_error + unit) \<times> Graph \<times> RoutePlanner \<times> 'w" where
  "expand_edges plugins blocked req curr_cost u [] g p w = (Inr (), g, p, w)"
| "expand_edges plugins blocked req curr_cost u (k # ks) g p w =
    (let edge = edge_at g (u, k); neighbor = e_end edge
     in if neighbor \<ge> length g then (Inl BadPointer, g, p, w)
        else
          (case getTraversalCost plugins blocked req p g edge w of
             (Inl err, w') \<Rightarrow> (Inl err, g, p, w')
           | (Inr (False, _), w') \<Rightarrow> expand_edges plugins blocked req curr_cost u ks g p w'
           | (Inr (True, traversal), w') \<Rightarrow>
               (let potential_cost = curr_cost + traversal
                in if potential_cost < integrated_cost (search_state (g ! neighbor))
                   then expand_edges plugins blocked req curr_cost u ks
                          (set_search neighbor (u, k) potential_cost traversal g)
                          (addNode potential_cost neighbor p) w'
                   else expand_edges plugins blocked req curr_cost u ks g p w')))"

function search_loop ::
  "('p, 'w) EdgeCostFunction list \<Rightarrow> u32 list \<Rightarrow> 'p RouteRequest \<Rightarrow> int \<Rightarrow> int
    \<Rightarrow> Graph \<Rightarrow> RoutePlanner \<Rightarrow> 'w \<Rightarrow> (route_error + unit) \<times> Graph \<times> RoutePlanner \<times> 'w" where
  "search_loop plugins blocked req limit iterations g p w =
    (if queue p \<noteq> [] \<and> iterations < limit then
       (let (elem, p1) = getNextNode p; curr_cost = fst elem; node = snd elem
        in if node \<ge> length g then (Inl BadPointer, g, p1, w)
           else if curr_cost \<noteq> integrated_cost (search_state (g ! node))
           then search_loop plugins blocked req limit (iterations + 1) g p1 w
           else if isGoal p1 (g ! node) then (Inr (), g, clearQueue p1, w)
           else
             (case expand_edges plugins blocked req curr_cost node
                     [0..<length (neighbors (g ! node))] g p1 w of
                (Inl err, g2, p2, w2) \<Rightarrow> (Inl err, g2, p2, w2)
              | (Inr _, g2, p2, w2) \<Rightarrow>
                  search_loop plugins blocked req limit (iterations + 1) g2 p2 w2))
     else if iterations = limit then (Inl TimedOut, g, clearQueue p, w)
     else (Inr (), g, p, w))"
  by pat_completeness auto
termination
  by (relation "measure (\<lambda>(plugins, blocked, req, limit, iterations, g, p, w). nat (limit - iterations))")
     auto

definition findShortestGraphTraversal ::
  "('p, 'w) EdgeCostFunction list \<Rightarrow> Graph \<Rightarrow> nat \<Rightarrow> nat \<Rightarrow> u32 list \<Rightarrow> 'p RouteRequest \<Rightarrow> RoutePlanner \<Rightarrow> 'w
    \<Rightarrow> (route_error + unit) \<times> Graph \<times> RoutePlanner \<times> 'w" where
  "findShortestGraphTraversal plugins g start goal blocked req p w =
    (let g1 = resetSearchStates g;
         p1 = p\<lparr>start_id := nodeid (g1 ! start), goal_id := nodeid (g1 ! goal)\<rparr>;
         g2 = g1[start := (g1 ! start)\<lparr>search_state := (search_state (g1 ! start))\<lparr>integrated_cost := 0\<rparr>\<rparr>];
         p2 = addNode 0 start p1
     in search_loop plugins blocked req (max_iterations p2) 0 g2 p2 w)"

text \<open>
  \<open>parent_edge\<close> in \<open>findRoute\<close> is a reference to the field of the goal node, so walking up the
  search tree overwrites that field.
\<close>

partial_function (option) trace_route ::
  "nat \<Rightarrow> Graph \<Rightarrow> EdgePtr list \<Rightarrow> (EdgePtr list \<times> Graph) option" where
  "trace_route goal g acc =
    (case parent_edge (search_state (g ! goal)) of
       None \<Rightarrow> Some (acc, g)
     | Some e \<Rightarrow>
         trace_route goal
           (g[goal := (g ! goal)\<lparr>search_state := (search_state (g ! goal))\<lparr>parent_edge :=
                parent_edge (search_state (g ! e_start (edge_at g e)))\<rparr>\<rparr>])
           (acc @ [e]))"

definition findRoute ::
  "('p, 'w) EdgeCostFunction list \<Rightarrow> Graph \<Rightarrow> nat \<Rightarrow> nat \<Rightarrow> u32 list \<Rightarrow> 'p RouteRequest \<Rightarrow> RoutePlanner \<Rightarrow> 'w
    \<Rightarrow> ((route_error + Route) \<times> Graph \<times> RoutePlanner \<times> 'w) option" where
  "findRoute plugins g start goal blocked req p w =
    (if g = [] then Some (Inl NoValidGraph, g, p, w)
     else if start \<ge> length g \<or> goal \<ge> length g then Some (Inl OutOfRange, g, p, w)
     else
       (case findShortestGraphTraversal plugins g start goal blocked req p w of
          (Inl err, g', p', w') \<Rightarrow> Some (Inl err, g', p', w')
        | (Inr _, g', p', w') \<Rightarrow>
            (case parent_edge (search_state (g' ! goal)) of
               None \<Rightarrow> Some (Inl NoValidRouteCouldBeFound, g', p', w')
             | Some _ \<Rightarrow>
                 Option.bind (trace_route goal g' []) (\<lambda>(edges, g2).
                   Some (Inr \<lparr>start_node = start, route_edges = rev edges,
                              route_cost = integrated_cost (search_state (g2 ! goal))\<rparr>, g2, p', w')))))"

section \<open>The priority queue\<close>

text \<open>
  What the search needs of \<open>std::priority_queue\<close>: \<open>top\<close> is a least element, \<open>pop\<close> removes one
  occurrence of it and nothing else.
\<close>

locale min_queue =
  fixes top :: "('c::linorder \<times> 'n) list \<Rightarrow> 'c \<times> 'n"
    and pop :: "('c \<times> 'n) list \<Rightarrow> ('c \<times> 'n) list"
  assumes top_in: "q \<noteq> [] \<Longrightarrow> top q \<in> set q"
    and top_least: "x \<in> set q \<Longrightarrow> fst (top q) \<le> fst x"
    and pop_mset: "q \<noteq> [] \<Longrightarrow> mset q = add_mset (top q) (mset (pop q))"
begin

lemma pop_set: "q \<noteq> [] \<Longrightarrow> set q = insert (top q) (set (pop q))"
  using pop_mset [of q] by (metis set_mset_add_mset_insert set_mset_mset)

lemma pop_length: "q \<noteq> [] \<Longrightarrow> length q = Suc (length (pop q))"
  using pop_mset [of q] by (metis size_add_mset size_mset)

lemma pop_distinct:
  assumes "q \<noteq> []" "distinct q"
  shows "distinct (pop q)" "set (pop q) = set q - {top q}"
proof -
  have d: "distinct (top q # pop q)"
    using assms pop_mset [OF assms(1)] by (metis mset.simps(2) mset_eq_imp_distinct_iff)
  then show "distinct (pop q)" by simp
  show "set (pop q) = set q - {top q}" using pop_set [OF assms(1)] d by auto
qed

end

lemma queue_top_least: "q \<noteq> [] \<Longrightarrow> queue_top q \<in> set q \<and> (\<forall>x\<in>set q. fst (queue_top q) \<le> fst x)"
  by (induction q rule: queue_top.induct) (auto simp: Let_def)

interpretation nq: min_queue queue_top queue_pop
proof
  fix q :: "NodeElement list" and x
  show "q \<noteq> [] \<Longrightarrow> queue_top q \<in> set q" using queue_top_least by blast
  show "x \<in> set q \<Longrightarrow> fst (queue_top q) \<le> fst x" using queue_top_least [of q] by (cases "q = []") auto
  show "q \<noteq> [] \<Longrightarrow> mset q = add_mset (queue_top q) (mset (queue_pop q))"
    using queue_top_least [of q] by (simp add: queue_pop_def)
qed

section \<open>Walks, and the search state of a graph\<close>

definition wf_graph :: "Graph \<Rightarrow> bool" where
  "wf_graph g \<longleftrightarrow> distinct (map nodeid g) \<and>
    list_all (\<lambda>i. list_all (\<lambda>e. e_start e = i \<and> e_end e < length g) (neighbors (g ! i))) [0..<length g]"

definition edge_ptr_in :: "Graph \<Rightarrow> EdgePtr \<Rightarrow> bool" where
  "edge_ptr_in g e \<longleftrightarrow> fst e < length g \<and> snd e < length (neighbors (g ! fst e))"

text \<open>\<open>c\<close> gives the traversal cost of the usable edges.\<close>

fun walk :: "Graph \<Rightarrow> (EdgePtr \<Rightarrow> real option) \<Rightarrow> nat \<Rightarrow> EdgePtr list \<Rightarrow> nat \<Rightarrow> bool" where
  "walk g c s [] t \<longleftrightarrow> s = t"
| "walk g c s (e # es) t \<longleftrightarrow>
    fst e = s \<and> edge_ptr_in g e \<and> c e \<noteq> None \<and> walk g c (e_end (edge_at g e)) es t"

definition walk_cost :: "(EdgePtr \<Rightarrow> real option) \<Rightarrow> EdgePtr list \<Rightarrow> real" where
  "walk_cost c es = sum_list (map (\<lambda>e. the (c e)) es)"

definition edge_count :: "Graph \<Rightarrow> nat" where
  "edge_count g = sum_list (map (\<lambda>n. length (neighbors n)) g)"

text \<open>
  The contract of the scoring during one search from \<open>start\<close> to \<open>goal\<close>: every edge has one answer,
  whatever the search states of the graph, in all plugin states \<open>W\<close> that scoring leads to.
\<close>

definition scoring ::
  "('p, 'w) EdgeCostFunction list \<Rightarrow> u32 list \<Rightarrow> 'p RouteRequest \<Rightarrow> Graph \<Rightarrow> nat \<Rightarrow> nat
    \<Rightarrow> 'w set \<Rightarrow> (EdgePtr \<Rightarrow> real option) \<Rightarrow> bool" where
  "scoring plugins blocked req g start goal W c \<longleftrightarrow>
    (\<forall>h p w e. w \<in> W \<and> resetSearchStates h = resetSearchStates g \<and> edge_ptr_in g e
        \<and> start_id p = nodeid (g ! start) \<and> goal_id p = nodeid (g ! goal) \<longrightarrow>
      (\<exists>x w'. w' \<in> W \<and> getTraversalCost plugins blocked req p h (edge_at g e) w
        = (Inr (case c e of None \<Rightarrow> (False, x) | Some v \<Rightarrow> (True, v)), w')))"

abbreviation lab :: "Graph \<Rightarrow> nat \<Rightarrow> real" where
  "lab g i \<equiv> integrated_cost (search_state (g ! i))"

abbreviation trav :: "Graph \<Rightarrow> nat \<Rightarrow> real" where
  "trav g i \<equiv> traversal_cost (search_state (g ! i))"

abbreviation par :: "Graph \<Rightarrow> nat \<Rightarrow> EdgePtr option" where
  "par g i \<equiv> parent_edge (search_state (g ! i))"

lemma same_skeleton:
  assumes "resetSearchStates h = resetSearchStates g"
  shows "length h = length g" "i < length g \<Longrightarrow> neighbors (h ! i) = neighbors (g ! i)"
    "i < length g \<Longrightarrow> nodeid (h ! i) = nodeid (g ! i)"
    "edge_ptr_in g e \<Longrightarrow> edge_at h e = edge_at g e"
proof -
  show l: "length h = length g"
    using assms by (metis length_map resetSearchStates_def)
  have eq: "(h ! i)\<lparr>search_state := reset_search_state (search_state (h ! i))\<rparr>
      = (g ! i)\<lparr>search_state := reset_search_state (search_state (g ! i))\<rparr>" if "i < length g" for i
    using assms that l by (auto simp: resetSearchStates_def dest: arg_cong [where f = "\<lambda>xs. xs ! i"])
  show n: "neighbors (h ! i) = neighbors (g ! i)" if "i < length g" for i
    using arg_cong [OF eq [OF that], of neighbors] by simp
  show "i < length g \<Longrightarrow> nodeid (h ! i) = nodeid (g ! i)"
    using arg_cong [OF eq, of i nodeid] by simp
  show "edge_ptr_in g e \<Longrightarrow> edge_at h e = edge_at g e"
    by (simp add: edge_at_def edge_ptr_in_def n)
qed

lemma reset_update:
  "resetSearchStates (g[i := (g ! i)\<lparr>search_state := st\<rparr>]) = resetSearchStates g"
  by (cases "i < length g")
    (auto simp: resetSearchStates_def reset_search_state_def map_update list_update_same_conv list_update_beyond)

lemma set_search_simps:
  assumes "n < length g"
  shows "lab (set_search n e x v g) i = (if i = n then x else lab g i)"
    "par (set_search n e x v g) i = (if i = n then Some e else par g i)"
    "trav (set_search n e x v g) i = (if i = n then v else trav g i)"
    "resetSearchStates (set_search n e x v g) = resetSearchStates g"
    "length (set_search n e x v g) = length g"
  using assms by (simp_all add: set_search_def reset_update nth_list_update)

section \<open>The invariant of the search\<close>

text \<open>
  \<open>tree\<close>: the list of parent edges from a node up to the start, through expanded nodes \<open>D\<close> only,
  along which the labels add up.
\<close>

fun tree :: "Graph \<Rightarrow> (EdgePtr \<Rightarrow> real option) \<Rightarrow> nat \<Rightarrow> nat set \<Rightarrow> nat \<Rightarrow> EdgePtr list \<Rightarrow> bool" where
  "tree g c s D i [] \<longleftrightarrow> i = s \<and> par g s = None"
| "tree g c s D i (e # es) \<longleftrightarrow> par g i = Some e \<and> edge_ptr_in g e \<and> e_end (edge_at g e) = i \<and>
    fst e \<in> D \<and> (\<exists>v. c e = Some v \<and> lab g i = lab g (fst e) + v \<and> trav g i = v) \<and> tree g c s D (fst e) es"

text \<open>
  \<open>D\<close> are the expanded nodes, \<open>P\<close> the edges of expanded nodes that are still to be relaxed.
\<close>

record search_view =
  sv_graph :: Graph
  sv_cost :: "EdgePtr \<Rightarrow> real option"
  sv_start :: nat
  sv_goal :: nat

definition labels_ok :: "search_view \<Rightarrow> nat set \<Rightarrow> Graph \<Rightarrow> NodeElement list \<Rightarrow> bool" where
  "labels_ok V D g q \<longleftrightarrow> resetSearchStates g = resetSearchStates (sv_graph V) \<and>
    D \<subseteq> {..<length g} \<and> sv_goal V \<notin> D \<and> sv_start V < length g \<and>
    lab g (sv_start V) = 0 \<and> par g (sv_start V) = None \<and>
    (\<forall>i<length g. 0 \<le> lab g i \<and> lab g i \<le> FLT_MAX \<and> (lab g i = FLT_MAX \<longrightarrow> par g i = None)) \<and>
    (\<forall>i<length g. lab g i < FLT_MAX \<longrightarrow> (\<exists>es. tree g (sv_cost V) (sv_start V) D i es))"

definition queue_ok :: "nat set \<Rightarrow> Graph \<Rightarrow> NodeElement list \<Rightarrow> bool" where
  "queue_ok D g q \<longleftrightarrow> distinct q \<and>
    (\<forall>(x, i)\<in>set q. i < length g \<and> lab g i \<le> x \<and> x < FLT_MAX \<and> (\<forall>d\<in>D. lab g d \<le> x)) \<and>
    (\<forall>i<length g. lab g i < FLT_MAX \<longrightarrow> i \<in> D \<or> (lab g i, i) \<in> set q) \<and>
    (\<forall>d\<in>D. lab g d < FLT_MAX \<and> (lab g d, d) \<notin> set q)"

definition relaxed :: "(EdgePtr \<Rightarrow> real option) \<Rightarrow> nat set \<Rightarrow> EdgePtr set \<Rightarrow> Graph \<Rightarrow> bool" where
  "relaxed c D P g \<longleftrightarrow> (\<forall>e v. edge_ptr_in g e \<and> c e = Some v \<and> fst e \<in> D \<and> e \<notin> P \<longrightarrow>
     lab g (e_end (edge_at g e)) \<le> lab g (fst e) + v)"

definition search_inv ::
  "search_view \<Rightarrow> nat set \<Rightarrow> EdgePtr set \<Rightarrow> Graph \<Rightarrow> NodeElement list \<Rightarrow> bool" where
  "search_inv V D P g q \<longleftrightarrow> labels_ok V D g q \<and> queue_ok D g q \<and> relaxed (sv_cost V) D P g"

lemmas search_inv_defs = search_inv_def labels_ok_def queue_ok_def relaxed_def

lemma tree_mono: "tree g c s D i es \<Longrightarrow> D \<subseteq> D' \<Longrightarrow> tree g c s D' i es"
  by (induction es arbitrary: i) auto

lemma neighbors_set_search [simp]: "neighbors (set_search n e x v g ! i) = neighbors (g ! i)"
  unfolding set_search_def
  by (cases "n < length g"; cases "i = n") (simp_all add: list_update_beyond)

lemma edge_ptr_in_set_search [simp]:
  "edge_ptr_in (set_search n e x v g) e' = edge_ptr_in g e'"
  "edge_at (set_search n e x v g) e' = edge_at g e'"
  by (simp_all add: edge_ptr_in_def edge_at_def) (simp add: set_search_def)

lemma search_invD:
  assumes "search_inv V D P g q"
  shows search_skel: "resetSearchStates g = resetSearchStates (sv_graph V)"
    and search_D: "d \<in> D \<Longrightarrow> d < length g" "sv_goal V \<notin> D"
    and search_start: "sv_start V < length g" "lab g (sv_start V) = 0" "par g (sv_start V) = None"
    and search_lab: "i < length g \<Longrightarrow> 0 \<le> lab g i" "i < length g \<Longrightarrow> lab g i \<le> FLT_MAX"
    and search_unlabelled: "i < length g \<Longrightarrow> lab g i = FLT_MAX \<Longrightarrow> par g i = None"
    and search_tree: "i < length g \<Longrightarrow> lab g i < FLT_MAX
          \<Longrightarrow> \<exists>es. tree g (sv_cost V) (sv_start V) D i es"
    and search_distinct: "distinct q"
    and search_queue: "(x, i) \<in> set q \<Longrightarrow> i < length g" "(x, i) \<in> set q \<Longrightarrow> lab g i \<le> x"
          "(x, i) \<in> set q \<Longrightarrow> d \<in> D \<Longrightarrow> lab g d \<le> x" "(x, i) \<in> set q \<Longrightarrow> x < FLT_MAX"
    and search_open: "i < length g \<Longrightarrow> lab g i < FLT_MAX \<Longrightarrow> i \<in> D \<or> (lab g i, i) \<in> set q"
    and search_closed: "d \<in> D \<Longrightarrow> lab g d < FLT_MAX" "d \<in> D \<Longrightarrow> (lab g d, d) \<notin> set q"
    and search_relaxed: "edge_ptr_in g e \<Longrightarrow> sv_cost V e = Some v \<Longrightarrow> fst e \<in> D \<Longrightarrow> e \<notin> P
          \<Longrightarrow> lab g (e_end (edge_at g e)) \<le> lab g (fst e) + v"
  using assms unfolding search_inv_defs by (blast | fast)+

lemma tree_set_search:
  assumes "tree g c s D i es" "n < length g" "n \<notin> D" "i \<noteq> n" "s \<noteq> n"
  shows "tree (set_search n e x v g) c s D i es"
  using assms(1,4)
proof (induction es arbitrary: i)
  case Nil
  then show ?case using assms(2,5) by (simp add: set_search_simps)
next
  case (Cons e' es)
  then have "fst e' \<noteq> n" using assms(3) by auto
  then show ?case using Cons assms(2) by (auto simp: set_search_simps)
qed

lemma tree_walk:
  assumes "tree g c s D i es" "walk g c i fs t"
  shows "walk g c s (rev es @ fs) t"
  using assms
proof (induction es arbitrary: i fs)
  case (Cons e es)
  then show ?case using Cons.IH [of "fst e" "e # fs"] by auto
qed simp

lemma tree_priced: "tree g c s D i es \<Longrightarrow> e \<in> set es \<Longrightarrow> c e = Some (trav g (e_end (edge_at g e)))"
  by (induction es arbitrary: i) auto

lemma tree_cost:
  "tree g c s D i es \<Longrightarrow> lab g i = lab g s + walk_cost c (rev es)"
proof (induction es arbitrary: i)
  case (Cons e es)
  then show ?case by (auto simp: walk_cost_def)
qed (simp add: walk_cost_def)

subsection \<open>What the invariant says of every walk\<close>

text \<open>A walk from the start either reaches a node labelled within its cost, or passes an open node.\<close>

lemma walk_bound:
  assumes inv: "search_inv V D {} g q" and nonneg: "\<And>e v. sv_cost V e = Some v \<Longrightarrow> 0 \<le> v"
    and wf: "wf_graph (sv_graph V)"
    and w: "walk (sv_graph V) (sv_cost V) i es t" "i < length g"
    and start: "lab g i \<le> C \<or> (\<exists>x j. (x, j) \<in> set q \<and> x \<le> C)"
  shows "t < length g \<and>
    (lab g t \<le> C + walk_cost (sv_cost V) es \<or> (\<exists>x j. (x, j) \<in> set q \<and> x \<le> C + walk_cost (sv_cost V) es))"
  using w start
proof (induction es arbitrary: i C)
  case Nil
  then show ?case by (simp add: walk_cost_def)
next
  case (Cons e es)
  have sk: "resetSearchStates g = resetSearchStates (sv_graph V)" by (rule search_skel [OF inv])
  note sk' = same_skeleton [OF sk]
  obtain v where v: "sv_cost V e = Some v" using Cons.prems by auto
  have e: "edge_ptr_in (sv_graph V) e" "fst e = i" using Cons.prems by auto
  let ?j = "e_end (edge_at (sv_graph V) e)"
  have j: "?j < length g"
    using e wf sk'(1) by (auto simp: wf_graph_def edge_ptr_in_def edge_at_def list_all_iff)
  have "lab g ?j \<le> C + v \<or> (\<exists>x k. (x, k) \<in> set q \<and> x \<le> C + v)"
    using Cons.prems(3)
  proof
    assume l: "lab g i \<le> C"
    have jM: "lab g ?j \<le> FLT_MAX" by (rule search_lab(2) [OF inv j])
    consider "lab g i \<ge> FLT_MAX" | "i \<in> D" | "(lab g i, i) \<in> set q"
      using search_open [OF inv Cons.prems(2)] by fastforce
    then show ?thesis
    proof cases
      case 1
      then show ?thesis using jM l nonneg [OF v] by auto
    next
      case 2
      have "edge_ptr_in g e" "edge_at g e = edge_at (sv_graph V) e"
        using e sk' by (auto simp: edge_ptr_in_def)
      then have "lab g ?j \<le> lab g i + v" using search_relaxed [OF inv _ v] 2 e by auto
      then show ?thesis using l by simp
    next
      case 3
      then show ?thesis using l nonneg [OF v] by (metis add_increasing2)
    qed
  next
    assume "\<exists>x j. (x, j) \<in> set q \<and> x \<le> C"
    then show ?thesis using nonneg [OF v] by (metis add_increasing2)
  qed
  moreover have "walk (sv_graph V) (sv_cost V) ?j es t" using Cons.prems by simp
  ultimately show ?case using Cons.IH [of ?j "C + v"] j v by (auto simp: walk_cost_def add.assoc)
qed

subsection \<open>The steps keep the invariant\<close>

lemma search_pop_stale:
  assumes "search_inv V D {} g q" "q \<noteq> []" "fst (queue_top q) \<noteq> lab g (snd (queue_top q))"
  shows "search_inv V D {} g (queue_pop q)"
proof -
  have s: "distinct (queue_pop q)" "set (queue_pop q) = set q - {queue_top q}"
    using nq.pop_distinct [OF assms(2)] search_distinct [OF assms(1)] by auto
  have k: "(lab g i, i) \<noteq> queue_top q" for i
  proof
    assume "(lab g i, i) = queue_top q"
    then show False using assms(3) by (metis fst_conv snd_conv)
  qed
  have "queue_ok D g (queue_pop q)"
    using assms(1) s k unfolding search_inv_def queue_ok_def by (auto simp: s(2))
  then show ?thesis using assms(1) by (simp add: search_inv_def labels_ok_def)
qed

lemma search_pop_fresh:
  assumes "search_inv V D {} g q" "q \<noteq> []" "queue_top q = (lab g u, u)" "u \<noteq> sv_goal V" "lab g u < FLT_MAX"
  shows "search_inv V (insert u D) {(u, k) |k. k < length (neighbors (g ! u))} g (queue_pop q)"
    "\<forall>d\<in>insert u D. lab g d \<le> lab g u" "u \<notin> D" "u < length g"
proof -
  have top: "(lab g u, u) \<in> set q" using nq.top_in [OF assms(2)] assms(3) by simp
  have s: "distinct (queue_pop q)" "set (queue_pop q) = set q - {(lab g u, u)}"
    using nq.pop_distinct [OF assms(2)] search_distinct [OF assms(1)] assms(3) by auto
  have least: "lab g u \<le> x" if "(x, i) \<in> set q" for x i
    using nq.top_least [OF that] assms(3) by simp
  show u: "u < length g" by (rule search_queue(1) [OF assms(1) top])
  show "u \<notin> D" using search_closed(2) [OF assms(1), of u] top by auto
  show "\<forall>d\<in>insert u D. lab g d \<le> lab g u" using search_queue(3) [OF assms(1) top] by auto
  have "queue_ok (insert u D) g (queue_pop q)"
    using assms(1,5) s least unfolding search_inv_def queue_ok_def by (auto simp: s(2))
  moreover have "labels_ok V (insert u D) g (queue_pop q)"
    using assms(1,4) u tree_mono [where D = D and D' = "insert u D"]
    unfolding search_inv_def labels_ok_def by blast
  moreover have "relaxed (sv_cost V) (insert u D) {(u, k) |k. k < length (neighbors (g ! u))} g"
    using assms(1) unfolding search_inv_def relaxed_def edge_ptr_in_def
    by (metis (mono_tags, lifting) insert_iff mem_Collect_eq empty_iff prod.collapse)
  ultimately show "search_inv V (insert u D) {(u, k) |k. k < length (neighbors (g ! u))} g (queue_pop q)"
    by (simp add: search_inv_def)
qed

lemma search_relax_keep:
  assumes "search_inv V D (insert e P) g q"
    and "\<And>v. sv_cost V e = Some v \<Longrightarrow> lab g (e_end (edge_at g e)) \<le> lab g (fst e) + v"
  shows "search_inv V D P g q"
  using assms unfolding search_inv_def relaxed_def labels_ok_def by blast

lemma search_relax_update:
  assumes inv: "search_inv V D (insert e P) g q" and e: "edge_ptr_in g e" "fst e \<in> D"
    and c: "sv_cost V e = Some v" "0 \<le> v" and below: "\<forall>d\<in>D. lab g d \<le> lab g (fst e)"
    and n: "n = e_end (edge_at g e)" "n < length g" and less: "lab g (fst e) + v < lab g n"
  shows "search_inv V D P (set_search n e (lab g (fst e) + v) v g) ((lab g (fst e) + v, n) # q)"
proof -
  let ?l = "lab g (fst e) + v"
  let ?g = "set_search n e ?l v g"
  note upd = set_search_simps [OF n(2)]
  have nD: "n \<notin> D" using below less c(2) by force
  have us: "fst e < length g" using e(1) by (simp add: edge_ptr_in_def)
  have l0: "0 \<le> ?l" using search_lab(1) [OF inv us] c(2) by simp
  have ns: "n \<noteq> sv_start V" using search_start(2) [OF inv] less l0 by auto
  have lM: "?l < FLT_MAX" using less search_lab(2) [OF inv n(2)] by simp
  have nu: "n \<noteq> fst e" using nD e(2) by auto
  have D: "lab ?g d = lab g d" if "d \<in> D" for d using that nD by (auto simp: upd)
  obtain es where es: "tree g (sv_cost V) (sv_start V) D (fst e) es"
    using search_tree [OF inv us search_closed(1) [OF inv e(2)]] by blast
  have tn: "tree ?g (sv_cost V) (sv_start V) D n (e # es)"
    using tree_set_search [OF es n(2) nD nu [symmetric] ns [symmetric], of e ?l v] e c nu
    by (simp add: upd flip: n(1))
  have tr: "\<exists>es. tree ?g (sv_cost V) (sv_start V) D i es" if i: "i < length g" "lab ?g i < FLT_MAX" for i
  proof (cases "i = n")
    case False
    then have "lab g i < FLT_MAX" using i(2) by (simp add: upd)
    then obtain es where "tree g (sv_cost V) (sv_start V) D i es" using search_tree [OF inv i(1)] by blast
    then show ?thesis using tree_set_search [OF _ n(2) nD False ns [symmetric]] by blast
  qed (use tn in blast)
  have fresh: "(?l, n) \<notin> set q" using search_queue(2) [OF inv, of ?l n] less by auto
  have "labels_ok V D ?g ((?l, n) # q)"
    unfolding labels_ok_def
    using search_skel [OF inv] search_D [OF inv] search_start [OF inv] ns search_lab [OF inv] lM l0
      search_unlabelled [OF inv] tr by (auto simp: upd)
  moreover have "queue_ok D ?g ((?l, n) # q)"
    unfolding queue_ok_def
  proof (intro conjI)
    show "distinct ((?l, n) # q)" using fresh search_distinct [OF inv] by simp
    show "\<forall>(x, i)\<in>set ((?l, n) # q). i < length ?g \<and> lab ?g i \<le> x \<and> x < FLT_MAX \<and> (\<forall>d\<in>D. lab ?g d \<le> x)"
    proof clarify
      fix y i assume yi: "(y, i) \<in> set ((?l, n) # q)"
      show "i < length ?g \<and> lab ?g i \<le> y \<and> y < FLT_MAX \<and> (\<forall>d\<in>D. lab ?g d \<le> y)"
      proof (cases "(y, i) = (?l, n)")
        case True
        then show ?thesis using n(2) below c(2) D lM by (force simp: upd)
      next
        case False
        then have q: "(y, i) \<in> set q" using yi by auto
        show ?thesis using search_queue [OF inv q] less D by (auto simp: upd)
      qed
    qed
    show "\<forall>i<length ?g. lab ?g i < FLT_MAX \<longrightarrow> i \<in> D \<or> (lab ?g i, i) \<in> set ((?l, n) # q)"
      using search_open [OF inv] by (auto simp: upd)
    show "\<forall>d\<in>D. lab ?g d < FLT_MAX \<and> (lab ?g d, d) \<notin> set ((?l, n) # q)"
      using search_closed [OF inv] nD by (auto simp: upd)
  qed
  moreover have "relaxed (sv_cost V) D P ?g"
    unfolding relaxed_def edge_ptr_in_set_search
  proof clarify
    fix a b w assume a: "edge_ptr_in g (a, b)" "sv_cost V (a, b) = Some w" "fst (a, b) \<in> D" "(a, b) \<notin> P"
    have lf: "lab ?g (fst (a, b)) = lab g (fst (a, b))" by (rule D [OF a(3)])
    show "lab ?g (e_end (edge_at g (a, b))) \<le> lab ?g (fst (a, b)) + w"
    proof (cases "(a, b) = e")
      case True
      then have en: "e_end (edge_at g (a, b)) = n" "w = v" using n(1) c(1) a(2) by auto
      show ?thesis unfolding en lf using True by (auto simp: upd)
    next
      case False
      then have "lab g (e_end (edge_at g (a, b))) \<le> lab g (fst (a, b)) + w"
        using search_relaxed [OF inv a(1,2,3)] a(4) by auto
      then show ?thesis unfolding lf using less by (auto simp: upd)
    qed
  qed
  ultimately show ?thesis by (simp add: search_inv_def)
qed

lemma expand_edges_inv:
  assumes score: "scoring plugins blocked req (sv_graph V) start (sv_goal V) W (sv_cost V)"
    and nonneg: "\<And>e v. sv_cost V e = Some v \<Longrightarrow> 0 \<le> v" and wf: "wf_graph (sv_graph V)"
    and u: "u \<in> D" "u < length g"
    and ids: "start_id p = nodeid (sv_graph V ! start)" "goal_id p = nodeid (sv_graph V ! sv_goal V)"
    and inv: "search_inv V D {(u, k) |k. k \<in> set ks} g (queue p)" and ks: "distinct ks"
      "\<forall>k\<in>set ks. k < length (neighbors (sv_graph V ! u))"
    and below: "\<forall>d\<in>D. lab g d \<le> lab g u" and w: "w \<in> W"
  shows "\<exists>g' p' w'. expand_edges plugins blocked req (lab g u) u ks g p w = (Inr (), g', p', w') \<and>
    search_inv V D {} g' (queue p') \<and> length (queue p') \<le> length (queue p) + length ks \<and>
    start_id p' = start_id p \<and> goal_id p' = goal_id p \<and> length g' = length g \<and> w' \<in> W"
  using u(2) ids inv ks below w
proof (induction ks arbitrary: g p w)
  case Nil
  then show ?case by simp
next
  case (Cons k ks)
  let ?e = "(u, k)"
  let ?n = "e_end (edge_at g ?e)"
  note inv = Cons.prems(4)
  have pend: "{(u, k') |k'. k' \<in> set (k # ks)} = insert ?e {(u, k') |k'. k' \<in> set ks}" by auto
  note sk = same_skeleton [OF search_skel [OF inv]]
  have eV: "edge_ptr_in (sv_graph V) ?e" using Cons.prems(1,6) sk(1) by (auto simp: edge_ptr_in_def)
  then have e: "edge_ptr_in g ?e" "edge_at g ?e = edge_at (sv_graph V) ?e"
    using Cons.prems(1) sk by (auto simp: edge_ptr_in_def)
  have n: "?n < length g"
    using eV e(2) wf sk(1) by (auto simp: wf_graph_def edge_ptr_in_def edge_at_def list_all_iff)
  obtain x w1 where w1: "w1 \<in> W" and t: "getTraversalCost plugins blocked req p g (edge_at g ?e) w
      = (Inr (case sv_cost V ?e of None \<Rightarrow> (False, x) | Some v \<Rightarrow> (True, v)), w1)"
    using score search_skel [OF inv] eV Cons.prems(2,3,8) e(2) unfolding scoring_def by metis
  note inv' = inv [unfolded pend]
  have rest: "distinct ks" "\<forall>k\<in>set ks. k < length (neighbors (sv_graph V ! u))"
    using Cons.prems(5,6) by auto
  show ?case
  proof (cases "sv_cost V ?e")
    case None
    then have keep: "search_inv V D {(u, k') |k'. k' \<in> set ks} g (queue p)"
      using search_relax_keep [OF inv'] by simp
    show ?thesis
      using Cons.IH [OF Cons.prems(1-3) keep rest Cons.prems(7) w1] n t None
      by (auto simp: Let_def)
  next
    case (Some v)
    show ?thesis
    proof (cases "lab g u + v < lab g ?n")
      case False
      then have keep: "search_inv V D {(u, k') |k'. k' \<in> set ks} g (queue p)"
        using search_relax_keep [OF inv'] Some by simp
      show ?thesis
        using Cons.IH [OF Cons.prems(1-3) keep rest Cons.prems(7) w1] n t Some False
        by (auto simp: Let_def)
    next
      case True
      let ?g = "set_search ?n ?e (lab g u + v) v g" and ?p = "addNode (lab g u + v) ?n p"
      have nD: "?n \<notin> D" using Cons.prems(7) True nonneg [OF Some] by force
      have l: "lab ?g d = lab g d" if "d \<in> D" for d using that nD n by (auto simp: set_search_simps)
      have keep: "search_inv V D {(u, k') |k'. k' \<in> set ks} ?g (queue ?p)"
        using search_relax_update [OF inv' e(1) _ Some nonneg [OF Some] _ refl n] Cons.prems(7) True u(1)
        by (simp add: addNode_def)
      have ih: "\<exists>g' p' w'. expand_edges plugins blocked req (lab ?g u) u ks ?g ?p w1 = (Inr (), g', p', w') \<and>
          search_inv V D {} g' (queue p') \<and> length (queue p') \<le> length (queue ?p) + length ks \<and>
          start_id p' = start_id ?p \<and> goal_id p' = goal_id ?p \<and> length g' = length ?g \<and> w' \<in> W"
        by (rule Cons.IH [OF _ _ _ keep rest])
          (use Cons.prems(1-3,7) w1 l u(1) n in \<open>auto simp: addNode_def set_search_simps\<close>)
      show ?thesis using ih n t Some True l [OF u(1)]
        by (auto simp: Let_def addNode_def set_search_simps)
    qed
  qed
qed

text \<open>
  The loop iterations still possible: entries of the queue, and edges of the nodes not yet expanded.
\<close>

definition search_fuel :: "Graph \<Rightarrow> nat set \<Rightarrow> NodeElement list \<Rightarrow> nat" where
  "search_fuel g D q = length q + (\<Sum>i\<in>{..<length g} - D. length (neighbors (g ! i)))"

lemma search_fuel_expand:
  assumes "u < length g" "u \<notin> D"
  shows "(\<Sum>i\<in>{..<length g} - D. length (neighbors (g ! i))) =
    length (neighbors (g ! u)) + (\<Sum>i\<in>{..<length g} - insert u D. length (neighbors (g ! i)))"
proof -
  have eq: "{..<length g} - D = insert u ({..<length g} - insert u D)" using assms by auto
  show ?thesis by (subst eq, subst sum.insert) simp_all
qed

definition search_done :: "search_view \<Rightarrow> Graph \<Rightarrow> bool" where
  "search_done V g \<longleftrightarrow> resetSearchStates g = resetSearchStates (sv_graph V) \<and>
    (\<forall>es. walk (sv_graph V) (sv_cost V) (sv_start V) es (sv_goal V)
       \<longrightarrow> lab g (sv_goal V) \<le> walk_cost (sv_cost V) es) \<and>
    (if lab g (sv_goal V) < FLT_MAX
     then \<exists>D es. sv_goal V \<notin> D \<and> lab g (sv_start V) = 0 \<and>
            tree g (sv_cost V) (sv_start V) D (sv_goal V) es
     else par g (sv_goal V) = None \<and> lab g (sv_goal V) = FLT_MAX)"

lemma search_inv_done:
  assumes inv: "search_inv V D {} g q" and nonneg: "\<And>e v. sv_cost V e = Some v \<Longrightarrow> 0 \<le> v"
    and wf: "wf_graph (sv_graph V)" and goal: "sv_goal V < length g"
    and least: "\<And>x j. (x, j) \<in> set q \<Longrightarrow> lab g (sv_goal V) \<le> x"
  shows "search_done V g"
proof -
  have "lab g (sv_goal V) \<le> walk_cost (sv_cost V) es"
    if "walk (sv_graph V) (sv_cost V) (sv_start V) es (sv_goal V)" for es
    using walk_bound [OF inv nonneg wf that search_start(1) [OF inv], where C = 0] search_start(2) [OF inv] least
    by fastforce
  moreover have "\<exists>D es. sv_goal V \<notin> D \<and> lab g (sv_start V) = 0 \<and>
      tree g (sv_cost V) (sv_start V) D (sv_goal V) es" if "lab g (sv_goal V) < FLT_MAX"
    using search_tree [OF inv goal that] search_D(2) [OF inv] search_start(2) [OF inv] by blast
  moreover have "lab g (sv_goal V) = FLT_MAX" if "\<not> lab g (sv_goal V) < FLT_MAX"
    using search_lab(2) [OF inv goal] that by simp
  ultimately show ?thesis
    using search_skel [OF inv] search_unlabelled [OF inv goal] by (auto simp: search_done_def)
qed

lemma search_loop_done:
  assumes score: "scoring plugins blocked req (sv_graph V) start (sv_goal V) W (sv_cost V)"
    and nonneg: "\<And>e v. sv_cost V e = Some v \<Longrightarrow> 0 \<le> v" and wf: "wf_graph (sv_graph V)"
    and goal: "sv_goal V < length (sv_graph V)"
    and ids: "start_id p = nodeid (sv_graph V ! start)" "goal_id p = nodeid (sv_graph V ! sv_goal V)"
    and inv: "search_inv V D {} g (queue p)"
    and fuel: "int (search_fuel g D (queue p)) < limit - it" and w: "w \<in> W"
  shows "\<exists>g' p' w'. search_loop plugins blocked req limit it g p w = (Inr (), g', p', w') \<and>
    queue p' = [] \<and> search_done V g'"
  using ids inv fuel w
proof (induction "nat (limit - it)" arbitrary: it g p w D rule: less_induct)
  case less
  note inv = less.prems(3)
  note sk = same_skeleton [OF search_skel [OF inv]]
  have goal': "sv_goal V < length g" using goal sk(1) by simp
  show ?case
  proof (cases "queue p = []")
    case True
    then have "search_done V g" using search_inv_done [OF inv nonneg wf goal'] by simp
    then show ?thesis using True less.prems(4) by (subst search_loop.simps) simp
  next
    case ne: False
    obtain x u where top: "queue_top (queue p) = (x, u)" by fastforce
    have xu: "(x, u) \<in> set (queue p)" using nq.top_in [OF ne] top by simp
    have u: "u < length g" by (rule search_queue(1) [OF inv xu])
    have lim: "it < limit" using less.prems(4) by linarith
    let ?p = "p\<lparr>queue := queue_pop (queue p)\<rparr>"
    have len: "length (queue p) = Suc (length (queue_pop (queue p)))" by (rule nq.pop_length [OF ne])
    have next_node: "getNextNode p = ((x, u), ?p)" by (simp add: getNextNode_def top)
    consider (stale) "x \<noteq> lab g u" | (goal) "x = lab g u" "u = sv_goal V"
      | (fresh) "x = lab g u" "u \<noteq> sv_goal V" by blast
    then show ?thesis
    proof cases
      case stale
      have inv1: "search_inv V D {} g (queue_pop (queue p))"
        using search_pop_stale [OF inv ne] stale top by simp
      have "\<exists>g' p' w'. search_loop plugins blocked req limit (it + 1) g ?p w = (Inr (), g', p', w') \<and>
          queue p' = [] \<and> search_done V g'"
        by (rule less.hyps [of _ _ D])
          (use less.prems lim inv1 len in \<open>auto simp: search_fuel_def\<close>)
      then show ?thesis using ne lim next_node u stale by (subst search_loop.simps) simp
    next
      case goal
      have "search_done V g"
        by (rule search_inv_done [OF inv nonneg wf goal'])
          (use top goal nq.top_least [of "(y, j)" "queue p" for y j] in auto)
      moreover have "isGoal ?p (g ! u)" using less.prems(2) goal sk(3) \<open>sv_goal V < length (sv_graph V)\<close>
        by (simp add: isGoal_def)
      ultimately show ?thesis using ne lim next_node u goal
        by (subst search_loop.simps) (simp add: clearQueue_def)
    next
      case fresh
      have top': "queue_top (queue p) = (lab g u, u)" using top fresh by simp
      have lM: "lab g u < FLT_MAX" using search_queue(4) [OF inv xu] fresh by simp
      note pop = search_pop_fresh [OF inv ne top' fresh(2) lM]
      have "nodeid (g ! u) \<noteq> nodeid (g ! sv_goal V)"
        using wf u goal' sk fresh(2) by (simp add: wf_graph_def distinct_conv_nth)
      then have ng: "\<not> isGoal ?p (g ! u)" using less.prems(2) goal sk by (simp add: isGoal_def)
      let ?ks = "[0..<length (neighbors (g ! u))]"
      have "\<exists>g' p' w'. expand_edges plugins blocked req (lab g u) u ?ks g ?p w = (Inr (), g', p', w') \<and>
          search_inv V (insert u D) {} g' (queue p') \<and> length (queue p') \<le> length (queue ?p) + length ?ks \<and>
          start_id p' = start_id ?p \<and> goal_id p' = goal_id ?p \<and> length g' = length g \<and> w' \<in> W"
        by (rule expand_edges_inv [OF score nonneg wf])
          (use pop u sk(1,2) less.prems(1,2,5) in auto)
      then obtain g2 p2 w2 where
        ex: "expand_edges plugins blocked req (lab g u) u ?ks g ?p w = (Inr (), g2, p2, w2)"
        "search_inv V (insert u D) {} g2 (queue p2)"
        "length (queue p2) \<le> length (queue ?p) + length ?ks"
        "start_id p2 = start_id ?p" "goal_id p2 = goal_id ?p" "length g2 = length g" "w2 \<in> W"
        by blast
      have nb: "neighbors (g2 ! i) = neighbors (g ! i)" if "i < length g" for i
        using same_skeleton(2) [OF search_skel [OF ex(2)]] sk that by simp
      have "\<exists>g' p' w'. search_loop plugins blocked req limit (it + 1) g2 p2 w2 = (Inr (), g', p', w') \<and>
          queue p' = [] \<and> search_done V g'"
        by (rule less.hyps [of _ _ "insert u D"])
          (use less.prems(1,2,4) lim ex len search_fuel_expand [OF pop(4,3)] nb in \<open>auto simp: search_fuel_def\<close>)
      then show ?thesis using ne lim next_node u fresh ng ex(1) by (subst search_loop.simps) simp
    qed
  qed
qed

section \<open>The search from the start node\<close>

lemma FLT_MAX_pos: "0 < FLT_MAX"
  by (simp add: FLT_MAX_def)

lemma reset_idem: "resetSearchStates (resetSearchStates g) = resetSearchStates g"
  by (simp add: resetSearchStates_def reset_search_state_def)

lemma reset_fields:
  assumes "i < length g"
  shows "lab (resetSearchStates g) i = FLT_MAX" "par (resetSearchStates g) i = None"
    "nodeid (resetSearchStates g ! i) = nodeid (g ! i)"
    "neighbors (resetSearchStates g ! i) = neighbors (g ! i)"
  using assms by (simp_all add: resetSearchStates_def reset_search_state_def)

lemma search_inv_start:
  assumes "start < length g"
  defines "g1 \<equiv> resetSearchStates g"
  defines "g2 \<equiv> g1[start := (g1 ! start)\<lparr>search_state := (search_state (g1 ! start))\<lparr>integrated_cost := 0\<rparr>\<rparr>]"
  shows "search_inv \<lparr>sv_graph = g, sv_cost = c, sv_start = start, sv_goal = goal\<rparr> {} {} g2 [(0, start)]"
proof -
  have len: "length g1 = length g" "length g2 = length g" by (simp_all add: g1_def g2_def resetSearchStates_def)
  have l: "lab g2 i = (if i = start then 0 else FLT_MAX)" "par g2 i = None" if "i < length g" for i
    using that assms(1) reset_fields [of _ g] len by (auto simp: g2_def g1_def nth_list_update)
  have "resetSearchStates g2 = resetSearchStates g" unfolding g2_def reset_update by (simp add: g1_def reset_idem)
  moreover have "\<exists>es. tree g2 c start {} start es" by (rule exI [of _ "[]"]) (simp add: l assms(1))
  ultimately show ?thesis
    unfolding search_inv_defs using l len assms(1) FLT_MAX_pos by (auto split: if_splits)
qed

lemma search_fuel_start:
  assumes "resetSearchStates h = resetSearchStates g"
  shows "search_fuel h {} [x] = Suc (edge_count g)"
proof -
  have "(\<Sum>i\<in>{..<length h}. length (neighbors (h ! i))) = (\<Sum>i<length g. length (neighbors (g ! i)))"
    using same_skeleton [OF assms] by simp
  also have "\<dots> = edge_count g" by (simp add: edge_count_def sum_list_sum_nth atLeast0LessThan)
  finally show ?thesis by (simp add: search_fuel_def)
qed

lemma traversal_done:
  assumes "wf_graph g" "start < length g" "goal < length g" "queue p = []"
    "scoring plugins blocked req g start goal W c" "\<And>e v. c e = Some v \<Longrightarrow> 0 \<le> v" "w \<in> W"
    "max_iterations p > int (edge_count g) + 1"
  shows "\<exists>g' p' w'. findShortestGraphTraversal plugins g start goal blocked req p w = (Inr (), g', p', w') \<and>
    queue p' = [] \<and> search_done \<lparr>sv_graph = g, sv_cost = c, sv_start = start, sv_goal = goal\<rparr> g'"
proof -
  let ?V = "\<lparr>sv_graph = g, sv_cost = c, sv_start = start, sv_goal = goal\<rparr>"
  let ?g1 = "resetSearchStates g"
  let ?g2 = "?g1[start := (?g1 ! start)\<lparr>search_state := (search_state (?g1 ! start))\<lparr>integrated_cost := 0\<rparr>\<rparr>]"
  have inv: "search_inv ?V {} {} ?g2 [(0, start)]" by (rule search_inv_start [OF assms(2)])
  show ?thesis
    unfolding findShortestGraphTraversal_def Let_def
    by (rule search_loop_done [where V = ?V and start = start and W = W and D = "{}"])
      (use assms inv search_fuel_start [OF search_skel [OF inv]] reset_fields
        in \<open>auto simp: addNode_def\<close>)
qed

lemma trace_route_tree:
  assumes "tree g c s D i es" "goal \<notin> D" "goal < length g" "wf_graph g"
  shows "\<exists>h. trace_route goal
      (g[goal := (g ! goal)\<lparr>search_state := (search_state (g ! goal))\<lparr>parent_edge := par g i\<rparr>\<rparr>]) acc
      = Some (acc @ es, h) \<and> lab h goal = lab g goal \<and> (\<forall>j. trav h j = trav g j) \<and>
        resetSearchStates h = resetSearchStates g"
  using assms(1)
proof (induction es arbitrary: i acc)
  case Nil
  then show ?case using assms(3) by (subst trace_route.simps) (auto simp: reset_update nth_list_update)
next
  case (Cons e es)
  let ?h = "\<lambda>i. g[goal := (g ! goal)\<lparr>search_state := (search_state (g ! goal))\<lparr>parent_edge := par g i\<rparr>\<rparr>]"
  have e: "edge_ptr_in g e" "fst e \<in> D" "par g i = Some e" using Cons.prems by auto
  have "edge_at (?h i) e = edge_at g e"
    by (rule same_skeleton(4) [OF _ e(1)]) (simp add: reset_update)
  moreover have "e_start (edge_at g e) = fst e"
    using assms(4) e(1) by (auto simp: wf_graph_def edge_ptr_in_def edge_at_def list_all_iff)
  moreover have "fst e \<noteq> goal" using e(2) assms(2) by auto
  ultimately have "trace_route goal (?h i) acc = trace_route goal (?h (fst e)) (acc @ [e])"
    using assms(3) e(3) by (subst trace_route.simps) simp
  then show ?case using Cons.IH [of "fst e" "acc @ [e]"] Cons.prems by simp
qed

lemma wf_graph_skeleton:
  assumes "resetSearchStates h = resetSearchStates g" "wf_graph g"
  shows "wf_graph h"
proof -
  note sk = same_skeleton [OF assms(1)]
  have "map nodeid h = map nodeid g" by (rule nth_equalityI) (simp_all add: sk)
  then show ?thesis using assms(2) sk(1,2) by (simp add: wf_graph_def list_all_iff)
qed

lemma walk_skeleton:
  assumes "resetSearchStates h = resetSearchStates g"
  shows "walk h c i es t \<longleftrightarrow> walk g c i es t"
proof -
  have "edge_ptr_in h e \<longleftrightarrow> edge_ptr_in g e" for e
    using same_skeleton [OF assms] by (auto simp: edge_ptr_in_def)
  then show ?thesis
    by (induction es arbitrary: i) (auto simp: same_skeleton(4) [OF assms])
qed

lemma scoring_blocked:
  assumes "scoring plugins blocked req g start goal W c" "w \<in> W" "edge_ptr_in g e" "c e \<noteq> None"
  shows "edgeid (edge_at g e) \<notin> set blocked \<and> nodeid (g ! e_end (edge_at g e)) \<notin> set blocked"
proof (rule ccontr)
  assume b: "\<not> ?thesis"
  let ?p = "\<lparr>max_iterations = 0, start_id = nodeid (g ! start), goal_id = nodeid (g ! goal), queue = []\<rparr>"
  have "getTraversalCost plugins blocked req ?p g (edge_at g e) w = (Inr (False, 0), w)"
    using b by (auto simp: getTraversalCost_def list_ex_iff)
  moreover obtain x w' where "getTraversalCost plugins blocked req ?p g (edge_at g e) w
      = (Inr (case c e of None \<Rightarrow> (False, x) | Some v \<Rightarrow> (True, v)), w')"
    using assms(1) [unfolded scoring_def, THEN spec [of _ g], THEN spec [of _ ?p], THEN spec [of _ w],
        THEN spec [of _ e]] assms(2,3) by auto
  ultimately show False using assms(4) by auto
qed

lemma walk_edges: "walk g c s es t \<Longrightarrow> e \<in> set es \<Longrightarrow> edge_ptr_in g e \<and> c e \<noteq> None"
  by (induction es arbitrary: s) auto

subsection \<open>Configurations that meet the contract of scoring\<close>

definition blocked_edge :: "u32 list \<Rightarrow> Graph \<Rightarrow> EdgePtr \<Rightarrow> bool" where
  "blocked_edge blocked g e \<longleftrightarrow>
    edgeid (edge_at g e) \<in> set blocked \<or> nodeid (g ! e_end (edge_at g e)) \<in> set blocked"

text \<open>Without plugins the cost of an edge is the one stored in the graph.\<close>

definition stored_cost :: "u32 list \<Rightarrow> Graph \<Rightarrow> EdgePtr \<Rightarrow> real option" where
  "stored_cost blocked g e =
    (if \<not> edge_ptr_in g e \<or> blocked_edge blocked g e then None else Some (cost (edge_cost (edge_at g e))))"

text \<open>
  The default configuration of \<open>EdgeScorer\<close>: the distance scorer and the dynamic edges scorer, whose
  state is the plugin state.
\<close>

definition distance_plugin :: "string \<Rightarrow> real \<Rightarrow> ('p, 'w) EdgeCostFunction" where
  "distance_plugin speed_tag weight =
    \<lparr>prepare = id, plugin_score = (\<lambda>g e req ty c w. (DistanceScorer_score speed_tag weight g e c, w))\<rparr>"

definition dynamic_plugin :: "('p, DynamicEdgesScorer) EdgeCostFunction" where
  "dynamic_plugin =
    \<lparr>prepare = id, plugin_score = (\<lambda>g e req ty c w. (Inr (DynamicEdgesScorer_score w e c), w))\<rparr>"

definition default_cost ::
  "string \<Rightarrow> real \<Rightarrow> u32 list \<Rightarrow> DynamicEdgesScorer \<Rightarrow> Graph \<Rightarrow> EdgePtr \<Rightarrow> real option" where
  "default_cost speed_tag weight blocked st g e =
    (let ed = edge_at g e
     in if \<not> edge_ptr_in g e \<or> blocked_edge blocked g e then None
        else if \<not> overridable (edge_cost ed) then Some (cost (edge_cost ed))
        else if edgeid ed \<in> closed_edges st then None
        else Some (weight * getEdgeLength g ed / projr (getValue_float speed_tag 1 (edge_metadata ed))
                   + (case dynamic_penalties st (edgeid ed) of Some v \<Rightarrow> v | None \<Rightarrow> 0)))"

lemma coords_skeleton:
  assumes "resetSearchStates h = resetSearchStates g" "i < length g"
  shows "coords (h ! i) = coords (g ! i)"
proof -
  have "(resetSearchStates h ! i) = (resetSearchStates g ! i)" using assms(1) by simp
  then show ?thesis
    using assms(2) same_skeleton(1) [OF assms(1)]
    by (auto simp: resetSearchStates_def dest: arg_cong [where f = coords])
qed

lemma blocked_skeleton:
  assumes "resetSearchStates h = resetSearchStates g" "wf_graph g" "edge_ptr_in g e"
  shows "list_ex (\<lambda>i. i = edgeid (edge_at g e) \<or> i = nodeid (h ! e_end (edge_at g e))) blocked
    \<longleftrightarrow> blocked_edge blocked g e"
    "getEdgeLength h (edge_at g e) = getEdgeLength g (edge_at g e)"
proof -
  have i: "e_end (edge_at g e) < length g" "e_start (edge_at g e) < length g"
    using assms(2,3) by (auto simp: wf_graph_def edge_ptr_in_def edge_at_def list_all_iff)
  show "list_ex (\<lambda>i. i = edgeid (edge_at g e) \<or> i = nodeid (h ! e_end (edge_at g e))) blocked
    \<longleftrightarrow> blocked_edge blocked g e"
    using same_skeleton(3) [OF assms(1) i(1)] by (auto simp: list_ex_iff blocked_edge_def)
  show "getEdgeLength h (edge_at g e) = getEdgeLength g (edge_at g e)"
    using coords_skeleton [OF assms(1)] i by (simp add: getEdgeLength_def)
qed

lemma scoring_stored:
  assumes "wf_graph g" "\<And>e. edge_ptr_in g e \<Longrightarrow> 0 < cost (edge_cost (edge_at g e))"
  shows "scoring [] blocked req g start goal W (stored_cost blocked g)"
  unfolding scoring_def
proof (intro allI impI, elim conjE)
  fix h p w e
  assume a: "w \<in> W" "resetSearchStates h = resetSearchStates g" "edge_ptr_in g e"
  show "\<exists>x w'. w' \<in> W \<and> getTraversalCost [] blocked req p h (edge_at g e) w
      = (Inr (case stored_cost blocked g e of None \<Rightarrow> (False, x) | Some v \<Rightarrow> (True, v)), w')"
    using a(1,3) assms(2) [OF a(3)]
    by (simp add: getTraversalCost_def stored_cost_def blocked_skeleton(1) [OF a(2) assms(1) a(3)] not_le)
qed

lemma scoring_default:
  assumes "wf_graph g"
    "\<And>e. edge_ptr_in g e \<Longrightarrow> \<not> overridable (edge_cost (edge_at g e)) \<Longrightarrow> 0 < cost (edge_cost (edge_at g e))"
    "\<And>e. edge_ptr_in g e \<Longrightarrow> \<exists>v. getValue_float tag 1 (edge_metadata (edge_at g e)) = Inr v \<and> v \<noteq> 0"
  shows "scoring [distance_plugin tag weight, dynamic_plugin] blocked req g start goal {st}
    (default_cost tag weight blocked st g)"
  unfolding scoring_def
proof (intro allI impI, elim conjE)
  fix h p w e
  assume a: "w \<in> {st}" "resetSearchStates h = resetSearchStates g" "edge_ptr_in g e"
  obtain v where v: "getValue_float tag 1 (edge_metadata (edge_at g e)) = Inr v" "v \<noteq> 0"
    using assms(3) [OF a(3)] by blast
  note b = blocked_skeleton [OF a(2) assms(1) a(3)]
  have c: "0 < cost (edge_cost (edge_at g e))" if "\<not> overridable (edge_cost (edge_at g e))"
    using assms(2) [OF a(3) that] .
  show "\<exists>x w'. w' \<in> {st} \<and> getTraversalCost [distance_plugin tag weight, dynamic_plugin] blocked req p h (edge_at g e) w
      = (Inr (case default_cost tag weight blocked st g e of None \<Rightarrow> (False, x) | Some v \<Rightarrow> (True, v)), w')"
  proof (cases "blocked_edge blocked g e \<or> \<not> overridable (edge_cost (edge_at g e))")
    case True
    then show ?thesis using a(1,3) c by (auto simp: getTraversalCost_def default_cost_def b(1) not_le)
  next
    case False
    then have "getTraversalCost [distance_plugin tag weight, dynamic_plugin] blocked req p h (edge_at g e) w
        = edge_score [distance_plugin tag weight, dynamic_plugin] h (edge_at g e) req
            (classifyEdge p h (edge_at g e)) w"
      by (simp add: getTraversalCost_def b(1))
    then show ?thesis using a(1,3) False
      by (cases "edgeid (edge_at g e) \<in> closed_edges st"; cases "dynamic_penalties st (edgeid (edge_at g e))")
        (simp_all add: default_cost_def edge_score_def distance_plugin_def dynamic_plugin_def
          DistanceScorer_score_def DynamicEdgesScorer_score_def v b(2))
  qed
qed

lemma default_cost_nonneg:
  assumes "default_cost tag weight blocked st g e = Some x"
    "\<forall>e. edge_ptr_in g e \<longrightarrow> 0 < cost (edge_cost (edge_at g e)) \<or> overridable (edge_cost (edge_at g e))"
    "\<forall>e. edge_ptr_in g e \<longrightarrow> (\<exists>v. getValue_float tag 1 (edge_metadata (edge_at g e)) = Inr v \<and> 0 < v)"
    "0 \<le> weight" "\<forall>i v. dynamic_penalties st i = Some v \<longrightarrow> 0 \<le> v"
  shows "0 \<le> x"
proof -
  have e: "edge_ptr_in g e" using assms(1) by (auto simp: default_cost_def Let_def split: if_splits)
  obtain v where v: "getValue_float tag 1 (edge_metadata (edge_at g e)) = Inr v" "0 < v"
    using assms(3) e by blast
  have "0 \<le> weight * getEdgeLength g (edge_at g e) / v" using assms(4) v(2) by (simp add: getEdgeLength_def Let_def)
  moreover have "0 \<le> (case dynamic_penalties st (edgeid (edge_at g e)) of Some v \<Rightarrow> v | None \<Rightarrow> 0)"
    using assms(5) by (simp split: option.split)
  ultimately show ?thesis
    using assms(1) assms(2) [rule_format, OF e] e v(1)
    by (auto simp: default_cost_def Let_def split: if_splits)
qed

subsection \<open>Properties of the planner\<close>

text \<open>What a route has to be: a cheapest walk, reported with its cost.\<close>

definition best_route :: "Graph \<Rightarrow> (EdgePtr \<Rightarrow> real option) \<Rightarrow> nat \<Rightarrow> nat \<Rightarrow> Route \<Rightarrow> bool" where
  "best_route g c start goal r \<longleftrightarrow> start_node r = start \<and> walk g c start (route_edges r) goal \<and>
    route_cost r = walk_cost c (route_edges r) \<and>
    (\<forall>fs. walk g c start fs goal \<longrightarrow> route_cost r \<le> walk_cost c fs)"

lemma findRoute_result:
  assumes "wf_graph g" "start < length g" "goal < length g" "start \<noteq> goal" "queue p = []"
    "scoring plugins blocked req g start goal W c" "\<forall>e v. c e = Some v \<longrightarrow> 0 \<le> v" "w \<in> W"
    "max_iterations p > int (edge_count g) + 1"
  obtains r h p' w' where "\<exists>es. walk g c start es goal \<and> walk_cost c es < FLT_MAX"
      "findRoute plugins g start goal blocked req p w = Some (Inr r, h, p', w')"
      "best_route g c start goal r" "queue p' = []" "resetSearchStates h = resetSearchStates g"
      "\<And>e. e \<in> set (route_edges r) \<Longrightarrow> c e = Some (trav h (e_end (edge_at h e)))"
  | h p' w' where "\<not> (\<exists>es. walk g c start es goal \<and> walk_cost c es < FLT_MAX)"
      "findRoute plugins g start goal blocked req p w = Some (Inl NoValidRouteCouldBeFound, h, p', w')"
      "queue p' = []"
proof -
  let ?V = "\<lparr>sv_graph = g, sv_cost = c, sv_start = start, sv_goal = goal\<rparr>"
  obtain g' p' w' where t: "findShortestGraphTraversal plugins g start goal blocked req p w = (Inr (), g', p', w')"
    "queue p' = []" "search_done ?V g'"
    using traversal_done [OF assms(1,2,3,5,6) _ assms(8,9)] assms(7) by blast
  then have sk: "resetSearchStates g' = resetSearchStates g"
    and best: "\<And>fs. walk g c start fs goal \<Longrightarrow> lab g' goal \<le> walk_cost c fs"
    by (auto simp: search_done_def)
  have ne: "g \<noteq> []" using assms(2) by auto
  show thesis
  proof (cases "lab g' goal < FLT_MAX")
    case True
    then obtain D bs where tr: "goal \<notin> D" "lab g' start = 0" "tree g' c start D goal bs"
      using t(3) by (auto simp: search_done_def)
    obtain e where e: "par g' goal = Some e" using tr(3) assms(4) by (cases bs) auto
    have goal': "goal < length g'" using same_skeleton(1) [OF sk] assms(3) by simp
    obtain h where h: "trace_route goal g' [] = Some (bs, h)" "lab h goal = lab g' goal"
      and h2: "\<forall>j. trav h j = trav g' j" "resetSearchStates h = resetSearchStates g'"
      using trace_route_tree [OF tr(3,1) goal' wf_graph_skeleton [OF sk assms(1)], of "[]"] goal' by auto
    have walk: "walk g c start (rev bs) goal"
      using tree_walk [OF tr(3), of "[]" goal] walk_skeleton [OF sk] by simp
    have cost: "lab g' goal = walk_cost c (rev bs)" using tree_cost [OF tr(3)] tr(2) by simp
    let ?r = "\<lparr>start_node = start, route_edges = rev bs, route_cost = lab g' goal\<rparr>"
    have "findRoute plugins g start goal blocked req p w = Some (Inr ?r, h, p', w')"
      using ne assms(2,3) t(1) e h by (simp add: findRoute_def)
    moreover have "best_route g c start goal ?r" using walk cost best by (simp add: best_route_def)
    moreover have "\<exists>es. walk g c start es goal \<and> walk_cost c es < FLT_MAX" using walk cost True by auto
    moreover have "c e = Some (trav h (e_end (edge_at h e)))" if "e \<in> set (route_edges ?r)" for e
    proof -
      have "edge_ptr_in g e" using walk_edges [OF walk] that by simp
      then have "edge_at h e = edge_at g' e"
        using same_skeleton(4) [OF sk] same_skeleton(4) [of h g] h2(2) sk by simp
      then show ?thesis using tree_priced [OF tr(3), of e] that h2(1) by simp
    qed
    ultimately show thesis using that(1) t(2) h2(2) sk by simp
  next
    case False
    then have "par g' goal = None" "lab g' goal = FLT_MAX" using t(3) by (auto simp: search_done_def)
    then show thesis using that(2) best t ne assms(2,3) by (force simp: findRoute_def)
  qed
qed

text \<open>
  Property C8 (functional): when the goal can be reached over usable edges with a finite cost,
  \<open>findRoute\<close> returns a route: a walk from the start to the goal over usable edges, none of them
  blocked, whose reported cost is the sum of its traversal costs and is the least of all such
  walks; the planner's queue is empty again. The hypotheses are a well-formed graph, a planner with an
  empty queue, scoring that gives each edge one non-negative answer during the search, and an
  iteration limit above the number of edges plus one.
\<close>

theorem findRoute_shortest:
  assumes "wf_graph g" "start < length g" "goal < length g" "start \<noteq> goal" "queue p = []"
    "scoring plugins blocked req g start goal W c" "\<forall>e v. c e = Some v \<longrightarrow> 0 \<le> v" "w \<in> W"
    "max_iterations p > int (edge_count g) + 1"
    "walk g c start es goal" "walk_cost c es < FLT_MAX"
  shows "\<exists>r g' p' w'. findRoute plugins g start goal blocked req p w = Some (Inr r, g', p', w') \<and>
    start_node r = start \<and> walk g c start (route_edges r) goal \<and>
    route_cost r = walk_cost c (route_edges r) \<and>
    (\<forall>fs. walk g c start fs goal \<longrightarrow> route_cost r \<le> walk_cost c fs) \<and>
    (\<forall>e\<in>set (route_edges r). edgeid (edge_at g e) \<notin> set blocked \<and>
       nodeid (g ! e_end (edge_at g e)) \<notin> set blocked) \<and>
    queue p' = []"
proof (rule findRoute_result [OF assms(1-9)])
  fix r h p' w'
  assume r: "findRoute plugins g start goal blocked req p w = Some (Inr r, h, p', w')"
    "best_route g c start goal r" "queue p' = []"
  then have "\<forall>e\<in>set (route_edges r). edgeid (edge_at g e) \<notin> set blocked \<and>
       nodeid (g ! e_end (edge_at g e)) \<notin> set blocked"
    using scoring_blocked [OF assms(6,8)] walk_edges unfolding best_route_def by blast
  then show ?thesis using r by (auto simp: best_route_def)
qed (use assms(10,11) in blast)

text \<open>
  Three nodes; the direct edge from the first to the last costs more than the way through the middle.
\<close>

definition demo_edge :: "nat \<Rightarrow> nat \<Rightarrow> u32 \<Rightarrow> real \<Rightarrow> bool \<Rightarrow> DirectionalEdge" where
  "demo_edge a b i c ov = \<lparr>edgeid = i, e_start = a, e_end = b, edge_cost = \<lparr>cost = c, overridable = ov\<rparr>,
     edge_metadata = [], edge_operations = []\<rparr>"

definition demo_node :: "u32 \<Rightarrow> DirectionalEdge list \<Rightarrow> Node" where
  "demo_node i es = \<lparr>nodeid = i, coords = \<lparr>frame_id = ''map'', coord_x = 0, coord_y = 0\<rparr>, neighbors = es,
     node_metadata = [], node_operations = [],
     search_state = \<lparr>parent_edge = None, integrated_cost = 0, traversal_cost = 0\<rparr>\<rparr>"

definition demo_graph :: Graph where
  "demo_graph = [demo_node 10 [demo_edge 0 2 1 5 True, demo_edge 0 1 2 1 True],
     demo_node 20 [demo_edge 1 2 3 2 True], demo_node 30 []]"

definition demo_planner :: RoutePlanner where
  "demo_planner = route_configure 0 \<lparr>max_iterations = 0, start_id = 0, goal_id = 0, queue = []\<rparr>"

definition demo_request :: "unit RouteRequest" where
  "demo_request = \<lparr>start_nodeid = 0, goal_nodeid = 2, start_pose = (), goal_pose = (), use_poses = False\<rparr>"

lemmas demo_defs = demo_edge_def demo_node_def demo_graph_def

lemma demo_wf: "wf_graph demo_graph" "length demo_graph = 3" "edge_count demo_graph = 3"
  by (simp_all add: wf_graph_def demo_defs edge_count_def)

lemma demo_planner_fields: "queue demo_planner = []" "max_iterations demo_planner = 2147483647"
  by (simp_all add: demo_planner_def route_configure_def INT_MAX_def)

lemma demo_edges: "edge_ptr_in demo_graph e \<longleftrightarrow> e \<in> {(0, 0), (0, 1), (1, 0)}"
  by (cases e) (auto simp: edge_ptr_in_def demo_defs less_Suc_eq nth_Cons' split: if_splits)

lemma demo_at:
  "edge_at demo_graph (0, 0) = demo_edge 0 2 1 5 True" "edge_at demo_graph (0, Suc 0) = demo_edge 0 1 2 1 True"
  "edge_at demo_graph (Suc 0, 0) = demo_edge 1 2 3 2 True"
  by (simp_all add: edge_at_def demo_graph_def demo_node_def)

lemma demo_coords: "i < 3 \<Longrightarrow> coords (demo_graph ! i) = \<lparr>frame_id = ''map'', coord_x = 0, coord_y = 0\<rparr>"
  by (auto simp: demo_graph_def demo_node_def less_Suc_eq numeral_3_eq_3)

lemmas demo_eval = demo_edges demo_at demo_edge_def blocked_edge_def

lemma demo_scoring: "scoring [] [] demo_request demo_graph 0 2 {()} (stored_cost [] demo_graph)"
  by (rule scoring_stored [OF demo_wf(1)]) (auto simp: demo_eval)

lemma demo_cost: "stored_cost bl demo_graph e = Some v \<Longrightarrow> 0 \<le> v"
  by (auto simp: stored_cost_def demo_eval split: if_splits)

theorem findRoute_shortest_witness:
  "\<exists>r g' p' w'. findRoute [] demo_graph 0 2 [] demo_request demo_planner () = Some (Inr r, g', p', w') \<and>
    walk demo_graph (stored_cost [] demo_graph) 0 (route_edges r) 2 \<and> route_cost r \<le> 3"
proof -
  have w: "walk demo_graph (stored_cost [] demo_graph) 0 [(0, 1), (1, 0)] 2"
    by (simp add: stored_cost_def demo_eval)
  have c: "walk_cost (stored_cost [] demo_graph) [(0, 1), (1, 0)] = 3"
    by (simp add: walk_cost_def stored_cost_def demo_eval)
  have "walk_cost (stored_cost [] demo_graph) [(0, 1), (1, 0)] < FLT_MAX"
    unfolding c by (simp add: FLT_MAX_def)
  then obtain r g' p' w' where r: "findRoute [] demo_graph 0 2 [] demo_request demo_planner () = Some (Inr r, g', p', w')"
    "walk demo_graph (stored_cost [] demo_graph) 0 (route_edges r) 2"
    "\<forall>fs. walk demo_graph (stored_cost [] demo_graph) 0 fs 2
      \<longrightarrow> route_cost r \<le> walk_cost (stored_cost [] demo_graph) fs"
    using findRoute_shortest [OF demo_wf(1) _ _ _ demo_planner_fields(1) demo_scoring _ _ _ w, of "()"]
      demo_wf demo_planner_fields demo_cost by auto
  then have "route_cost r \<le> 3" using w c by metis
  then show ?thesis using r(1,2) by blast
qed


lemma demo_unreachable: "\<not> walk demo_graph c 2 es 0"
  by (cases es) (auto simp: demo_edges)


text \<open>
  With the default scorers, an edge that the service of the dynamic edges scorer
  closed and did not open in the same request is on no route, unless the graph forbids to override its cost.
\<close>

theorem closed_edges_not_used:
  assumes "wf_graph g" "start < length g" "goal < length g" "start \<noteq> goal" "queue p = []"
    "max_iterations p > int (edge_count g) + 1"
    "\<forall>e. edge_ptr_in g e \<longrightarrow> 0 < cost (edge_cost (edge_at g e)) \<or> overridable (edge_cost (edge_at g e))"
    "\<forall>e. edge_ptr_in g e \<longrightarrow> (\<exists>v. getValue_float tag 1 (edge_metadata (edge_at g e)) = Inr v \<and> 0 < v)"
    "0 \<le> weight" "st = snd (closedEdgesCb cls ops adj st0)" "\<forall>i v. dynamic_penalties st i = Some v \<longrightarrow> 0 \<le> v"
    "findRoute [distance_plugin tag weight, dynamic_plugin] g start goal blocked req p st = Some (Inr r, h, p', w')"
    "e \<in> set (route_edges r)" "overridable (edge_cost (edge_at g e))"
    "i \<in> set cls" "i \<notin> set ops"
  shows "edgeid (edge_at g e) \<noteq> i"
proof -
  let ?c = "default_cost tag weight blocked st g"
  have score: "scoring [distance_plugin tag weight, dynamic_plugin] blocked req g start goal {st} ?c"
    by (rule scoring_default [OF assms(1)]) (use assms(7,8) in fastforce)+
  have nonneg: "\<forall>e v. ?c e = Some v \<longrightarrow> 0 \<le> v"
    using default_cost_nonneg [OF _ assms(7,8,9,11)] by blast
  have "best_route g ?c start goal r"
    by (rule findRoute_result [OF assms(1-5) score nonneg _ assms(6), of st]) (use assms(12) in auto)
  then have "edge_ptr_in g e \<and> ?c e \<noteq> None"
    using assms(13) walk_edges unfolding best_route_def by blast
  then have "edgeid (edge_at g e) \<notin> closed_edges st"
    using assms(14) by (auto simp: default_cost_def Let_def split: if_splits)
  then show ?thesis using assms(10,15,16) by (auto simp: closedEdgesCb_closed)
qed

definition demo_dynamic :: DynamicEdgesScorer where
  "demo_dynamic = \<lparr>dynamic_penalties = Map.empty, closed_edges = {}\<rparr>"

theorem closed_edges_not_used_witness:
  "\<exists>r h p' w'. findRoute [distance_plugin ''speed_limit'' 1, dynamic_plugin] demo_graph 0 2 [] demo_request demo_planner
      (snd (closedEdgesCb [1] [] [] demo_dynamic)) = Some (Inr r, h, p', w') \<and>
    (\<forall>e\<in>set (route_edges r). edgeid (edge_at demo_graph e) \<noteq> 1)"
proof -
  let ?st = "snd (closedEdgesCb [1] [] [] demo_dynamic)" and ?tag = "''speed_limit''"
  let ?c = "default_cost ?tag 1 [] ?st demo_graph"
  have ok: "\<forall>e. edge_ptr_in demo_graph e \<longrightarrow> 0 < cost (edge_cost (edge_at demo_graph e)) \<or>
        overridable (edge_cost (edge_at demo_graph e))"
    "\<forall>e. edge_ptr_in demo_graph e \<longrightarrow>
      (\<exists>v. getValue_float ?tag 1 (edge_metadata (edge_at demo_graph e)) = Inr v \<and> 0 < v)"
    "\<forall>e. edge_ptr_in demo_graph e \<longrightarrow> overridable (edge_cost (edge_at demo_graph e))"
    "\<forall>i v. dynamic_penalties ?st i = Some v \<longrightarrow> 0 \<le> v"
    by (auto simp: demo_eval getValue_float_def closedEdgesCb_def demo_dynamic_def)
  have score: "scoring [distance_plugin ?tag 1, dynamic_plugin] [] demo_request demo_graph 0 2 {?st} ?c"
    by (rule scoring_default [OF demo_wf(1)]) (use ok(1,2) in fastforce)+
  have nonneg: "\<forall>e v. ?c e = Some v \<longrightarrow> 0 \<le> v"
    using default_cost_nonneg [OF _ ok(1,2) _ ok(4)] by force
  have w: "walk demo_graph ?c 0 [(0, 1), (1, 0)] 2 \<and> walk_cost ?c [(0, 1), (1, 0)] < FLT_MAX"
    by (simp add: walk_cost_def default_cost_def demo_eval closedEdgesCb_def demo_dynamic_def getValue_float_def
        getEdgeLength_def demo_coords FLT_MAX_def)
  obtain r h p' w' where r: "findRoute [distance_plugin ?tag 1, dynamic_plugin] demo_graph 0 2 [] demo_request
      demo_planner ?st = Some (Inr r, h, p', w')" "best_route demo_graph ?c 0 2 r"
    by (rule findRoute_result [OF demo_wf(1) _ _ _ demo_planner_fields(1) score nonneg, of ?st])
      (use demo_wf demo_planner_fields w in auto)
  have "edgeid (edge_at demo_graph e) \<noteq> 1" if e: "e \<in> set (route_edges r)" for e
  proof -
    have "overridable (edge_cost (edge_at demo_graph e))"
      using r(2) ok(3) walk_edges [OF _ e] unfolding best_route_def by blast
    then show ?thesis
      by (intro closed_edges_not_used [OF demo_wf(1) _ _ _ demo_planner_fields(1) _ ok(1,2) _ refl ok(4) r(1) e])
        (use demo_wf demo_planner_fields in auto)
  qed
  then show ?thesis using r(1) by blast
qed

end
