(* ===== verification/Route_Tracker.thy ===== *)
theory Route_Tracker
  imports Route_Planner Action_Server
begin

text \<open>
  Tracking of a route in nav2_route: the geometry of utils.hpp, the operations manager
  (operations_manager.cpp) and the tracker (route_tracker.cpp) on the action server of
  \<open>Action_Server\<close>. One round of the tracking loop is the function \<open>track_round\<close>; its input is
  what the outside contributes: what other threads did to the server since the last round, whether
  \<open>rclcpp::ok()\<close> holds, and the robot pose (\<open>None\<close> when tf fails). Route operations are plugins over
  their own state \<open>'v\<close>; they receive edge and node pointers and may change the graph, so the graph is
  part of the state. A null pointer or an index outside the route is the error \<open>BadPointer\<close>.
\<close>

section \<open>Data\<close>

record PoseStamped =
  pose_frame :: string
  pos_x :: real
  pos_y :: real
  pos_z :: real
  orientation :: "real \<times> real \<times> real \<times> real"

definition default_pose :: PoseStamped where
  "default_pose = \<lparr>pose_frame = [], pos_x = 0, pos_y = 0, pos_z = 0, orientation = (0, 0, 0, 1)\<rparr>"

datatype TrackerResult = EXITED | INTERRUPTED | COMPLETED

record RouteTrackingState =
  last_node :: "nat option"
  next_node :: "nat option"
  current_edge :: "EdgePtr option"
  route_edges_idx :: int
  within_radius :: bool

definition UINT_MAX :: u32 where
  "UINT_MAX = - 1"

record ReroutingState =
  rr_blocked_ids :: "u32 list"
  first_time :: bool
  curr_edge :: "EdgePtr option"
  closest_pt_on_edge :: Coordinates
  rerouting_start_id :: u32
  rerouting_start_pose :: PoseStamped

definition default_coordinates :: Coordinates where
  "default_coordinates = \<lparr>frame_id = ''map'', coord_x = 0, coord_y = 0\<rparr>"

definition reset_rerouting :: "ReroutingState \<Rightarrow> ReroutingState" where
  "reset_rerouting s = s\<lparr>rerouting_start_id := UINT_MAX, rr_blocked_ids := [], first_time := True,
     curr_edge := None, closest_pt_on_edge := default_coordinates, rerouting_start_pose := default_pose\<rparr>"

section \<open>Geometry\<close>

definition hypot2 :: "real \<Rightarrow> real \<Rightarrow> real" where
  "hypot2 x y = sqrt (x * x + y * y)"

definition normalizedDot :: "real \<Rightarrow> real \<Rightarrow> real \<Rightarrow> real \<Rightarrow> real" where
  "normalizedDot v1x v1y v2x v2y =
    (let mag1 = hypot2 v1x v1y; mag2 = hypot2 v2x v2y
     in if mag1 < 1 / 1000000 \<or> mag2 < 1 / 1000000 then 0
        else (v1x / mag1) * (v2x / mag2) + (v1y / mag1) * (v2y / mag2))"

definition findClosestPoint :: "PoseStamped \<Rightarrow> Coordinates \<Rightarrow> Coordinates \<Rightarrow> Coordinates" where
  "findClosestPoint pose s e =
    (let vx = coord_x e - coord_x s; vy = coord_y e - coord_y s;
         ux = coord_x s - pos_x pose; uy = coord_y s - pos_y pose;
         uv = vx * ux + vy * uy; vv = vx * vx + vy * vy
     in if vv < 1 / 1000000 then s
        else
          (let t = - uv / vv
           in if t > 0 \<and> t < 1 then
                default_coordinates\<lparr>coord_x := (1 - t) * coord_x s + t * coord_x e,
                                    coord_y := (1 - t) * coord_y s + t * coord_y e\<rparr>
              else if t \<le> 0 then s else e))"

definition distance :: "Coordinates \<Rightarrow> PoseStamped \<Rightarrow> real" where
  "distance c pose = hypot2 (coord_x c - pos_x pose) (coord_y c - pos_y pose)"

section \<open>The operations manager\<close>

record OperationResult =
  op_reroute :: bool
  op_blocked_ids :: "u32 list"

record OperationsResult =
  operations_triggered :: "string list"
  ops_reroute :: bool
  ops_blocked_ids :: "u32 list"

record 'v RouteOperation =
  getName :: string
  perform :: "nat option \<Rightarrow> EdgePtr option \<Rightarrow> EdgePtr option \<Rightarrow> Route \<Rightarrow> PoseStamped \<Rightarrow> Metadata option
    \<Rightarrow> Graph \<times> 'v \<Rightarrow> (route_error + OperationResult) \<times> Graph \<times> 'v"

datatype RouteOperationType = ON_GRAPH | ON_STATUS_CHANGE | ON_QUERY

record 'v OperationsManager =
  change_operations :: "'v RouteOperation list"
  query_operations :: "'v RouteOperation list"
  graph_operations :: "string \<rightharpoonup> 'v RouteOperation"

text \<open>The constructor sorts the plugins by the type they report.\<close>

fun sort_operations ::
  "(RouteOperationType \<times> 'v RouteOperation) list \<Rightarrow> 'v OperationsManager \<Rightarrow> 'v OperationsManager" where
  "sort_operations [] om = om"
| "sort_operations ((ty, operation) # ops) om =
    sort_operations ops
      (case ty of
         ON_QUERY \<Rightarrow> om\<lparr>query_operations := query_operations om @ [operation]\<rparr>
       | ON_STATUS_CHANGE \<Rightarrow> om\<lparr>change_operations := change_operations om @ [operation]\<rparr>
       | ON_GRAPH \<Rightarrow> om\<lparr>graph_operations := (graph_operations om)(getName operation \<mapsto> operation)\<rparr>)"

definition findGraphOperationsToProcess :: "Operation list option \<Rightarrow> OperationTrigger \<Rightarrow> Operation list" where
  "findGraphOperationsToProcess obj trigger =
    (case obj of None \<Rightarrow> [] | Some op_vec \<Rightarrow> filter (\<lambda>it. op_trigger it = trigger) op_vec)"

definition findGraphOperations ::
  "Graph \<Rightarrow> nat option \<Rightarrow> EdgePtr option \<Rightarrow> EdgePtr option \<Rightarrow> Operation list" where
  "findGraphOperations g node edge_enter edge_exit =
    findGraphOperationsToProcess (map_option (\<lambda>n. node_operations (g ! n)) node) NODE @
    findGraphOperationsToProcess (map_option (\<lambda>e. edge_operations (edge_at g e)) edge_enter) ON_ENTER @
    findGraphOperationsToProcess (map_option (\<lambda>e. edge_operations (edge_at g e)) edge_exit) ON_EXIT"

definition updateResult :: "string \<Rightarrow> OperationResult \<Rightarrow> OperationsResult \<Rightarrow> OperationsResult" where
  "updateResult name op_result result =
    result\<lparr>ops_reroute := ops_reroute result \<or> op_reroute op_result,
           ops_blocked_ids := ops_blocked_ids result @ op_blocked_ids op_result,
           operations_triggered := operations_triggered result @ [name]\<rparr>"

fun processOperationsPluginVector ::
  "'v RouteOperation list \<Rightarrow> OperationsResult \<Rightarrow> nat option \<Rightarrow> EdgePtr option \<Rightarrow> EdgePtr option \<Rightarrow> Route
    \<Rightarrow> PoseStamped \<Rightarrow> Graph \<times> 'v \<Rightarrow> (route_error + OperationsResult) \<times> Graph \<times> 'v" where
  "processOperationsPluginVector [] result node entered exited route pose gv = (Inr result, gv)"
| "processOperationsPluginVector (plugin # ps) result node entered exited route pose gv =
    (case perform plugin node entered exited route pose None gv of
       (Inl err, gv') \<Rightarrow> (Inl err, gv')
     | (Inr op_result, gv') \<Rightarrow>
         processOperationsPluginVector ps (updateResult (getName plugin) op_result result)
           node entered exited route pose gv')"

fun process_graph_operations ::
  "(string \<rightharpoonup> 'v RouteOperation) \<Rightarrow> Operation list \<Rightarrow> OperationsResult \<Rightarrow> nat option \<Rightarrow> EdgePtr option \<Rightarrow> EdgePtr option
    \<Rightarrow> Route \<Rightarrow> PoseStamped \<Rightarrow> Graph \<times> 'v \<Rightarrow> (route_error + OperationsResult) \<times> Graph \<times> 'v" where
  "process_graph_operations gops [] result node entered exited route pose gv = (Inr result, gv)"
| "process_graph_operations gops (operation # ops) result node entered exited route pose gv =
    (case gops (op_type operation) of
       None \<Rightarrow> (Inl OperationFailed, gv)
     | Some op \<Rightarrow>
         (case perform op node entered exited route pose (Some (op_metadata operation)) gv of
            (Inl err, gv') \<Rightarrow> (Inl err, gv')
          | (Inr op_result, gv') \<Rightarrow>
              process_graph_operations gops ops (updateResult (getName op) op_result result)
                node entered exited route pose gv'))"

definition edge_exited :: "RouteTrackingState \<Rightarrow> Route \<Rightarrow> ReroutingState \<Rightarrow> EdgePtr option" where
  "edge_exited st route rerouting_info =
    (if route_edges_idx st = 0 \<and> curr_edge rerouting_info \<noteq> None then curr_edge rerouting_info
     else if route_edges_idx st > 0 then Some (route_edges route ! nat (route_edges_idx st - 1)) else None)"

definition process_operations ::
  "'v OperationsManager \<Rightarrow> bool \<Rightarrow> RouteTrackingState \<Rightarrow> Route \<Rightarrow> PoseStamped \<Rightarrow> ReroutingState \<Rightarrow> Graph \<times> 'v
    \<Rightarrow> (route_error + OperationsResult) \<times> Graph \<times> 'v" where
  "process_operations om status_change st route pose rerouting_info gv =
    (let result = \<lparr>operations_triggered = [], ops_reroute = False, ops_blocked_ids = []\<rparr>;
         node = last_node st; entered = current_edge st; exited = edge_exited st route rerouting_info
     in if route_edges_idx st > int (length (route_edges route)) then (Inl BadPointer, gv)
        else
          (case (if status_change then
                   (case process_graph_operations (graph_operations om)
                           (findGraphOperations (fst gv) node entered exited) result
                           node entered exited route pose gv of
                      (Inl err, gv') \<Rightarrow> (Inl err, gv')
                    | (Inr result', gv') \<Rightarrow>
                        processOperationsPluginVector (change_operations om) result'
                          node entered exited route pose gv')
                 else (Inr result, gv)) of
             (Inl err, gv') \<Rightarrow> (Inl err, gv')
           | (Inr result', gv') \<Rightarrow>
               processOperationsPluginVector (query_operations om) result' node entered exited route pose gv'))"

section \<open>The tracker\<close>

record track_config =
  radius_threshold :: real
  boundary_radius_threshold :: real
  aggregate_blocked_ids :: bool

type_synonym u16 = "16 word"

text \<open>The identifiers of the feedback message are 16 bits wide.\<close>

record track_feedback =
  fb_rerouted :: bool
  fb_next_node_id :: u16
  fb_last_node_id :: u16
  fb_current_edge_id :: u16
  fb_operations :: "string list"

record ('w, 'v) tracker =
  tk_srv :: "'w server"
  tk_state :: RouteTrackingState
  tk_rerouting :: ReroutingState
  tk_graph :: "Graph \<times> 'v"
  tk_feedback :: "track_feedback list"

record 'w track_input =
  t_interfere :: "'w server \<Rightarrow> 'w server"
  t_ok :: bool
  t_pose :: "PoseStamped option"

datatype 't track_outcome =
    Tracking 't
  | Tracked TrackerResult 't
  | TrackThrew route_error 't

text \<open>\<open>static_cast<int>\<close> of a \<open>size_t\<close> expression keeps its low 32 bits.\<close>

definition isStartOrEndNode :: "RouteTrackingState \<Rightarrow> Route \<Rightarrow> bool" where
  "isStartOrEndNode st route \<longleftrightarrow>
    route_edges_idx st = sint (of_nat (length (route_edges route)) - 1 :: u32) \<or>
    (route_edges_idx st = - 1 \<and> current_edge st = None)"

text \<open>The test with the bisector of the last and the next edge, for an inner node of the route.\<close>

definition passed_bisector ::
  "Graph \<Rightarrow> EdgePtr \<Rightarrow> nat \<Rightarrow> EdgePtr \<Rightarrow> real \<Rightarrow> real \<Rightarrow> bool" where
  "passed_bisector g e n future dx dy =
    (let lst = coords (g ! e_start (edge_at g e)); nxt = coords (g ! n);
         fut = coords (g ! e_end (edge_at g future));
         nx = coord_x nxt - coord_x lst; ny = coord_y nxt - coord_y lst; n_mag = hypot2 nx ny;
         mx = coord_x fut - coord_x nxt; my = coord_y fut - coord_y nxt; m_mag = hypot2 mx my
     in if n_mag < 1 / 1000000 \<or> m_mag < 1 / 1000000 then True
        else normalizedDot (nx * m_mag + mx * n_mag) (ny * m_mag + my * n_mag) dx dy \<le> 0)"

definition nodeAchieved ::
  "track_config \<Rightarrow> Graph \<Rightarrow> PoseStamped \<Rightarrow> Route \<Rightarrow> RouteTrackingState \<Rightarrow> (bool \<times> RouteTrackingState) option" where
  "nodeAchieved cfg g pose route st =
    (case next_node st of
       None \<Rightarrow> None
     | Some n \<Rightarrow>
         (let dx = coord_x (coords (g ! n)) - pos_x pose; dy = coord_y (coords (g ! n)) - pos_y pose;
              dist_mag = hypot2 dx dy; is_boundary_node = isStartOrEndNode st route;
              in_radius = (dist_mag \<le> (if is_boundary_node then boundary_radius_threshold cfg
                                        else radius_threshold cfg));
              st' = st\<lparr>within_radius := in_radius\<rparr>
          in if dist_mag < 1 / 10000 \<or> (\<not> in_radius \<and> within_radius st) then Some (True, st)
             else if is_boundary_node then Some (in_radius, st')
             else if \<not> in_radius then Some (False, st')
             else
               (case current_edge st of
                  None \<Rightarrow> None
                | Some e \<Rightarrow>
                    (let i = route_edges_idx st + 1
                     in if i < 0 \<or> int (length (route_edges route)) \<le> i then None
                        else Some (passed_bisector g e n (route_edges route ! nat i) dx dy, st')))))"

definition track_publish ::
  "('r, 'w) handle_ops \<Rightarrow> bool \<Rightarrow> u32 \<Rightarrow> u32 \<Rightarrow> u32 \<Rightarrow> string list \<Rightarrow> ('w, 'v) tracker \<Rightarrow> ('w, 'v) tracker" where
  "track_publish H rerouted next_id last_id edge_id ops tk =
    (case publish_feedback H \<lparr>fb_rerouted = rerouted, fb_next_node_id = ucast next_id,
              fb_last_node_id = ucast last_id, fb_current_edge_id = ucast edge_id, fb_operations = ops\<rparr> (tk_srv tk) of
       None \<Rightarrow> tk
     | Some (h, fb) \<Rightarrow> tk\<lparr>tk_feedback := tk_feedback tk @ [fb]\<rparr>)"

text \<open>\<open>trackRoute\<close> before its loop.\<close>

definition track_begin ::
  "('r, 'w) handle_ops \<Rightarrow> Route \<Rightarrow> ('w, 'v) tracker \<Rightarrow> ('w, 'v) tracker" where
  "track_begin H route tk =
    (let g = fst (tk_graph tk);
         st = \<lparr>last_node = None, next_node = Some (start_node route), current_edge = None,
               route_edges_idx = - 1, within_radius = False\<rparr>;
         start_id = nodeid (g ! start_node route)
     in case curr_edge (tk_rerouting tk) of
          Some e \<Rightarrow>
            (let l = e_start (edge_at g e)
             in track_publish H True start_id (nodeid (g ! l)) (edgeid (edge_at g e)) []
                  (tk\<lparr>tk_state := st\<lparr>current_edge := Some e, last_node := Some l\<rparr>\<rparr>))
        | None \<Rightarrow> track_publish H True start_id 0 0 [] (tk\<lparr>tk_state := st\<rparr>))"

text \<open>The state after a node has been achieved, and whether it was the last one.\<close>

definition track_advance :: "Graph \<Rightarrow> Route \<Rightarrow> RouteTrackingState \<Rightarrow> bool \<times> RouteTrackingState" where
  "track_advance g route st =
    (let idx = route_edges_idx st + 1;
         st1 = st\<lparr>within_radius := False, last_node := next_node st, route_edges_idx := idx\<rparr>
     in if idx < sint (of_nat (length (route_edges route)) :: u32)
        then (let e = route_edges route ! nat idx
              in (False, st1\<lparr>current_edge := Some e, next_node := Some (e_end (edge_at g e))\<rparr>))
        else (True, st1\<lparr>current_edge := None, next_node := None\<rparr>))"

definition track_reroute ::
  "track_config \<Rightarrow> OperationsResult \<Rightarrow> PoseStamped \<Rightarrow> ('w, 'v) tracker \<Rightarrow> ('w, 'v) tracker" where
  "track_reroute cfg res pose tk =
    (let r = tk_rerouting tk; st = tk_state tk; g = fst (tk_graph tk);
         r1 = r\<lparr>rr_blocked_ids := (if \<not> aggregate_blocked_ids cfg then ops_blocked_ids res
                                   else rr_blocked_ids r @ ops_blocked_ids res)\<rparr>;
         r2 = (case last_node st of
                 Some l \<Rightarrow> r1\<lparr>rerouting_start_id := nodeid (g ! l), rerouting_start_pose := pose\<rparr>
               | None \<Rightarrow> r1\<lparr>rerouting_start_id := UINT_MAX, rerouting_start_pose := default_pose\<rparr>)
     in tk\<lparr>tk_rerouting := r2\<lparr>curr_edge := current_edge st\<rparr>\<rparr>)"

text \<open>The end of a round, after the operations: completion, feedback, rerouting.\<close>

definition track_finish ::
  "('r, 'w) handle_ops \<Rightarrow> track_config \<Rightarrow> bool \<Rightarrow> bool \<Rightarrow> OperationsResult \<Rightarrow> PoseStamped \<Rightarrow> ('w, 'v) tracker
    \<Rightarrow> ('w, 'v) tracker track_outcome" where
  "track_finish H cfg status_change completed res pose tk =
    (let g = fst (tk_graph tk); st = tk_state tk
     in if completed then
          (case last_node st of
             None \<Rightarrow> TrackThrew BadPointer tk
           | Some l \<Rightarrow> Tracked COMPLETED (track_publish H False 0 (nodeid (g ! l)) 0 (operations_triggered res) tk))
        else
          (case (if (status_change \<or> operations_triggered res \<noteq> []) \<and> current_edge st \<noteq> None then
                   (case (next_node st, last_node st) of
                      (Some n, Some l) \<Rightarrow>
                        Some (track_publish H False (nodeid (g ! n)) (nodeid (g ! l))
                          (edgeid (edge_at g (the (current_edge st)))) (operations_triggered res) tk)
                    | _ \<Rightarrow> None)
                 else Some tk) of
             None \<Rightarrow> TrackThrew BadPointer tk
           | Some tk' \<Rightarrow>
               (if ops_reroute res then Tracked INTERRUPTED (track_reroute cfg res pose tk') else Tracking tk')))"

definition track_round ::
  "('r, 'w) handle_ops \<Rightarrow> track_config \<Rightarrow> 'v OperationsManager \<Rightarrow> Route \<Rightarrow> 'w track_input \<Rightarrow> ('w, 'v) tracker
    \<Rightarrow> ('w, 'v) tracker track_outcome" where
  "track_round H cfg om route inp tk0 =
    (let tk = tk0\<lparr>tk_srv := t_interfere inp (tk_srv tk0)\<rparr>
     in if \<not> t_ok inp then Tracked EXITED tk
        else if is_cancel_requested H (tk_srv tk) then Tracked INTERRUPTED tk
        else if is_preempt_requested (tk_srv tk) then Tracked INTERRUPTED tk
        else
          (case t_pose inp of
             None \<Rightarrow> TrackThrew RouteTFError tk
           | Some pose \<Rightarrow>
               (case nodeAchieved cfg (fst (tk_graph tk)) pose route (tk_state tk) of
                  None \<Rightarrow> TrackThrew BadPointer tk
                | Some (status_change, st1) \<Rightarrow>
                    (let (completed, st2) =
                           (if status_change then track_advance (fst (tk_graph tk)) route st1 else (False, st1));
                         tk1 = tk\<lparr>tk_state := st2\<rparr>
                     in case process_operations om status_change st2 route pose (tk_rerouting tk1) (tk_graph tk1) of
                          (Inl err, gv) \<Rightarrow> TrackThrew err (tk1\<lparr>tk_graph := gv\<rparr>)
                        | (Inr res, gv) \<Rightarrow>
                            track_finish H cfg status_change completed res pose (tk1\<lparr>tk_graph := gv\<rparr>)))))"

text \<open>The tracker after \<open>k\<close> rounds.\<close>

fun track_next :: "'t track_outcome \<Rightarrow> ('t \<Rightarrow> 't track_outcome) \<Rightarrow> 't track_outcome" where
  "track_next (Tracking tk) f = f tk"
| "track_next (Tracked r tk) f = Tracked r tk"
| "track_next (TrackThrew e tk) f = TrackThrew e tk"

primrec track_rounds ::
  "('r, 'w) handle_ops \<Rightarrow> track_config \<Rightarrow> 'v OperationsManager \<Rightarrow> Route \<Rightarrow> (nat \<Rightarrow> 'w track_input) \<Rightarrow> nat
    \<Rightarrow> ('w, 'v) tracker \<Rightarrow> ('w, 'v) tracker track_outcome" where
  "track_rounds H cfg om route inps 0 tk = Tracking tk"
| "track_rounds H cfg om route inps (Suc k) tk =
    track_next (track_rounds H cfg om route inps k tk) (track_round H cfg om route (inps k))"

definition trackRoute ::
  "('r, 'w) handle_ops \<Rightarrow> track_config \<Rightarrow> 'v OperationsManager \<Rightarrow> Route \<Rightarrow> (nat \<Rightarrow> 'w track_input) \<Rightarrow> nat
    \<Rightarrow> ('w, 'v) tracker \<Rightarrow> ('w, 'v) tracker track_outcome" where
  "trackRoute H cfg om route inps k tk = track_rounds H cfg om route inps k (track_begin H route tk)"

section \<open>Tracking keeps to the route\<close>

text \<open>What the operations leave alone of the graph: its nodes and edges with their identifiers.\<close>

definition shape :: "Graph \<Rightarrow> (u32 \<times> (u32 \<times> nat \<times> nat) list) list" where
  "shape g = map (\<lambda>n. (nodeid n, map (\<lambda>e. (edgeid e, e_start e, e_end e)) (neighbors n))) g"

definition operations_of :: "'v OperationsManager \<Rightarrow> 'v RouteOperation set" where
  "operations_of om = set (change_operations om) \<union> set (query_operations om) \<union> ran (graph_operations om)"

definition keeps_shape :: "'v OperationsManager \<Rightarrow> bool" where
  "keeps_shape om \<longleftrightarrow> (\<forall>op\<in>operations_of om. \<forall>n e x r pose m gv.
     shape (fst (snd (perform op n e x r pose m gv))) = shape (fst gv))"

definition route_nodes :: "Graph \<Rightarrow> Route \<Rightarrow> nat list" where
  "route_nodes g route = start_node route # map (\<lambda>e. e_end (edge_at g e)) (route_edges route)"

definition track_inv :: "Graph \<Rightarrow> Route \<Rightarrow> ('w, 'v) tracker \<Rightarrow> bool" where
  "track_inv g route tk \<longleftrightarrow>
    (let st = tk_state tk; i = route_edges_idx st
     in shape (fst (tk_graph tk)) = shape g \<and> - 1 \<le> i \<and> i < int (length (route_edges route)) \<and>
        next_node st = Some (route_nodes g route ! nat (i + 1)) \<and>
        (0 \<le> i \<longrightarrow> current_edge st = Some (route_edges route ! nat i)) \<and>
        (current_edge st \<noteq> None \<longrightarrow> last_node st \<noteq> None))"

lemma shape_edge_at:
  assumes "shape h = shape g" "edge_ptr_in g e"
  shows "e_end (edge_at h e) = e_end (edge_at g e)"
proof -
  have l: "length h = length g" using arg_cong [OF assms(1), of length] by (simp add: shape_def)
  have i: "fst e < length g" "snd e < length (neighbors (g ! fst e))" using assms(2) by (auto simp: edge_ptr_in_def)
  have "map (\<lambda>e. (edgeid e, e_start e, e_end e)) (neighbors (h ! fst e))
      = map (\<lambda>e. (edgeid e, e_start e, e_end e)) (neighbors (g ! fst e))"
    using arg_cong [OF assms(1), of "\<lambda>xs. snd (xs ! fst e)"] i l by (simp add: shape_def)
  from arg_cong [OF this, of length] arg_cong [OF this, of "\<lambda>xs. xs ! snd e"] show ?thesis
    using i by (simp add: edge_at_def)
qed

lemma plugin_vector_shape:
  assumes "\<And>op n e x r pose m gv. op \<in> set ps \<Longrightarrow> shape (fst (snd (perform op n e x r pose m gv))) = shape (fst gv)"
  shows "shape (fst (snd (processOperationsPluginVector ps res node entered exited route pose gv))) = shape (fst gv)"
  using assms
proof (induction ps arbitrary: res gv)
  case (Cons p ps)
  then show ?case
    by (cases "perform p node entered exited route pose None gv")
      (use Cons.prems [of p node entered exited route pose None gv] in \<open>auto split: sum.splits\<close>)
qed simp

lemma graph_operations_shape:
  assumes "\<And>op n e x r pose m gv. op \<in> ran gops \<Longrightarrow> shape (fst (snd (perform op n e x r pose m gv))) = shape (fst gv)"
  shows "shape (fst (snd (process_graph_operations gops ops res node entered exited route pose gv))) = shape (fst gv)"
  using assms
proof (induction ops arbitrary: res gv)
  case (Cons p ps)
  show ?case
  proof (cases "gops (op_type p)")
    case (Some op)
    then have "op \<in> ran gops" by (auto simp: ran_def)
    then show ?thesis
      using Cons.IH [OF Cons.prems] Cons.prems [of op node entered exited route pose "Some (op_metadata p)" gv] Some
      by (cases "perform op node entered exited route pose (Some (op_metadata p)) gv")
        (auto split: sum.splits)
  qed simp
qed simp

lemma process_operations_shape:
  assumes "keeps_shape om"
  shows "shape (fst (snd (process_operations om sc st route pose rr gv))) = shape (fst gv)"
proof -
  let ?v = "\<lambda>ps. ps = change_operations om \<or> ps = query_operations om"
  have v: "shape (fst gv') = shape (fst gv)"
    if "processOperationsPluginVector ps res n e x route pose gv = (y, gv')" "?v ps" for ps res n e x gv gv' y
    using plugin_vector_shape [of ps res n e x route pose gv] that assms
    unfolding keeps_shape_def operations_of_def by fastforce
  have g: "shape (fst gv') = shape (fst gv)"
    if "process_graph_operations (graph_operations om) ops res n e x route pose gv = (y, gv')" for ops res n e x gv gv' y
    using graph_operations_shape [of "graph_operations om" ops res n e x route pose gv] that assms
    unfolding keeps_shape_def operations_of_def by fastforce
  have q: "shape (fst (snd (processOperationsPluginVector (query_operations om) res n e x route pose gv)))
      = shape (fst gv)" for res n e x gv
    using v [of "query_operations om" res n e x gv] by (metis prod.collapse)
  show ?thesis
    unfolding process_operations_def Let_def
    by (auto simp: q split: prod.splits sum.splits if_splits dest!: v g)
qed

lemma sint_u32: "- (2 ^ 31) \<le> k \<Longrightarrow> k < 2 ^ 31 \<Longrightarrow> sint (word_of_int k :: u32) = k"
  by (simp add: signed_of_int signed_take_bit_int_eq_self)

lemma sint_length:
  assumes "n < 2 ^ 31"
  shows "sint (of_nat n :: u32) = int n" "sint (of_nat n - 1 :: u32) = int n - 1"
  using sint_u32 [of "int n"] sint_u32 [of "int n - 1"] assms by simp_all

text \<open>A round of tracking achieves node \<open>n\<close>: the robot pose passes the test for the next node.\<close>

definition achieves ::
  "track_config \<Rightarrow> Route \<Rightarrow> 'w track_input \<Rightarrow> ('w, 'v) tracker \<Rightarrow> nat \<Rightarrow> bool" where
  "achieves cfg route inp tk n \<longleftrightarrow> next_node (tk_state tk) = Some n \<and>
    (\<exists>pose st. t_pose inp = Some pose \<and>
       nodeAchieved cfg (fst (tk_graph tk)) pose route (tk_state tk) = Some (True, st))"

definition route_in :: "Graph \<Rightarrow> Route \<Rightarrow> bool" where
  "route_in g route \<longleftrightarrow> length (route_edges route) < 2 ^ 31 \<and> list_all (edge_ptr_in g) (route_edges route)"

lemma nodeAchieved_defined:
  assumes "track_inv g route tk" "length (route_edges route) < 2 ^ 31"
  obtains b r where "nodeAchieved cfg h pose route (tk_state tk) = Some (b, (tk_state tk)\<lparr>within_radius := r\<rparr>)"
proof -
  let ?st = "tk_state tk"
  obtain n where n: "next_node ?st = Some n" using assms(1) by (auto simp: track_inv_def Let_def)
  have b: "isStartOrEndNode ?st route \<longleftrightarrow> route_edges_idx ?st = int (length (route_edges route)) - 1 \<or>
      (route_edges_idx ?st = - 1 \<and> current_edge ?st = None)"
    using sint_length(2) [OF assms(2)] by (simp add: isStartOrEndNode_def)
  have same: "\<exists>r. ?st = ?st\<lparr>within_radius := r\<rparr>" by (rule exI [of _ "within_radius ?st"]) simp
  have "\<exists>b r. nodeAchieved cfg h pose route ?st = Some (b, ?st\<lparr>within_radius := r\<rparr>)"
  proof (cases "isStartOrEndNode ?st route")
    case True
    then show ?thesis unfolding nodeAchieved_def n by (auto simp: Let_def intro: same)
  next
    case False
    have inv: "- 1 \<le> route_edges_idx ?st" "route_edges_idx ?st < int (length (route_edges route))"
      "0 \<le> route_edges_idx ?st \<Longrightarrow> current_edge ?st \<noteq> None"
      using assms(1) by (auto simp: track_inv_def Let_def)
    have "current_edge ?st \<noteq> None" using inv(1,3) False b by (cases "route_edges_idx ?st = - 1") auto
    moreover have "\<not> (route_edges_idx ?st + 1 < 0)" "\<not> int (length (route_edges route)) \<le> route_edges_idx ?st + 1"
      using inv(1,2) False b by auto
    ultimately show ?thesis using False unfolding nodeAchieved_def n by (auto simp: Let_def intro: same)
  qed
  then show thesis using that by blast
qed

lemma track_advance_inv:
  assumes "track_inv g route tk" "route_in g route" "shape (fst gv) = shape g"
  shows "\<not> fst (track_advance (fst (tk_graph tk)) route ((tk_state tk)\<lparr>within_radius := r\<rparr>)) \<Longrightarrow>
      track_inv g route (tk\<lparr>tk_state := snd (track_advance (fst (tk_graph tk)) route ((tk_state tk)\<lparr>within_radius := r\<rparr>)),
        tk_graph := gv\<rparr>)"
    and "fst (track_advance (fst (tk_graph tk)) route ((tk_state tk)\<lparr>within_radius := r\<rparr>)) \<longleftrightarrow>
      route_edges_idx (tk_state tk) + 1 = int (length (route_edges route))"
    and "route_edges_idx (snd (track_advance h route st)) = route_edges_idx st + 1"
    and "last_node (snd (track_advance h route st)) = next_node st"
proof -
  let ?i = "route_edges_idx (tk_state tk) + 1"
  have len: "sint (of_nat (length (route_edges route)) :: u32) = int (length (route_edges route))"
    using assms(2) by (simp add: route_in_def sint_length)
  have range: "0 \<le> ?i" "?i \<le> int (length (route_edges route))" and sh: "shape (fst (tk_graph tk)) = shape g"
    using assms(1) by (auto simp: track_inv_def Let_def)
  show "fst (track_advance (fst (tk_graph tk)) route ((tk_state tk)\<lparr>within_radius := r\<rparr>)) \<longleftrightarrow>
      ?i = int (length (route_edges route))"
    using len range by (simp add: track_advance_def Let_def)
  show "route_edges_idx (snd (track_advance h route st)) = route_edges_idx st + 1"
    "last_node (snd (track_advance h route st)) = next_node st"
    by (simp_all add: track_advance_def Let_def)
  assume go: "\<not> fst (track_advance (fst (tk_graph tk)) route ((tk_state tk)\<lparr>within_radius := r\<rparr>))"
  then have i: "?i < int (length (route_edges route))" using len by (simp add: track_advance_def Let_def split: if_splits)
  let ?e = "route_edges route ! nat ?i"
  have "edge_ptr_in g ?e" using assms(2) i range(1) by (simp add: route_in_def list_all_length)
  then have "e_end (edge_at (fst (tk_graph tk)) ?e) = e_end (edge_at g ?e)" by (rule shape_edge_at [OF sh])
  moreover have "nat (?i + 1) = Suc (nat ?i)" using range(1) by simp
  moreover have "route_nodes g route ! Suc (nat ?i) = e_end (edge_at g ?e)"
    using i range(1) by (simp add: route_nodes_def nat_less_iff)
  moreover have "next_node (tk_state tk) \<noteq> None" using assms(1) by (auto simp: track_inv_def Let_def)
  ultimately show "track_inv g route (tk\<lparr>tk_state := snd (track_advance (fst (tk_graph tk)) route
      ((tk_state tk)\<lparr>within_radius := r\<rparr>)), tk_graph := gv\<rparr>)"
    using i len range(1) assms(3) by (simp add: track_inv_def track_advance_def Let_def)
qed

lemma track_publish_frame [simp]:
  "tk_state (track_publish H r n l e ops tk) = tk_state tk"
  "tk_graph (track_publish H r n l e ops tk) = tk_graph tk"
  "tk_srv (track_publish H r n l e ops tk) = tk_srv tk"
  "tk_rerouting (track_publish H r n l e ops tk) = tk_rerouting tk"
  by (simp_all add: track_publish_def split: option.split)

definition no_bad_pointer :: "'v OperationsManager \<Rightarrow> bool" where
  "no_bad_pointer om \<longleftrightarrow> (\<forall>op\<in>operations_of om. \<forall>n e x r pose m gv.
     fst (perform op n e x r pose m gv) \<noteq> Inl BadPointer)"

lemma plugin_vector_ok:
  assumes "\<And>op n e x r pose m gv. op \<in> set ps \<Longrightarrow> fst (perform op n e x r pose m gv) \<noteq> Inl BadPointer"
  shows "fst (processOperationsPluginVector ps res node entered exited route pose gv) \<noteq> Inl BadPointer"
  using assms
proof (induction ps arbitrary: res gv)
  case (Cons p ps)
  then show ?case
    by (cases "perform p node entered exited route pose None gv")
      (use Cons.prems [of p node entered exited route pose None gv] in \<open>auto split: sum.splits\<close>)
qed simp

lemma graph_operations_ok:
  assumes "\<And>op n e x r pose m gv. op \<in> ran gops \<Longrightarrow> fst (perform op n e x r pose m gv) \<noteq> Inl BadPointer"
  shows "fst (process_graph_operations gops ops res node entered exited route pose gv) \<noteq> Inl BadPointer"
  using assms
proof (induction ops arbitrary: res gv)
  case (Cons p ps)
  show ?case
  proof (cases "gops (op_type p)")
    case (Some op)
    then have "op \<in> ran gops" by (auto simp: ran_def)
    then show ?thesis
      using Cons.IH [OF Cons.prems] Cons.prems [of op node entered exited route pose "Some (op_metadata p)" gv] Some
      by (cases "perform op node entered exited route pose (Some (op_metadata p)) gv")
        (auto split: sum.splits)
  qed simp
qed simp

lemma process_operations_ok:
  assumes "no_bad_pointer om" "route_edges_idx st \<le> int (length (route_edges route))"
  shows "process_operations om sc st route pose rr gv \<noteq> (Inl BadPointer, gv')"
proof -
  have v: "err \<noteq> BadPointer"
    if "processOperationsPluginVector ps res n e x route pose gv = (Inl err, gv')"
      "ps = change_operations om \<or> ps = query_operations om" for ps res n e x gv gv' err
    using plugin_vector_ok [of ps res n e x route pose gv] that assms(1)
    unfolding no_bad_pointer_def operations_of_def by fastforce
  have g: "err \<noteq> BadPointer"
    if "process_graph_operations (graph_operations om) ops res n e x route pose gv = (Inl err, gv')"
    for ops res n e x gv gv' err
    using graph_operations_ok [of "graph_operations om" ops res n e x route pose gv] that assms(1)
    unfolding no_bad_pointer_def operations_of_def by fastforce
  show ?thesis
    using assms(2) unfolding process_operations_def Let_def
    by (auto split: prod.splits sum.splits if_splits dest!: v g)
qed

lemma track_finish_cases:
  assumes "completed \<or> current_edge (tk_state tk) \<noteq> None \<Longrightarrow> last_node (tk_state tk) \<noteq> None"
    "\<not> completed \<Longrightarrow> next_node (tk_state tk) \<noteq> None"
  shows "case track_finish H cfg sc completed res pose tk of
      Tracking tk' \<Rightarrow> \<not> completed \<and> tk_state tk' = tk_state tk \<and> tk_graph tk' = tk_graph tk
    | Tracked r tk' \<Rightarrow> r = COMPLETED \<longleftrightarrow> completed
    | TrackThrew err tk' \<Rightarrow> False"
  using assms by (cases completed) (auto simp: track_finish_def Let_def split: option.splits)

lemma track_inv_frame:
  "track_inv g route tk \<Longrightarrow> tk_state tk' = (tk_state tk)\<lparr>within_radius := r\<rparr> \<Longrightarrow>
    shape (fst (tk_graph tk')) = shape g \<Longrightarrow> track_inv g route tk'"
  by (simp add: track_inv_def Let_def)

lemma track_inv_cong:
  "track_inv g route tk \<Longrightarrow> tk_state tk' = tk_state tk \<Longrightarrow> tk_graph tk' = tk_graph tk \<Longrightarrow> track_inv g route tk'"
  by (simp add: track_inv_def Let_def)

lemma track_round_cases:
  assumes inv: "track_inv g route tk" and om: "keeps_shape om" and route: "route_in g route"
  defines "i \<equiv> route_edges_idx (tk_state tk)"
  shows "case track_round H cfg om route inp tk of
      Tracking tk' \<Rightarrow> track_inv g route tk' \<and>
        (route_edges_idx (tk_state tk') = i \<or>
         route_edges_idx (tk_state tk') = i + 1 \<and> achieves cfg route inp tk (route_nodes g route ! nat (i + 1)))
    | Tracked r tk' \<Rightarrow> r = COMPLETED \<longrightarrow> i + 1 = int (length (route_edges route)) \<and>
        achieves cfg route inp tk (route_nodes g route ! nat (i + 1))
    | TrackThrew err tk' \<Rightarrow> no_bad_pointer om \<longrightarrow> err \<noteq> BadPointer"
proof -
  let ?tk = "tk\<lparr>tk_srv := t_interfere inp (tk_srv tk)\<rparr>" and ?st = "tk_state tk" and ?g = "fst (tk_graph tk)"
  show ?thesis
  proof (cases "\<not> t_ok inp \<or> is_cancel_requested H (tk_srv ?tk) \<or> is_preempt_requested (tk_srv ?tk)
      \<or> t_pose inp = None")
    case True
    then show ?thesis by (auto simp: track_round_def Let_def)
  next
    case run: False
    then obtain pose where pose: "t_pose inp = Some pose" by auto
    obtain b r where na: "nodeAchieved cfg ?g pose route ?st = Some (b, ?st\<lparr>within_radius := r\<rparr>)"
      using nodeAchieved_defined [OF inv] route by (metis route_in_def)
    obtain completed st2 where adv:
      "(if b then track_advance ?g route (?st\<lparr>within_radius := r\<rparr>) else (False, ?st\<lparr>within_radius := r\<rparr>))
        = (completed, st2)" by fastforce
    obtain x gv where ops: "process_operations om b st2 route pose (tk_rerouting tk) (tk_graph tk) = (x, gv)"
      by (rule prod.exhaust)
    let ?tk2 = "?tk\<lparr>tk_state := st2, tk_graph := gv\<rparr>"
    have sh: "shape (fst gv) = shape g"
      using process_operations_shape [OF om, of b st2 route pose "tk_rerouting tk" "tk_graph tk"] ops inv
      by (simp add: track_inv_def Let_def)
    have eq: "track_round H cfg om route inp tk = (case x of Inl err \<Rightarrow> TrackThrew err ?tk2
        | Inr res \<Rightarrow> track_finish H cfg b completed res pose ?tk2)"
      using run pose na adv ops by (cases b; cases x) (auto simp: track_round_def Let_def)
    have step: "(completed \<longleftrightarrow> b \<and> i + 1 = int (length (route_edges route))) \<and>
        (\<not> completed \<longrightarrow> track_inv g route ?tk2) \<and> route_edges_idx st2 = (if b then i + 1 else i) \<and>
        (completed \<longrightarrow> last_node st2 \<noteq> None)"
    proof (cases b)
      case True
      let ?a = "track_advance ?g route (?st\<lparr>within_radius := r\<rparr>)"
      have a: "?a = (completed, st2)" using adv True by simp
      have n: "next_node ?st \<noteq> None" using inv by (auto simp: track_inv_def Let_def)
      have fr: "track_inv g route u = track_inv g route v" if "tk_state u = tk_state v" "tk_graph u = tk_graph v"
        for u v using that by (simp add: track_inv_def Let_def)
      show ?thesis
        using track_advance_inv(1,2) [OF inv route sh, of r] a True n
          track_advance_inv(3,4) [OF inv route sh, of ?g "?st\<lparr>within_radius := r\<rparr>"]
        by (auto simp: i_def fr [of ?tk2 "tk\<lparr>tk_state := st2, tk_graph := gv\<rparr>"])
    next
      case False
      then have "\<not> completed" "st2 = ?st\<lparr>within_radius := r\<rparr>" using adv by auto
      then show ?thesis using False track_inv_frame [OF inv, of ?tk2 r] sh by (simp add: i_def)
    qed
    have ach: "b \<Longrightarrow> achieves cfg route inp tk (route_nodes g route ! nat (i + 1))"
      using inv pose na by (auto simp: achieves_def track_inv_def Let_def i_def)
    have idx: "route_edges_idx st2 \<le> int (length (route_edges route))"
      using step inv by (auto simp: i_def track_inv_def Let_def)
    show ?thesis
    proof (cases x)
      case (Inl err)
      then show ?thesis
        using eq ops process_operations_ok [OF _ idx, where om = om and sc = b and pose = pose and rr = "tk_rerouting tk"
          and gv = "tk_graph tk" and gv' = gv] by auto
    next
      case (Inr res)
      have pre: "completed \<or> current_edge (tk_state ?tk2) \<noteq> None \<Longrightarrow> last_node (tk_state ?tk2) \<noteq> None"
        "\<not> completed \<Longrightarrow> next_node (tk_state ?tk2) \<noteq> None"
        using step by (auto simp: track_inv_def Let_def)
      have fin: "track_round H cfg om route inp tk = track_finish H cfg b completed res pose ?tk2" using eq Inr by simp
      have cases: "case track_finish H cfg b completed res pose ?tk2 of
          Tracking tk' \<Rightarrow> \<not> completed \<and> tk_state tk' = tk_state ?tk2 \<and> tk_graph tk' = tk_graph ?tk2
        | Tracked r tk' \<Rightarrow> r = COMPLETED \<longleftrightarrow> completed | TrackThrew err tk' \<Rightarrow> False"
        by (rule track_finish_cases) (use pre in blast)+
      show ?thesis
      proof (cases "track_finish H cfg b completed res pose ?tk2")
        case (Tracking tk')
        with cases have "\<not> completed" "tk_state tk' = st2" "tk_graph tk' = gv" by simp_all
        moreover have r: "track_round H cfg om route inp tk = Tracking tk'" using fin Tracking by simp
        ultimately show ?thesis unfolding r
          using step ach track_inv_cong [of g route ?tk2 tk'] by (cases b) simp_all
      next
        case (Tracked r tk')
        with cases have "r = COMPLETED \<longleftrightarrow> completed" by simp
        moreover have t: "track_round H cfg om route inp tk = Tracked r tk'" using fin Tracked by simp
        ultimately show ?thesis unfolding t using step ach by (cases b) auto
      next
        case (TrackThrew err tk')
        with cases show ?thesis by simp
      qed
    qed
  qed
qed

lemma track_begin_inv:
  "route_edges_idx (tk_state (track_begin H route tk)) = - 1"
  "track_inv (fst (tk_graph tk)) route (track_begin H route tk)"
  by (simp_all add: track_begin_def track_inv_def route_nodes_def Let_def split: option.split)

text \<open>The rounds in which the first \<open>m\<close> nodes of the route were achieved.\<close>

definition achieved_in ::
  "('r, 'w) handle_ops \<Rightarrow> track_config \<Rightarrow> 'v OperationsManager \<Rightarrow> Route \<Rightarrow> (nat \<Rightarrow> 'w track_input) \<Rightarrow> ('w, 'v) tracker
    \<Rightarrow> nat list \<Rightarrow> bool" where
  "achieved_in H cfg om route inps tk rs \<longleftrightarrow> sorted_wrt (<) rs \<and>
    (\<forall>j<length rs. \<exists>u. trackRoute H cfg om route inps (rs ! j) tk = Tracking u \<and>
       achieves cfg route (inps (rs ! j)) u (route_nodes (fst (tk_graph tk)) route ! j))"

lemma achieved_in_snoc:
  assumes "achieved_in H cfg om route inps tk rs" "\<forall>r\<in>set rs. r < k"
    "trackRoute H cfg om route inps k tk = Tracking u"
    "achieves cfg route (inps k) u (route_nodes (fst (tk_graph tk)) route ! length rs)"
  shows "achieved_in H cfg om route inps tk (rs @ [k])"
  using assms by (auto simp: achieved_in_def sorted_wrt_append nth_append less_Suc_eq)

lemma track_rounds_progress:
  assumes "keeps_shape om" "route_in (fst (tk_graph tk)) route"
    "trackRoute H cfg om route inps k tk = Tracking u"
  shows "track_inv (fst (tk_graph tk)) route u \<and>
    (\<exists>rs. achieved_in H cfg om route inps tk rs \<and> (\<forall>r\<in>set rs. r < k) \<and>
       int (length rs) = route_edges_idx (tk_state u) + 1)"
  using assms(3)
proof (induction k arbitrary: u)
  case 0
  then show ?case using track_begin_inv [where H = H and route = route and tk = tk] by (auto simp: trackRoute_def achieved_in_def)
next
  case (Suc k)
  obtain v where v: "trackRoute H cfg om route inps k tk = Tracking v"
    and u: "track_round H cfg om route (inps k) v = Tracking u"
    using Suc.prems by (cases "track_rounds H cfg om route inps k (track_begin H route tk)")
      (auto simp: trackRoute_def)
  from Suc.IH [OF v] obtain rs where inv: "track_inv (fst (tk_graph tk)) route v"
    and rs: "achieved_in H cfg om route inps tk rs" "\<forall>r\<in>set rs. r < k"
      "int (length rs) = route_edges_idx (tk_state v) + 1" by blast
  have step: "track_inv (fst (tk_graph tk)) route u" "route_edges_idx (tk_state u) = route_edges_idx (tk_state v) \<or>
      route_edges_idx (tk_state u) = route_edges_idx (tk_state v) + 1 \<and>
      achieves cfg route (inps k) v (route_nodes (fst (tk_graph tk)) route ! nat (route_edges_idx (tk_state v) + 1))"
    using track_round_cases [OF inv assms(1,2), where H = H and cfg = cfg and inp = "inps k"] u by auto
  from step(2) show ?case
  proof
    assume "route_edges_idx (tk_state u) = route_edges_idx (tk_state v)"
    then show ?thesis using step(1) rs by (intro conjI exI [of _ rs]) auto
  next
    assume a: "route_edges_idx (tk_state u) = route_edges_idx (tk_state v) + 1 \<and>
      achieves cfg route (inps k) v (route_nodes (fst (tk_graph tk)) route ! nat (route_edges_idx (tk_state v) + 1))"
    have "nat (route_edges_idx (tk_state v) + 1) = length rs" using rs(3) by simp
    then have "achieved_in H cfg om route inps tk (rs @ [k])"
      using achieved_in_snoc [OF rs(1,2) v] a by simp
    then show ?thesis using step(1) rs a by (intro conjI exI [of _ "rs @ [k]"]) auto
  qed
qed

text \<open>
  Property C10 (safety): when tracking reports \<open>COMPLETED\<close>, every node of the route was achieved, in the order of the
  route: there are rounds, one per node and strictly increasing, the last of them the final round, in which the
  tracker was heading for that node and the robot pose passed its test. It holds whatever the
  operations do, as long as they leave the nodes and edges of the graph in place.
\<close>

theorem completed_route_in_order:
  assumes "keeps_shape om" "route_in (fst (tk_graph tk)) route"
    "trackRoute H cfg om route inps k tk = Tracking u"
    "trackRoute H cfg om route inps (Suc k) tk = Tracked COMPLETED u'"
  shows "\<exists>rs. achieved_in H cfg om route inps tk rs \<and> last rs = k \<and>
    length rs = length (route_nodes (fst (tk_graph tk)) route)"
proof -
  from track_rounds_progress [OF assms(1-3)] obtain rs where inv: "track_inv (fst (tk_graph tk)) route u"
    and rs: "achieved_in H cfg om route inps tk rs" "\<forall>r\<in>set rs. r < k"
      "int (length rs) = route_edges_idx (tk_state u) + 1" by blast
  have "track_round H cfg om route (inps k) u = Tracked COMPLETED u'"
    using assms(3,4) by (simp add: trackRoute_def)
  then have a: "route_edges_idx (tk_state u) + 1 = int (length (route_edges route))"
    "achieves cfg route (inps k) u (route_nodes (fst (tk_graph tk)) route ! length rs)"
    using track_round_cases [OF inv assms(1,2), where H = H and cfg = cfg and inp = "inps k"] rs(3) by auto
  then have "achieved_in H cfg om route inps tk (rs @ [k])" using achieved_in_snoc [OF rs(1,2) assms(3)] by blast
  then show ?thesis using rs(3) a(1) by (intro exI [of _ "rs @ [k]"]) (simp add: route_nodes_def)
qed

text \<open>
  The three nodes of \<open>demo_graph\<close> lie at the origin; a robot that stays there achieves one per round.
\<close>

definition demo_route :: Route where
  "demo_route = \<lparr>start_node = 0, route_edges = [(0, 1), (1, 0)], route_cost = 3\<rparr>"

definition demo_tracker :: "(ros_world, unit) tracker" where
  "demo_tracker = \<lparr>tk_srv = srv ros_initial, tk_state = \<lparr>last_node = None, next_node = None, current_edge = None,
       route_edges_idx = 0, within_radius = False\<rparr>,
     tk_rerouting = reset_rerouting \<lparr>rr_blocked_ids = [], first_time = True, curr_edge = None,
       closest_pt_on_edge = default_coordinates, rerouting_start_id = 0, rerouting_start_pose = default_pose\<rparr>,
     tk_graph = (demo_graph, ()), tk_feedback = []\<rparr>"

definition demo_manager :: "unit OperationsManager" where
  "demo_manager = \<lparr>change_operations = [], query_operations = [], graph_operations = Map.empty\<rparr>"

definition demo_config :: track_config where
  "demo_config = \<lparr>radius_threshold = 2, boundary_radius_threshold = 1, aggregate_blocked_ids = False\<rparr>"

definition demo_pose_input :: "ros_world track_input" where
  "demo_pose_input = \<lparr>t_interfere = id, t_ok = True, t_pose = Some default_pose\<rparr>"

lemma demo_track_laws: "keeps_shape demo_manager" "no_bad_pointer demo_manager"
  "route_in (fst (tk_graph demo_tracker)) demo_route"
  by (simp_all add: keeps_shape_def no_bad_pointer_def operations_of_def demo_manager_def route_in_def
      demo_tracker_def demo_route_def demo_edges)

lemma demo_server_idle:
  "is_cancel_requested ros_handles (srv ros_initial) = False" "is_preempt_requested (srv ros_initial) = False"
  "publish_feedback ros_handles fb (srv ros_initial) = None"
  by (simp_all add: ros_initial_def is_cancel_requested_def is_preempt_requested_def publish_feedback_def is_active_def)

lemma demo_achieved:
  "next_node st = Some n \<Longrightarrow> n < 3 \<Longrightarrow> nodeAchieved demo_config demo_graph default_pose demo_route st = Some (True, st)"
  by (simp add: nodeAchieved_def demo_coords default_pose_def hypot2_def)

lemma demo_no_operations: "i < 3 \<Longrightarrow> node_operations (demo_graph ! i) = []"
  by (auto simp: demo_graph_def demo_node_def less_Suc_eq numeral_3_eq_3)

lemmas demo_track_simps = track_round_def track_advance_def process_operations_def findGraphOperations_def
  findGraphOperationsToProcess_def edge_exited_def track_finish_def track_publish_def demo_server_idle
  demo_pose_input_def demo_manager_def demo_no_operations

lemma demo_route_fields: "start_node demo_route = 0" "route_edges demo_route = [(0, Suc 0), (Suc 0, 0)]"
  by (simp_all add: demo_route_def)

definition demo_at_node :: "int \<Rightarrow> (ros_world, unit) tracker" where
  "demo_at_node i = demo_tracker\<lparr>tk_state := \<lparr>last_node = (if i < 0 then None else Some (nat i)),
     next_node = Some (nat (i + 1)),
     current_edge = (if i = 0 then Some (0, Suc 0) else if i = 1 then Some (Suc 0, 0) else None),
     route_edges_idx = i, within_radius = False\<rparr>\<rparr>"

lemma demo_rounds:
  "track_begin ros_handles demo_route demo_tracker = demo_at_node (- 1)"
  "track_round ros_handles demo_config demo_manager demo_route demo_pose_input (demo_at_node (- 1))
    = Tracking (demo_at_node 0)"
  "track_round ros_handles demo_config demo_manager demo_route demo_pose_input (demo_at_node 0)
    = Tracking (demo_at_node 1)"
  "\<exists>u. track_round ros_handles demo_config demo_manager demo_route demo_pose_input (demo_at_node 1)
    = Tracked COMPLETED u"
  by (simp_all add: track_begin_def demo_at_node_def demo_track_simps demo_achieved demo_tracker_def
      demo_route_fields reset_rerouting_def demo_at demo_edge_def)

theorem completed_route_in_order_witness:
  "\<exists>rs. achieved_in ros_handles demo_config demo_manager demo_route (\<lambda>_. demo_pose_input) demo_tracker rs \<and>
    last rs = 2 \<and> length rs = 3"
proof -
  let ?t = "\<lambda>k. trackRoute ros_handles demo_config demo_manager demo_route (\<lambda>_. demo_pose_input) k demo_tracker"
  have two: "?t 2 = Tracking (demo_at_node 1)" by (simp add: trackRoute_def demo_rounds numeral_2_eq_2)
  obtain u where u: "track_round ros_handles demo_config demo_manager demo_route demo_pose_input (demo_at_node 1)
      = Tracked COMPLETED u" using demo_rounds(4) by blast
  have three: "?t (Suc 2) = Tracked COMPLETED u"
    using two u unfolding trackRoute_def by (simp only: track_rounds.simps track_next.simps)
  show ?thesis
    using completed_route_in_order [OF demo_track_laws(1,3) two three]
    by (simp add: route_nodes_def demo_route_fields numeral_3_eq_3)
qed

text \<open>
  Property C34 (safety): tracking never dereferences a null pointer and never reads outside the route, over any number of
  rounds, for any poses and any operations that do not do so themselves.
\<close>

theorem tracking_stays_in_bounds:
  assumes "keeps_shape om" "no_bad_pointer om" "route_in (fst (tk_graph tk)) route"
  shows "trackRoute H cfg om route inps k tk \<noteq> TrackThrew BadPointer u"
proof (induction k)
  case (Suc k)
  show ?case
  proof (cases "trackRoute H cfg om route inps k tk")
    case (Tracking v)
    then have "track_inv (fst (tk_graph tk)) route v" using track_rounds_progress [OF assms(1,3)] by blast
    from track_round_cases [OF this assms(1,3), where H = H and cfg = cfg and inp = "inps k"] assms(2)
    show ?thesis using Tracking by (auto simp: trackRoute_def)
  qed (use Suc in \<open>auto simp: trackRoute_def\<close>)
qed (simp add: trackRoute_def)

theorem tracking_stays_in_bounds_witness:
  "\<forall>k u. trackRoute ros_handles demo_config demo_manager demo_route (\<lambda>_. demo_pose_input) k demo_tracker
    \<noteq> TrackThrew BadPointer u"
  using tracking_stays_in_bounds [OF demo_track_laws] by blast

end
