(* ===== verification/Route_Server.thy ===== *)
theory Route_Server
  imports Route_Tracker
begin

text \<open>
  The route server of nav2_route: the goal intent extractor (goal_intent_extractor.cpp), the path converter
  (path_converter.cpp) and the request loop (route_server.cpp) on the planner of \<open>Route_Planner\<close>, the tracker of
  \<open>Route_Tracker\<close> and the action server of \<open>Action_Server\<close>. The search for the graph nodes nearest
  to a pose (spatial tree, costmap, tf) and the smoothing arc of a corner are arguments. One pass of the request
  loop is \<open>rs_round\<close>; its input is what the outside contributes, including the rounds of the tracker.
\<close>

section \<open>The goal intent extractor\<close>

record route_goal =
  rg_start_id :: u16
  rg_goal_id :: u16
  rg_use_poses :: bool
  rg_use_start :: bool
  rg_start :: PoseStamped
  rg_goal :: PoseStamped

record GoalIntentExtractor =
  gi_start :: PoseStamped
  gi_goal :: PoseStamped
  prune_goal :: bool
  max_dist_from_edge :: real
  min_dist_from_goal :: real
  min_dist_from_start :: real

definition EPSILON :: real where
  "EPSILON = 1 / 1000000"

definition overrideStart :: "PoseStamped \<Rightarrow> GoalIntentExtractor \<Rightarrow> GoalIntentExtractor" where
  "overrideStart pose ext = ext\<lparr>gi_start := pose\<rparr>"

definition getStart :: "GoalIntentExtractor \<Rightarrow> PoseStamped" where
  "getStart ext = gi_start ext"

type_synonym nearest_search =
  "route_goal \<Rightarrow> Graph \<Rightarrow> GoalIntentExtractor \<Rightarrow> (route_error + nat \<times> nat) \<times> GoalIntentExtractor"

definition findStartandGoal ::
  "nearest_search \<Rightarrow> (u32 \<rightharpoonup> nat) \<Rightarrow> Graph \<Rightarrow> route_goal \<Rightarrow> GoalIntentExtractor
    \<Rightarrow> (route_error + nat \<times> nat) \<times> GoalIntentExtractor" where
  "findStartandGoal nearest id_map g goal ext =
    (if \<not> rg_use_poses goal then
       (case (id_map (ucast (rg_start_id goal)), id_map (ucast (rg_goal_id goal))) of
          (Some start_idx, Some goal_idx) \<Rightarrow>
            (if start_idx \<ge> length g \<or> goal_idx \<ge> length g then (Inl OutOfRange, ext)
             else
               (Inr (start_idx, goal_idx),
                ext\<lparr>gi_start := (gi_start ext)\<lparr>pos_x := coord_x (coords (g ! start_idx)),
                                               pos_y := coord_y (coords (g ! start_idx))\<rparr>,
                    gi_goal := (gi_goal ext)\<lparr>pos_x := coord_x (coords (g ! goal_idx)),
                                             pos_y := coord_y (coords (g ! goal_idx))\<rparr>\<rparr>))
        | _ \<Rightarrow> (Inl OutOfRange, ext))
     else nearest goal g ext)"

text \<open>
  Whether the pose projects onto the edge between two nodes and is close to it, but not at the node itself.
\<close>

definition prune_test ::
  "real \<Rightarrow> real \<Rightarrow> bool \<Rightarrow> PoseStamped \<Rightarrow> Coordinates \<Rightarrow> Coordinates \<Rightarrow> Coordinates \<Rightarrow> bool" where
  "prune_test min_dist max_dist forward pose a b node =
    (let vpx = pos_x pose - coord_x node; vpy = pos_y pose - coord_y node;
         dot_prod = normalizedDot (coord_x b - coord_x a) (coord_y b - coord_y a) vpx vpy
     in (if forward then dot_prod > EPSILON else dot_prod < - EPSILON) \<and>
        hypot2 vpx vpy > min_dist \<and> distance (findClosestPoint pose a b) pose \<le> max_dist)"

definition prune_start ::
  "Graph \<Rightarrow> EdgePtr option \<Rightarrow> GoalIntentExtractor \<Rightarrow> Route \<Rightarrow> ReroutingState \<Rightarrow> Route \<times> ReroutingState" where
  "prune_start g last_curr_edge ext route rr =
    (let e = hd (route_edges route); first = coords (g ! start_node route); nxt = e_end (edge_at g e);
         pt = findClosestPoint (gi_start ext) first (coords (g ! nxt))
     in if prune_test (min_dist_from_start ext) (max_dist_from_edge ext) True (gi_start ext) first (coords (g ! nxt)) first
        then
          (route\<lparr>start_node := nxt, route_cost := route_cost route - traversal_cost (search_state (g ! nxt)),
                 route_edges := tl (route_edges route)\<rparr>,
           (case last_curr_edge of
              Some l \<Rightarrow> (if edgeid (edge_at g l) = edgeid (edge_at g e)
                        then rr\<lparr>closest_pt_on_edge := pt, curr_edge := Some e\<rparr> else rr)
            | None \<Rightarrow> rr))
        else (route, rr))"

definition prune_end :: "Graph \<Rightarrow> GoalIntentExtractor \<Rightarrow> Route \<Rightarrow> Route" where
  "prune_end g ext route =
    (let e = edge_at g (last (route_edges route)); nxt = coords (g ! e_start e); lst = coords (g ! e_end e)
     in if prune_test (min_dist_from_goal ext) (max_dist_from_edge ext) False (gi_goal ext) nxt lst lst
        then route\<lparr>route_cost := route_cost route - traversal_cost (search_state (g ! e_end e)),
                   route_edges := butlast (route_edges route)\<rparr>
        else route)"

definition pruneStartandGoal ::
  "Graph \<Rightarrow> route_goal \<Rightarrow> GoalIntentExtractor \<Rightarrow> Route \<Rightarrow> ReroutingState \<Rightarrow> Route \<times> ReroutingState" where
  "pruneStartandGoal g goal ext input_route rr =
    (let last_curr_edge = curr_edge rr; was_first = first_time rr;
         rr1 = rr\<lparr>curr_edge := None, first_time := False\<rparr>
     in if route_edges input_route = [] \<or> (\<not> rg_use_poses goal \<and> was_first) then (input_route, rr1)
        else
          (let (pruned, rr2) = prune_start g last_curr_edge ext input_route rr1
           in if \<not> prune_goal ext \<or> \<not> rg_use_poses goal \<or> route_edges pruned = [] then (pruned, rr2)
              else (prune_end g ext pruned, rr2)))"

section \<open>The path converter\<close>

type_synonym path_point = "real \<times> real"

fun march :: "nat \<Rightarrow> real \<Rightarrow> real \<Rightarrow> real \<Rightarrow> real \<Rightarrow> path_point list" where
  "march 0 dx dy x y = []"
| "march (Suc n) dx dy x y = (x + dx, y + dy) # march n dx dy (x + dx) (y + dy)"

definition interpolateEdge ::
  "real \<Rightarrow> real \<Rightarrow> real \<Rightarrow> real \<Rightarrow> real \<Rightarrow> path_point list \<Rightarrow> path_point list" where
  "interpolateEdge density x0 y0 x1 y1 poses =
    (let mag = hypot2 (x1 - x0) (y1 - y0); num_pts = nat \<lceil>mag / density\<rceil>
     in if num_pts < 1 then poses
        else
          (let interpolated_dist = mag / real num_pts; ux = (x1 - x0) / mag; uy = (y1 - y0) / mag
           in poses @ (x0, y0) # march (num_pts - 1) (ux * interpolated_dist) (uy * interpolated_dist) x0 y0))"

text \<open>
  \<open>CornerArc\<close>: whether a corner of three points can be smoothed, where the arc starts and ends, and its points.
\<close>

type_synonym corner_arc =
  "Coordinates \<Rightarrow> Coordinates \<Rightarrow> Coordinates \<Rightarrow> (Coordinates \<times> Coordinates \<times> path_point list) option"

fun densify_edges ::
  "corner_arc \<Rightarrow> bool \<Rightarrow> real \<Rightarrow> Graph \<Rightarrow> EdgePtr list \<Rightarrow> Coordinates \<Rightarrow> path_point list
    \<Rightarrow> Coordinates \<times> path_point list" where
  "densify_edges arc smooth density g (e # f # es) start poses =
    (let end1 = coords (g ! e_end (edge_at g e))
     in case arc start end1 (coords (g ! e_end (edge_at g f))) of
          Some (corner_start, corner_end, points) \<Rightarrow>
            (if smooth then
               densify_edges arc smooth density g (f # es) corner_end
                 (interpolateEdge density (coord_x start) (coord_y start)
                    (coord_x corner_start) (coord_y corner_start) poses @ points)
             else densify_edges arc smooth density g (f # es) end1
                    (interpolateEdge density (coord_x start) (coord_y start) (coord_x end1) (coord_y end1) poses))
        | None \<Rightarrow>
            densify_edges arc smooth density g (f # es) end1
              (interpolateEdge density (coord_x start) (coord_y start) (coord_x end1) (coord_y end1) poses))"
| "densify_edges arc smooth density g es start poses = (start, poses)"

text \<open>The positions of the path; the headings set afterwards are not kept.\<close>

definition densify ::
  "corner_arc \<Rightarrow> bool \<Rightarrow> real \<Rightarrow> Graph \<Rightarrow> Route \<Rightarrow> ReroutingState \<Rightarrow> path_point list" where
  "densify arc smooth density g route rr =
    (let pre = (case curr_edge rr of
                  Some e \<Rightarrow>
                    (let s = closest_pt_on_edge rr; t = coords (g ! e_end (edge_at g e))
                     in interpolateEdge density (coord_x s) (coord_y s) (coord_x t) (coord_y t) [])
                | None \<Rightarrow> [])
     in if route_edges route = [] then
          pre @ [(coord_x (coords (g ! start_node route)), coord_y (coords (g ! start_node route)))]
        else
          (let (s, poses) = densify_edges arc smooth density g (route_edges route)
                 (coords (g ! e_start (edge_at g (hd (route_edges route))))) pre;
               t = coords (g ! e_end (edge_at g (last (route_edges route))))
           in interpolateEdge density (coord_x s) (coord_y s) (coord_x t) (coord_y t) poses
                @ [(coord_x t, coord_y t)]))"

section \<open>The request loop\<close>

record rs_result =
  rs_error_code :: int
  rs_route :: "Route option"
  rs_path :: "path_point list"

definition route_error_code :: "route_error \<Rightarrow> int" where
  "route_error_code err =
    (case err of
       NoValidRouteCouldBeFound \<Rightarrow> 405
     | TimedOut \<Rightarrow> 404
     | RouteTFError \<Rightarrow> 401
     | NoValidGraph \<Rightarrow> 402
     | IndeterminantNodesOnGraph \<Rightarrow> 403
     | InvalidEdgeScorerUse \<Rightarrow> 407
     | OperationFailed \<Rightarrow> 406
     | _ \<Rightarrow> 400)"

text \<open>The state of the server; \<open>'x\<close> is the state of the scoring plugins, \<open>'v\<close> that of the operations.\<close>

record ('w, 'v, 'x) route_server =
  rs_srv :: "'w server"
  rs_goal :: "route_goal option"
  rs_rerouting :: ReroutingState
  rs_graph :: "Graph \<times> 'v"
  rs_id_map :: "u32 \<rightharpoonup> nat"
  rs_ext :: GoalIntentExtractor
  rs_planner :: RoutePlanner
  rs_scorers :: 'x
  rs_feedback :: "track_feedback list"

record ('w, 'x) rs_config =
  cfg_plugins :: "(PoseStamped, 'x) EdgeCostFunction list"
  cfg_nearest :: nearest_search
  cfg_track :: track_config
  cfg_arc :: corner_arc
  cfg_smooth :: bool
  cfg_density :: real
  cfg_tracking :: bool
  cfg_goal_of :: "nat \<Rightarrow> route_goal"

record 'w rs_input =
  r_interfere :: "'w server \<Rightarrow> 'w server"
  r_ok :: bool
  r_track :: "nat \<Rightarrow> 'w track_input"
  r_track_rounds :: nat

datatype 's rs_outcome =
    RsContinue 's
  | RsReturned 's
  | RsTracking 's
  | RsCrashed

definition isRequestValid ::
  "(rs_result, 'w) handle_ops \<Rightarrow> Graph \<Rightarrow> 'w server \<Rightarrow> bool \<times> 'w server" where
  "isRequestValid H g s =
    (if \<not> is_server_active s then (False, s)
     else if is_cancel_requested H s then (False, terminate_all H (empty_result H) s)
     else if g = [] then (False, terminate_current H (empty_result H) s)
     else (True, s))"

text \<open>
  \<open>RouteServer::findRoute\<close>; \<open>None\<close> when the walk up the search tree does not end.
\<close>

definition server_findRoute ::
  "('w, 'x) rs_config \<Rightarrow> route_goal \<Rightarrow> ('w, 'v, 'x) route_server
    \<Rightarrow> ((route_error + Route) \<times> ('w, 'v, 'x) route_server) option" where
  "server_findRoute cfg goal s =
    (let g = fst (rs_graph s); rr = rs_rerouting s
     in case findStartandGoal (cfg_nearest cfg) (rs_id_map s) g goal (rs_ext s) of
          (Inl err, ext) \<Rightarrow> Some (Inl err, s\<lparr>rs_ext := ext\<rparr>)
        | (Inr (start0, end_route), ext) \<Rightarrow>
            (case (if rerouting_start_id rr \<noteq> UINT_MAX
                   then map_option (\<lambda>i. (i, overrideStart (rerouting_start_pose rr) ext)) (rs_id_map s (rerouting_start_id rr))
                   else Some (start0, ext)) of
               None \<Rightarrow> Some (Inl OutOfRange, s\<lparr>rs_ext := ext\<rparr>)
             | Some (start_route, ext1) \<Rightarrow>
                 (let s1 = s\<lparr>rs_ext := ext1\<rparr>;
                      prune = (\<lambda>route s2. let (r, rr') = pruneStartandGoal (fst (rs_graph s2)) goal ext1 route rr
                                          in (Inr r, s2\<lparr>rs_rerouting := rr'\<rparr>))
                  in if start_route = end_route then
                       (if start_route \<ge> length g then Some (Inl OutOfRange, s1)
                        else Some (prune \<lparr>start_node = start_route, route_edges = [], route_cost = 0\<rparr> s1))
                     else
                       (case findRoute (cfg_plugins cfg) g start_route end_route (rr_blocked_ids rr)
                               \<lparr>start_nodeid = of_nat start_route, goal_nodeid = of_nat end_route,
                                start_pose = getStart ext1, goal_pose = rg_goal goal, use_poses = rg_use_poses goal\<rparr>
                               (rs_planner s1) (rs_scorers s1) of
                          None \<Rightarrow> None
                        | Some (res, g', p', x') \<Rightarrow>
                            (let s2 = s1\<lparr>rs_graph := (g', snd (rs_graph s1)), rs_planner := p', rs_scorers := x'\<rparr>
                             in Some (case res of Inl err \<Rightarrow> (Inl err, s2) | Inr route \<Rightarrow> prune route s2))))))"

text \<open>
  The catch clauses of \<open>processRouteRequest\<close>. A bad pointer and an arithmetic fault are not exceptions.
\<close>

definition rs_catch ::
  "(rs_result, 'w) handle_ops \<Rightarrow> route_error \<Rightarrow> ('w, 'v, 'x) route_server \<Rightarrow> ('w, 'v, 'x) route_server rs_outcome" where
  "rs_catch H err s =
    (if err = BadPointer \<or> err = DivisionByZero then RsCrashed
     else RsReturned (s\<lparr>rs_srv := terminate_current H
            \<lparr>rs_error_code = route_error_code err, rs_route = None, rs_path = []\<rparr> (rs_srv s)\<rparr>))"

definition rs_track ::
  "(rs_result, 'w) handle_ops \<Rightarrow> ('w, 'x) rs_config \<Rightarrow> 'v OperationsManager \<Rightarrow> 'w rs_input \<Rightarrow> Route
    \<Rightarrow> ('w, 'v, 'x) route_server \<Rightarrow> ('w, 'v, 'x) route_server rs_outcome" where
  "rs_track H cfg om inp route s =
    (let tk = \<lparr>tk_srv = rs_srv s, tk_state = \<lparr>last_node = None, next_node = None, current_edge = None,
                 route_edges_idx = - 1, within_radius = False\<rparr>, tk_rerouting = rs_rerouting s,
               tk_graph = rs_graph s, tk_feedback = rs_feedback s\<rparr>;
         after = (\<lambda>tk. s\<lparr>rs_srv := tk_srv tk, rs_rerouting := tk_rerouting tk, rs_graph := tk_graph tk,
                          rs_feedback := tk_feedback tk\<rparr>)
     in case trackRoute H (cfg_track cfg) om route (r_track inp) (r_track_rounds inp) tk of
          Tracking tk' \<Rightarrow> RsTracking (after tk')
        | TrackThrew err tk' \<Rightarrow> rs_catch H err (after tk')
        | Tracked COMPLETED tk' \<Rightarrow>
            RsReturned ((after tk')\<lparr>rs_srv := succeeded_current H
              \<lparr>rs_error_code = 0, rs_route = None, rs_path = []\<rparr> (tk_srv tk')\<rparr>)
        | Tracked INTERRUPTED tk' \<Rightarrow> RsContinue (after tk')
        | Tracked EXITED tk' \<Rightarrow> RsReturned (after tk'))"

definition rs_plan ::
  "(rs_result, 'w) handle_ops \<Rightarrow> ('w, 'x) rs_config \<Rightarrow> 'v OperationsManager \<Rightarrow> 'w rs_input
    \<Rightarrow> ('w, 'v, 'x) route_server \<Rightarrow> ('w, 'v, 'x) route_server rs_outcome option" where
  "rs_plan H cfg om inp s =
    (case rs_goal s of
       None \<Rightarrow> Some RsCrashed
     | Some goal \<Rightarrow>
         (case server_findRoute cfg goal s of
            None \<Rightarrow> None
          | Some (Inl err, s1) \<Rightarrow> Some (rs_catch H err s1)
          | Some (Inr route, s1) \<Rightarrow>
              Some (if cfg_tracking cfg then rs_track H cfg om inp route s1
                    else RsReturned (s1\<lparr>rs_srv := succeeded_current H
                      \<lparr>rs_error_code = 0, rs_route = Some route,
                       rs_path = densify (cfg_arc cfg) (cfg_smooth cfg) (cfg_density cfg) (fst (rs_graph s1)) route
                         (rs_rerouting s1)\<rparr> (rs_srv s1)\<rparr>))))"

definition rs_round ::
  "(rs_result, 'w) handle_ops \<Rightarrow> ('w, 'x) rs_config \<Rightarrow> 'v OperationsManager \<Rightarrow> 'w rs_input
    \<Rightarrow> ('w, 'v, 'x) route_server \<Rightarrow> ('w, 'v, 'x) route_server rs_outcome option" where
  "rs_round H cfg om inp s0 =
    (let s = s0\<lparr>rs_srv := r_interfere inp (rs_srv s0)\<rparr>
     in if \<not> r_ok inp then Some (RsReturned s)
        else
          (let (valid, srv1) = isRequestValid H (fst (rs_graph s)) (rs_srv s); s1 = s\<lparr>rs_srv := srv1\<rparr>
           in if \<not> valid then Some (RsReturned s1)
              else if is_preempt_requested (rs_srv s1) then
                (let (p, srv2) = accept_pending_goal H (rs_srv s1)
                 in rs_plan H cfg om inp (s1\<lparr>rs_srv := srv2, rs_goal := map_option (cfg_goal_of cfg) p,
                      rs_rerouting := reset_rerouting (rs_rerouting s1)\<rparr>))
              else rs_plan H cfg om inp s1))"

definition rs_begin :: "(rs_result, 'w) handle_ops \<Rightarrow> ('w, 'x) rs_config \<Rightarrow> ('w, 'v, 'x) route_server \<Rightarrow> ('w, 'v, 'x) route_server" where
  "rs_begin H cfg s = s\<lparr>rs_goal := map_option (cfg_goal_of cfg) (get_current_goal H (rs_srv s)),
     rs_rerouting := reset_rerouting (rs_rerouting s)\<rparr>"

text \<open>\<open>processRouteRequest\<close> after \<open>k\<close> passes of its loop.\<close>

primrec processRouteRequest ::
  "(rs_result, 'w) handle_ops \<Rightarrow> ('w, 'x) rs_config \<Rightarrow> 'v OperationsManager \<Rightarrow> (nat \<Rightarrow> 'w rs_input) \<Rightarrow> nat
    \<Rightarrow> ('w, 'v, 'x) route_server \<Rightarrow> ('w, 'v, 'x) route_server rs_outcome option" where
  "processRouteRequest H cfg om inps 0 s = Some (RsContinue (rs_begin H cfg s))"
| "processRouteRequest H cfg om inps (Suc k) s =
    (case processRouteRequest H cfg om inps k s of
       Some (RsContinue s') \<Rightarrow> rs_round H cfg om (inps k) s'
     | r \<Rightarrow> r)"

text \<open>
  \<open>setRouteGraph\<close>: the old graph is dropped before the file is loaded. \<open>load\<close> is the loader plugin: the graph and id
  map it leaves, and whether it succeeded (\<open>None\<close> for an exception).
\<close>

definition setRouteGraph ::
  "(Graph \<times> (u32 \<rightharpoonup> nat)) \<times> bool option \<Rightarrow> ('w, 'v, 'x) route_server \<Rightarrow> bool \<times> ('w, 'v, 'x) route_server" where
  "setRouteGraph load s =
    (let s1 = s\<lparr>rs_graph := (fst (fst load), snd (rs_graph s)), rs_id_map := snd (fst load)\<rparr>
     in (snd load = Some True, s1))"

section \<open>The points of a path\<close>

lemma march_nth:
  "length (march n dx dy x y) = n"
  "k < n \<Longrightarrow> march n dx dy x y ! k = (x + real (Suc k) * dx, y + real (Suc k) * dy)"
proof -
  show "length (march n dx dy x y) = n" by (induction n arbitrary: x y) auto
  show "k < n \<Longrightarrow> march n dx dy x y ! k = (x + real (Suc k) * dx, y + real (Suc k) * dy)"
  proof (induction n arbitrary: k x y)
    case (Suc n)
    then show ?case by (cases k) (auto simp: algebra_simps)
  qed simp
qed

text \<open>
  An edge of positive length is replaced by equally spaced points, starting with its first
  end point and stopping one spacing before its second; neighbouring points are at most the path density apart,
  and the number of points is the least for which that is so.
\<close>

theorem interpolated_edge_spacing:
  assumes "0 < density" "0 < hypot2 (x1 - x0) (y1 - y0)"
  defines "n \<equiv> nat \<lceil>hypot2 (x1 - x0) (y1 - y0) / density\<rceil>"
  shows "\<exists>ps. interpolateEdge density x0 y0 x1 y1 poses = poses @ ps \<and> length ps = n \<and> 0 < n \<and>
    hypot2 (x1 - x0) (y1 - y0) / real n \<le> density \<and>
    hypot2 (x1 - x0) (y1 - y0) > density * (real n - 1) \<and>
    (\<forall>k<n. ps ! k = (x0 + real k / real n * (x1 - x0), y0 + real k / real n * (y1 - y0)))"
proof -
  let ?m = "hypot2 (x1 - x0) (y1 - y0)"
  have q: "0 < ?m / density" using assms(1,2) by simp
  then have c: "0 < \<lceil>?m / density\<rceil>" by simp
  then have n: "0 < n" "real n = of_int \<lceil>?m / density\<rceil>" by (auto simp: n_def)
  have le: "?m / density \<le> real n" and gt: "real n - 1 < ?m / density" unfolding n(2) by linarith+
  have b: "?m / real n \<le> density" "?m > density * (real n - 1)"
    using le gt n(1) assms(1) by (simp_all add: field_simps)
  let ?dx = "(x1 - x0) / ?m * (?m / real n)" and ?dy = "(y1 - y0) / ?m * (?m / real n)"
  let ?ps = "(x0, y0) # march (n - 1) ?dx ?dy x0 y0"
  have d: "?dx = (x1 - x0) / real n" "?dy = (y1 - y0) / real n" using assms(2) by simp_all
  have "?ps ! k = (x0 + real k / real n * (x1 - x0), y0 + real k / real n * (y1 - y0))" if "k < n" for k
    using that assms(2) by (cases k) (auto simp: march_nth d)
  moreover have "interpolateEdge density x0 y0 x1 y1 poses = poses @ ?ps"
    using n(1) by (simp add: interpolateEdge_def Let_def n_def)
  moreover have "length ?ps = n" using n(1) by (simp add: march_nth)
  ultimately show ?thesis using n(1) b by (intro exI [of _ ?ps]) simp
qed

theorem interpolated_edge_spacing_witness:
  "\<exists>ps. interpolateEdge 1 0 0 3 4 [] = ps \<and> length ps = 5 \<and> ps ! 1 = (3 / 5, 4 / 5)"
proof -
  have h: "hypot2 (3 - 0) (4 - 0) = 5"
    by (rule power2_eq_imp_eq) (simp_all add: hypot2_def)
  have "\<exists>ps. interpolateEdge 1 0 0 3 4 [] = [] @ ps \<and> length ps = 5 \<and> ps ! 1 = (3 / 5, 4 / 5)"
    using interpolated_edge_spacing [of 1 3 0 4 0 "[]"] unfolding h by auto
  then show ?thesis by simp
qed

section \<open>Pruning keeps a priced route\<close>

definition priced :: "Graph \<Rightarrow> (EdgePtr \<Rightarrow> real option) \<Rightarrow> Route \<Rightarrow> bool" where
  "priced g c r \<longleftrightarrow> route_cost r = walk_cost c (route_edges r) \<and>
    (\<forall>e\<in>set (route_edges r). c e = Some (trav g (e_end (edge_at g e))))"

lemma walk_snoc:
  "walk g c s (es @ [e]) t \<longleftrightarrow> walk g c s es (fst e) \<and> edge_ptr_in g e \<and> c e \<noteq> None \<and> e_end (edge_at g e) = t"
  by (induction es arbitrary: s) auto

lemma prune_start_keeps:
  assumes "walk g c (start_node r) (route_edges r) t" "priced g c r" "route_edges r \<noteq> []"
    "prune_start g lce ext r rr = (r', rr')"
  shows "(\<exists>pre. route_edges r = pre @ route_edges r' \<and> length pre \<le> 1) \<and>
    walk g c (start_node r') (route_edges r') t \<and> priced g c r' \<and>
    (curr_edge rr' = curr_edge rr \<or> curr_edge rr' = Some (hd (route_edges r)) \<and> route_edges r' = tl (route_edges r))"
proof -
  obtain e es where e: "route_edges r = e # es" using assms(3) by (cases "route_edges r") auto
  then have c: "c e = Some (trav g (e_end (edge_at g e)))" using assms(2) by (simp add: priced_def)
  show ?thesis
    using assms(1,2,4) e c unfolding prune_start_def Let_def
    by (auto simp: priced_def walk_cost_def split: if_splits option.splits)
qed

lemma prune_end_keeps:
  assumes "walk g c (start_node r) (route_edges r) t" "priced g c r" "route_edges r \<noteq> []"
  shows "(\<exists>post. route_edges r = route_edges (prune_end g ext r) @ post \<and> length post \<le> 1) \<and>
    (\<exists>t'. walk g c (start_node (prune_end g ext r)) (route_edges (prune_end g ext r)) t') \<and>
    priced g c (prune_end g ext r)"
proof -
  obtain es e where e: "route_edges r = es @ [e]" using assms(3) by (cases "route_edges r" rule: rev_cases) auto
  then have "c e = Some (trav g (e_end (edge_at g e)))" using assms(2) by (simp add: priced_def)
  then show ?thesis
    using assms(1,2) e unfolding prune_end_def Let_def
    by (auto simp: priced_def walk_cost_def walk_snoc)
qed

text \<open>
  Property C35 (invariant): pruning removes at most the first and the last edge of a route; what is left is a walk from the new
  start node, and its reported cost is still the sum of the costs of its edges. The edge
  handed to the tracker as already in progress is the edge that was removed at the start.
\<close>

theorem pruned_route_is_priced:
  assumes "walk g c (start_node r) (route_edges r) t" "priced g c r"
    "pruneStartandGoal g goal ext r rr = (r', rr')"
  shows "(\<exists>pre post. route_edges r = pre @ route_edges r' @ post \<and> length pre \<le> 1 \<and> length post \<le> 1 \<and>
      (curr_edge rr' = None \<or> pre = [the (curr_edge rr')])) \<and>
    (\<exists>t'. walk g c (start_node r') (route_edges r') t') \<and> priced g c r'"
proof (cases "route_edges r = [] \<or> (\<not> rg_use_poses goal \<and> first_time rr)")
  case True
  then have "r' = r" "curr_edge rr' = None" using assms(3) by (auto simp: pruneStartandGoal_def Let_def)
  then show ?thesis using assms(1,2) by (intro conjI exI [of _ "[]"]) auto
next
  case False
  obtain q rr2 where q: "prune_start g (curr_edge rr) ext r (rr\<lparr>curr_edge := None, first_time := False\<rparr>) = (q, rr2)"
    by fastforce
  have ne: "route_edges r \<noteq> []" using False by blast
  note keeps = prune_start_keeps [OF assms(1,2) ne q]
  obtain pre where pre: "route_edges r = pre @ route_edges q" "length pre \<le> 1" using keeps by blast
  have w: "walk g c (start_node q) (route_edges q) t" "priced g c q" using keeps by blast+
  have ce: "curr_edge rr2 = None \<or> curr_edge rr2 = Some (hd (route_edges r)) \<and> route_edges q = tl (route_edges r)"
    using keeps by simp
  have p1: "curr_edge rr2 = None \<or> pre = [the (curr_edge rr2)]"
    using ce pre(1) ne
  proof (cases pre)
    case (Cons e es)
    then have "es = []" using pre(2) by simp
    then show ?thesis using ce Cons pre(1) by auto
  next
    case Nil
    then show ?thesis using ce pre(1) ne by (cases "route_edges q") auto
  qed
  have rr': "rr' = rr2" using assms(3) False q by (auto simp: pruneStartandGoal_def Let_def split: if_splits)
  show ?thesis
  proof (cases "\<not> prune_goal ext \<or> \<not> rg_use_poses goal \<or> route_edges q = []")
    case True
    then have "r' = q" using assms(3) False q by (auto simp: pruneStartandGoal_def Let_def split: if_splits)
    then show ?thesis using pre w p1 rr' by (intro conjI exI [of _ pre] exI [of _ "[]"]) auto
  next
    case end_pruned: False
    then have "r' = prune_end g ext q" using assms(3) False q by (auto simp: pruneStartandGoal_def Let_def)
    moreover have "\<exists>post. route_edges q = route_edges (prune_end g ext q) @ post \<and> length post \<le> 1"
      "\<exists>t'. walk g c (start_node (prune_end g ext q)) (route_edges (prune_end g ext q)) t'"
      "priced g c (prune_end g ext q)"
      using prune_end_keeps [OF w] end_pruned by blast+
    ultimately show ?thesis using pre p1 rr' by metis
  qed
qed

text \<open>A request by node ids between the first and the last node of \<open>demo_graph\<close>.\<close>

definition demo_route_goal :: route_goal where
  "demo_route_goal = \<lparr>rg_start_id = 10, rg_goal_id = 30, rg_use_poses = False, rg_use_start = False,
     rg_start = default_pose, rg_goal = default_pose\<rparr>"

definition demo_extractor :: GoalIntentExtractor where
  "demo_extractor = \<lparr>gi_start = default_pose, gi_goal = default_pose, prune_goal = True, max_dist_from_edge = 8,
     min_dist_from_goal = 3 / 20, min_dist_from_start = 1 / 10\<rparr>"

definition demo_free_route :: Route where
  "demo_free_route = \<lparr>start_node = 0, route_edges = [(0, Suc 0), (Suc 0, 0)], route_cost = 0\<rparr>"

lemma demo_trav: "i < 3 \<Longrightarrow> trav demo_graph i = 0"
  by (auto simp: demo_graph_def demo_node_def less_Suc_eq numeral_3_eq_3)

theorem pruned_route_is_priced_witness:
  "\<exists>r' rr'. pruneStartandGoal demo_graph (demo_route_goal\<lparr>rg_use_poses := True\<rparr>) demo_extractor demo_free_route
      (tk_rerouting demo_tracker) = (r', rr') \<and> priced demo_graph (\<lambda>_. Some 0) r'"
proof -
  obtain r' rr' where r: "pruneStartandGoal demo_graph (demo_route_goal\<lparr>rg_use_poses := True\<rparr>) demo_extractor demo_free_route
      (tk_rerouting demo_tracker) = (r', rr')" by (rule prod.exhaust)
  have w: "walk demo_graph (\<lambda>_. Some 0) (start_node demo_free_route) (route_edges demo_free_route) 2"
    by (simp add: demo_free_route_def demo_edges demo_at demo_edge_def)
  have p: "priced demo_graph (\<lambda>_. Some 0) demo_free_route"
    by (simp add: priced_def demo_free_route_def walk_cost_def demo_at demo_edge_def demo_trav)
  from pruned_route_is_priced [OF w p r] r show ?thesis by blast
qed

section \<open>Requests and the action server\<close>

lemma track_finish_srv:
  "case track_finish H cfg sc completed res pose tk of
      Tracking tk' \<Rightarrow> tk_srv tk' = tk_srv tk
    | Tracked r tk' \<Rightarrow> r \<noteq> EXITED \<and> tk_srv tk' = tk_srv tk
    | TrackThrew err tk' \<Rightarrow> tk_srv tk' = tk_srv tk"
  by (auto simp: track_finish_def track_reroute_def Let_def split: option.splits)

lemma track_round_srv:
  assumes "t_ok inp"
  shows "case track_round H cfg om route inp tk of
      Tracking tk' \<Rightarrow> tk_srv tk' = t_interfere inp (tk_srv tk)
    | Tracked r tk' \<Rightarrow> r \<noteq> EXITED \<and> tk_srv tk' = t_interfere inp (tk_srv tk)
    | TrackThrew err tk' \<Rightarrow> tk_srv tk' = t_interfere inp (tk_srv tk)"
proof (cases "is_cancel_requested H (t_interfere inp (tk_srv tk)) \<or> is_preempt_requested (t_interfere inp (tk_srv tk))
    \<or> t_pose inp = None")
  case True
  then show ?thesis using assms by (auto simp: track_round_def Let_def)
next
  case False
  then obtain pose where pose: "t_pose inp = Some pose" by auto
  let ?tk = "tk\<lparr>tk_srv := t_interfere inp (tk_srv tk)\<rparr>"
  show ?thesis
  proof (cases "nodeAchieved cfg (fst (tk_graph tk)) pose route (tk_state tk)")
    case None
    then show ?thesis using False assms pose by (simp add: track_round_def Let_def)
  next
    case (Some bs)
    obtain b st1 where bs: "bs = (b, st1)" by fastforce
    obtain completed st2 where adv:
      "(if b then track_advance (fst (tk_graph tk)) route st1 else (False, st1)) = (completed, st2)" by fastforce
    obtain x gv where ops: "process_operations om b st2 route pose (tk_rerouting tk) (tk_graph tk) = (x, gv)"
      by (rule prod.exhaust)
    have eq: "track_round H cfg om route inp tk = (case x of Inl err \<Rightarrow> TrackThrew err (?tk\<lparr>tk_state := st2, tk_graph := gv\<rparr>)
        | Inr res \<Rightarrow> track_finish H cfg b completed res pose (?tk\<lparr>tk_state := st2, tk_graph := gv\<rparr>))"
      using False assms pose Some bs adv ops by (cases b; cases x) (auto simp: track_round_def Let_def)
    show ?thesis
    proof (cases x)
      case (Inr res)
      then have fin: "track_round H cfg om route inp tk = track_finish H cfg b completed res pose
          (?tk\<lparr>tk_state := st2, tk_graph := gv\<rparr>)" using eq by simp
      show ?thesis unfolding fin
        using track_finish_srv [where H = H and cfg = cfg and sc = b and completed = completed and res = res and pose = pose
            and tk = "?tk\<lparr>tk_state := st2, tk_graph := gv\<rparr>"] by (auto split: track_outcome.splits)
    qed (simp add: eq)
  qed
qed

text \<open>What other threads may do to the server while the handler runs: everything that keeps its invariant.\<close>

definition friendly :: "('r, 'w) handle_ops \<Rightarrow> nat set \<Rightarrow> ('w server \<Rightarrow> 'w server) \<Rightarrow> bool" where
  "friendly H A f \<longleftrightarrow> (\<forall>s. handles_ok H A s \<longrightarrow> handles_ok H A (f s))"

lemma trackRoute_srv:
  assumes "\<forall>i. t_ok (inps i) \<and> friendly H A (t_interfere (inps i))" "handles_ok H A (tk_srv tk)"
  shows "case trackRoute H cfg om route inps k tk of
      Tracking tk' \<Rightarrow> handles_ok H A (tk_srv tk')
    | Tracked r tk' \<Rightarrow> r \<noteq> EXITED \<and> handles_ok H A (tk_srv tk')
    | TrackThrew err tk' \<Rightarrow> handles_ok H A (tk_srv tk')"
proof (induction k)
  case 0
  have "tk_srv (track_begin H route tk) = tk_srv tk" by (simp add: track_begin_def Let_def split: option.split)
  then show ?case using assms(2) by (simp add: trackRoute_def)
next
  case (Suc k)
  show ?case
  proof (cases "trackRoute H cfg om route inps k tk")
    case (Tracking v)
    then have "handles_ok H A (t_interfere (inps k) (tk_srv v))"
      using Suc assms(1) by (auto simp: friendly_def)
    moreover have r: "trackRoute H cfg om route inps (Suc k) tk = track_round H cfg om route (inps k) v"
      using Tracking by (simp add: trackRoute_def)
    moreover have "t_ok (inps k)" using assms(1) by blast
    ultimately show ?thesis
      using track_round_srv [where inp = "inps k" and H = H and cfg = cfg and om = om and route = route and tk = v] by (auto split: track_outcome.splits)
  qed (use Suc in \<open>auto simp: trackRoute_def\<close>)
qed

definition rs_good ::
  "(rs_result, 'w) handle_ops \<Rightarrow> nat set \<Rightarrow> ('w, 'v, 'x) route_server rs_outcome \<Rightarrow> bool" where
  "rs_good H A r =
    (case r of RsContinue s \<Rightarrow> handles_ok H A (rs_srv s) | RsReturned s \<Rightarrow> settled H A (rs_srv s)
     | RsTracking s \<Rightarrow> handles_ok H A (rs_srv s) | RsCrashed \<Rightarrow> True)"

lemma server_findRoute_srv: "server_findRoute cfg goal s = Some (x, s') \<Longrightarrow> rs_srv s' = rs_srv s"
  by (auto simp: server_findRoute_def Let_def split: prod.splits sum.splits option.splits if_splits)

lemma rs_parts_good:
  assumes "handle_laws H" "handles_ok H A (rs_srv s)"
  shows "rs_good H A (rs_catch H err s)"
    and "\<forall>i. t_ok (r_track inp i) \<and> friendly H A (t_interfere (r_track inp i)) \<Longrightarrow> rs_good H A (rs_track H cfg om inp route s)"
proof -
  have c: "rs_good H A (rs_catch H err u)" if "handles_ok H A (rs_srv u)" for err and u :: "('a, 'b, 'c) route_server"
    using settled_ops(1) [OF assms(1) that] by (simp add: rs_catch_def rs_good_def)
  show "rs_good H A (rs_catch H err s)" by (rule c [OF assms(2)])
  let ?tk = "\<lparr>tk_srv = rs_srv s, tk_state = \<lparr>last_node = None, next_node = None, current_edge = None,
       route_edges_idx = - 1, within_radius = False\<rparr>, tk_rerouting = rs_rerouting s,
     tk_graph = rs_graph s, tk_feedback = rs_feedback s\<rparr>"
  assume f: "\<forall>i. t_ok (r_track inp i) \<and> friendly H A (t_interfere (r_track inp i))"
  have ok: "handles_ok H A (tk_srv ?tk)" using assms(2) by simp
  show "rs_good H A (rs_track H cfg om inp route s)"
  proof (cases "trackRoute H (cfg_track cfg) om route (r_track inp) (r_track_rounds inp) ?tk")
    case (Tracking tk')
    then show ?thesis
      using trackRoute_srv [OF f ok, where cfg = "cfg_track cfg" and om = om and route = route and k = "r_track_rounds inp"]
      by (simp add: rs_track_def rs_good_def Let_def)
  next
    case (Tracked r tk')
    then have "r \<noteq> EXITED" "handles_ok H A (tk_srv tk')"
      using trackRoute_srv [OF f ok, where cfg = "cfg_track cfg" and om = om and route = route and k = "r_track_rounds inp"]
      by simp_all
    then show ?thesis
      using Tracked settled_ops(3) [OF assms(1)] by (cases r) (simp_all add: rs_track_def rs_good_def Let_def)
  next
    case (TrackThrew err tk')
    then have "handles_ok H A (tk_srv tk')"
      using trackRoute_srv [OF f ok, where cfg = "cfg_track cfg" and om = om and route = route and k = "r_track_rounds inp"]
      by simp
    then show ?thesis using TrackThrew c by (simp add: rs_track_def Let_def)
  qed
qed

lemma rs_plan_good:
  assumes "handle_laws H" "handles_ok H A (rs_srv s)"
    "\<forall>i. t_ok (r_track inp i) \<and> friendly H A (t_interfere (r_track inp i))"
    "rs_plan H cfg om inp s = Some r"
  shows "rs_good H A r"
proof (cases "rs_goal s")
  case None
  then show ?thesis using assms(4) by (simp add: rs_plan_def rs_good_def)
next
  case (Some goal)
  then obtain x s1 where f: "server_findRoute cfg goal s = Some (x, s1)"
    using assms(4) by (cases "server_findRoute cfg goal s") (auto simp: rs_plan_def)
  have ok: "handles_ok H A (rs_srv s1)" using server_findRoute_srv [OF f] assms(2) by simp
  show ?thesis
  proof (cases x)
    case (Inl err)
    then have "r = rs_catch H err s1" using assms(4) Some f by (simp add: rs_plan_def)
    then show ?thesis using rs_parts_good(1) [OF assms(1) ok] by blast
  next
    case (Inr route)
    then show ?thesis
      using assms(4) Some f rs_parts_good(2) [OF assms(1) ok assms(3)] settled_ops(3) [OF assms(1) ok]
      by (auto simp: rs_plan_def rs_good_def split: if_splits)
  qed
qed

text \<open>
  Property C30 (invariant): a pass of the request loop that returns while ROS runs and the server is active has settled its goal: whether the route
  was found, the planner or the tracker threw, the client cancelled or there is no graph, the server
  has no current goal any more, its bookkeeping is intact, and at most a pending goal is still active.
\<close>

theorem route_request_settles_goal:
  assumes "handle_laws H" "handles_ok H A (r_interfere inp (rs_srv s))" "r_ok inp"
    "is_server_active (r_interfere inp (rs_srv s))"
    "\<forall>i. t_ok (r_track inp i) \<and> friendly H A (t_interfere (r_track inp i))"
    "rs_round H cfg om inp s = Some (RsReturned s')"
  shows "handles_ok H A (rs_srv s') \<and> current_handle (rs_srv s') = None \<and>
    (\<forall>g\<in>A. h_is_active H g (world (rs_srv s')) \<longrightarrow> pending_handle (rs_srv s') = Some g)"
proof -
  let ?srv = "r_interfere inp (rs_srv s)"
  obtain valid srv1 where v: "isRequestValid H (fst (rs_graph s)) ?srv = (valid, srv1)" by fastforce
  have "settled H A (rs_srv s')"
  proof (cases valid)
    case False
    then have "rs_srv s' = srv1" using assms(3,6) v by (auto simp: rs_round_def Let_def)
    then show ?thesis
      using v False assms(4) settled_ops(1,2) [OF assms(1,2), of "empty_result H"]
      by (auto simp: isRequestValid_def split: if_splits)
  next
    case True
    then have srv1: "srv1 = ?srv" using v by (auto simp: isRequestValid_def split: if_splits)
    have "handles_ok H A (snd (accept_pending_goal H ?srv))" by (rule accept_pending_goal_ok [OF assms(1,2)])
    then obtain s2 where s2: "rs_plan H cfg om inp s2 = Some (RsReturned s')" "handles_ok H A (rs_srv s2)"
      using assms(2,3,6) v True srv1
      by (cases "is_preempt_requested ?srv"; cases "accept_pending_goal H ?srv")
        (force simp: rs_round_def Let_def)+
    from rs_plan_good [OF assms(1) s2(2) assms(5) s2(1)] show ?thesis by (simp add: rs_good_def)
  qed
  then show ?thesis by (auto simp: settled_def handles_ok_def)
qed


definition rs_handles :: "(rs_result, ros_world) handle_ops" where
  "rs_handles = \<lparr>h_is_active = h_is_active ros_handles, h_is_canceling = h_is_canceling ros_handles,
     h_abort = (\<lambda>g _. h_abort ros_handles g ()), h_canceled = (\<lambda>g _. h_canceled ros_handles g ()),
     h_succeed = (\<lambda>g _. h_succeed ros_handles g ()),
     empty_result = \<lparr>rs_error_code = 0, rs_route = None, rs_path = []\<rparr>\<rparr>"

lemma rs_handles_laws: "handle_laws rs_handles"
  using ros_handles_laws by (simp add: handle_laws_def finishes_def rs_handles_def)

definition demo_rs :: "(ros_world, unit, unit) route_server" where
  "demo_rs = \<lparr>rs_srv = srv ros_one_goal, rs_goal = Some demo_route_goal, rs_rerouting = tk_rerouting demo_tracker,
     rs_graph = (demo_graph, ()), rs_id_map = [10 \<mapsto> 0, 20 \<mapsto> 1, 30 \<mapsto> 2], rs_ext = demo_extractor,
     rs_planner = demo_planner, rs_scorers = (), rs_feedback = []\<rparr>"

definition demo_rs_config :: "(ros_world, unit) rs_config" where
  "demo_rs_config = \<lparr>cfg_plugins = [], cfg_nearest = (\<lambda>goal g ext. (Inl IndeterminantNodesOnGraph, ext)),
     cfg_track = demo_config, cfg_arc = (\<lambda>_ _ _. None), cfg_smooth = False, cfg_density = 1 / 20, cfg_tracking = False,
     cfg_goal_of = (\<lambda>_. demo_route_goal)\<rparr>"

definition demo_rs_input :: "ros_world rs_input" where
  "demo_rs_input = \<lparr>r_interfere = id, r_ok = True, r_track = (\<lambda>_. demo_pose_input), r_track_rounds = 0\<rparr>"

lemma demo_rs_server:
  "is_server_active (srv ros_one_goal)" "\<not> is_cancel_requested rs_handles (srv ros_one_goal)"
  "\<not> is_preempt_requested (srv ros_one_goal)" "handles_ok rs_handles {1} (srv ros_one_goal)"
proof -
  show "is_server_active (srv ros_one_goal)" "\<not> is_cancel_requested rs_handles (srv ros_one_goal)"
    "\<not> is_preempt_requested (srv ros_one_goal)"
    by (simp_all add: is_server_active_def is_cancel_requested_def is_preempt_requested_def ros_one_goal_fields
        ros_initial_def rs_handles_def ros_handles_def)
  have "handles_ok ros_handles {1} (srv ros_one_goal)"
    using asys.inv_reach [OF ros_one_goal_reach] ros_handles_laws ros_one_goal_fields(3) by (simp add: as_inv_def)
  then show "handles_ok rs_handles {1} (srv ros_one_goal)" by (simp add: handles_ok_def rs_handles_def)
qed

lemma demo_stored:
  "walk demo_graph (stored_cost [] demo_graph) 0 [(0, 1), (1, 0)] 2"
  "walk_cost (stored_cost [] demo_graph) [(0, 1), (1, 0)] < FLT_MAX"
proof -
  show "walk demo_graph (stored_cost [] demo_graph) 0 [(0, 1), (1, 0)] 2"
    by (simp add: stored_cost_def demo_eval)
  have "walk_cost (stored_cost [] demo_graph) [(0, 1), (1, 0)] = 3"
    by (simp add: walk_cost_def stored_cost_def demo_eval)
  then show "walk_cost (stored_cost [] demo_graph) [(0, 1), (1, 0)] < FLT_MAX" by (simp only: FLT_MAX_def) simp
qed

lemma demo_rs_fields:
  "\<not> cfg_tracking demo_rs_config" "r_ok demo_rs_input" "r_interfere demo_rs_input = id" "rs_srv demo_rs = srv ros_one_goal"
  "rs_goal demo_rs = Some demo_route_goal" "\<not> rg_use_poses demo_route_goal"
  "rs_id_map demo_rs (ucast (rg_start_id demo_route_goal)) = Some 0"
  "rs_id_map demo_rs (ucast (rg_goal_id demo_route_goal)) = Some 2" "fst (rs_graph demo_rs) = demo_graph"
  "rerouting_start_id (rs_rerouting demo_rs) = UINT_MAX" "first_time (rs_rerouting demo_rs)"
  "rs_planner demo_rs = demo_planner" "rs_scorers demo_rs = ()" "cfg_plugins demo_rs_config = []"
  "rr_blocked_ids (rs_rerouting demo_rs) = []" "r_track demo_rs_input = (\<lambda>_. demo_pose_input)"
  by (simp_all add: demo_rs_config_def demo_rs_input_def demo_rs_def demo_route_goal_def demo_tracker_def reset_rerouting_def)


theorem route_request_settles_goal_witness:
  "\<exists>s'. rs_round rs_handles demo_rs_config demo_manager demo_rs_input (demo_rs\<lparr>rs_id_map := Map.empty\<rparr>) = Some (RsReturned s') \<and>
    current_handle (rs_srv s') = None"
proof -
  let ?s = "demo_rs\<lparr>rs_id_map := Map.empty\<rparr>"
  have "\<exists>s'. rs_round rs_handles demo_rs_config demo_manager demo_rs_input ?s = Some (RsReturned s')"
    using demo_rs_server(1-3) demo_wf(2)
    by (auto simp: rs_round_def demo_rs_fields isRequestValid_def rs_plan_def server_findRoute_def findStartandGoal_def
        rs_catch_def Let_def)
  then obtain s' where r: "rs_round rs_handles demo_rs_config demo_manager demo_rs_input ?s = Some (RsReturned s')" by blast
  have "current_handle (rs_srv s') = None"
    using route_request_settles_goal [OF rs_handles_laws _ demo_rs_fields(2) _ _ r, where A = "{1}"] demo_rs_server demo_rs_fields
    by (simp add: friendly_def demo_pose_input_def)
  then show ?thesis using r by blast
qed

end
