(* ===== verification/Spec2Isabelle.thy ===== *)
theory Spec2Isabelle
  imports BT_Control BT_Pause Waypoint_Follower Lifecycle_Manager Costmap_Layer Costmap_Polygon Voxel_Grid Denoise_Layer Inflation_Stack
    Collision_Monitor Velocity_Smoother Route_Server
begin

text \<open>
  Verification of the Nav2 navigation stack, the C++ program under src/navigation2-main. File names below are relative
  to that directory.

  THE PROGRAM. Nav2 is a set of lifecycle nodes. A lifecycle manager brings them up and down and watches their bonds.
  A behavior tree decides what the robot does; its nodes call action servers (route, planner, controller, waypoint
  follower and others), each of which runs its work on the shared class SimpleActionServer. Planners and controllers
  read a costmap that is merged from layers. The controller's velocity passes the velocity smoother and then the
  collision monitor before it reaches the base.

  THEORIES AND CODE.

  Nav2_Prelude holds machine words, fact collections, arrays with bounds checks, reachability over a labelled step
  relation (reach, run_of) and the locale safe_system (an invariant that holds initially and is kept by every step),
  which Action_Server, BT_Pause, Lifecycle_Manager, Velocity_Smoother and Inflation_Update interpret on their own step
  relations.

  BT_Core is the interface to BehaviorTree.CPP: a record of the framework calls a node makes, and the
  wrapper logged that records them. BT_Control models tick and halt of NonblockingSequence, PersistentSequence,
  PipelineSequence, RecoveryNode and RoundRobin (nav2_behavior_tree/plugins/control), each with its fields as a
  record. BT_Pause models PauseResumeController with its two services. The theorems give, for every framework and
  every behaviour of the children, the children ticked, the result and the new state of each branch; that
  recovery happens at most number_of_retries times; and that a paused subtree is never ticked.

  Action_Server models every method of nav2_ros_common/simple_action_server.hpp as one atomic step (each holds
  update_mutex_) and the worker thread by its program counter; as_step interleaves clients, lifecycle and worker.
  The invariant as_inv says that no accepted goal is forgotten. The laws of goal handles (handle_laws: a terminal
  transition ends its own handle and no other) are documented behaviour of rclcpp_action. settled is what an
  execute callback must establish before it returns; Waypoint_Follower and Route_Server prove it of their callbacks.

  Lifecycle_Manager models nav2_lifecycle_manager/src/lifecycle_manager.cpp and nav2_util's LifecycleServiceClient
  over an arbitrary world of nodes. Theorems: commands return whatever the nodes answer and publish their state; the
  order of bring-up and tear-down; the heartbeat check is free of dangling accesses; and what goes wrong after shutdown.

  Costmap_2D, Costmap_Layer and Costmap_Polygon model nav2_costmap_2d/src/costmap_2d.cpp and costmap_layer.cpp and
  nav2_util's raytrace_line_2d.hpp: grids are byte lists in row-major order, indices wrap at 32 bits, an access out of
  range is None. Theorems: moving the window keeps the cost of every place; copying, writing and reading back;
  conversions; the merge rules cell by cell; independence of the order of layers; the cells of a polygon stay in the
  map. Voxel_Grid models nav2_voxel_grid with a column of sixteen voxels in one word: marking, clearing, counting and
  the three dimensional ray.

  Footprint models nav2_costmap_2d/src/footprint.cpp, costmap_math.cpp and footprint_collision_checker.cpp with nav2_util's
  line_iterator.hpp: radii, padding and transformation of a footprint, and its cost as the largest one on the cells of
  its outline.

  Layered_Costmap models layered_costmap.cpp. A layer is a plugin, that is a record of its virtual functions over the
  state of all layers; the locale window_layer is the contract of a layer (it may only enlarge the bounds, it writes only
  into its window, it keeps the map well-formed) and cell_layer extends it by a rule for each cell. Both are interpreted
  on the merge functions of costmap_layer.cpp. Theorems: what an update writes, cell by cell, and that it covers
  every requested place.

  Label_Trees, Image_Processing, Component_Labelling, Noise_Removal and Denoise_Layer model the denoise layer with
  denoise/image.hpp and image_processing.hpp: images are views of a buffer, the label trees are a union-find structure
  over the union of two label types, labelling is one pass over the rows. Theorems: labels are exactly the connected
  groups, and the layer frees exactly the cells of groups below the limit; the interpretation dn puts it in the stack.

  Inflation_Wave, Inflation_Layer, Inflation_Spread, Inflation_State, Inflation_Update and Inflation_Stack model
  plugins/inflation_layer.cpp with its header. Inflation_Wave is the abstract history of the spreading wave, with the
  geometric fact that a wave ordered by distance never hands an obstacle back to a smaller distance; Inflation_Spread is
  the simulation of the history by the bins, one invariant for the loops. Theorems: what is inflated, by how
  much, and what is not; that the tables always fit the lookups (the system inf_sys); and, over Layered_Costmap, that after
  an update no cell near a lethal cell is cheaper than its distance in steps allows. The interpretations inf
  and mxf put the inflation layer and a merging layer below it into one stack.

  Collision_Shapes and Collision_Monitor model nav2_collision_monitor (polygon.cpp, circle.cpp, velocity_polygon.cpp,
  kinematics.cpp and collision_monitor_node.cpp). Theorems: the published velocity is the commanded one or the lowest a
  zone asks for; a stop zone stops the robot; the collision time is a first step inside, and is found; the point test
  depends neither on the first vertex nor on the orientation of the polygon.

  Velocity_Smoother models nav2_velocity_smoother/src/velocity_smoother.cpp with configuration, commands, timer and
  parameter updates. Theorems: limits of velocity and acceleration in open loop; the stop after a command timeout.

  Waypoint_Follower models nav2_waypoint_follower/src/waypoint_follower.cpp on top of Action_Server. Theorems: every
  waypoint is visited in every loop; the goal is settled whatever happens.

  Route_Graph, Route_Planner, Route_Tracker and Route_Server model nav2_route: types.hpp, the edge scorers, the planner
  (Dijkstra with lazy deletion; the locale min_queue states the laws of the priority queue and is interpreted on the
  list model), the operations manager, the tracker, the goal intent extractor, the path converter and the request loop.
  Theorems: a returned route is a cheapest walk and its cost is exact; no route means that there is none; closed
  edges are avoided; a request is answered with the cheapest route; tracking visits the nodes in order and stays
  within the route; a request is always settled.

  STATE AND OPERATIONS. A class is a record of its fields, a method a function from the record (and the outside) to
  its result and the new record. Exceptions are values of an error type on the left of a sum; undefined behaviour (an
  index out of range, a null pointer, an overflow of a signed integer) is None, or a constructor such as Crashed or
  BadPointer, and theorems show where it cannot occur. Threads and callbacks are steps of a relation, at the
  granularity of the lock or of the mutually exclusive callback group the code uses.

  LOOPS. A loop over a container or with a counter is a structural recursion, or a function with a measure. Loops
  that wait for the outside (the waypoint handler, the route tracking loop) consume a list with what the outside does
  in each round: when the list ends they are still running, and the theorems that they finish say which inputs
  are enough. Loops without a bound of their own (the search, the polygon ray, the collision simulation, which
  does not end for a step of zero) are partial functions or carry the iteration limit of the code, and the theorems
  state that they return: the search needs at most the number of edges plus two iterations, the simulation the time
  horizon divided by the step.

  NUMBERS. Cells, indices, identifiers, retry counters and voxel columns keep their machine width where the code's
  arithmetic can reach it. double and float are modelled by the real numbers, so rounding, infinities and NaN are
  outside the model, apart from the checks the code makes for them; a division by zero is an error or documented where
  it occurs.

  HYPOTHESES ON CODE OUTSIDE. BehaviorTree.CPP (BT_Core), rclcpp_action handles (handle_laws), tf, footprints, sensor
  data, the clock, plugins for tasks, scorers and route operations are arguments. No other law is assumed of them
  than the ones a theorem names; the witness after each theorem discharges them for a concrete instance.

  NOT MODELLED. ROS wiring (declaring parameters, creating publishers, services and timers, diagnostics, logs),
  visualisation, locks within one call, file input and output, and test programs. Numerical code whose correctness is a
  matter of floating point optimisation or statistics: the particle filter of nav2_amcl, nav2_mppi_controller,
  nav2_constrained_smoother, nav2_dwb_controller, nav2_smac_planner, the potential field of nav2_navfn_planner and the
  continuous control laws of the other controllers; over the real numbers a model of them would say little about the
  program. Nodes that only pass goals to clients or plugins: the actions and conditions of nav2_behavior_tree, its engine,
  the navigator, and the servers for planning, control, smoothing, behaviors, docking and following. Sensor
  layers, filters and Costmap2DROS, fed by tf and message iterators: they are arbitrary layers under the
  contract window_layer. The conversion of sensor data in the collision monitor, graph files and the spatial index of
  nav2_route: their results are arguments. nav2_theta_star_planner could still be modelled like Route_Planner. The
  manifest lists each of these components with its reason.
\<close>

end
